(* ===== verification/Prelude.thy ===== *)
theory Prelude
  imports Main "HOL-Library.Word"
begin

text \<open>
  Shared ground of the development: names for the machine types of the C++ sources, the
  exceptions its functions throw, the result type of a function that can throw, the few
  \<open>std::string\<close> operations used everywhere, and generic lemmas on lists, base-256
  numerals and fallible results.
\<close>

section \<open>Types of the sources\<close>

type_synonym byte = "8 word"
type_synonym bytes = "byte list"
type_synonym u32 = "32 word"
type_synonym u64 = "64 word"
type_synonym u256 = "256 word"

text \<open>
  The exceptions thrown by the modelled code, by the name of the class that is thrown;
  \<open>StdException\<close> stands for the exceptions of the standard library
  (\<open>std::invalid_argument\<close>, \<open>std::out_of_range\<close>), and \<open>Exit\<close> for a call of
  \<open>exit\<close> with that status.
\<close>

datatype exn =
    BadHexCharacter
  | InvalidAddress
  | BadCast
  | BadRLP
  | OversizeRLP
  | UndersizeRLP
  | RLPException string
  | RootNotFound
  | BadRoot bytes
  | JsonRpcException string
  | StdException string
  | Exit int
  | UndefinedBehaviour

type_synonym 'a result = "exn + 'a"

definition bindE :: "'a result \<Rightarrow> ('a \<Rightarrow> 'b result) \<Rightarrow> 'b result" where
  "bindE r f = (case r of Inl e \<Rightarrow> Inl e | Inr x \<Rightarrow> f x)"

lemma bindE_simps [simp]:
  "bindE (Inl e) f = Inl e"
  "bindE (Inr x) f = f x"
  by (simp_all add: bindE_def)

lemma bindE_assoc: "bindE (bindE r f) g = bindE r (\<lambda>x. bindE (f x) g)"
  by (cases r) simp_all

lemma bindE_Inr_right [simp]: "bindE r Inr = r"
  by (cases r) simp_all

lemma bindE_Inr_iff: "bindE r f = Inr y \<longleftrightarrow> (\<exists>x. r = Inr x \<and> f x = Inr y)"
  by (cases r) simp_all

lemma bindE_Inl_iff: "bindE r f = Inl e \<longleftrightarrow> r = Inl e \<or> (\<exists>x. r = Inr x \<and> f x = Inl e)"
  by (cases r) auto

lemma bindE_cong [fundef_cong]:
  "r = r' \<Longrightarrow> (\<And>x. r' = Inr x \<Longrightarrow> f x = f' x) \<Longrightarrow> bindE r f = bindE r' f'"
  by (cases r) auto

section \<open>Strings\<close>

text \<open>
  \<open>s[i]\<close> on a \<open>std::string\<close> reads the terminating NUL at \<open>i = s.size()\<close>; no caller in
  the modelled code reads further.
\<close>

definition char_at :: "string \<Rightarrow> nat \<Rightarrow> char" where
  "char_at s i = (if i < length s then s ! i else CHR 0x00)"

text \<open>\<open>s.substr(pos, n)\<close>, for \<open>pos \<le> s.size()\<close>.\<close>

definition substr :: "string \<Rightarrow> nat \<Rightarrow> nat \<Rightarrow> string" where
  "substr s pos n = take n (drop pos s)"

text \<open>\<open>std::setw(w)\<close> with \<open>std::setfill('0')\<close>: right-adjusted (the default) and \<open>std::left\<close>.\<close>

definition setw0 :: "nat \<Rightarrow> string \<Rightarrow> string" where
  "setw0 w s = replicate (w - length s) (CHR ''0'') @ s"

definition setw0_left :: "nat \<Rightarrow> string \<Rightarrow> string" where
  "setw0_left w s = s @ replicate (w - length s) (CHR ''0'')"

lemma length_setw0 [simp]: "length (setw0 w s) = max w (length s)"
  by (simp add: setw0_def)

lemma length_setw0_left [simp]: "length (setw0_left w s) = max w (length s)"
  by (simp add: setw0_left_def)

section \<open>Base-256 numerals\<close>

text \<open>
  The number a byte string denotes, most significant byte first. It is the common yardstick
  of the big-endian routines, the hashes and the RLP integers below; it models no code.
\<close>

definition be_val :: "bytes \<Rightarrow> nat" where
  "be_val bs = foldl (\<lambda>a b. a * 256 + unat b) 0 bs"

lemma unat_byte_lt [simp]: "unat (b :: byte) < 256"
  using unsigned_less [of b, where 'a = nat] by simp

lemma unat_byte_le [simp]: "unat (b :: byte) \<le> 255"
  using unat_byte_lt [of b] by linarith

lemma be_val_foldl: "foldl (\<lambda>a b. a * 256 + unat (b::byte)) n bs = n * 256 ^ length bs + be_val bs"
proof (induction bs arbitrary: n)
  case Nil
  show ?case by (simp add: be_val_def)
next
  case (Cons b bs)
  show ?case
    using Cons [of "n * 256 + unat b"] Cons [of "unat b"] by (simp add: be_val_def algebra_simps)
qed

lemma be_val_Nil [simp]: "be_val [] = 0"
  by (simp add: be_val_def)

lemma be_val_Cons: "be_val (b # bs) = unat b * 256 ^ length bs + be_val bs"
  using be_val_foldl [of "unat b" bs] by (simp add: be_val_def)

lemma be_val_append: "be_val (xs @ ys) = be_val xs * 256 ^ length ys + be_val ys"
  using be_val_foldl [of "be_val xs" ys] by (simp add: be_val_def)

lemma be_val_snoc [simp]: "be_val (xs @ [b]) = be_val xs * 256 + unat b"
  by (simp add: be_val_append be_val_Cons)

lemma be_val_lt: "be_val bs < 256 ^ length bs"
proof (induction bs)
  case (Cons b bs)
  have "unat b * 256 ^ length bs + be_val bs < (unat b + 1) * 256 ^ length bs"
    using Cons by simp
  also have "\<dots> \<le> 256 * 256 ^ length bs"
    by (intro mult_right_mono) (simp_all add: Suc_leI)
  finally show ?case by (simp add: be_val_Cons)
qed simp

lemma base256_eq_iff:
  assumes "u < 256" and "v < (256::nat)"
  shows "x * 256 + u = y * 256 + v \<longleftrightarrow> x = y \<and> u = v"
proof
  assume "x * 256 + u = y * 256 + v"
  then have "(x * 256 + u) div 256 = (y * 256 + v) div 256"
    and "(x * 256 + u) mod 256 = (y * 256 + v) mod 256" by simp_all
  with assms show "x = y \<and> u = v" by simp
qed simp

lemma be_val_inj: "length xs = length ys \<Longrightarrow> be_val xs = be_val ys \<longleftrightarrow> xs = ys"
proof (induction xs arbitrary: ys rule: rev_induct)
  case (snoc b xs)
  then obtain c zs where ys: "ys = zs @ [c]"
    by (cases ys rule: rev_cases) auto
  with snoc.prems have len: "length xs = length zs" by simp
  have "be_val xs * 256 + unat b = be_val zs * 256 + unat c \<longleftrightarrow>
        be_val xs = be_val zs \<and> unat b = unat c"
    by (rule base256_eq_iff) simp_all
  with snoc.IH [OF len] ys show ?case by (simp add: word_unat_eq_iff)
qed simp

lemma be_val_replicate_0 [simp]: "be_val (replicate n 0) = 0"
  by (induction n) (simp_all add: be_val_Cons)

lemma be_val_zeros_append [simp]: "be_val (replicate n 0 @ bs) = be_val bs"
  by (simp add: be_val_append)

lemma unat_of_nat_byte [simp]: "unat (word_of_nat n :: byte) = n mod 256"
  by (simp add: unat_of_nat)

lemma of_nat_mod_byte [simp]: "(word_of_nat (n mod 256) :: byte) = word_of_nat n"
  by (simp add: word_unat_eq_iff)

lemma pow256: "(256::nat) ^ n = 2 ^ (8 * n)"
  by (simp add: power_mult)

section \<open>The encoding interfaces\<close>

text \<open>
  What a reader relies on when it takes one item off the front of a byte stream: decoding the
  encoding of an admissible value followed by anything gives the value and the rest. Proved
  once here: encodings can be concatenated without losing anything.
\<close>

locale prefix_code =
  fixes enc :: "'a \<Rightarrow> 'b list"
    and dec :: "'b list \<Rightarrow> ('a \<times> 'b list) option"
    and ok :: "'a \<Rightarrow> bool"
  assumes dec_enc: "ok x \<Longrightarrow> dec (enc x @ r) = Some (x, r)"
begin

lemma enc_append_eq_iff:
  "ok x \<Longrightarrow> ok y \<Longrightarrow> enc x @ r = enc y @ s \<longleftrightarrow> x = y \<and> r = s"
  by (metis dec_enc option.inject prod.inject)

lemma enc_inj: "ok x \<Longrightarrow> ok y \<Longrightarrow> enc x = enc y \<longleftrightarrow> x = y"
  using enc_append_eq_iff [of x y "[]" "[]"] by simp

lemma concat_enc_inj:
  "list_all ok xs \<Longrightarrow> list_all ok ys \<Longrightarrow> length xs = length ys \<Longrightarrow>
   concat (map enc xs) @ r = concat (map enc ys) @ s \<longleftrightarrow> xs = ys \<and> r = s"
proof (induction xs arbitrary: ys)
  case (Cons x xs)
  then obtain y zs where "ys = y # zs" "length xs = length zs" by (cases ys) auto
  with Cons show ?case by (auto simp: enc_append_eq_iff)
qed simp

end

text \<open>A code of fixed width; it is a prefix code, decoded by cutting off \<open>width\<close> elements.\<close>

locale fixed_codec =
  fixes enc :: "'a \<Rightarrow> 'b list"
    and dec :: "'b list \<Rightarrow> 'a"
    and width :: nat
    and ok :: "'a \<Rightarrow> bool"
  assumes length_enc: "ok x \<Longrightarrow> length (enc x) = width"
    and dec_enc_fixed: "ok x \<Longrightarrow> dec (enc x) = x"

sublocale fixed_codec \<subseteq> prefix_code enc "\<lambda>bs. Some (dec (take width bs), drop width bs)" ok
  by unfold_locales (simp add: length_enc dec_enc_fixed)

section \<open>Loops that can fail\<close>

text \<open>A loop over a list whose body may throw, collecting the results.\<close>

fun mapE :: "('a \<Rightarrow> 'b result) \<Rightarrow> 'a list \<Rightarrow> 'b list result" where
  "mapE f [] = Inr []"
| "mapE f (x # xs) = bindE (f x) (\<lambda>y. bindE (mapE f xs) (\<lambda>ys. Inr (y # ys)))"

lemma mapE_Inr_iff: "mapE f xs = Inr ys \<longleftrightarrow> list_all2 (\<lambda>x y. f x = Inr y) xs ys"
  by (induction xs arbitrary: ys) (auto simp: bindE_Inr_iff list_all2_Cons1)

lemma mapE_Inr: "mapE (\<lambda>x. Inr (f x)) xs = Inr (map f xs)"
  by (induction xs) simp_all

text \<open>A loop over a list whose body may throw, on a state.\<close>

fun foldE :: "('a \<Rightarrow> 's \<Rightarrow> 's result) \<Rightarrow> 'a list \<Rightarrow> 's \<Rightarrow> 's result" where
  "foldE f [] s = Inr s"
| "foldE f (x # xs) s = bindE (f x s) (foldE f xs)"

lemma foldE_cong: "(\<And>x s. x \<in> set xs \<Longrightarrow> f x s = g x s) \<Longrightarrow> foldE f xs s = foldE g xs s"
  by (induction xs arbitrary: s) (auto intro!: bindE_cong)

lemma foldE_append [simp]: "foldE f (xs @ ys) s = bindE (foldE f xs s) (foldE f ys)"
proof (induction xs arbitrary: s)
  case (Cons x xs)
  then show ?case by (cases "f x s") simp_all
qed simp

lemma foldE_inv:
  "foldE f xs s = Inr t \<Longrightarrow> P s \<Longrightarrow> (\<And>x s s'. x \<in> set xs \<Longrightarrow> P s \<Longrightarrow> f x s = Inr s' \<Longrightarrow> P s') \<Longrightarrow> P t"
  by (induction xs arbitrary: s) (auto simp: bindE_Inr_iff)

lemma foldE_total:
  "P s \<Longrightarrow> (\<And>x s. x \<in> set xs \<Longrightarrow> P s \<Longrightarrow> \<exists>s'. f x s = Inr s' \<and> P s') \<Longrightarrow> \<exists>t. foldE f xs s = Inr t \<and> P t"
proof (induction xs arbitrary: s)
  case (Cons x xs)
  then obtain s' where "f x s = Inr s'" "P s'" by (meson list.set_intros(1))
  then show ?case using Cons.IH [of s'] Cons.prems(2) by simp
qed simp

section \<open>Stateful operations that can throw\<close>

text \<open>
  An operation of an object: from the state to a result and the state it leaves, which an
  exception leaves too. Only exceptions are caught: an exit or undefined behaviour is not.
\<close>

type_synonym ('s, 'a) op = "'s \<Rightarrow> 'a result \<times> 's"

definition unitS :: "'a \<Rightarrow> ('s, 'a) op" where "unitS x s = (Inr x, s)"
definition liftS :: "'a result \<Rightarrow> ('s, 'a) op" where "liftS r s = (r, s)"
definition getS :: "('s \<Rightarrow> 'a) \<Rightarrow> ('s, 'a) op" where "getS f s = (Inr (f s), s)"
definition modS :: "('s \<Rightarrow> 's) \<Rightarrow> ('s, unit) op" where "modS f s = (Inr (), f s)"

definition bindS :: "('s, 'a) op \<Rightarrow> ('a \<Rightarrow> ('s, 'b) op) \<Rightarrow> ('s, 'b) op" where
  "bindS m f s = (case m s of (r, s') \<Rightarrow> (case r of Inl e \<Rightarrow> (Inl e, s') | Inr x \<Rightarrow> f x s'))"

definition thenS :: "('s, 'a) op \<Rightarrow> ('s, 'b) op \<Rightarrow> ('s, 'b) op" where
  "thenS m k = bindS m (\<lambda>_. k)"

fun catchable :: "exn \<Rightarrow> bool" where
  "catchable UndefinedBehaviour = False"
| "catchable (Exit n) = False"
| "catchable e = True"

definition catchS :: "('s, 'a) op \<Rightarrow> (exn \<Rightarrow> ('s, 'a) op) \<Rightarrow> ('s, 'a) op" where
  "catchS m h s =
     (case m s of (r, s') \<Rightarrow>
        (case r of Inl e \<Rightarrow> if catchable e then h e s' else (Inl e, s') | Inr x \<Rightarrow> (Inr x, s')))"

fun mapS :: "('a \<Rightarrow> ('s, 'b) op) \<Rightarrow> 'a list \<Rightarrow> ('s, 'b list) op" where
  "mapS f [] = unitS []"
| "mapS f (x # xs) = bindS (f x) (\<lambda>y. bindS (mapS f xs) (\<lambda>ys. unitS (y # ys)))"

lemma bindS_apply:
  "m s = (Inr x, s') \<Longrightarrow> bindS m f s = f x s'"
  "m s = (Inl e, s') \<Longrightarrow> bindS m f s = (Inl e, s')"
  by (simp_all add: bindS_def)

lemma op_simps [simp]:
  "bindS (unitS x) f = f x"
  "bindS (getS g) f s = f (g s) s"
  "bindS (modS h) f' s = f' () (h s)"
  "bindS (liftS (Inr x)) f = f x"
  "bindS (liftS (Inl e)) f s = (Inl e, s)"
  "thenS (modS h) k s = k (h s)"
  "thenS (unitS x) k = k"
  by (simp_all add: bindS_def unitS_def getS_def modS_def liftS_def thenS_def fun_eq_iff)

lemma bindS_Inr_iff:
  "bindS m f s = (Inr y, s'') \<longleftrightarrow> (\<exists>x s'. m s = (Inr x, s') \<and> f x s' = (Inr y, s''))"
  by (auto simp: bindS_def split: prod.split sum.split)

lemma thenS_Inr_iff: "thenS m k s = (Inr y, s'') \<longleftrightarrow> (\<exists>x s'. m s = (Inr x, s') \<and> k s' = (Inr y, s''))"
  by (simp add: thenS_def bindS_Inr_iff)

lemma liftS_Inr_iff [simp]: "liftS r s = (Inr x, s') \<longleftrightarrow> r = Inr x \<and> s' = s"
  by (auto simp: liftS_def)

lemma unitS_Inr_iff [simp]: "unitS x s = (Inr y, s') \<longleftrightarrow> y = x \<and> s' = s"
  by (auto simp: unitS_def)

lemma getS_Inr_iff [simp]: "getS f s = (Inr y, s') \<longleftrightarrow> y = f s \<and> s' = s"
  by (auto simp: getS_def)

lemma modS_Inr_iff [simp]: "modS h s = (Inr y, s') \<longleftrightarrow> s' = h s"
  by (auto simp: modS_def)

lemmas op_Inr_iffs = bindS_Inr_iff thenS_Inr_iff

text \<open>
  An operation keeps what \<open>f\<close> reads of the state, whether it returns or throws. The rules take
  an operation apart; \<open>keeps\<close> collects those of the components.
\<close>

definition keeps :: "('s \<Rightarrow> 'b) \<Rightarrow> ('s, 'a) op \<Rightarrow> bool" where
  "keeps f m \<longleftrightarrow> (\<forall>s. f (snd (m s)) = f s)"

named_theorems keep_rules

lemma keepsD: "keeps f m \<Longrightarrow> m s = (r, s') \<Longrightarrow> f s' = f s"
  by (metis keeps_def snd_conv)

lemma keeps_unitS [keep_rules]: "keeps f (unitS x)"
  by (simp add: keeps_def unitS_def)

lemma keeps_liftS [keep_rules]: "keeps f (liftS r)"
  by (simp add: keeps_def liftS_def)

lemma keeps_getS [keep_rules]: "keeps f (getS g)"
  by (simp add: keeps_def getS_def)

lemma keeps_modS: "(\<And>s. f (h s) = f s) \<Longrightarrow> keeps f (modS h)"
  by (simp add: keeps_def modS_def)

lemma keeps_bindS [keep_rules]: "keeps f m \<Longrightarrow> (\<And>x. keeps f (k x)) \<Longrightarrow> keeps f (bindS m k)"
  by (auto simp: keeps_def bindS_def split: prod.split sum.split) (metis snd_conv)+

lemma keeps_thenS [keep_rules]: "keeps f m \<Longrightarrow> keeps f k \<Longrightarrow> keeps f (thenS m k)"
  unfolding thenS_def by (rule keeps_bindS)

lemma keeps_catchS [keep_rules]: "keeps f m \<Longrightarrow> (\<And>e. keeps f (h e)) \<Longrightarrow> keeps f (catchS m h)"
  by (auto simp: keeps_def catchS_def split: prod.split sum.split) (metis snd_conv)+

lemma keeps_if [keep_rules]: "(b \<Longrightarrow> keeps f m) \<Longrightarrow> (\<not> b \<Longrightarrow> keeps f k) \<Longrightarrow> keeps f (if b then m else k)"
  by simp

lemma keeps_let [keep_rules]: "keeps f (m x) \<Longrightarrow> keeps f (let y = x in m y)"
  by simp

lemma unat_ucast_u64: "unat (ucast (i :: 32 word) :: 64 word) = unat i"
proof -
  have "unat i < 2 ^ 32" using unsigned_less [of i, where 'a = nat] by simp
  then show ?thesis by (simp add: unsigned_ucast_eq take_bit_nat_eq_self)
qed

section \<open>State machines\<close>

text \<open>
  The contract between a component that is a state machine and the claims about its runs: an
  invariant that holds initially and that every step keeps. A step is labelled by the event
  that causes it; a run is a list of labels.
\<close>

fun runs :: "('s \<Rightarrow> 'l \<Rightarrow> 's \<Rightarrow> bool) \<Rightarrow> 's \<Rightarrow> 'l list \<Rightarrow> 's \<Rightarrow> bool" where
  "runs step s [] t = (s = t)"
| "runs step s (l # ls) t = (\<exists>u. step s l u \<and> runs step u ls t)"

lemma runs_ConsI: "step s l u \<Longrightarrow> runs step u ls t \<Longrightarrow> runs step s (l # ls) t"
  by auto

lemma runs_append: "runs step s (ks @ ls) t \<longleftrightarrow> (\<exists>u. runs step s ks u \<and> runs step u ls t)"
  by (induction ks arbitrary: s) auto

lemma runs_restrict:
  "runs (\<lambda>s e t. step s e t \<and> (q \<longrightarrow> P e)) s es t \<longleftrightarrow> runs step s es t \<and> (q \<longrightarrow> (\<forall>e \<in> set es. P e))"
  by (induction es arbitrary: s) auto

locale invariant_machine =
  fixes init :: "'s \<Rightarrow> bool"
    and step :: "'s \<Rightarrow> 'l \<Rightarrow> 's \<Rightarrow> bool"
    and inv :: "'s \<Rightarrow> bool"
  assumes inv_init: "init s \<Longrightarrow> inv s"
    and inv_step: "inv s \<Longrightarrow> step s l t \<Longrightarrow> inv t"
begin

lemma inv_runs: "inv s \<Longrightarrow> runs step s ls t \<Longrightarrow> inv t"
  by (induction ls arbitrary: s) (auto dest: inv_step)

lemma inv_reachable: "init s \<Longrightarrow> runs step s ls t \<Longrightarrow> inv t"
  by (blast intro: inv_runs inv_init)

end

text \<open>
  A machine that moreover makes progress: from a state of \<open>busy\<close> the actions of one actor,
  whatever they are, lead out of \<open>busy\<close> within \<open>rank\<close> steps.
\<close>

locale progress_machine = invariant_machine +
  fixes busy :: "'s \<Rightarrow> bool"
    and rank :: "'s \<Rightarrow> nat"
    and event :: "'a \<Rightarrow> 'l"
    and act :: "'a \<Rightarrow> 's \<Rightarrow> 's"
  assumes act_step: "step s (event a) (act a s)"
    and act_rank: "inv s \<Longrightarrow> busy s \<Longrightarrow> busy (act a s) \<Longrightarrow> rank (act a s) < rank s"
begin

lemma leaves_busy:
  "inv s \<Longrightarrow> rank s < length as \<Longrightarrow> \<exists>n \<le> length as. \<not> busy (fold act (take n as) s)"
proof (induction as arbitrary: s)
  case (Cons l ls)
  show ?case
  proof (cases "busy s \<and> busy (act l s)")
    case False
    then consider "\<not> busy s" | "\<not> busy (act l s)" by blast
    then show ?thesis
    proof cases
      case 1
      then show ?thesis by (intro exI [of _ 0]) simp
    next
      case 2
      then show ?thesis by (intro exI [of _ 1]) simp
    qed
  next
    case True
    with Cons.prems have "rank (act l s) < length ls" using act_rank [of s l] by simp
    moreover have "inv (act l s)" using Cons.prems(1) act_step by (rule inv_step)
    ultimately obtain n where "n \<le> length ls" "\<not> busy (fold act (take n ls) (act l s))"
      using Cons.IH by blast
    then show ?thesis by (intro exI [of _ "Suc n"]) simp
  qed
qed simp

end

end
