(* ===== verification/CommonData.thy ===== *)
theory CommonData
  imports Prelude
begin

text \<open>
  \<open>libdevcore/CommonData.h\<close>, \<open>libdevcore/CommonData.cpp\<close>, \<open>libdevcore/CommonJS.cpp\<close> and the
  integer helpers of \<open>libdevcore/Common.h\<close>: hexadecimal and byte-string conversions,
  big-endian integers, paddings.

  The integer templates are instantiated in the sources with unsigned types of a fixed width
  and with the unbounded \<open>bigint\<close>. A value of such a type is its number (\<open>nat\<close>); the width
  \<open>w\<close> of a fixed-width type is an argument where the code can overflow it.
\<close>

unbundle bit_operations_syntax

datatype WhenError = DontThrow | Throw

datatype HexPrefix = DontAdd | Add

section \<open>Hexadecimal\<close>

definition hexDigit :: "nat \<Rightarrow> char" where
  "hexDigit n = ''0123456789abcdef'' ! n"

text \<open>\<open>std::hex << (int) n\<close>: the digits of \<open>n\<close> without leading zeros.\<close>

fun showHex :: "nat \<Rightarrow> string" where
  "showHex n = (if n < 16 then [hexDigit n] else showHex (n div 16) @ [hexDigit (n mod 16)])"

declare showHex.simps [simp del]

text \<open>
  \<open>toHex\<close>: the first element is written with width \<open>_w\<close>, every later one with width 2.
\<close>

fun toHex_loop :: "nat \<Rightarrow> bytes \<Rightarrow> string" where
  "toHex_loop w [] = ''''"
| "toHex_loop w (i # is) = setw0 w (showHex (unat i)) @ toHex_loop 2 is"

definition toHex :: "bytes \<Rightarrow> nat \<Rightarrow> HexPrefix \<Rightarrow> string" where
  "toHex data w prefix =
     (let ret = toHex_loop w data in if prefix = Add then ''0x'' @ ret else ret)"

abbreviation hexOf :: "bytes \<Rightarrow> string" where
  "hexOf b \<equiv> toHex b 2 DontAdd"

definition char_code :: "char \<Rightarrow> nat" where
  "char_code c = of_char c"

definition fromHexChar :: "char \<Rightarrow> WhenError \<Rightarrow> int result" where
  "fromHexChar i throw =
     (if char_code (CHR ''0'') \<le> char_code i \<and> char_code i \<le> char_code (CHR ''9'')
      then Inr (int (char_code i) - int (char_code (CHR ''0'')))
      else if char_code (CHR ''a'') \<le> char_code i \<and> char_code i \<le> char_code (CHR ''f'')
      then Inr (int (char_code i) - int (char_code (CHR ''a'')) + 10)
      else if char_code (CHR ''A'') \<le> char_code i \<and> char_code i \<le> char_code (CHR ''F'')
      then Inr (int (char_code i) - int (char_code (CHR ''A'')) + 10)
      else if throw = Throw then Inl BadHexCharacter
      else Inr (-1))"

text \<open>\<open>fromHex(c, WhenError::DontThrow)\<close>, which always returns.\<close>

definition hexVal :: "char \<Rightarrow> int" where
  "hexVal c = (case fromHexChar c DontThrow of Inr h \<Rightarrow> h | Inl _ \<Rightarrow> -1)"

text \<open>
  The loop over the digit pairs. The bytes read so far are the accumulator; a bad pair throws
  or makes the function return the empty byte string.
\<close>

fun fromHex_loop :: "WhenError \<Rightarrow> string \<Rightarrow> bytes \<Rightarrow> bytes result" where
  "fromHex_loop throw (a # b # s) ret =
     (let h = hexVal a; l = hexVal b in
      if h \<noteq> -1 \<and> l \<noteq> -1 then fromHex_loop throw s (ret @ [word_of_int (h * 16 + l)])
      else if throw = Throw then Inl BadHexCharacter
      else Inr [])"
| "fromHex_loop throw _ ret = Inr ret"

definition fromHex :: "string \<Rightarrow> WhenError \<Rightarrow> bytes result" where
  "fromHex s throw =
     (let s0 = (if char_at s 0 = CHR ''0'' \<and> char_at s 1 = CHR ''x'' then 2 else 0) in
      if odd (length s)
      then (let h = hexVal (char_at s s0) in
            if h \<noteq> -1 then fromHex_loop throw (drop (Suc s0) s) [word_of_int h]
            else if throw = Throw then Inl BadHexCharacter
            else Inr [])
      else fromHex_loop throw (drop s0 s) [])"

text \<open>\<open>fromHex(s)\<close> with the default \<open>WhenError::DontThrow\<close> never throws.\<close>

definition fromHexD :: "string \<Rightarrow> bytes" where
  "fromHexD s = (case fromHex s DontThrow of Inr b \<Rightarrow> b | Inl _ \<Rightarrow> [])"

section \<open>Byte strings\<close>

definition asString :: "bytes \<Rightarrow> string" where
  "asString b = map (\<lambda>x. char_of (unat x)) b"

definition asBytes :: "string \<Rightarrow> bytes" where
  "asBytes s = map of_char s"

fun asNibbles :: "bytes \<Rightarrow> bytes" where
  "asNibbles [] = []"
| "asNibbles (i # s) = (i div 16) # (i mod 16) # asNibbles s"

text \<open>\<open>toString(string32)\<close>: the characters before the first NUL of the 32.\<close>

definition toString32 :: "string \<Rightarrow> string" where
  "toString32 s = takeWhile (\<lambda>c. c \<noteq> CHR 0x00) (take 32 s)"

text \<open>
  \<open>escaped\<close>. \<open>char\<close> is signed on the supported platforms, so \<open>i < ' '\<close> holds of the
  control characters and of every character with the top bit set.
\<close>

definition prettyEscapes :: "char \<Rightarrow> char option" where
  "prettyEscapes = [CHR 0x0D \<mapsto> CHR ''r'', CHR 0x0A \<mapsto> CHR ''n'', CHR 0x09 \<mapsto> CHR ''t'', CHR 0x0B \<mapsto> CHR ''v'']"

definition escaped_char :: "bool \<Rightarrow> char \<Rightarrow> string" where
  "escaped_char all i =
     (if i = CHR 0x22 \<and> \<not> all then [CHR 0x5C, CHR 0x22]
      else if i = CHR 0x5C \<and> \<not> all then [CHR 0x5C, CHR 0x5C]
      else if prettyEscapes i \<noteq> None \<and> \<not> all then [CHR 0x5C, the (prettyEscapes i)]
      else if char_code i < 32 \<or> 128 \<le> char_code i \<or> all
      then [CHR 0x5C, CHR ''x'', hexDigit (char_code i div 16), hexDigit (char_code i mod 16)]
      else [i])"

definition escaped :: "string \<Rightarrow> bool \<Rightarrow> string" where
  "escaped s all = [CHR 0x22] @ concat (map (escaped_char all) s) @ [CHR 0x22]"

section \<open>Big-endian integers\<close>

text \<open>
  \<open>toBigEndian v o_out\<close> fills a collection of \<open>n\<close> elements from its last element to its
  first; \<open>v >>= 8\<close> and \<open>v & 0xff\<close> on an unsigned value are \<open>v div 256\<close> and \<open>v mod 256\<close>.
\<close>

fun toBigEndian :: "nat \<Rightarrow> nat \<Rightarrow> bytes" where
  "toBigEndian v 0 = []"
| "toBigEndian v (Suc i) = toBigEndian (v div 256) i @ [word_of_nat (v mod 256)]"

definition fromBigEndian :: "nat \<Rightarrow> bytes \<Rightarrow> nat" where
  "fromBigEndian w bs = foldl (\<lambda>ret i. take_bit w (push_bit 8 ret OR unat i)) 0 bs"

definition fromBigEndian_bigint :: "bytes \<Rightarrow> nat" where
  "fromBigEndian_bigint bs = foldl (\<lambda>ret i. push_bit 8 ret OR unat i) 0 bs"

fun bytesRequired :: "nat \<Rightarrow> nat" where
  "bytesRequired i = (if i = 0 then 0 else Suc (bytesRequired (i div 256)))"

declare bytesRequired.simps [simp del]

definition toCompactBigEndian :: "nat \<Rightarrow> nat \<Rightarrow> bytes" where
  "toCompactBigEndian v mn = toBigEndian v (max mn (bytesRequired v))"

definition toCompactBigEndian_byte :: "byte \<Rightarrow> nat \<Rightarrow> bytes" where
  "toCompactBigEndian_byte v mn = (if mn \<noteq> 0 \<or> v \<noteq> 0 then [v] else [])"

definition toCompactBigEndianString :: "nat \<Rightarrow> nat \<Rightarrow> string" where
  "toCompactBigEndianString v mn = asString (toBigEndian v (max mn (bytesRequired v)))"

definition toHex_u256 :: "u256 \<Rightarrow> HexPrefix \<Rightarrow> string" where
  "toHex_u256 v prefix =
     (let str = hexOf (toBigEndian (unat v) 32) in if prefix = Add then ''0x'' @ str else str)"

definition toCompactHex :: "u256 \<Rightarrow> HexPrefix \<Rightarrow> nat \<Rightarrow> string" where
  "toCompactHex v prefix mn =
     (let str = hexOf (toCompactBigEndian (unat v) mn) in if prefix = Add then ''0x'' @ str else str)"

section \<open>Collections\<close>

text \<open>\<open>commonPrefix\<close>: the loop runs \<open>i\<close> from 0 to the end of the shorter collection.\<close>

fun commonPrefix :: "'a list \<Rightarrow> 'a list \<Rightarrow> nat" where
  "commonPrefix (t # ts) (u # us) = (if t \<noteq> u then 0 else Suc (commonPrefix ts us))"
| "commonPrefix _ _ = 0"

text \<open>The \<open>memmove\<close> of \<open>trimFront\<close> and \<open>pushFront\<close>, for at most \<open>size()\<close> elements.\<close>

definition trimFront :: "'a list \<Rightarrow> nat \<Rightarrow> 'a list" where
  "trimFront t n = take (length t - n) (drop n t @ drop (length t - n) t)"

definition pushFront :: "'a list \<Rightarrow> 'a \<Rightarrow> 'a list" where
  "pushFront t e = (let t1 = t @ [e]; t2 = hd t1 # take (length t1 - 1) t1 in t2[0 := e])"

definition contains :: "'a list \<Rightarrow> 'a \<Rightarrow> bool" where
  "contains t v = (find (\<lambda>x. x = v) t \<noteq> None)"

section \<open>CommonJS.cpp: paddings\<close>

fun unpadLeft :: "bytes \<Rightarrow> bytes" where
  "unpadLeft [] = []"
| "unpadLeft (b # bs) = (if b = 0 then unpadLeft bs else b # bs)"

definition unpadded :: "bytes \<Rightarrow> bytes" where
  "unpadded b = take (length (dropWhile (\<lambda>x. x = 0) (rev b))) b"

definition paddedRight :: "bytes \<Rightarrow> nat \<Rightarrow> bytes" where
  "paddedRight b l = take l b @ replicate (l - length b) 0"

text \<open>
  \<open>padded\<close> inserts zeros at the front while the string is too short and then keeps the
  last \<open>_l\<close> characters.
\<close>

function padded_fill :: "bytes \<Rightarrow> nat \<Rightarrow> bytes" where
  "padded_fill b l = (if length b < l then padded_fill (0 # b) l else b)"
  by pat_completeness auto
termination
  by (relation "measure (\<lambda>(b, l). l - length b)") auto

declare padded_fill.simps [simp del]

definition padded :: "bytes \<Rightarrow> nat \<Rightarrow> bytes" where
  "padded b l = (let b' = padded_fill b l in asBytes (drop (length b' - max l l) (asString b')))"

section \<open>Common.h: integer helpers\<close>

definition u2s :: "u256 \<Rightarrow> int" where
  "u2s u = (if bit u 255 then - (2 ^ 256 - uint u) else uint u)"

definition s2u :: "int \<Rightarrow> u256" where
  "s2u u = (if u \<ge> 0 then word_of_int u else word_of_int (2 ^ 256 + u))"

fun toLog2 :: "nat \<Rightarrow> nat" where
  "toLog2 x = (if x div 2 = 0 then 0 else Suc (toLog2 (x div 2)))"

declare toLog2.simps [simp del]

definition diff :: "'a::{linorder, minus} \<Rightarrow> 'a \<Rightarrow> 'a" where
  "diff a b = max a b - min a b"

section \<open>Lemmas: big-endian integers\<close>

lemma length_toBigEndian [simp]: "length (toBigEndian v n) = n"
  by (induction n arbitrary: v) simp_all

lemma be_val_toBigEndian: "be_val (toBigEndian v n) = v mod 256 ^ n"
proof (induction n arbitrary: v)
  case (Suc n)
  have "be_val (toBigEndian v (Suc n)) = (v div 256 mod 256 ^ n) * 256 + v mod 256"
    by (simp add: Suc)
  also have "\<dots> = v mod (256 * 256 ^ n)"
    using mod_mult2_eq [of v 256 "256 ^ n"] by simp
  finally show ?case by simp
qed simp

lemma toBigEndian_be_val: "length bs = n \<Longrightarrow> toBigEndian (be_val bs) n = bs"
  by (rule iffD1 [OF be_val_inj]) (use be_val_lt [of bs] in \<open>simp_all add: be_val_toBigEndian\<close>)

lemma push8_or: "b < 256 \<Longrightarrow> push_bit 8 (a::nat) OR b = a * 256 + b"
proof -
  assume b: "b < 256"
  have "push_bit 8 a AND b = 0"
  proof (rule bit_eqI)
    fix i
    show "bit (push_bit 8 a AND b) i = bit 0 i"
    proof (cases "i < 8")
      case False
      then have "(2::nat) ^ 8 \<le> 2 ^ i" by (intro power_increasing) simp_all
      with b have "b < 2 ^ i" by simp
      then have "\<not> bit b i" by (simp add: bit_iff_odd)
      then show ?thesis by (simp add: bit_simps)
    qed (simp add: bit_simps)
  qed
  then have "push_bit 8 a OR b = push_bit 8 a + b"
    by (simp add: disjunctive_add_eq_or)
  then show ?thesis by (simp add: push_bit_eq_mult)
qed

lemma fromBigEndian_bigint_eq [simp]: "fromBigEndian_bigint bs = be_val bs"
  by (simp add: fromBigEndian_bigint_def be_val_def push8_or)

lemma fromBigEndian_eq: "fromBigEndian w bs = be_val bs mod 2 ^ w"
proof (induction bs rule: rev_induct)
  case (snoc b bs)
  have "fromBigEndian w (bs @ [b]) = (fromBigEndian w bs * 256 + unat b) mod 2 ^ w"
    by (simp add: fromBigEndian_def push8_or take_bit_eq_mod)
  also have "\<dots> = (be_val bs * 256 + unat b) mod 2 ^ w"
    by (metis (no_types) snoc mod_add_left_eq mod_mult_left_eq)
  finally show ?case by simp
qed (simp add: fromBigEndian_def)

lemma fromBigEndian_fits: "8 * length bs \<le> w \<Longrightarrow> fromBigEndian w bs = be_val bs"
proof -
  assume "8 * length bs \<le> w"
  then have "(256::nat) ^ length bs \<le> 2 ^ w"
    by (simp add: pow256)
  with be_val_lt [of bs] show ?thesis by (simp add: fromBigEndian_eq)
qed

lemma bytesRequired_0 [simp]: "bytesRequired 0 = 0"
  by (simp add: bytesRequired.simps)

lemma bytesRequired_pos: "0 < n \<Longrightarrow> bytesRequired n = Suc (bytesRequired (n div 256))"
  by (subst bytesRequired.simps) simp

lemma bytesRequired_eq_0 [simp]: "bytesRequired n = 0 \<longleftrightarrow> n = 0"
  by (subst bytesRequired.simps) simp

lemma bytesRequired_gr_0 [simp]: "0 < bytesRequired n \<longleftrightarrow> 0 < n"
  by (metis bytesRequired_eq_0 neq0_conv)

lemma bytesRequired_le_iff: "bytesRequired n \<le> k \<longleftrightarrow> n < 256 ^ k"
proof (induction n arbitrary: k rule: bytesRequired.induct)
  case (1 n)
  show ?case
  proof (cases "n = 0")
    case False
    then have step: "bytesRequired n = Suc (bytesRequired (n div 256))"
      by (simp add: bytesRequired_pos)
    show ?thesis
    proof (cases k)
      case 0
      with False step show ?thesis by simp
    next
      case (Suc j)
      have "n div 256 < 256 ^ j \<longleftrightarrow> n < 256 ^ Suc j"
        by (simp add: div_less_iff_less_mult mult.commute)
      with 1 [OF False, of j] step Suc show ?thesis by simp
    qed
  qed simp
qed

lemma lt_bytesRequired: "n < 256 ^ bytesRequired n"
  using bytesRequired_le_iff [of n "bytesRequired n"] by simp

lemma be_val_toCompact [simp]: "be_val (toCompactBigEndian v mn) = v"
proof -
  have "v < 256 ^ max mn (bytesRequired v)"
    using bytesRequired_le_iff [of v "max mn (bytesRequired v)"] by simp
  then show ?thesis by (simp add: toCompactBigEndian_def be_val_toBigEndian)
qed

lemma length_toCompact [simp]: "length (toCompactBigEndian v mn) = max mn (bytesRequired v)"
  by (simp add: toCompactBigEndian_def)

lemma toCompact_Nil_iff [simp]: "toCompactBigEndian v 0 = [] \<longleftrightarrow> v = 0"
  by (metis bytesRequired_eq_0 length_0_conv length_toCompact max_0L)

lemma toBigEndian_Cons_hd: "toBigEndian v (Suc n) = word_of_nat (v div 256 ^ n) # toBigEndian v n"
proof (induction n arbitrary: v)
  case (Suc n)
  have "toBigEndian v (Suc (Suc n)) = toBigEndian (v div 256) (Suc n) @ [word_of_nat (v mod 256)]"
    by simp
  also have "\<dots> = word_of_nat (v div 256 div 256 ^ n) # toBigEndian (v div 256) n @ [word_of_nat (v mod 256)]"
    by (subst Suc) simp
  finally show ?case by (simp add: div_mult2_eq)
qed simp

text \<open>The compact form of a positive number has no leading zero byte.\<close>

lemma hd_toCompact:
  assumes "0 < v"
  shows "hd (toCompactBigEndian v 0) \<noteq> 0"
proof -
  obtain k where k: "bytesRequired v = Suc k"
    using assms by (cases "bytesRequired v") simp_all
  then have ge: "256 ^ k \<le> v"
    using bytesRequired_le_iff [of v k] by simp
  have lt: "v < 256 * 256 ^ k"
    using lt_bytesRequired [of v] k by simp
  have "0 < v div 256 ^ k" "v div 256 ^ k < 256"
    using ge lt by (simp_all add: div_greater_zero_iff div_less_iff_less_mult)
  then have "unat (word_of_nat (v div 256 ^ k) :: byte) \<noteq> 0"
    by simp
  with k show ?thesis
    by (auto simp: toCompactBigEndian_def toBigEndian_Cons_hd simp del: toBigEndian.simps unat_of_nat_byte)
qed

section \<open>Lemmas: hexadecimal\<close>

text \<open>The digits of a hex string after its optional prefix, and the number they denote.\<close>

definition isHex :: "char \<Rightarrow> bool" where
  "isHex c = (hexVal c \<noteq> -1)"

definition hexBody :: "string \<Rightarrow> string" where
  "hexBody s = (if char_at s 0 = CHR ''0'' \<and> char_at s 1 = CHR ''x'' then drop 2 s else s)"

definition hexNum :: "string \<Rightarrow> nat" where
  "hexNum s = foldl (\<lambda>a c. a * 16 + nat (hexVal c)) 0 s"

lemma hexVal_cases: "hexVal c = -1 \<or> (0 \<le> hexVal c \<and> hexVal c < 16)"
  by (simp add: hexVal_def fromHexChar_def char_code_def)

lemma isHexD: "isHex c \<Longrightarrow> 0 \<le> hexVal c \<and> hexVal c < 16"
  using hexVal_cases [of c] by (simp add: isHex_def)

lemma hexNum_foldl: "foldl (\<lambda>a c. a * 16 + nat (hexVal c)) n s = n * 16 ^ length s + hexNum s"
proof (induction s arbitrary: n)
  case (Cons c s)
  show ?case
    using Cons [of "n * 16 + nat (hexVal c)"] Cons [of "nat (hexVal c)"]
    by (simp add: hexNum_def algebra_simps)
qed (simp add: hexNum_def)

lemma hexNum_Nil [simp]: "hexNum [] = 0"
  by (simp add: hexNum_def)

lemma hexNum_Cons: "hexNum (c # s) = nat (hexVal c) * 16 ^ length s + hexNum s"
  using hexNum_foldl [of "nat (hexVal c)" s] by (simp add: hexNum_def)

lemma hexNum_append: "hexNum (s @ t) = hexNum s * 16 ^ length t + hexNum t"
  using hexNum_foldl [of "hexNum s" t] by (simp add: hexNum_def)

lemma hexNum_lt: "list_all isHex s \<Longrightarrow> hexNum s < 16 ^ length s"
proof (induction s)
  case (Cons c s)
  then have c: "nat (hexVal c) \<le> 15" and s: "hexNum s < 16 ^ length s"
    using isHexD [of c] by auto
  have "nat (hexVal c) * 16 ^ length s + hexNum s < (nat (hexVal c) + 1) * 16 ^ length s"
    using s by simp
  also have "\<dots> \<le> 16 * 16 ^ length s"
    using c by (intro mult_right_mono) simp_all
  finally show ?case by (simp add: hexNum_Cons)
qed simp

lemma toBigEndian_mult_add:
  assumes "y < 256 ^ n"
  shows "toBigEndian (x * 256 ^ n + y) (Suc n) = word_of_nat x # toBigEndian y n"
proof -
  have "toBigEndian (x * 256 ^ n + y) n = toBigEndian y n"
    using assms by (intro iffD1 [OF be_val_inj]) (simp_all add: be_val_toBigEndian)
  moreover have "(x * 256 ^ n + y) div 256 ^ n = x"
    using assms by simp
  ultimately show ?thesis by (simp only: toBigEndian_Cons_hd)
qed

text \<open>What the digit loop computes, on an even number of characters.\<close>

definition hexOutcome :: "WhenError \<Rightarrow> bool \<Rightarrow> bytes \<Rightarrow> bytes result" where
  "hexOutcome throw good b =
     (if good then Inr b else if throw = Throw then Inl BadHexCharacter else Inr [])"

lemma fromHex_loop_eq:
  "even (length s) \<Longrightarrow> fromHex_loop throw s ret =
     hexOutcome throw (list_all isHex s) (ret @ toBigEndian (hexNum s) (length s div 2))"
proof (induction throw s ret rule: fromHex_loop.induct)
  case (1 throw a b s ret)
  let ?n = "length s div 2"
  have even: "even (length s)" using "1.prems" by simp
  show ?case
  proof (cases "isHex a \<and> isHex b")
    case True
    then have ok: "hexVal a \<noteq> -1" "hexVal b \<noteq> -1" by (simp_all add: isHex_def)
    define x where "x = nat (hexVal a) * 16 + nat (hexVal b)"
    have xi: "hexVal a * 16 + hexVal b = int x"
      using True isHexD [of a] isHexD [of b] by (simp add: x_def)
    have "(16::nat) ^ length s = 16 ^ (2 * ?n)" using even by simp
    then have pow: "16 ^ length s = (256::nat) ^ ?n" by (simp only: power_mult) simp
    have num: "hexNum (a # b # s) = x * 256 ^ ?n + hexNum s"
      by (simp add: hexNum_Cons x_def pow algebra_simps)
    show ?thesis
    proof (cases "list_all isHex s")
      case good: True
      have "toBigEndian (hexNum (a # b # s)) (length (a # b # s) div 2) = word_of_nat x # toBigEndian (hexNum s) ?n"
        using hexNum_lt [OF good] toBigEndian_mult_add [of "hexNum s" ?n x]
        by (simp only: num pow list.size) simp
      with "1.IH" [OF refl refl _ even] ok True good show ?thesis
        by (simp add: hexOutcome_def xi)
    next
      case False
      with "1.IH" [OF refl refl _ even] ok True show ?thesis
        by (simp add: hexOutcome_def xi)
    qed
  next
    case False
    then show ?thesis by (auto simp: hexOutcome_def isHex_def Let_def)
  qed
qed (simp_all add: hexOutcome_def)

lemma hexBody_drop:
  "hexBody s = drop (if char_at s 0 = CHR ''0'' \<and> char_at s 1 = CHR ''x'' then 2 else 0) s"
  by (simp add: hexBody_def)

lemma even_length_hexBody: "even (length (hexBody s)) \<longleftrightarrow> even (length s)"
proof -
  have "char_at s 0 = CHR ''0'' \<and> char_at s 1 = CHR ''x'' \<Longrightarrow> 2 \<le> length s"
    by (auto simp: char_at_def split: if_splits)
  then show ?thesis by (auto simp: hexBody_def)
qed

lemma fromHex_spec:
  "fromHex s throw =
     hexOutcome throw (list_all isHex (hexBody s))
       (toBigEndian (hexNum (hexBody s)) ((length (hexBody s) + 1) div 2))"
proof (cases "odd (length s)")
  case True
  define s0 :: nat where "s0 = (if char_at s 0 = CHR ''0'' \<and> char_at s 1 = CHR ''x'' then 2 else 0)"
  have body: "hexBody s = drop s0 s" by (simp add: hexBody_drop s0_def)
  have od: "odd (length (drop s0 s))" using True even_length_hexBody [of s] body by simp
  have lt: "s0 < length s"
  proof (rule ccontr)
    assume "\<not> s0 < length s"
    then have "drop s0 s = []" by simp
    with od show False by simp
  qed
  then have "length (drop s0 s) = Suc (length (drop (Suc s0) s))" by simp
  with od have ev: "even (length (drop (Suc s0) s))" by (simp only: even_Suc not_not)
  have split: "hexBody s = char_at s s0 # drop (Suc s0) s"
    using lt by (simp add: body char_at_def Cons_nth_drop_Suc)
  let ?c = "char_at s s0" and ?t = "drop (Suc s0) s"
  have unf: "fromHex s throw = (if isHex ?c then fromHex_loop throw ?t [word_of_int (hexVal ?c)]
        else if throw = Throw then Inl BadHexCharacter else Inr [])"
    using True by (simp add: fromHex_def s0_def isHex_def Let_def)
  show ?thesis
  proof (cases "isHex ?c \<and> list_all isHex ?t")
    case good: True
    let ?n = "length ?t div 2"
    have "(16::nat) ^ length ?t = 16 ^ (2 * ?n)" using ev by simp
    then have pow: "(16::nat) ^ length ?t = 256 ^ ?n" by (simp only: power_mult) simp
    have w: "(word_of_int (hexVal ?c) :: byte) = word_of_nat (nat (hexVal ?c))"
      using isHexD [of ?c] good by simp
    have len: "(length (hexBody s) + 1) div 2 = Suc ?n"
      using ev by (simp add: split)
    have "toBigEndian (hexNum (hexBody s)) (Suc ?n) = word_of_nat (nat (hexVal ?c)) # toBigEndian (hexNum ?t) ?n"
      using hexNum_lt [of ?t] good pow toBigEndian_mult_add [of "hexNum ?t" ?n "nat (hexVal ?c)"]
      by (simp only: split hexNum_Cons)
    then show ?thesis
      using good ev by (simp only: unf w len fromHex_loop_eq) (simp add: hexOutcome_def split)
  next
    case False
    then show ?thesis
      using ev by (auto simp: unf fromHex_loop_eq hexOutcome_def split)
  qed
next
  case False
  then have ev: "even (length (hexBody s))" using even_length_hexBody [of s] by simp
  have "(length (hexBody s) + 1) div 2 = length (hexBody s) div 2" using ev by presburger
  moreover have "fromHex s throw = fromHex_loop throw (hexBody s) []"
    using False by (simp add: fromHex_def hexBody_drop)
  ultimately show ?thesis using ev by (simp add: fromHex_loop_eq)
qed

lemma hexVal_hexDigit: "n < 16 \<Longrightarrow> hexVal (hexDigit n) = int n"
proof -
  assume "n < 16"
  then have "n \<in> set [0..<16]" by simp
  moreover have "\<forall>n \<in> set [0..<16]. hexVal (hexDigit n) = int n" by code_simp
  ultimately show ?thesis by blast
qed

lemma isHex_hexDigit: "n < 16 \<Longrightarrow> isHex (hexDigit n)"
  by (simp add: isHex_def hexVal_hexDigit)

lemma hex_pair:
  assumes "n < 256"
  shows "setw0 2 (showHex n) = [hexDigit (n div 16), hexDigit (n mod 16)]"
proof (cases "n < 16")
  case True
  then show ?thesis by (simp add: showHex.simps [of n] setw0_def numeral_2_eq_2) (simp add: hexDigit_def)
next
  case False
  with assms have "n div 16 < 16" by simp
  with False show ?thesis by (simp add: showHex.simps [of n] showHex.simps [of "n div 16"] setw0_def)
qed

lemma toHex_loop_2: "toHex_loop 2 bs = concat (map (\<lambda>b. [hexDigit (unat b div 16), hexDigit (unat b mod 16)]) bs)"
  by (induction bs) (simp_all add: hex_pair)

lemma hexOf_eq: "hexOf bs = concat (map (\<lambda>b. [hexDigit (unat b div 16), hexDigit (unat b mod 16)]) bs)"
  by (simp add: toHex_def toHex_loop_2)

lemma length_hexOf [simp]: "length (hexOf bs) = 2 * length bs"
  by (induction bs) (simp_all add: hexOf_eq)

lemma unat_div16_lt: "unat (b::byte) div 16 < 16"
  by (rule less_mult_imp_div_less) simp

lemma list_all_hexOf: "list_all isHex (hexOf bs)"
  by (induction bs) (simp_all add: hexOf_eq isHex_hexDigit unat_div16_lt)

lemma hexNum_hexOf: "hexNum (hexOf bs) = be_val bs"
proof (induction bs)
  case (Cons b bs)
  have "(16::nat) ^ length (hexOf bs) = 256 ^ length bs"
    by (simp only: length_hexOf power_mult) simp
  moreover obtain q r where "hexOf (b # bs) = hexDigit q # hexDigit r # hexOf bs"
    and "unat b = q * 16 + r" "q < 16" "r < 16"
  proof
    show "hexOf (b # bs) = hexDigit (unat b div 16) # hexDigit (unat b mod 16) # hexOf bs"
      by (simp add: hexOf_eq)
  qed (simp_all add: unat_div16_lt)
  ultimately show ?case
    using Cons by (simp add: hexNum_Cons hexVal_hexDigit be_val_Cons algebra_simps)
qed (simp add: hexOf_eq)

lemma not_isHex_x: "\<not> isHex (CHR ''x'')"
  by code_simp

lemma hexBody_prefixed [simp]: "hexBody (CHR ''0'' # CHR ''x'' # s) = s"
  by (simp add: hexBody_def char_at_def)

lemma hexBody_hex: "list_all isHex s \<Longrightarrow> hexBody s = s"
proof -
  assume "list_all isHex s"
  then have "char_at s 1 \<noteq> CHR ''x''"
    using not_isHex_x by (auto simp: char_at_def list_all_length)
  then show ?thesis by (simp add: hexBody_def)
qed

lemma fromHex_toHex: "fromHex (toHex bs 2 prefix) throw = Inr bs"
proof -
  have "hexBody (toHex bs 2 prefix) = hexOf bs"
    using list_all_hexOf [of bs]
    by (cases prefix) (simp_all add: hexBody_hex, simp add: toHex_def)
  then show ?thesis
    by (simp add: fromHex_spec hexOutcome_def list_all_hexOf hexNum_hexOf toBigEndian_be_val)
qed

lemma fromHexD_hexOf [simp]: "fromHexD (hexOf bs) = bs"
  by (simp add: fromHexD_def fromHex_toHex)

lemma hexOf_inj: "hexOf a = hexOf b \<longleftrightarrow> a = b"
  by (metis fromHexD_hexOf)

section \<open>Lemmas: byte strings, paddings, integer helpers\<close>

lemma of_char_char_of_byte [simp]: "(of_char (char_of (unat b)) :: byte) = b"
proof -
  have "(of_char (char_of (unat b)) :: byte) = of_nat (of_char (char_of (unat b)))"
    by (simp only: of_nat_of_char)
  then show ?thesis by simp
qed

lemma char_of_unat_of_char [simp]: "char_of (unat (of_char c :: byte)) = c"
proof -
  have "unat (of_char c :: byte) = unat (of_nat (of_char c) :: byte)"
    by (simp only: of_nat_of_char)
  then show ?thesis by (simp add: char_of_mod_256)
qed

lemma asBytes_asString [simp]: "asBytes (asString b) = b"
  by (induction b) (simp_all add: asBytes_def asString_def)

lemma asString_asBytes [simp]: "asString (asBytes s) = s"
  by (induction s) (simp_all add: asBytes_def asString_def)

lemma length_asString [simp]: "length (asString b) = length b"
  by (simp add: asString_def)

lemma padded_fill_eq: "padded_fill b l = replicate (l - length b) 0 @ b"
proof (induction b l rule: padded_fill.induct)
  case (1 b l)
  show ?case
  proof (cases "length b < l")
    case True
    then have "l - length b = Suc (l - length (0 # b))" by simp
    with 1 True show ?thesis
      by (subst padded_fill.simps) (simp add: replicate_app_Cons_same)
  next
    case False
    then show ?thesis by (subst padded_fill.simps) simp
  qed
qed

lemma padded_eq:
  "padded b l = (if length b \<le> l then replicate (l - length b) 0 @ b else drop (length b - l) b)"
  by (simp add: padded_def padded_fill_eq Let_def asBytes_def asString_def drop_map comp_def)

lemma be_val_unpadLeft [simp]: "be_val (unpadLeft b) = be_val b"
  by (induction b) (simp_all add: be_val_Cons)

lemma unpadLeft_minimal: "unpadLeft b = toCompactBigEndian (be_val b) 0"
proof (induction b)
  case (Cons c b)
  show ?case
  proof (cases "c = 0")
    case True
    with Cons show ?thesis by (simp add: be_val_Cons)
  next
    case False
    then have "0 < unat c" by (simp add: unat_gt_0)
    then have "256 ^ length b \<le> be_val (c # b)" by (simp add: be_val_Cons trans_le_add1)
    then have "bytesRequired (be_val (c # b)) = Suc (length b)"
      using be_val_lt [of "c # b"] bytesRequired_le_iff [of "be_val (c # b)" "Suc (length b)"]
        bytesRequired_le_iff [of "be_val (c # b)" "length b"] by (simp del: power_Suc)
    with False show ?thesis
      using toBigEndian_be_val [of "c # b" "Suc (length b)"]
      by (simp add: toCompactBigEndian_def del: toBigEndian.simps)
  qed
qed (simp add: toCompactBigEndian_def)

lemma s2u_u2s: "s2u (u2s u) = u"
proof -
  have "uint u < 2 ^ 256" using unsigned_less [of u, where 'a = int] by simp
  then show ?thesis by (simp add: s2u_def u2s_def)
qed

lemma toLog2_floor: "0 < x \<Longrightarrow> 2 ^ toLog2 x \<le> x \<and> x < 2 ^ Suc (toLog2 x)"
proof (induction x rule: toLog2.induct)
  case (1 x)
  show ?case
  proof (cases "x div 2 = 0")
    case True
    with 1 show ?thesis by (simp add: toLog2.simps [of x])
  next
    case False
    with 1 have "2 ^ toLog2 (x div 2) \<le> x div 2" "x div 2 < 2 ^ Suc (toLog2 (x div 2))" by simp_all
    then have "2 * 2 ^ toLog2 (x div 2) \<le> x" and "x < 2 * (2 * 2 ^ toLog2 (x div 2))"
      by (simp_all add: less_eq_div_iff_mult_less_eq div_less_iff_less_mult mult.commute)
    then show ?thesis using False by (simp add: toLog2.simps [of x])
  qed
qed

lemma commonPrefix_take: "take (commonPrefix t u) t = take (commonPrefix t u) u"
  by (induction t u rule: commonPrefix.induct) auto

lemma pushFront_eq [simp]: "pushFront t e = e # t"
  by (cases t) (simp_all add: pushFront_def Let_def hd_append take_append)

lemma trimFront_eq: "n \<le> length t \<Longrightarrow> trimFront t n = drop n t"
  by (simp add: trimFront_def)

section \<open>The codec\<close>

text \<open>Hexadecimal text: \<open>fromHex\<close> undoes \<open>toHex\<close> with either prefix; and on any string it returns the
  big-endian bytes of the digits' value, one byte for two digits (an odd digit out counting as a
  byte), and on a character that is no digit throws or returns nothing, as \<open>WhenError\<close> says.\<close>

theorem hex_codec:
  "fromHex (toHex bs 2 prefix) throw = Inr bs \<and>
   fromHex s throw = hexOutcome throw (list_all isHex (hexBody s))
     (toBigEndian (hexNum (hexBody s)) ((length (hexBody s) + 1) div 2))"
  using fromHex_toHex fromHex_spec by blast


end
