(* ===== verification/FixedHash.thy ===== *)
theory FixedHash
  imports CommonData
begin

text \<open>
  \<open>libdevcore/FixedHash.h\<close>: the fixed-size big-endian byte arrays \<open>FixedHash<N>\<close> (\<open>h256\<close>,
  \<open>h160\<close>, \<dots>) that carry hashes, targets, nonces and addresses, their conversions and
  operators, and \<open>SecureFixedHash<N>\<close>. A value of \<open>FixedHash<N>\<close> is the list of its \<open>N\<close>
  bytes (\<open>m_data\<close>); the size is an argument of the constructors.
\<close>

datatype ConstructFromStringType = FromHex | FromBinary

datatype ConstructFromHashType = AlignLeft | AlignRight | FailIfDifferent

type_synonym h256 = bytes
type_synonym h160 = bytes

section \<open>Constructors\<close>

definition fh_zero :: "nat \<Rightarrow> bytes" where
  "fh_zero N = replicate N 0"

text \<open>The copying loop of the converting constructors.\<close>

definition fh_fill :: "nat \<Rightarrow> ConstructFromHashType \<Rightarrow> bytes \<Rightarrow> bytes" where
  "fh_fill N t b =
     fold (\<lambda>i d. d[(if t = AlignRight then N - 1 - i else i) :=
                   b ! (if t = AlignRight then length b - 1 - i else i)])
       [0..<min (length b) N] (fh_zero N)"

definition fh_of_hash :: "nat \<Rightarrow> bytes \<Rightarrow> ConstructFromHashType \<Rightarrow> bytes" where
  "fh_of_hash N h t = fh_fill N t h"

definition fh_of_arith :: "nat \<Rightarrow> nat \<Rightarrow> bytes" where
  "fh_of_arith N arith = toBigEndian arith N"

definition fh_of_unsigned :: "nat \<Rightarrow> u32 \<Rightarrow> bytes" where
  "fh_of_unsigned N u = toBigEndian (unat u) N"

definition fh_of_bytes :: "nat \<Rightarrow> bytes \<Rightarrow> ConstructFromHashType \<Rightarrow> bytes" where
  "fh_of_bytes N b t =
     (if length b = N then b
      else if t \<noteq> FailIfDifferent then fh_fill N t b
      else fh_zero N)"

definition fh_of_string :: "nat \<Rightarrow> string \<Rightarrow> ConstructFromStringType \<Rightarrow> ConstructFromHashType \<Rightarrow> bytes result" where
  "fh_of_string N s t ht =
     bindE (if t = FromHex then fromHex s Throw else Inr (asBytes s)) (\<lambda>b. Inr (fh_of_bytes N b ht))"

text \<open>The conversion to the arithmetic type of \<open>8 N\<close> bits.\<close>

definition fh_to_arith :: "bytes \<Rightarrow> nat" where
  "fh_to_arith h = fromBigEndian (8 * length h) h"

definition fh_bool :: "bytes \<Rightarrow> bool" where
  "fh_bool h = list_ex (\<lambda>b. b \<noteq> 0) h"

section \<open>Comparison and bitwise operators\<close>

fun fh_less :: "bytes \<Rightarrow> bytes \<Rightarrow> bool" where
  "fh_less (a # as) (c # cs) = (if a < c then True else if a > c then False else fh_less as cs)"
| "fh_less _ _ = False"

definition fh_ge :: "bytes \<Rightarrow> bytes \<Rightarrow> bool" where
  "fh_ge a c = (\<not> fh_less a c)"

definition fh_le :: "bytes \<Rightarrow> bytes \<Rightarrow> bool" where
  "fh_le a c = (a = c \<or> fh_less a c)"

definition fh_gt :: "bytes \<Rightarrow> bytes \<Rightarrow> bool" where
  "fh_gt a c = (\<not> fh_le a c)"

definition fh_xor :: "bytes \<Rightarrow> bytes \<Rightarrow> bytes" where
  "fh_xor a c = map2 (XOR) a c"

definition fh_or :: "bytes \<Rightarrow> bytes \<Rightarrow> bytes" where
  "fh_or a c = map2 (OR) a c"

definition fh_and :: "bytes \<Rightarrow> bytes \<Rightarrow> bytes" where
  "fh_and a c = map2 (AND) a c"

definition fh_not :: "bytes \<Rightarrow> bytes" where
  "fh_not a = map NOT a"

text \<open>\<open>for (i = size; i > 0 && !++m_data[--i]; ) {}\<close>\<close>

fun fh_inc_loop :: "nat \<Rightarrow> bytes \<Rightarrow> bytes" where
  "fh_inc_loop 0 d = d"
| "fh_inc_loop (Suc i) d =
     (let d' = d[i := d ! i + 1] in if d' ! i = 0 then fh_inc_loop i d' else d')"

definition fh_inc :: "bytes \<Rightarrow> bytes" where
  "fh_inc d = fh_inc_loop (length d) d"

definition fh_contains :: "bytes \<Rightarrow> bytes \<Rightarrow> bool" where
  "fh_contains h c = (fh_and h c = c)"

text \<open>
  The specialised equality of \<open>h256\<close> compares four 64-bit words read from the two arrays;
  a word is determined by its eight bytes.
\<close>

definition fh_word64 :: "bytes \<Rightarrow> nat \<Rightarrow> bytes" where
  "fh_word64 h i = take 8 (drop (8 * i) h)"

definition h256_eq :: "h256 \<Rightarrow> h256 \<Rightarrow> bool" where
  "h256_eq a b = (fh_word64 a 0 = fh_word64 b 0 \<and> fh_word64 a 1 = fh_word64 b 1 \<and>
                  fh_word64 a 2 = fh_word64 b 2 \<and> fh_word64 a 3 = fh_word64 b 3)"

section \<open>Text\<close>

definition fh_hex :: "bytes \<Rightarrow> string" where
  "fh_hex h = hexOf h"

definition ellipsis :: string where
  "ellipsis = [CHR 0xE2, CHR 0x80, CHR 0xA6]"

definition fh_abridged :: "bytes \<Rightarrow> string" where
  "fh_abridged h = hexOf (take 4 h) @ ellipsis"

definition fh_abridgedMiddle :: "bytes \<Rightarrow> string" where
  "fh_abridgedMiddle h = hexOf (take 4 h) @ ellipsis @ hexOf (drop (length h - 4) h)"

text \<open>Stream output: every byte with width 2.\<close>

definition fh_stream :: "bytes \<Rightarrow> string" where
  "fh_stream h = concat (map (\<lambda>b. setw0 2 (showHex (unat b))) h)"

section \<open>Bloom filters and bit positions\<close>

fun staticLog2 :: "nat \<Rightarrow> nat" where
  "staticLog2 N = (if N \<le> 1 then 0 else 1 + staticLog2 (N div 2))"

declare staticLog2.simps [simp del]

definition bloomBytes :: "nat \<Rightarrow> nat" where
  "bloomBytes M = (staticLog2 (M * 8) + 7) div 8"

text \<open>
  \<open>bloomPart<P, M>\<close>: \<open>P\<close> times, the next \<open>c_bloomBytes\<close> bytes give an index into the \<open>M\<close>
  bytes of the result, whose bit is set.
\<close>

definition bloom_index :: "nat \<Rightarrow> bytes \<Rightarrow> nat" where
  "bloom_index M p =
     fromBigEndian 32 (take (bloomBytes M) p) AND (M * 8 - 1)"

fun bloom_loop :: "nat \<Rightarrow> nat \<Rightarrow> bytes \<Rightarrow> bytes \<Rightarrow> bytes" where
  "bloom_loop 0 M p ret = ret"
| "bloom_loop (Suc i) M p ret =
     (let index = bloom_index M p; k = M - 1 - index div 8 in
      bloom_loop i M (drop (bloomBytes M) p) (ret[k := ret ! k OR push_bit (index mod 8) 1]))"

definition fh_bloomPart :: "nat \<Rightarrow> nat \<Rightarrow> bytes \<Rightarrow> bytes" where
  "fh_bloomPart P M h = bloom_loop P M h (fh_zero M)"

definition fh_shiftBloom :: "nat \<Rightarrow> bytes \<Rightarrow> bytes \<Rightarrow> bytes" where
  "fh_shiftBloom P bloom h = fh_or bloom (fh_bloomPart P (length bloom) h)"

definition fh_containsBloom :: "nat \<Rightarrow> bytes \<Rightarrow> bytes \<Rightarrow> bool" where
  "fh_containsBloom P bloom h = fh_contains bloom (fh_bloomPart P (length bloom) h)"

text \<open>The inner loop of \<open>firstBitSet\<close>: shift a non-zero byte left until its top bit is set.\<close>

lemma unat_shl1_byte: "\<not> bit (d::byte) 7 \<Longrightarrow> unat (push_bit 1 d) = 2 * unat d"
proof -
  assume "\<not> bit d 7"
  then have "\<not> bit (unat d) 7" by (simp add: bit_unsigned_iff)
  then have "even (unat d div 128)" by (simp add: bit_iff_odd)
  moreover have "unat d div 128 < 2" using unat_byte_lt [of d] by (simp add: div_less_iff_less_mult)
  ultimately have "unat d div 128 = 0" by (cases "unat d div 128") auto
  then have "unat d < 128" by (simp add: div_eq_0_iff)
  then show ?thesis
    by (simp add: push_bit_eq_mult unat_word_ariths)
qed

function leadingZeros :: "byte \<Rightarrow> nat" where
  "leadingZeros d = (if bit d 7 \<or> d = 0 then 0 else Suc (leadingZeros (push_bit 1 d)))"
  by pat_completeness auto
termination
proof (relation "measure (\<lambda>d. 256 - unat d)")
  fix d :: byte
  assume a: "\<not> (bit d 7 \<or> d = 0)"
  then have "0 < unat d" by (simp add: unat_gt_0)
  moreover have "unat (push_bit 1 d) = 2 * unat d" using a unat_shl1_byte by blast
  ultimately show "(push_bit 1 d, d) \<in> measure (\<lambda>d. 256 - unat d)"
    using unat_byte_lt [of d] by (simp del: unat_byte_lt)
qed simp

declare leadingZeros.simps [simp del]

fun fh_firstBitSet :: "bytes \<Rightarrow> nat" where
  "fh_firstBitSet [] = 0"
| "fh_firstBitSet (d # ds) = (if d \<noteq> 0 then leadingZeros d else 8 + fh_firstBitSet ds)"

section \<open>Conversions between hashes\<close>

definition right160 :: "h256 \<Rightarrow> h160" where
  "right160 t = take 20 (drop 12 t)"

definition left160 :: "h256 \<Rightarrow> h160" where
  "left160 t = take 20 t"

definition upper64OfHash :: "h256 \<Rightarrow> u64" where
  "upper64OfHash h = word_of_nat (drop_bit 192 (fh_to_arith h))"

section \<open>SecureFixedHash\<close>

text \<open>
  The compound assignments of \<open>SecureFixedHash\<close>, with an argument of type \<open>FixedHash\<close>
  (suffix \<open>_fh\<close>) and of type \<open>SecureFixedHash\<close> (suffix \<open>_sfh\<close>). Each is the expression of the
  source; the binary operators copy and assign.
\<close>

definition sfh_xor_fh :: "bytes \<Rightarrow> bytes \<Rightarrow> bytes" where
  "sfh_xor_fh a c = fh_xor a c"

definition sfh_or_fh :: "bytes \<Rightarrow> bytes \<Rightarrow> bytes" where
  "sfh_or_fh a c = fh_xor a c"

definition sfh_and_fh :: "bytes \<Rightarrow> bytes \<Rightarrow> bytes" where
  "sfh_and_fh a c = fh_xor a c"

definition sfh_xor_sfh :: "bytes \<Rightarrow> bytes \<Rightarrow> bytes" where
  "sfh_xor_sfh a c = fh_xor a c"

definition sfh_or_sfh :: "bytes \<Rightarrow> bytes \<Rightarrow> bytes" where
  "sfh_or_sfh a c = fh_xor a c"

definition sfh_and_sfh :: "bytes \<Rightarrow> bytes \<Rightarrow> bytes" where
  "sfh_and_sfh a c = fh_xor a c"

section \<open>Lemmas: constructors\<close>

lemma length_fh_zero [simp]: "length (fh_zero N) = N"
  by (simp add: fh_zero_def)

lemma fold_update_left:
  "c \<le> length d \<Longrightarrow> fold (\<lambda>i d. d[i := f i]) [0..<c] d = map f [0..<c] @ drop c d"
proof (induction c)
  case (Suc c)
  then have "fold (\<lambda>i d. d[i := f i]) [0..<Suc c] d = (map f [0..<c] @ drop c d)[c := f c]"
    by simp
  also have "\<dots> = map f [0..<c] @ (drop c d)[0 := f c]"
    by (simp add: list_update_append)
  also have "(drop c d)[0 := f c] = f c # drop (Suc c) d"
    using Suc.prems by (simp flip: Cons_nth_drop_Suc)
  finally show ?case by simp
qed simp

lemma fold_update_right:
  assumes "length d = n"
  shows "c \<le> n \<Longrightarrow> fold (\<lambda>i d. d[n - 1 - i := f i]) [0..<c] d = take (n - c) d @ rev (map f [0..<c])"
proof (induction c)
  case (Suc c)
  obtain m where m: "n - c = Suc m" "n - Suc c = m" "m < length d"
    using Suc.prems assms by (metis Suc_diff_Suc Suc_le_lessD diff_less lessI less_le_trans zero_less_Suc)
  have "fold (\<lambda>i d. d[n - 1 - i := f i]) [0..<Suc c] d = (take (Suc m) d @ rev (map f [0..<c]))[m := f c]"
    using Suc m by simp
  also have "\<dots> = (take (Suc m) d)[m := f c] @ rev (map f [0..<c])"
    using m by (subst list_update_append) simp
  also have "(take (Suc m) d)[m := f c] = take m d @ [f c]"
    using m by (subst take_Suc_conv_app_nth) (simp_all add: list_update_append)
  finally show ?case using m by simp
qed (simp add: assms)

lemma length_fh_fill [simp]: "length (fh_fill N t b) = N"
proof -
  have "length (fold (\<lambda>i d. d[g i := f i]) xs d) = length d" for xs :: "nat list" and d :: bytes and f g
    by (induction xs arbitrary: d) simp_all
  then show ?thesis by (simp add: fh_fill_def)
qed

lemma fh_fill_left: "t \<noteq> AlignRight \<Longrightarrow> fh_fill N t b = take N b @ replicate (N - length b) 0"
proof -
  assume "t \<noteq> AlignRight"
  then have "fh_fill N t b = map ((!) b) [0..<min (length b) N] @ drop (min (length b) N) (fh_zero N)"
    by (simp add: fh_fill_def fold_update_left)
  also have "map ((!) b) [0..<min (length b) N] = take N b"
    by (rule nth_equalityI) simp_all
  finally show ?thesis by (simp add: fh_zero_def)
qed

lemma fh_fill_right: "fh_fill N AlignRight b = replicate (N - length b) 0 @ drop (length b - N) b"
proof -
  let ?c = "min (length b) N"
  have "fh_fill N AlignRight b =
      take (N - ?c) (fh_zero N) @ rev (map (\<lambda>i. b ! (length b - 1 - i)) [0..<?c])"
    using fold_update_right [of "fh_zero N" N ?c] by (simp add: fh_fill_def)
  also have "rev (map (\<lambda>i. b ! (length b - 1 - i)) [0..<?c]) = drop (length b - N) b"
    by (rule nth_equalityI) (auto simp: rev_nth min_def)
  finally show ?thesis by (simp add: fh_zero_def)
qed

lemma length_fh_of_bytes [simp]: "length (fh_of_bytes N b t) = N"
  by (simp add: fh_of_bytes_def)

lemma length_fh_of_arith [simp]: "length (fh_of_arith N v) = N"
  by (simp add: fh_of_arith_def)

lemma fh_of_string_length: "fh_of_string N s t ht = Inr h \<Longrightarrow> length h = N"
  by (auto simp: fh_of_string_def bindE_Inr_iff)

lemma fh_to_arith_eq [simp]: "fh_to_arith h = be_val h"
  by (simp add: fh_to_arith_def fromBigEndian_fits)

lemma fh_bool_iff: "fh_bool h \<longleftrightarrow> be_val h \<noteq> 0"
  by (induction h) (auto simp: fh_bool_def be_val_Cons unat_eq_zero)

section \<open>Lemmas: order and increment\<close>

lemma fh_less_iff: "length a = length c \<Longrightarrow> fh_less a c \<longleftrightarrow> be_val a < be_val c"
proof (induction a c rule: fh_less.induct)
  case (1 a as c cs)
  let ?P = "256 ^ length cs :: nat"
  have len: "length as = length cs" using 1 by simp
  have lts: "be_val as < ?P" "be_val cs < ?P"
    using be_val_lt [of as] be_val_lt [of cs] len by simp_all
  have key: "x * ?P + be_val xs < y * ?P + be_val ys"
    if "x < y" and "be_val xs < ?P" for x y xs ys
  proof -
    have "x * ?P + be_val xs < Suc x * ?P" using that by simp
    also have "\<dots> \<le> y * ?P" using that by (intro mult_right_mono) simp_all
    finally show ?thesis by simp
  qed
  consider "unat a < unat c" | "unat c < unat a" | "a = c"
    by (metis word_unat_eq_iff linorder_neqE_nat)
  then show ?case
  proof cases
    case 1
    with key [OF 1 lts(1)] show ?thesis by (simp add: be_val_Cons len word_less_nat_alt)
  next
    case 2
    with key [OF 2 lts(2), of as] show ?thesis
      by (simp add: be_val_Cons len word_less_nat_alt)
  next
    case 3
    with "1.IH" len show ?thesis by (simp add: be_val_Cons)
  qed
qed (auto)

lemma fh_le_iff: "length a = length c \<Longrightarrow> fh_le a c \<longleftrightarrow> be_val a \<le> be_val c"
  by (auto simp: fh_le_def fh_less_iff be_val_inj [symmetric])

lemma fh_ge_iff: "length a = length c \<Longrightarrow> fh_ge a c \<longleftrightarrow> be_val c \<le> be_val a"
  by (auto simp: fh_ge_def fh_less_iff)

lemma fh_gt_iff: "length a = length c \<Longrightarrow> fh_gt a c \<longleftrightarrow> be_val c < be_val a"
  by (auto simp: fh_gt_def fh_le_iff)

lemma length_fh_inc_loop [simp]: "length (fh_inc_loop i d) = length d"
  by (induction i d rule: fh_inc_loop.induct) (simp_all add: Let_def)

lemma length_fh_inc [simp]: "length (fh_inc d) = length d"
  by (simp add: fh_inc_def)

lemma unat_byte_inc: "unat (b + 1 :: byte) = (unat b + 1) mod 256"
  by (simp add: unat_word_ariths)

lemma fh_inc_loop_snoc: "i \<le> length d \<Longrightarrow> fh_inc_loop i (d @ t) = fh_inc_loop i d @ t"
  by (induction i d rule: fh_inc_loop.induct) (simp_all add: Let_def nth_append list_update_append)

lemma be_val_fh_inc: "be_val (fh_inc d) = (be_val d + 1) mod 256 ^ length d"
proof (induction d rule: rev_induct)
  case (snoc b d)
  have step: "fh_inc (d @ [b]) = (if b + 1 = 0 then fh_inc d @ [0] else d @ [b + 1])"
    by (simp add: fh_inc_def Let_def fh_inc_loop_snoc)
  show ?case
  proof (cases "b + 1 = 0")
    case True
    then have "unat (b + 1) = 0" by simp
    then have b: "unat b = 255"
      using unat_byte_lt [of b] by (simp add: unat_byte_inc mod_Suc split: if_splits)
    have "be_val (fh_inc (d @ [b])) = ((be_val d + 1) mod 256 ^ length d) * 256"
      using True snoc by (simp add: step)
    also have "\<dots> = ((be_val d + 1) * 256) mod (256 ^ length d * 256)"
      by (simp only: mod_mult_mult2)
    finally show ?thesis by (simp add: b algebra_simps)
  next
    case False
    then have "unat (b + 1) \<noteq> 0" by (simp add: unat_eq_zero)
    then have b: "unat (b + 1) = unat b + 1"
      using unat_byte_lt [of b] by (simp add: unat_byte_inc mod_Suc split: if_splits)
    have "be_val (fh_inc (d @ [b])) = be_val (d @ [b]) + 1"
      using False b by (simp add: step)
    moreover have "be_val (fh_inc (d @ [b])) < 256 ^ length (d @ [b])"
      using be_val_lt [of "fh_inc (d @ [b])"] by simp
    ultimately show ?thesis by simp
  qed
qed (simp add: fh_inc_def)

lemma be_val_fh_inc_iter: "be_val ((fh_inc ^^ n) d) = (be_val d + n) mod 256 ^ length d"
proof (induction n)
  case (Suc n)
  have "length ((fh_inc ^^ n) d) = length d" by (induction n) simp_all
  with Suc show ?case by (simp add: be_val_fh_inc mod_Suc_eq)
next
  case 0
  show ?case using be_val_lt [of d] by simp
qed

lemma length_fh_inc_iter [simp]: "length ((fh_inc ^^ n) d) = length d"
  by (induction n) simp_all

section \<open>Lemmas: the hashes as codes of fixed width\<close>

text \<open>A number of 256 bits written into an \<open>h256\<close>, and a hash copied into a byte buffer.\<close>

interpretation arith256: fixed_codec "fh_of_arith 32" fh_to_arith 32 "\<lambda>v. v < 2 ^ 256"
  by unfold_locales (simp_all add: fh_of_arith_def be_val_toBigEndian)

interpretation raw20: fixed_codec "\<lambda>h::h160. h" "\<lambda>h. h" 20 "\<lambda>h. length h = 20"
  by unfold_locales simp_all

interpretation raw32: fixed_codec "\<lambda>h::h256. h" "\<lambda>h. h" 32 "\<lambda>h. length h = 32"
  by unfold_locales simp_all

text \<open>The hexadecimal text of a hash of \<open>N\<close> bytes has width \<open>2 N\<close>.\<close>

interpretation hex32: fixed_codec hexOf fromHexD 64 "\<lambda>h. length h = 32"
  by unfold_locales simp_all

section \<open>Lemmas: words and bits of a hash\<close>

lemma h256_eq_iff: "length a = 32 \<Longrightarrow> length b = 32 \<Longrightarrow> h256_eq a b \<longleftrightarrow> a = b"
proof
  assume len: "length a = 32" "length b = 32" and eq: "h256_eq a b"
  have split: "h = fh_word64 h 0 @ fh_word64 h 1 @ fh_word64 h 2 @ fh_word64 h 3" if "length h = 32" for h
  proof -
    have "h = take 8 h @ drop 8 h" "drop 8 h = take 8 (drop 8 h) @ drop 16 h"
      "drop 16 h = take 8 (drop 16 h) @ drop 24 h"
      using append_take_drop_id [of 8 "drop 8 h"] append_take_drop_id [of 8 "drop 16 h"] by simp_all
    then show ?thesis using that by (simp add: fh_word64_def)
  qed
  show "a = b"
    using split [OF len(1)] split [OF len(2)] eq unfolding h256_eq_def by argo
qed (simp add: h256_eq_def)

lemma upper64OfHash_eq: "length h = 32 \<Longrightarrow> unat (upper64OfHash h) = be_val (take 8 h)"
proof -
  assume len: "length h = 32"
  have "be_val h = be_val (take 8 h) * 256 ^ 24 + be_val (drop 8 h)"
    using be_val_append [of "take 8 h" "drop 8 h"] len by simp
  moreover have "be_val (drop 8 h) < 256 ^ 24"
    using be_val_lt [of "drop 8 h"] len by simp
  ultimately have "be_val h div 2 ^ 192 = be_val (take 8 h)" by simp
  moreover have "be_val (take 8 h) < 2 ^ 64"
    using be_val_lt [of "take 8 h"] len by simp
  ultimately show ?thesis
    by (simp add: upper64OfHash_def drop_bit_eq_div unat_of_nat)
qed

lemma leadingZeros_bounds:
  "d \<noteq> 0 \<Longrightarrow> leadingZeros d < 8 \<and> 2 ^ (7 - leadingZeros d) \<le> unat d \<and> unat d < 2 ^ (8 - leadingZeros d)"
proof (induction d rule: leadingZeros.induct)
  case (1 d)
  show ?case
  proof (cases "bit d 7")
    case True
    then have "bit (unat d) 7" by (simp add: bit_unsigned_iff)
    then have "odd (unat d div 128)" by (simp add: bit_iff_odd)
    then have "0 < unat d div 128" by (cases "unat d div 128") auto
    then have "128 \<le> unat d" by (simp add: div_greater_zero_iff)
    with True show ?thesis by (simp add: leadingZeros.simps [of d])
  next
    case False
    let ?e = "push_bit 1 d"
    have e: "unat ?e = 2 * unat d" using False by (rule unat_shl1_byte)
    then have nz: "?e \<noteq> 0" using 1 by (metis mult_eq_0_iff unat_eq_zero zero_neq_numeral)
    have IH: "leadingZeros ?e < 8 \<and> 2 ^ (7 - leadingZeros ?e) \<le> unat ?e \<and> unat ?e < 2 ^ (8 - leadingZeros ?e)"
      using 1 False nz by blast
    let ?k = "leadingZeros ?e"
    have k7: "?k < 7"
    proof (rule ccontr)
      assume "\<not> ?k < 7"
      with IH have "?k = 7" by simp
      with IH have "unat ?e < 2" by simp
      with e have "unat d = 0" by simp
      with 1 show False by (simp add: unat_eq_zero)
    qed
    then have "2 ^ (7 - ?k) = (2::nat) * 2 ^ (7 - Suc ?k)" "2 ^ (8 - ?k) = (2::nat) * 2 ^ (8 - Suc ?k)"
      by (simp_all flip: power_Suc add: Suc_diff_Suc)
    with IH e k7 False 1 show ?thesis by (simp add: leadingZeros.simps [of d])
  qed
qed

lemma fh_firstBitSet_bounds:
  "be_val h \<noteq> 0 \<Longrightarrow> fh_firstBitSet h < 8 * length h \<and>
     2 ^ (8 * length h - 1 - fh_firstBitSet h) \<le> be_val h \<and> be_val h < 2 ^ (8 * length h - fh_firstBitSet h)"
proof (induction h)
  case (Cons d h)
  let ?n = "8 * length h"
  have P: "(256::nat) ^ length h = 2 ^ ?n" by (simp add: pow256)
  show ?case
  proof (cases "d = 0")
    case True
    with Cons show ?thesis by (auto simp: be_val_Cons)
  next
    case False
    let ?k = "leadingZeros d"
    have b: "?k < 8" "2 ^ (7 - ?k) \<le> unat d" "Suc (unat d) \<le> 2 ^ (8 - ?k)"
      using leadingZeros_bounds [OF False] by simp_all
    have "2 ^ (7 - ?k + ?n) \<le> unat d * 2 ^ ?n"
      using b(2) by (simp add: power_add)
    moreover have "unat d * 2 ^ ?n + be_val h < Suc (unat d) * 2 ^ ?n"
      using be_val_lt [of h] P by simp
    moreover have "Suc (unat d) * 2 ^ ?n \<le> 2 ^ (8 - ?k + ?n)"
      using mult_le_mono1 [OF b(3), of "2 ^ ?n"] by (simp add: power_add)
    moreover have "8 * length (d # h) - 1 - ?k = 7 - ?k + ?n" "8 * length (d # h) - ?k = 8 - ?k + ?n"
      using b(1) by simp_all
    ultimately show ?thesis using False b(1) P by (simp add: be_val_Cons)
  qed
qed simp

section \<open>Lemmas: bitwise operators and bloom filters\<close>

lemma length_bitwise [simp]:
  "length (fh_or a c) = min (length a) (length c)"
  "length (fh_and a c) = min (length a) (length c)"
  "length (fh_xor a c) = min (length a) (length c)"
  by (simp_all add: fh_or_def fh_and_def fh_xor_def)

lemma nth_bitwise:
  "i < length a \<Longrightarrow> i < length c \<Longrightarrow> fh_or a c ! i = a ! i OR c ! i"
  "i < length a \<Longrightarrow> i < length c \<Longrightarrow> fh_and a c ! i = a ! i AND c ! i"
  "i < length a \<Longrightarrow> i < length c \<Longrightarrow> fh_xor a c ! i = a ! i XOR c ! i"
  by (simp_all add: fh_or_def fh_and_def fh_xor_def)

lemma byte_or_and: "((x::byte) OR y) AND y = y"
  by (rule bit_word_eqI) (auto simp: bit_simps)

lemma byte_or_and_mono: "(x::byte) AND z = z \<Longrightarrow> (x OR y) AND z = z"
proof (rule bit_word_eqI)
  fix n
  assume "x AND z = z"
  then have "bit (x AND z) n = bit z n" by simp
  then show "bit ((x OR y) AND z) n = bit z n" by (auto simp: bit_simps)
qed

lemma fh_contains_or_right: "length a = length c \<Longrightarrow> fh_contains (fh_or a c) c"
  unfolding fh_contains_def by (rule nth_equalityI) (simp_all add: nth_bitwise byte_or_and)

lemma fh_contains_or_left:
  assumes "length a = length c" "length b = length a" "fh_contains a b"
  shows "fh_contains (fh_or a c) b"
  unfolding fh_contains_def
proof (rule nth_equalityI)
  fix i
  assume i: "i < length (fh_and (fh_or a c) b)"
  then have "a ! i AND b ! i = b ! i"
    using assms nth_bitwise(2) [of i a b] by (simp add: fh_contains_def)
  then show "fh_and (fh_or a c) b ! i = b ! i"
    using assms i by (simp add: nth_bitwise byte_or_and_mono)
qed (simp add: assms)

lemma length_bloom_loop [simp]: "length (bloom_loop P M p ret) = length ret"
  by (induction P M p ret rule: bloom_loop.induct) (simp_all add: Let_def)

lemma length_fh_bloomPart [simp]: "length (fh_bloomPart P M h) = M"
  by (simp add: fh_bloomPart_def)

lemma bloom_no_false_negative: "fh_containsBloom P (fh_shiftBloom P bloom h) h"
  by (simp add: fh_containsBloom_def fh_shiftBloom_def fh_contains_or_right)

lemma bloom_monotone:
  "fh_containsBloom P bloom h \<Longrightarrow> fh_containsBloom P (fh_shiftBloom P bloom g) h"
  by (simp add: fh_containsBloom_def fh_shiftBloom_def fh_contains_or_left)

lemma fh_xor_self: "fh_xor a a = fh_zero (length a)"
  by (rule nth_equalityI) (simp_all add: nth_bitwise fh_zero_def)

lemma fh_and_self: "fh_and a a = a"
  by (rule nth_equalityI) (simp_all add: nth_bitwise)

section \<open>Claims\<close>

text \<open>Hashes as numbers: the lexicographic comparison operators of \<open>FixedHash\<close>, with which targets
  and best hashes are compared, order two hashes of one width as the big-endian numbers they
  spell.\<close>

theorem hash_order_numeric:
  assumes "length a = length c"
  shows "(fh_less a c \<longleftrightarrow> be_val a < be_val c) \<and> (fh_le a c \<longleftrightarrow> be_val a \<le> be_val c) \<and>
    (fh_ge a c \<longleftrightarrow> be_val a \<ge> be_val c) \<and> (fh_gt a c \<longleftrightarrow> be_val a > be_val c)"
  using assms by (simp add: fh_less_iff fh_le_iff fh_ge_iff fh_gt_iff)

theorem hash_order_numeric_witness: "fh_less [1, 255] [2, 0] \<and> \<not> fh_ge [1, 255] [2, 0]"
  using hash_order_numeric [of "[1, 255]" "[2, 0]"] by (simp add: be_val_Cons)

text \<open>The increment by which a search steps from nonce to nonce counts modulo the width, so the
  nonces of fewer than \<open>256 ^ N\<close> steps are pairwise different.\<close>

theorem nonce_increment_distinct:
  assumes "m < n" and "n < 256 ^ length d"
  shows "be_val ((fh_inc ^^ n) d) = (be_val d + n) mod 256 ^ length d \<and> (fh_inc ^^ m) d \<noteq> (fh_inc ^^ n) d"
proof -
  let ?M = "256 ^ length d :: nat"
  have "(be_val d + m) mod ?M \<noteq> (be_val d + n) mod ?M"
  proof
    assume "(be_val d + m) mod ?M = (be_val d + n) mod ?M"
    then have "?M dvd (be_val d + n) - (be_val d + m)" using assms(1) by (metis mod_eq_dvd_iff_nat add_le_mono1 add.commute less_imp_le)
    then have "?M dvd n - m" by simp
    with assms show False by (auto dest: dvd_imp_le)
  qed
  then show ?thesis using be_val_fh_inc_iter [of m d] be_val_fh_inc_iter [of n d] by metis
qed

theorem nonce_increment_distinct_witness: "be_val ((fh_inc ^^ 2) [0, 255]) = 257"
  using nonce_increment_distinct [of 1 2 "[0, 255]"] by (simp add: be_val_Cons)

text \<open>A bloom filter has no false negatives: after any sequence of insertions every inserted hash,
  and every hash it contained before, is reported as contained.\<close>

theorem bloom_remembers:
  assumes "h \<in> set hs \<or> fh_containsBloom P b h"
  shows "fh_containsBloom P (fold (\<lambda>g b. fh_shiftBloom P b g) hs b) h"
proof -
  have keep: "fh_containsBloom P b h \<Longrightarrow> fh_containsBloom P (fold (\<lambda>g b. fh_shiftBloom P b g) hs b) h" for b hs
    by (induction hs arbitrary: b) (simp_all add: bloom_monotone)
  show ?thesis
  proof (cases "h \<in> set hs")
    case True
    then obtain xs ys where "hs = xs @ h # ys" by (auto simp: in_set_conv_decomp)
    then show ?thesis by (simp add: keep bloom_no_false_negative)
  qed (use assms keep in blast)
qed

theorem bloom_remembers_witness: "fh_containsBloom 3 (fold (\<lambda>g b. fh_shiftBloom 3 b g) [replicate 32 7, replicate 32 9] (fh_zero 256)) (replicate 32 7)"
  by (rule bloom_remembers) simp

lemma fh_of_string_toHex: "length b = n \<Longrightarrow> fh_of_string n (toHex b 2 p) FromHex ht = Inr b"
  by (simp add: fh_of_string_def fromHex_toHex fh_of_bytes_def)

end
