(* ===== verification/Keccak.thy ===== *)
theory Keccak
  imports FixedHash
begin

text \<open>
  \<open>libdevcore/SHA3.cpp\<close>: the Keccak-f[1600] permutation, written in place on an array of 25
  lanes, and the sponge around it that gives \<open>sha3\<close> (Keccak-256, with the original padding),
  against the definition of the permutation by coordinates and of the sponge by padded blocks.

  The state is an array of 200 bytes that the permutation reads as 25 little-endian 64-bit
  lanes (the supported platforms are little-endian).
\<close>

unbundle bit_operations_syntax

section \<open>Constants\<close>

definition rho :: "nat list" where
  "rho = [1, 3, 6, 10, 15, 21, 28, 36, 45, 55, 2, 14, 27, 41, 56, 8, 25, 43, 62, 18, 39, 61, 20, 44]"

definition pi_idx :: "nat list" where
  "pi_idx = [10, 7, 11, 17, 18, 3, 5, 16, 8, 21, 24, 4, 15, 23, 19, 13, 12, 2, 20, 14, 22, 9, 6, 1]"

definition RC :: "u64 list" where
  "RC = [1, 0x8082, 0x800000000000808a, 0x8000000080008000,
         0x808b, 0x80000001, 0x8000000080008081, 0x8000000000008009,
         0x8a, 0x88, 0x80008009, 0x8000000a,
         0x8000808b, 0x800000000000008b, 0x8000000000008089, 0x8000000000008003,
         0x8000000000008002, 0x8000000000000080, 0x800a, 0x800000008000000a,
         0x8000000080008081, 0x8000000000008080, 0x80000001, 0x8000000080008008]"

definition rol :: "u64 \<Rightarrow> nat \<Rightarrow> u64" where
  "rol x s = push_bit s x OR drop_bit (64 - s) x"

section \<open>One round, in place\<close>

text \<open>The array \<open>b\<close> of column parities, and the two nested loops that add them to the state.\<close>

definition theta_b :: "u64 list \<Rightarrow> u64 list" where
  "theta_b a = map (\<lambda>x. fold (\<lambda>y b. b XOR a ! (x + y)) [0, 5, 10, 15, 20] 0) [0, 1, 2, 3, 4]"

definition theta :: "u64 list \<Rightarrow> u64 list" where
  "theta a =
     (let b = theta_b a in
      fold (\<lambda>x. fold (\<lambda>y a. a[y + x := a ! (y + x) XOR (b ! ((x + 4) mod 5) XOR rol (b ! ((x + 1) mod 5)) 1)])
                 [0, 5, 10, 15, 20])
        [0, 1, 2, 3, 4] a)"

text \<open>Rho and pi: one lane is carried through the cycle \<open>pi\<close>, rotated on the way.\<close>

definition rho_pi :: "u64 list \<Rightarrow> u64 list" where
  "rho_pi a =
     fst (fold (\<lambda>x (a, t). (a[pi_idx ! x := rol t (rho ! x)], a ! (pi_idx ! x)))
           [0, 1, 2, 3, 4, 5, 6, 7, 8, 9, 10, 11, 12, 13, 14, 15, 16, 17, 18, 19, 20, 21, 22, 23] (a, a ! 1))"

definition chi_row :: "nat \<Rightarrow> u64 list \<Rightarrow> u64 list" where
  "chi_row y a =
     (let b = map (\<lambda>x. a ! (y + x)) [0, 1, 2, 3, 4] in
      fold (\<lambda>x a. a[y + x := b ! x XOR (NOT (b ! ((x + 1) mod 5)) AND b ! ((x + 2) mod 5))]) [0, 1, 2, 3, 4] a)"

definition chi :: "u64 list \<Rightarrow> u64 list" where
  "chi a = fold chi_row [0, 5, 10, 15, 20] a"

definition iota :: "nat \<Rightarrow> u64 list \<Rightarrow> u64 list" where
  "iota i a = a[0 := a ! 0 XOR RC ! i]"

definition keccak_round :: "nat \<Rightarrow> u64 list \<Rightarrow> u64 list" where
  "keccak_round i a = iota i (chi (rho_pi (theta a)))"

definition keccakf_lanes :: "u64 list \<Rightarrow> u64 list" where
  "keccakf_lanes a = fold keccak_round [0..<24] a"

text \<open>The state as bytes: \<open>uint64_t* a = (uint64_t*)state\<close>.\<close>

definition lane_at :: "bytes \<Rightarrow> nat \<Rightarrow> u64" where
  "lane_at s i = word_of_nat (be_val (rev (take 8 (drop (8 * i) s))))"

definition lanes_of :: "bytes \<Rightarrow> u64 list" where
  "lanes_of s = map (lane_at s) [0..<25]"

definition bytes_of_lanes :: "u64 list \<Rightarrow> bytes" where
  "bytes_of_lanes a = concat (map (\<lambda>w. rev (toBigEndian (unat w) 8)) a)"

definition keccakf :: "bytes \<Rightarrow> bytes" where
  "keccakf s = bytes_of_lanes (keccakf_lanes (lanes_of s))"

section \<open>The sponge\<close>

definition Plen :: nat where "Plen = 200"

text \<open>\<open>xorin(dst, src, len)\<close> changes the first \<open>len\<close> bytes of the state.\<close>

definition xorin :: "bytes \<Rightarrow> bytes \<Rightarrow> bytes" where
  "xorin dst src = fold (\<lambda>i d. d[i := d ! i XOR src ! i]) [0..<length src] dst"

function absorb :: "nat \<Rightarrow> bytes \<Rightarrow> bytes \<Rightarrow> bytes \<times> bytes" where
  "absorb rate a inp =
     (if rate \<le> length inp \<and> 0 < rate then absorb rate (keccakf (xorin a (take rate inp))) (drop rate inp) else (a, inp))"
  by pat_completeness auto
termination
  by (relation "measure (\<lambda>(rate, a, inp). length inp)") auto

declare absorb.simps [simp del]

function squeeze :: "nat \<Rightarrow> bytes \<Rightarrow> nat \<Rightarrow> bytes" where
  "squeeze rate a outlen =
     (if rate \<le> outlen \<and> 0 < rate then take rate a @ squeeze rate (keccakf a) (outlen - rate) else take outlen a)"
  by pat_completeness auto
termination
  by (relation "measure (\<lambda>(rate, a, outlen). outlen)") auto

declare squeeze.simps [simp del]

text \<open>
  \<open>hash\<close>: \<open>None\<close> is the error return \<open>-1\<close>; otherwise the \<open>outlen\<close> bytes written to \<open>out\<close>. The
  rate is positive in every instance (with \<open>rate = 0\<close> the loops would not end).
\<close>

definition keccak_hash :: "nat \<Rightarrow> bytes \<Rightarrow> nat \<Rightarrow> byte \<Rightarrow> bytes option" where
  "keccak_hash outlen inp rate delim =
     (if Plen \<le> rate then None
      else
        let (a, inp') = absorb rate (replicate Plen 0) inp;
            a = a[length inp' := a ! length inp' XOR delim];
            a = a[rate - 1 := a ! (rate - 1) XOR 0x80];
            a = xorin a inp';
            a = keccakf a
        in Some (squeeze rate a outlen))"

definition sha3_bits :: "nat \<Rightarrow> nat \<Rightarrow> bytes \<Rightarrow> bytes option" where
  "sha3_bits bits outlen inp =
     (if bits div 8 < outlen then None else keccak_hash outlen inp (200 - bits div 4) 0x01)"

definition shake_bits :: "nat \<Rightarrow> nat \<Rightarrow> bytes \<Rightarrow> bytes option" where
  "shake_bits bits outlen inp = keccak_hash outlen inp (200 - bits div 4) 0x1f"

text \<open>\<open>sha3(bytesConstRef, bytesRef)\<close> and the \<open>h256\<close> it fills; the default is the zero hash.\<close>

definition sha3_into :: "bytes \<Rightarrow> nat \<Rightarrow> bytes option" where
  "sha3_into inp outsize = (if outsize \<noteq> 32 then None else sha3_bits 256 32 inp)"

definition sha3 :: "bytes \<Rightarrow> h256" where
  "sha3 inp = (case sha3_into inp 32 of Some h \<Rightarrow> h | None \<Rightarrow> fh_zero 32)"

definition sha3_string :: "string \<Rightarrow> h256" where
  "sha3_string s = sha3 (asBytes s)"

definition sha3mac :: "bytes \<Rightarrow> bytes \<Rightarrow> nat \<Rightarrow> bytes" where
  "sha3mac secret plain n = take n (sha3 (secret @ plain) @ replicate (n - 32) 0)"

section \<open>The specification by coordinates\<close>

text \<open>
  The step mappings of the standard, on a state of lanes \<open>A (x, y)\<close> with coordinates modulo 5.
  The rotation offsets and the permutation of the lanes are those of the standard's tables, in
  a form independent of the cycle the code follows.
\<close>

type_synonym lanes = "nat \<Rightarrow> nat \<Rightarrow> u64"

definition spec_theta :: "lanes \<Rightarrow> lanes" where
  "spec_theta A =
     (let C = (\<lambda>x. A x 0 XOR A x 1 XOR A x 2 XOR A x 3 XOR A x 4) in
      (\<lambda>x y. A x y XOR C ((x + 4) mod 5) XOR rol (C ((x + 1) mod 5)) 1))"

definition rot_offset :: "nat \<Rightarrow> nat \<Rightarrow> nat" where
  "rot_offset x y =
     [[0, 1, 62, 28, 27], [36, 44, 6, 55, 20], [3, 10, 43, 25, 39], [41, 45, 15, 21, 8], [18, 2, 61, 56, 14]] ! y ! x"

text \<open>\<open>B (y, 2 x + 3 y) = rol (A (x, y)) r(x, y)\<close>, read backwards.\<close>

definition spec_rho_pi :: "lanes \<Rightarrow> lanes" where
  "spec_rho_pi A = (\<lambda>x y. let x' = (x + 3 * y) mod 5; y' = x in rol (A x' y') (rot_offset x' y'))"

definition spec_chi :: "lanes \<Rightarrow> lanes" where
  "spec_chi B = (\<lambda>x y. B x y XOR (NOT (B ((x + 1) mod 5) y) AND B ((x + 2) mod 5) y))"

text \<open>
  The round constants by the standard's rule: bit \<open>2 ^ j - 1\<close> of the constant of round \<open>i\<close> is the bit
  \<open>rc (j + 7 i)\<close> that a feedback shift register of eight bits puts out after so many steps.
\<close>

definition lfsr_step :: "bool list \<Rightarrow> bool list" where
  "lfsr_step R =
     (let R = False # R;
          R = R[0 := (R ! 0 \<noteq> R ! 8)];
          R = R[4 := (R ! 4 \<noteq> R ! 8)];
          R = R[5 := (R ! 5 \<noteq> R ! 8)];
          R = R[6 := (R ! 6 \<noteq> R ! 8)]
      in take 8 R)"

definition lfsr_start :: "bool list" where
  "lfsr_start = [True, False, False, False, False, False, False, False]"

definition spec_rc :: "nat \<Rightarrow> bool" where
  "spec_rc t = ((lfsr_step ^^ (t mod 255)) lfsr_start ! 0)"

definition round_constant :: "nat \<Rightarrow> u64" where
  "round_constant i = fold (\<lambda>j w. w OR (if spec_rc (j + 7 * i) then push_bit (2 ^ j - 1) 1 else 0)) [0, 1, 2, 3, 4, 5, 6] 0"

definition spec_iota :: "nat \<Rightarrow> lanes \<Rightarrow> lanes" where
  "spec_iota i A = (\<lambda>x y. if x = 0 \<and> y = 0 then A 0 0 XOR round_constant i else A x y)"

definition spec_round :: "nat \<Rightarrow> lanes \<Rightarrow> lanes" where
  "spec_round i A = spec_iota i (spec_chi (spec_rho_pi (spec_theta A)))"

definition lanes_of_list :: "u64 list \<Rightarrow> lanes" where
  "lanes_of_list a = (\<lambda>x y. a ! (5 * y + x))"

definition list_of_lanes :: "lanes \<Rightarrow> u64 list" where
  "list_of_lanes A = map (\<lambda>i. A (i mod 5) (i div 5)) [0..<25]"

section \<open>The permutation meets the specification\<close>

lemma length25_cases:
  assumes "length a = 25"
  obtains a0 a1 a2 a3 a4 a5 a6 a7 a8 a9 a10 a11 a12 a13 a14 a15 a16 a17 a18 a19 a20 a21 a22 a23 a24
  where "a = [a0, a1, a2, a3, a4, a5, a6, a7, a8, a9, a10, a11, a12, a13, a14, a15, a16, a17, a18, a19, a20, a21, a22, a23, a24]"
  using assms by (auto simp: numeral_eq_Suc length_Suc_conv)

lemma upt25: "[0..<25] = [0, 1, 2, 3, 4, 5, 6, 7, 8, 9, 10, 11, 12, 13, 14, 15, 16, 17, 18, 19, 20, 21, 22, 23, 24::nat]"
  by (simp add: upt_rec)

lemma rol_0: "rol x 0 = x"
  by (simp add: rol_def)

lemma theta_spec: "length a = 25 \<Longrightarrow> theta a = list_of_lanes (spec_theta (lanes_of_list a))"
  by (erule length25_cases)
    (simp add: theta_def theta_b_def Let_def spec_theta_def lanes_of_list_def list_of_lanes_def upt25 ac_simps)

lemma rho_pi_spec: "length a = 25 \<Longrightarrow> rho_pi a = list_of_lanes (spec_rho_pi (lanes_of_list a))"
  by (erule length25_cases)
    (simp add: rho_pi_def spec_rho_pi_def lanes_of_list_def list_of_lanes_def upt25 pi_idx_def rho_def
      rot_offset_def rol_0 Let_def)

lemma chi_spec: "length a = 25 \<Longrightarrow> chi a = list_of_lanes (spec_chi (lanes_of_list a))"
  by (erule length25_cases)
    (simp add: chi_def chi_row_def spec_chi_def lanes_of_list_def list_of_lanes_def upt25 Let_def)

text \<open>The first bits that the register puts out, computed in one run, give the constants of the code's table.\<close>

fun lfsr_run :: "nat \<Rightarrow> bool list \<Rightarrow> bool list" where
  "lfsr_run 0 R = []"
| "lfsr_run (Suc n) R = (R ! 0) # lfsr_run n (lfsr_step R)"

lemma lfsr_run_nth: "t < n \<Longrightarrow> lfsr_run n R ! t = ((lfsr_step ^^ t) R ! 0)"
proof (induction n arbitrary: t R)
  case (Suc n)
  then show ?case by (cases t) (simp_all add: funpow_Suc_right del: funpow.simps)
qed simp

definition constant_of :: "bool list \<Rightarrow> u64" where
  "constant_of bs = fold (\<lambda>j w. w OR (if bs ! j then push_bit (2 ^ j - 1) 1 else 0)) [0, 1, 2, 3, 4, 5, 6] 0"

lemma constants_table: "(let bs = lfsr_run 168 lfsr_start in map (\<lambda>i. constant_of (drop (7 * i) bs)) [0..<24]) = RC"
  by code_simp

lemma length_lfsr_run [simp]: "length (lfsr_run n R) = n"
  by (induction n R rule: lfsr_run.induct) simp_all

lemma round_constant_RC: "i < 24 \<Longrightarrow> round_constant i = RC ! i"
proof -
  assume i: "i < 24"
  have rc: "drop (7 * i) (lfsr_run 168 lfsr_start) ! j = spec_rc (j + 7 * i)" if "j < 7" for j
    using i that by (simp add: spec_rc_def lfsr_run_nth ac_simps)
  have "constant_of (drop (7 * i) (lfsr_run 168 lfsr_start)) = round_constant i"
    by (simp add: constant_of_def round_constant_def rc)
  moreover have "map (\<lambda>i. constant_of (drop (7 * i) (lfsr_run 168 lfsr_start))) [0..<24] ! i = RC ! i"
    using constants_table by (simp add: Let_def)
  ultimately show "round_constant i = RC ! i" using i by simp
qed

lemma iota_spec: "length a = 25 \<Longrightarrow> i < 24 \<Longrightarrow> iota i a = list_of_lanes (spec_iota i (lanes_of_list a))"
  by (erule length25_cases) (simp add: iota_def spec_iota_def lanes_of_list_def list_of_lanes_def upt25 round_constant_RC)

text \<open>
  A specification step read as an operation on the array of lanes. Steps compose because each
  reads only coordinates below 5.
\<close>

definition on_list :: "(lanes \<Rightarrow> lanes) \<Rightarrow> u64 list \<Rightarrow> u64 list" where
  "on_list S a = list_of_lanes (S (lanes_of_list a))"

definition same_lanes :: "lanes \<Rightarrow> lanes \<Rightarrow> bool" where
  "same_lanes A B \<longleftrightarrow> (\<forall>x < 5. \<forall>y < 5. A x y = B x y)"

lemma same_lanesD: "same_lanes A B \<Longrightarrow> x < 5 \<Longrightarrow> y < 5 \<Longrightarrow> A x y = B x y"
  by (simp add: same_lanes_def)

lemma list_of_lanes_cong: "same_lanes A B \<Longrightarrow> list_of_lanes A = list_of_lanes B"
  unfolding list_of_lanes_def by (rule map_cong) (auto intro!: same_lanesD)

lemma lanes_of_list_of_lanes: "same_lanes (lanes_of_list (list_of_lanes A)) A"
  by (simp add: same_lanes_def lanes_of_list_def list_of_lanes_def)

lemma spec_steps_cong:
  assumes "same_lanes A B"
  shows "same_lanes (spec_theta A) (spec_theta B)" "same_lanes (spec_rho_pi A) (spec_rho_pi B)"
    "same_lanes (spec_chi A) (spec_chi B)" "same_lanes (spec_iota i A) (spec_iota i B)"
  using same_lanesD [OF assms]
  by (simp_all add: same_lanes_def spec_theta_def spec_rho_pi_def spec_chi_def spec_iota_def Let_def)

lemma length_list_of_lanes [simp]: "length (list_of_lanes A) = 25"
  by (simp add: list_of_lanes_def)

lemma length_on_list [simp]: "length (on_list S a) = 25"
  by (simp add: on_list_def)

lemma on_list_comp:
  assumes "\<And>A B. same_lanes A B \<Longrightarrow> same_lanes (S A) (S B)"
  shows "on_list S (on_list T a) = on_list (\<lambda>A. S (T A)) a"
  unfolding on_list_def by (rule list_of_lanes_cong [OF assms [OF lanes_of_list_of_lanes]])

lemma keccak_round_spec:
  assumes "length a = 25" and "i < 24"
  shows "keccak_round i a = on_list (spec_round i) a"
proof -
  have "keccak_round i a =
      on_list (spec_iota i) (on_list spec_chi (on_list spec_rho_pi (on_list spec_theta a)))"
    using assms by (simp add: keccak_round_def theta_spec rho_pi_spec chi_spec iota_spec on_list_def)
  also have "\<dots> = on_list (spec_round i) a"
    by (simp only: on_list_comp spec_steps_cong spec_round_def [abs_def])
  finally show ?thesis .
qed

lemma spec_round_cong: "same_lanes A B \<Longrightarrow> same_lanes (spec_round i A) (spec_round i B)"
  by (simp add: spec_round_def spec_steps_cong)

lemma fold_rounds_spec:
  "length a = 25 \<Longrightarrow> is \<noteq> [] \<Longrightarrow> \<forall>i \<in> set is. i < 24 \<Longrightarrow> fold keccak_round is a = on_list (fold spec_round is) a"
proof (induction "is" arbitrary: a)
  case (Cons i "is")
  have cong: "same_lanes A B \<Longrightarrow> same_lanes (fold spec_round js A) (fold spec_round js B)" for A B js
    by (induction js arbitrary: A B) (simp_all add: spec_round_cong)
  show ?case
  proof (cases "is")
    case Nil
    with Cons.prems show ?thesis by (simp add: keccak_round_spec)
  next
    case (Cons j js)
    have "on_list (fold spec_round is) (on_list (spec_round i) a) = on_list (\<lambda>A. fold spec_round is (spec_round i A)) a"
      by (rule on_list_comp) (rule cong)
    then show ?thesis
      using Cons.IH [of "on_list (spec_round i) a"] Cons.prems Cons by (simp add: keccak_round_spec comp_def)
  qed
qed simp

lemma keccakf_lanes_spec: "length a = 25 \<Longrightarrow> keccakf_lanes a = on_list (fold spec_round [0..<24]) a"
  unfolding keccakf_lanes_def by (rule fold_rounds_spec) simp_all

section \<open>The sponge meets the specification\<close>

lemma length_xorin [simp]: "length (xorin d s) = length d"
proof -
  have "length (fold (\<lambda>i d. d[i := d ! i XOR s ! i]) is d) = length d" for "is"
    by (induction "is" arbitrary: d) simp_all
  then show ?thesis by (simp add: xorin_def)
qed

lemma xorin_prefix:
  "n \<le> length s \<Longrightarrow> i < length d \<Longrightarrow>
   fold (\<lambda>i d. d[i := d ! i XOR s ! i]) [0..<n] d ! i = (if i < n then d ! i XOR s ! i else d ! i)"
proof (induction n)
  case (Suc n)
  have "length (fold (\<lambda>i d. d[i := d ! i XOR s ! i]) is d) = length d" for "is"
    by (induction "is" arbitrary: d) simp_all
  with Suc show ?case by (cases "i = n") auto
qed simp

lemma nth_xorin: "i < length d \<Longrightarrow> xorin d s ! i = (if i < length s then d ! i XOR s ! i else d ! i)"
  using xorin_prefix [of "length s" s i d] by (simp add: xorin_def)

lemma length_keccakf [simp]: "length (keccakf s) = 200"
proof -
  have "length (keccakf_lanes (lanes_of s)) = 25"
    by (simp add: keccakf_lanes_spec lanes_of_def)
  moreover have "length (bytes_of_lanes a) = 8 * length a" for a
    by (induction a) (simp_all add: bytes_of_lanes_def)
  ultimately show ?thesis by (simp add: keccakf_def)
qed

text \<open>
  The padding: the delimiter byte, zeros, and a final one bit, filling the last block of
  \<open>rate\<close> bytes; and the blocks of a padded message.
\<close>

definition sponge_pad :: "nat \<Rightarrow> byte \<Rightarrow> nat \<Rightarrow> bytes" where
  "sponge_pad rate delim n =
     (let k = rate - n mod rate in
      if k = 1 then [delim XOR 0x80] else delim # replicate (k - 2) 0 @ [0x80])"

definition absorb_block :: "bytes \<Rightarrow> bytes \<Rightarrow> bytes" where
  "absorb_block blk a = keccakf (xorin a blk)"

function blocks :: "nat \<Rightarrow> bytes \<Rightarrow> bytes list" where
  "blocks rate msg = (if length msg < rate \<or> rate = 0 then [] else take rate msg # blocks rate (drop rate msg))"
  by pat_completeness auto
termination
  by (relation "measure (\<lambda>(rate, msg). length msg)") auto

declare blocks.simps [simp del]

lemma absorb_blocks:
  "0 < rate \<Longrightarrow> absorb rate a inp =
     (fold absorb_block (blocks rate inp) a, drop (length inp - length inp mod rate) inp)"
proof (induction rate a inp rule: absorb.induct)
  case (1 rate a inp)
  show ?case
  proof (cases "rate \<le> length inp")
    case True
    have "(length inp - rate) mod rate = length inp mod rate"
      using True by (simp add: le_mod_geq)
    moreover have "length inp mod rate \<le> length inp - rate"
      using True by (metis calculation mod_less_eq_dividend)
    ultimately show ?thesis
      using 1 True by (simp add: absorb.simps [of rate a inp] blocks.simps [of rate inp] absorb_block_def)
  next
    case False
    then show ?thesis by (simp add: absorb.simps [of rate a inp] blocks.simps [of rate inp])
  qed
qed

lemma blocks_pad:
  "0 < rate \<Longrightarrow> length pad = rate - length m mod rate \<Longrightarrow>
   blocks rate (m @ pad) = blocks rate m @ [drop (length m - length m mod rate) m @ pad]"
proof (induction rate m rule: blocks.induct)
  case (1 rate m)
  show ?case
  proof (cases "length m < rate")
    case True
    with 1 show ?thesis by (simp add: blocks.simps [of rate "m @ pad"] blocks.simps [of rate m] blocks.simps [of rate "[]"])
  next
    case False
    have eq: "(length m - rate) mod rate = length m mod rate"
      using False by (simp add: le_mod_geq)
    moreover have "length m mod rate \<le> length m - rate"
      by (metis eq mod_less_eq_dividend)
    ultimately show ?thesis
      using 1 False by (simp add: blocks.simps [of rate "m @ pad"] blocks.simps [of rate m])
  qed
qed

lemma length_sponge_pad: "0 < rate \<Longrightarrow> length (sponge_pad rate delim n) = rate - n mod rate"
proof -
  assume "0 < rate"
  then have "n mod rate < rate" by simp
  then show ?thesis by (simp add: sponge_pad_def Let_def) arith
qed

lemma last_block_xor:
  assumes "length a = 200" and "rate < 200" and "length rest < rate"
  shows "xorin (let a' = a[length rest := a ! length rest XOR delim] in a'[rate - 1 := a' ! (rate - 1) XOR 0x80]) rest =
         xorin a (rest @ sponge_pad rate delim (length rest))"
proof (rule nth_equalityI)
  fix i
  assume i: "i < length (xorin (let a' = a[length rest := a ! length rest XOR delim] in a'[rate - 1 := a' ! (rate - 1) XOR 0x80]) rest)"
  have m: "length rest mod rate = length rest" using assms(3) by simp
  have len: "length (sponge_pad rate delim (length rest)) = rate - length rest"
    using length_sponge_pad [of rate delim "length rest"] assms(3) by simp
  consider "i < length rest" | "i = length rest" "i = rate - 1" | "i = length rest" "i < rate - 1"
    | "length rest < i" "i < rate - 1" | "length rest < i" "i = rate - 1" | "rate \<le> i"
    using assms(3) by linarith
  then show "xorin (let a' = a[length rest := a ! length rest XOR delim] in a'[rate - 1 := a' ! (rate - 1) XOR 0x80]) rest ! i =
      xorin a (rest @ sponge_pad rate delim (length rest)) ! i"
  proof cases
    case 1
    with i assms show ?thesis by (simp add: nth_xorin len Let_def nth_append)
  next
    case 2
    then have "rate - length rest = 1" using assms(3) by simp
    with 2 i assms m show ?thesis by (simp add: nth_xorin Let_def nth_append sponge_pad_def xor.assoc)
  next
    case 3
    then have "rate - length rest \<noteq> 1" by simp
    with 3 i assms m len show ?thesis by (simp add: nth_xorin Let_def nth_append sponge_pad_def)
  next
    case 4
    then have "rate - length rest \<noteq> 1" "\<not> i - length rest - 1 \<ge> rate - length rest - 2" by simp_all
    with 4 i assms m len show ?thesis
      by (simp add: nth_xorin Let_def nth_append sponge_pad_def nth_Cons')
  next
    case 5
    then have "rate - length rest \<noteq> 1" "i - length rest - 1 = rate - length rest - 2"
      "\<not> rate \<le> Suc (length rest)" by simp_all
    with 5 i assms m len show ?thesis
      by (simp add: nth_xorin Let_def nth_append sponge_pad_def nth_Cons')
  next
    case 6
    with i assms len show ?thesis by (simp add: nth_xorin Let_def)
  qed
qed (simp add: Let_def)

lemma length_fold_absorb: "length a = 200 \<Longrightarrow> length (fold absorb_block bs a) = 200"
  by (induction bs arbitrary: a) (simp_all add: absorb_block_def)

lemma keccak_hash_spec:
  assumes "0 < rate" and "rate < 200"
  shows "keccak_hash outlen inp rate delim =
    Some (squeeze rate (fold absorb_block (blocks rate (inp @ sponge_pad rate delim (length inp))) (replicate 200 0)) outlen)"
proof -
  define rest where "rest = drop (length inp - length inp mod rate) inp"
  have rest: "length rest = length inp mod rate" by (simp add: rest_def)
  then have lt: "length rest < rate" using assms by simp
  define a where "a = fold absorb_block (blocks rate inp) (replicate 200 0)"
  have len: "length a = 200" by (simp add: a_def length_fold_absorb)
  have pad: "sponge_pad rate delim (length inp) = sponge_pad rate delim (length rest)"
    using rest by (simp add: sponge_pad_def)
  have "keccak_hash outlen inp rate delim =
      Some (squeeze rate (keccakf (xorin (let a' = a[length rest := a ! length rest XOR delim] in a'[rate - 1 := a' ! (rate - 1) XOR 0x80]) rest)) outlen)"
    using assms absorb_blocks [of rate "replicate 200 0" inp]
    by (simp add: keccak_hash_def Plen_def a_def rest_def Let_def)
  also have "\<dots> = Some (squeeze rate (absorb_block (rest @ sponge_pad rate delim (length inp)) a) outlen)"
    using last_block_xor [OF len assms(2) lt, of delim] by (simp add: absorb_block_def pad)
  finally show ?thesis
    using assms by (simp add: blocks_pad length_sponge_pad a_def rest_def)
qed

lemma length_squeeze: "0 < rate \<Longrightarrow> rate \<le> 200 \<Longrightarrow> length a = 200 \<Longrightarrow> length (squeeze rate a n) = n"
proof (induction rate a n rule: squeeze.induct)
  case (1 rate a n)
  then show ?case by (cases "rate \<le> n") (simp_all add: squeeze.simps [of rate a n])
qed

lemma sha3_spec:
  "sha3 inp = take 32 (fold absorb_block (blocks 136 (inp @ sponge_pad 136 1 (length inp))) (replicate 200 0))"
  by (simp add: sha3_def sha3_into_def sha3_bits_def keccak_hash_spec squeeze.simps [of 136])

lemma length_sha3 [simp]: "length (sha3 inp) = 32"
  by (simp add: sha3_spec length_fold_absorb)

section \<open>Claims\<close>

text \<open>C25: The permutation of the code, which moves lanes along one cycle in place, is Keccak-f[1600] as
  the standard gives it by coordinates: 24 rounds of theta, rho with pi, chi and iota, the last with the
  round constants that the standard's shift register yields.\<close>

theorem keccakf_is_fips202:
  assumes "length a = 25"
  shows "keccakf_lanes a =
    list_of_lanes (fold (\<lambda>i A. spec_iota i (spec_chi (spec_rho_pi (spec_theta A)))) [0..<24] (lanes_of_list a))"
  using keccakf_lanes_spec [OF assms] by (simp add: on_list_def spec_round_def [abs_def])

theorem keccakf_is_fips202_witness:
  "keccakf_lanes (replicate 25 0) =
    list_of_lanes (fold (\<lambda>i A. spec_iota i (spec_chi (spec_rho_pi (spec_theta A)))) [0..<24] (lanes_of_list (replicate 25 0)))"
  by (rule keccakf_is_fips202) simp

text \<open>C26: \<open>sha3\<close> is Keccak-256 with the original padding: it absorbs the blocks of 136 bytes of the
  message followed by 1, zeros and a final top bit, and returns the first 32 bytes of the state;
  it never fails, whatever the length of the message.\<close>

theorem sha3_is_keccak256:
  "sha3 inp = take 32 (fold absorb_block (blocks 136 (inp @ sponge_pad 136 1 (length inp))) (replicate 200 0)) \<and>
   length (sha3 inp) = 32"
  by (simp add: length_sha3) (rule sha3_spec)


end
