(* ===== verification/RlpStream.thy ===== *)
theory RlpStream
  imports FixedHash
begin

text \<open>
  The writing half of \<open>libdevcore/RLP.h\<close> and \<open>libdevcore/RLP.cpp\<close>: \<open>RLPStream\<close>, its append
  operations and the stack of open lists, against the abstract encoding of a tree of byte
  strings.

  \<open>m_listStack\<close> is a vector used as a stack; here its back is the head of the list. A
  \<open>size_t\<close> count is a \<open>nat\<close>; the sizes of real buffers are far below \<open>2 ^ 64\<close>, which is a
  hypothesis (\<open>rlp_fits\<close>) where it matters.
\<close>

section \<open>Constants\<close>

definition c_rlpMaxLengthBytes :: nat where "c_rlpMaxLengthBytes = 8"
definition c_rlpDataImmLenStart :: nat where "c_rlpDataImmLenStart = 0x80"
definition c_rlpListStart :: nat where "c_rlpListStart = 0xc0"
definition c_rlpDataImmLenCount :: nat where
  "c_rlpDataImmLenCount = c_rlpListStart - c_rlpDataImmLenStart - c_rlpMaxLengthBytes"
definition c_rlpDataIndLenZero :: nat where
  "c_rlpDataIndLenZero = c_rlpDataImmLenStart + c_rlpDataImmLenCount - 1"
definition c_rlpListImmLenCount :: nat where
  "c_rlpListImmLenCount = 256 - c_rlpListStart - c_rlpMaxLengthBytes"
definition c_rlpListIndLenZero :: nat where
  "c_rlpListIndLenZero = c_rlpListStart + c_rlpListImmLenCount - 1"

lemmas rlp_constants = c_rlpMaxLengthBytes_def c_rlpDataImmLenStart_def c_rlpListStart_def
  c_rlpDataImmLenCount_def c_rlpDataIndLenZero_def c_rlpListImmLenCount_def c_rlpListIndLenZero_def

section \<open>The stream\<close>

record rlp_stream =
  m_out :: bytes
  m_listStack :: "(nat \<times> nat) list"

definition rlp_empty :: rlp_stream where
  "rlp_empty = \<lparr>m_out = [], m_listStack = []\<rparr>"

text \<open>\<open>for (; i; i >>= 8) *(b--) = (byte)i\<close>, with \<open>b\<close> an index into the buffer.\<close>

function poke_int :: "nat \<Rightarrow> nat \<Rightarrow> bytes \<Rightarrow> bytes" where
  "poke_int b i out = (if i = 0 then out else poke_int (b - 1) (i div 256) (out[b := word_of_nat i]))"
  by pat_completeness auto
termination
  by (relation "measure (\<lambda>(b, i, out). i)") auto

declare poke_int.simps [simp del]

definition pushInt :: "nat \<Rightarrow> nat \<Rightarrow> bytes \<Rightarrow> bytes" where
  "pushInt i br out = (let out' = out @ replicate br 0 in poke_int (length out' - 1) i out')"

definition pushCount :: "nat \<Rightarrow> nat \<Rightarrow> bytes \<Rightarrow> bytes result" where
  "pushCount count base out =
     (let br = bytesRequired count in
      if br + base > 0xff then Inl (RLPException ''Count too large for RLP'')
      else Inr (pushInt count br (out @ [word_of_nat (br + base)])))"

text \<open>
  \<open>noteAppended\<close>: \<open>count\<close> items have just been added to the innermost open list. When that
  list is complete its payload is moved up by the size of the header, the header is written
  into the gap, and the finished list counts as one item of the list around it. The gap still
  holds the bytes that were there before the \<open>memmove\<close>, until the header overwrites them.
\<close>

definition openGap :: "nat \<Rightarrow> nat \<Rightarrow> bytes \<Rightarrow> bytes" where
  "openGap p n out = take p out @ take n (drop p (out @ replicate n 0)) @ drop p out"

fun noteAppended_loop :: "nat \<Rightarrow> bytes \<Rightarrow> (nat \<times> nat) list \<Rightarrow> rlp_stream result" where
  "noteAppended_loop count out [] = Inr \<lparr>m_out = out, m_listStack = []\<rparr>"
| "noteAppended_loop count out ((n, p) # stack) =
     (if n < count then Inl (RLPException ''itemCount too large'')
      else if n - count \<noteq> 0 then Inr \<lparr>m_out = out, m_listStack = (n - count, p) # stack\<rparr>
      else
        let s = length out - p;
            brs = bytesRequired s;
            encodeSize = (if s < c_rlpListImmLenCount then 1 else 1 + brs);
            out' = openGap p encodeSize out in
        if s < c_rlpListImmLenCount
        then noteAppended_loop 1 (out'[p := word_of_nat (c_rlpListStart + s)]) stack
        else if c_rlpListIndLenZero + brs \<le> 0xff
        then noteAppended_loop 1 (poke_int (p + brs) s (out'[p := word_of_nat (c_rlpListIndLenZero + brs)])) stack
        else Inl (RLPException ''itemCount too large for RLP''))"

definition noteAppended :: "nat \<Rightarrow> rlp_stream \<Rightarrow> rlp_stream result" where
  "noteAppended count st =
     (if count = 0 then Inr st else noteAppended_loop count (m_out st) (m_listStack st))"

definition appendRaw :: "bytes \<Rightarrow> nat \<Rightarrow> rlp_stream \<Rightarrow> rlp_stream result" where
  "appendRaw s itemCount st = noteAppended itemCount (st\<lparr>m_out := m_out st @ s\<rparr>)"

definition appendBytes :: "bytes \<Rightarrow> bool \<Rightarrow> rlp_stream \<Rightarrow> rlp_stream result" where
  "appendBytes b compact st =
     (let d = (if compact then unpadLeft b else b); s = length d in
      bindE
        (if s = 1 \<and> unat (hd d) < c_rlpDataImmLenStart then Inr (st\<lparr>m_out := m_out st @ [hd d]\<rparr>)
         else
           bindE (if s < c_rlpDataImmLenCount then Inr (m_out st @ [word_of_nat (s + c_rlpDataImmLenStart)])
                  else pushCount s c_rlpDataIndLenZero (m_out st))
             (\<lambda>out. appendRaw d 0 (st\<lparr>m_out := out\<rparr>)))
        (noteAppended 1))"

definition appendInt :: "nat \<Rightarrow> rlp_stream \<Rightarrow> rlp_stream result" where
  "appendInt i st =
     bindE
       (if i = 0 then Inr (m_out st @ [word_of_nat c_rlpDataImmLenStart])
        else if i < c_rlpDataImmLenStart then Inr (m_out st @ [word_of_nat i])
        else
          let br = bytesRequired i in
          if br < c_rlpDataImmLenCount
          then Inr (pushInt i br (m_out st @ [word_of_nat (br + c_rlpDataImmLenStart)]))
          else
            let brbr = bytesRequired br in
            if c_rlpDataIndLenZero + brbr > 0xff then Inl (RLPException ''Number too large for RLP'')
            else Inr (pushInt i br (pushInt br brbr (m_out st @ [word_of_nat (c_rlpDataIndLenZero + brbr)]))))
       (\<lambda>out. noteAppended 1 (st\<lparr>m_out := out\<rparr>))"

definition appendListRaw :: "bytes \<Rightarrow> rlp_stream \<Rightarrow> rlp_stream result" where
  "appendListRaw rlp st =
     bindE (if length rlp < c_rlpListImmLenCount then Inr (m_out st @ [word_of_nat (length rlp + c_rlpListStart)])
            else pushCount (length rlp) c_rlpListIndLenZero (m_out st))
       (\<lambda>out. appendRaw rlp 1 (st\<lparr>m_out := out\<rparr>))"

definition appendList :: "nat \<Rightarrow> rlp_stream \<Rightarrow> rlp_stream result" where
  "appendList items st =
     (if items \<noteq> 0 then Inr (st\<lparr>m_listStack := (items, length (m_out st)) # m_listStack st\<rparr>)
      else appendListRaw [] st)"

text \<open>
  \<open>append(FixedHash<N>, _compact, _allOrNothing)\<close> and the \<open>append\<close> of a vector of items, whose
  elements are appended by \<open>app\<close>.
\<close>

definition appendHash :: "bytes \<Rightarrow> bool \<Rightarrow> bool \<Rightarrow> rlp_stream \<Rightarrow> rlp_stream result" where
  "appendHash h compact allOrNothing st =
     (if allOrNothing \<and> \<not> fh_bool h then appendBytes [] False st else appendBytes h compact st)"

fun append_each :: "('a \<Rightarrow> rlp_stream \<Rightarrow> rlp_stream result) \<Rightarrow> 'a list \<Rightarrow> rlp_stream \<Rightarrow> rlp_stream result" where
  "append_each app [] st = Inr st"
| "append_each app (i # s) st = bindE (app i st) (append_each app s)"

definition appendVector :: "('a \<Rightarrow> rlp_stream \<Rightarrow> rlp_stream result) \<Rightarrow> 'a list \<Rightarrow> rlp_stream \<Rightarrow> rlp_stream result" where
  "appendVector app s st = bindE (appendList (length s) st) (append_each app s)"

definition rlp_out :: "rlp_stream \<Rightarrow> bytes result" where
  "rlp_out st =
     (if m_listStack st \<noteq> [] then Inl (RLPException ''listStack is not empty'') else Inr (m_out st))"

definition rlp_clear :: "rlp_stream \<Rightarrow> rlp_stream" where
  "rlp_clear st = st\<lparr>m_out := [], m_listStack := []\<rparr>"

section \<open>The abstract encoding\<close>

text \<open>
  What a stream is meant to hold: the recursive length prefix encoding of a tree whose leaves
  are byte strings. These definitions are the specification, not code.
\<close>

datatype rlp_item = RStr bytes | RList "rlp_item list"

definition rlp_header :: "nat \<Rightarrow> nat \<Rightarrow> bytes" where
  "rlp_header base n =
     (if n < 56 then [word_of_nat (base + n)]
      else word_of_nat (base + 55 + bytesRequired n) # toCompactBigEndian n 0)"

definition rlp_string :: "bytes \<Rightarrow> bytes" where
  "rlp_string b = (if length b = 1 \<and> unat (hd b) < 0x80 then b else rlp_header 0x80 (length b) @ b)"

fun rlp_encode :: "rlp_item \<Rightarrow> bytes" where
  "rlp_encode (RStr b) = rlp_string b"
| "rlp_encode (RList xs) =
     (let payload = concat (map rlp_encode xs) in rlp_header 0xc0 (length payload) @ payload)"

text \<open>
  Every string and every list payload of the tree has a size that a \<open>size_t\<close> can hold with
  the reader's safety margin (\<open>RLP::length\<close> refuses the last 257 values).
\<close>

definition rlp_max_size :: nat where "rlp_max_size = 2 ^ 64 - 257"

fun rlp_fits :: "rlp_item \<Rightarrow> bool" where
  "rlp_fits (RStr b) = (length b < rlp_max_size)"
| "rlp_fits (RList xs) = (length (concat (map rlp_encode xs)) < rlp_max_size \<and> list_all rlp_fits xs)"

definition RInt :: "nat \<Rightarrow> rlp_item" where
  "RInt n = RStr (toCompactBigEndian n 0)"

section \<open>Lemmas: integers and headers\<close>

lemma poke_int_eq:
  "length mid = bytesRequired i \<Longrightarrow>
   poke_int (length pre + length mid - 1) i (pre @ mid @ post) = pre @ toCompactBigEndian i 0 @ post"
proof (induction i arbitrary: mid post rule: less_induct)
  case (less i)
  show ?case
  proof (cases "i = 0")
    case True
    with less.prems show ?thesis by (simp add: poke_int.simps toCompactBigEndian_def)
  next
    case False
    then have br: "bytesRequired i = Suc (bytesRequired (i div 256))"
      by (simp add: bytesRequired_pos)
    with less.prems obtain mid' x where mid: "mid = mid' @ [x]" "length mid' = bytesRequired (i div 256)"
      by (cases mid rule: rev_cases) auto
    have "poke_int (length pre + length mid - 1) i (pre @ mid @ post) =
          poke_int (length pre + length mid' - 1) (i div 256) (pre @ mid' @ (word_of_nat i # post))"
      using False mid by (simp add: poke_int.simps [of _ i] list_update_append)
    also have "\<dots> = pre @ toCompactBigEndian (i div 256) 0 @ (word_of_nat i # post)"
      using False mid by (intro less.IH) simp_all
    finally show ?thesis by (simp add: toCompactBigEndian_def br)
  qed
qed

lemma pushInt_eq: "br = bytesRequired i \<Longrightarrow> pushInt i br out = out @ toCompactBigEndian i 0"
  using poke_int_eq [of "replicate br 0" i out "[]"] by (simp add: pushInt_def)

lemma bytesRequired_le_8: "n < 2 ^ 64 \<Longrightarrow> bytesRequired n \<le> 8"
  by (simp add: bytesRequired_le_iff)

lemma pushCount_eq:
  "n < 2 ^ 64 \<Longrightarrow> base \<le> 0xf7 \<Longrightarrow>
   pushCount n base out = Inr (out @ word_of_nat (base + bytesRequired n) # toCompactBigEndian n 0)"
  using bytesRequired_le_8 [of n] by (simp add: pushCount_def Let_def pushInt_eq add.commute)

lemma length_rlp_header:
  "length (rlp_header base n) = (if n < 56 then 1 else 1 + bytesRequired n)"
  by (simp add: rlp_header_def)

section \<open>Lemmas: completing lists\<close>

lemma openGap_eq: "p = length pre \<Longrightarrow> openGap p n (pre @ s) = pre @ take n (s @ replicate n 0) @ s"
  by (simp add: openGap_def)

lemma take_gap_length: "length (take n (s @ replicate n 0)) = n"
  by simp

text \<open>
  A list whose last item has been appended is closed by writing its header before its payload.
\<close>

lemma noteAppended_loop_close:
  assumes "length s < 2 ^ 64"
  shows "noteAppended_loop c (pre @ s) ((c, length pre) # stack) =
         noteAppended_loop 1 (pre @ rlp_header 0xc0 (length s) @ s) stack"
proof (cases "length s < 56")
  case True
  have "(openGap (length pre) 1 (pre @ s))[length pre := x] = pre @ x # s" for x
    by (cases s) (simp_all add: openGap_def list_update_append)
  with True show ?thesis
    by (simp add: Let_def rlp_constants rlp_header_def)
next
  case False
  let ?n = "length s"
  let ?br = "bytesRequired ?n"
  have br8: "?br \<le> 8" using assms by (rule bytesRequired_le_8)
  have "length (take (Suc ?br) (s @ replicate (Suc ?br) 0)) = Suc ?br" by simp
  then obtain g gs where g: "take (Suc ?br) (s @ replicate (Suc ?br) 0) = g # gs" "length gs = ?br"
    unfolding length_Suc_conv by blast
  let ?h = "word_of_nat (0xf7 + ?br) :: byte"
  have "poke_int (length pre + ?br) ?n ((pre @ [?h]) @ gs @ s) = (pre @ [?h]) @ toCompactBigEndian ?n 0 @ s"
    using poke_int_eq [of gs ?n "pre @ [?h]" s] g(2) by simp
  then have "poke_int (length pre + ?br) ?n ((openGap (length pre) (Suc ?br) (pre @ s))[length pre := ?h]) =
      pre @ rlp_header 0xc0 ?n @ s"
    using False by (simp add: openGap_eq g(1) list_update_append rlp_header_def del: replicate_Suc take_append)
  then show ?thesis
    using False br8 by (simp add: Let_def rlp_constants)
qed

lemma noteAppended_loop_open:
  "noteAppended_loop 1 out ((Suc (Suc n), p) # stack) = Inr \<lparr>m_out = out, m_listStack = (Suc n, p) # stack\<rparr>"
  by simp

section \<open>Lemmas: what each append writes\<close>

lemma noteAppended_1 [simp]:
  "noteAppended (Suc 0) st = noteAppended_loop (Suc 0) (m_out st) (m_listStack st)"
  by (simp add: noteAppended_def)

lemma noteAppended_0 [simp]: "noteAppended 0 st = Inr st"
  by (simp add: noteAppended_def)

lemma rlp_string_hd:
  "length b = 1 \<Longrightarrow> unat (hd b) < 0x80 \<Longrightarrow> rlp_string b = [hd b]"
  by (cases b) (auto simp: rlp_string_def)

lemma appendBytes_eq:
  assumes "length b < 2 ^ 64"
  shows "appendBytes b False st = noteAppended_loop 1 (m_out st @ rlp_encode (RStr b)) (m_listStack st)"
proof (cases "length b = 1 \<and> unat (hd b) < 0x80")
  case True
  then show ?thesis by (simp add: appendBytes_def Let_def rlp_constants rlp_string_hd)
next
  case False
  then have "rlp_string b = rlp_header 0x80 (length b) @ b" by (auto simp: rlp_string_def)
  with False assms show ?thesis
    by (auto simp: appendBytes_def Let_def rlp_constants pushCount_eq appendRaw_def rlp_header_def add.commute)
qed

lemma appendInt_eq:
  assumes "i < 2 ^ 256"
  shows "appendInt i st = noteAppended_loop 1 (m_out st @ rlp_encode (RInt i)) (m_listStack st)"
proof -
  have br: "bytesRequired i \<le> 32"
    using assms by (simp add: bytesRequired_le_iff)
  consider "i = 0" | "0 < i" "i < 0x80" | "0x80 \<le> i" by linarith
  then show ?thesis
  proof cases
    case 1
    then show ?thesis
      by (simp add: appendInt_def RInt_def toCompactBigEndian_def rlp_string_def rlp_header_def rlp_constants)
  next
    case 2
    then have "bytesRequired i = 1"
      by (simp add: bytesRequired_pos)
    with 2 show ?thesis
      by (simp add: appendInt_def RInt_def toCompactBigEndian_def rlp_string_def rlp_constants)
  next
    case 3
    have "rlp_string (toCompactBigEndian i 0) = rlp_header 0x80 (bytesRequired i) @ toCompactBigEndian i 0"
    proof (cases "bytesRequired i = 1")
      case True
      then have "i < 256" using bytesRequired_le_iff [of i 1] by simp
      with True 3 show ?thesis by (simp add: rlp_string_def toCompactBigEndian_def)
    qed (simp add: rlp_string_def)
    with 3 br show ?thesis
      by (simp add: appendInt_def RInt_def Let_def rlp_constants pushInt_eq rlp_header_def add.commute)
  qed
qed

lemma appendList_0_eq:
  "appendList 0 st = noteAppended_loop 1 (m_out st @ rlp_encode (RList [])) (m_listStack st)"
  by (simp add: appendList_def appendListRaw_def rlp_constants appendRaw_def rlp_header_def)

text \<open>
  A writer of one item appends the item's encoding and then notes one item. A list written as
  \<open>appendList n\<close> followed by \<open>n\<close> such items is again a writer of one item.
\<close>

definition writes :: "('a \<Rightarrow> rlp_stream \<Rightarrow> rlp_stream result) \<Rightarrow> 'a \<Rightarrow> rlp_item \<Rightarrow> bool" where
  "writes app x i \<longleftrightarrow> (\<forall>st. app x st = noteAppended_loop 1 (m_out st @ rlp_encode i) (m_listStack st))"

lemma append_each_open:
  "list_all2 (writes app) xs is \<Longrightarrow> xs \<noteq> [] \<Longrightarrow>
   append_each app xs \<lparr>m_out = out, m_listStack = (length xs, p) # stack\<rparr> =
   noteAppended_loop 1 (out @ concat (map rlp_encode is)) ((1, p) # stack)"
proof (induction xs "is" arbitrary: out rule: list_all2_induct)
  case (Cons x xs i "is")
  let ?st = "\<lparr>m_out = out, m_listStack = (length (x # xs), p) # stack\<rparr>"
  have w: "app x ?st = noteAppended_loop 1 (out @ rlp_encode i) ((length (x # xs), p) # stack)"
    using Cons.hyps(1) by (simp add: writes_def del: noteAppended_loop.simps)
  show ?case
  proof (cases xs)
    case Nil
    with Cons.hyps(2) w show ?thesis
      by (simp del: noteAppended_loop.simps) (cases "app x ?st"; simp del: noteAppended_loop.simps)
  next
    case (Cons y ys)
    then have "app x ?st = Inr \<lparr>m_out = out @ rlp_encode i, m_listStack = (length xs, p) # stack\<rparr>"
      using w by simp
    with Cons.IH [of "out @ rlp_encode i"] Cons show ?thesis
      by (simp del: noteAppended_loop.simps)
  qed
qed simp

lemma appendVector_eq:
  assumes "list_all2 (writes app) xs is" and "length (concat (map rlp_encode is)) < 2 ^ 64"
  shows "appendVector app xs st =
         noteAppended_loop 1 (m_out st @ rlp_encode (RList is)) (m_listStack st)"
proof (cases "xs = []")
  case True
  with assms show ?thesis by (simp add: appendVector_def appendList_0_eq) (cases "noteAppended_loop 1 (m_out st @ rlp_header 192 0) (m_listStack st)"; simp)
next
  case False
  then have "appendVector app xs st =
      noteAppended_loop 1 (m_out st @ concat (map rlp_encode is)) ((1, length (m_out st)) # m_listStack st)"
    using append_each_open [OF assms(1) False, of "m_out st" "length (m_out st)" "m_listStack st"]
    by (simp add: appendVector_def appendList_def del: noteAppended_loop.simps)
      (cases st; simp del: noteAppended_loop.simps)
  then show ?thesis
    using noteAppended_loop_close [OF assms(2)] by (simp add: Let_def del: noteAppended_loop.simps)
qed

section \<open>Writing a whole tree\<close>

text \<open>
  How a client writes a tree: a leaf with \<open>append\<close>, a list with \<open>appendList\<close> and then its
  items (\<open>append\<close> of a vector).
\<close>

fun rlp_write :: "rlp_item \<Rightarrow> rlp_stream \<Rightarrow> rlp_stream result"
  and rlp_write_all :: "rlp_item list \<Rightarrow> rlp_stream \<Rightarrow> rlp_stream result" where
  "rlp_write (RStr b) st = appendBytes b False st"
| "rlp_write (RList xs) st = bindE (appendList (length xs) st) (rlp_write_all xs)"
| "rlp_write_all [] st = Inr st"
| "rlp_write_all (x # xs) st = bindE (rlp_write x st) (rlp_write_all xs)"

lemma rlp_write_all_eq: "rlp_write_all xs st = append_each rlp_write xs st"
  by (induction xs arbitrary: st) (simp_all add: bindE_def split: sum.splits)

lemma rlp_write_writes: "rlp_fits i \<Longrightarrow> writes rlp_write i i"
proof (induction i)
  case (RStr b)
  then show ?case by (simp add: writes_def appendBytes_eq rlp_max_size_def)
next
  case (RList xs)
  then have "list_all2 (writes rlp_write) xs xs"
    by (simp add: list_all2_same list_all_iff)
  moreover have "rlp_write (RList xs) st = appendVector rlp_write xs st" for st
    by (simp add: appendVector_def rlp_write_all_eq [abs_def])
  ultimately show ?case
    using RList.prems appendVector_eq [of rlp_write xs xs]
    by (simp add: writes_def rlp_max_size_def del: rlp_write.simps)
qed

end
