(* ===== verification/RlpReader.thy ===== *)
theory RlpReader
  imports RlpStream
begin

text \<open>
  The reading half of \<open>libdevcore/RLP.h\<close> and \<open>libdevcore/RLP.cpp\<close>: the class \<open>RLP\<close>, a view of
  a byte buffer, with its strictness flags, its exceptions, its cached item access and its
  iterator. A view (\<open>bytesConstRef\<close>) is the list of the bytes it shows; the empty list is the
  null view.
\<close>

unbundle bit_operations_syntax

section \<open>Strictness flags and views\<close>

definition AllowNonCanon :: nat where "AllowNonCanon = 1"
definition ThrowOnFail :: nat where "ThrowOnFail = 4"
definition FailIfTooBig :: nat where "FailIfTooBig = 8"
definition FailIfTooSmall :: nat where "FailIfTooSmall = 16"
definition Strict :: nat where "Strict = ThrowOnFail OR FailIfTooBig"
definition VeryStrict :: nat where "VeryStrict = ThrowOnFail OR FailIfTooBig OR FailIfTooSmall"
definition LaissezFaire :: nat where "LaissezFaire = AllowNonCanon"

lemmas rlp_flags = AllowNonCanon_def ThrowOnFail_def FailIfTooBig_def FailIfTooSmall_def
  Strict_def VeryStrict_def LaissezFaire_def

text \<open>\<open>vector_ref::cropped\<close>: out of bounds gives the empty view.\<close>

definition cropped :: "'a list \<Rightarrow> nat \<Rightarrow> nat \<Rightarrow> 'a list" where
  "cropped d begin count =
     (if begin \<le> length d \<and> count \<le> length d \<and> begin + count \<le> length d
      then take count (drop begin d) else [])"

definition cropped_from :: "'a list \<Rightarrow> nat \<Rightarrow> 'a list" where
  "cropped_from d begin = (if begin \<le> length d then drop begin d else [])"

section \<open>Inspection\<close>

definition rlp_isNull :: "bytes \<Rightarrow> bool" where
  "rlp_isNull d = (length d = 0)"

definition rlp_isEmpty :: "bytes \<Rightarrow> bool" where
  "rlp_isEmpty d = (\<not> rlp_isNull d \<and> (unat (d ! 0) = c_rlpDataImmLenStart \<or> unat (d ! 0) = c_rlpListStart))"

definition rlp_isData :: "bytes \<Rightarrow> bool" where
  "rlp_isData d = (\<not> rlp_isNull d \<and> unat (d ! 0) < c_rlpListStart)"

definition rlp_isList :: "bytes \<Rightarrow> bool" where
  "rlp_isList d = (\<not> rlp_isNull d \<and> unat (d ! 0) \<ge> c_rlpListStart)"

definition rlp_isSingleByte :: "bytes \<Rightarrow> bool" where
  "rlp_isSingleByte d = (\<not> rlp_isNull d \<and> unat (d ! 0) < c_rlpDataImmLenStart)"

definition rlp_requireGood :: "bytes \<Rightarrow> unit result" where
  "rlp_requireGood d =
     (if rlp_isNull d then Inl BadRLP
      else if unat (d ! 0) \<noteq> c_rlpDataImmLenStart + 1 then Inr ()
      else if length d < 2 then Inl BadRLP
      else if unat (d ! 1) < c_rlpDataImmLenStart then Inl BadRLP
      else Inr ())"

definition rlp_isInt :: "bytes \<Rightarrow> bool result" where
  "rlp_isInt d =
     (if rlp_isNull d then Inr False
      else bindE (rlp_requireGood d) (\<lambda>_.
        let n = unat (d ! 0) in
        if n < c_rlpDataImmLenStart then Inr (n \<noteq> 0)
        else if n = c_rlpDataImmLenStart then Inr True
        else if n \<le> c_rlpDataIndLenZero then
          (if length d \<le> 1 then Inl BadRLP else Inr (d ! 1 \<noteq> 0))
        else if n < c_rlpListStart then
          (if length d \<le> 1 + n - c_rlpDataIndLenZero then Inl BadRLP
           else Inr (d ! (1 + n - c_rlpDataIndLenZero) \<noteq> 0))
        else Inr False))"

definition rlp_lengthSize :: "bytes \<Rightarrow> nat" where
  "rlp_lengthSize d =
     (if rlp_isData d \<and> unat (d ! 0) > c_rlpDataIndLenZero then unat (d ! 0) - c_rlpDataIndLenZero
      else if rlp_isList d \<and> unat (d ! 0) > c_rlpListIndLenZero then unat (d ! 0) - c_rlpListIndLenZero
      else 0)"

text \<open>
  \<open>length\<close>: the payload size an item announces. The two long forms share their checks; the
  loop \<open>ret = (ret << 8) | m_data[i + 1]\<close> on a \<open>size_t\<close> is \<open>fromBigEndian\<close> of width 64.
\<close>

definition rlp_longLength :: "bytes \<Rightarrow> nat \<Rightarrow> nat \<Rightarrow> nat result" where
  "rlp_longLength d lengthSize minimum =
     (if length d \<le> lengthSize then Inl BadRLP
      else if length d > 1 \<and> d ! 1 = 0 then Inl BadRLP
      else if lengthSize > 8 then Inl UndersizeRLP
      else if d ! 1 = 0 then Inl BadRLP
      else
        let ret = fromBigEndian 64 (take lengthSize (drop 1 d)) in
        if ret < minimum then Inl BadRLP
        else if ret \<ge> 2 ^ 64 - 1 - 0x100 then Inl UndersizeRLP
        else Inr ret)"

definition rlp_length :: "bytes \<Rightarrow> nat result" where
  "rlp_length d =
     (if rlp_isNull d then Inr 0
      else bindE (rlp_requireGood d) (\<lambda>_.
        let n = unat (d ! 0) in
        if n < c_rlpDataImmLenStart then Inr 1
        else if n \<le> c_rlpDataIndLenZero then Inr (n - c_rlpDataImmLenStart)
        else if n < c_rlpListStart then
          rlp_longLength d (n - c_rlpDataIndLenZero) (c_rlpListStart - c_rlpDataImmLenStart - c_rlpMaxLengthBytes)
        else if n \<le> c_rlpListIndLenZero then Inr (n - c_rlpListStart)
        else rlp_longLength d (n - c_rlpListIndLenZero) (0x100 - c_rlpListStart - c_rlpMaxLengthBytes)))"

definition rlp_payloadOffset :: "bytes \<Rightarrow> nat" where
  "rlp_payloadOffset d = (if rlp_isSingleByte d then 0 else 1 + rlp_lengthSize d)"

definition rlp_payload :: "bytes \<Rightarrow> bytes result" where
  "rlp_payload d =
     bindE (rlp_length d) (\<lambda>l.
       if l > length d then Inl BadRLP else Inr (cropped d (rlp_payloadOffset d) l))"

definition rlp_actualSize :: "bytes \<Rightarrow> nat result" where
  "rlp_actualSize d =
     (if rlp_isNull d then Inr 0
      else if rlp_isSingleByte d then Inr 1
      else if rlp_isData d \<or> rlp_isList d
      then bindE (rlp_length d) (\<lambda>l. Inr (rlp_payloadOffset d + l))
      else Inr 0)"

section \<open>Construction\<close>

text \<open>The constructor resets the view instead of throwing when \<open>ThrowOnFail\<close> is not given.\<close>

definition RLP :: "bytes \<Rightarrow> nat \<Rightarrow> bytes result" where
  "RLP d s =
     bindE
       (if s AND FailIfTooBig \<noteq> 0 then
          bindE (rlp_actualSize d) (\<lambda>a.
            if a < length d then (if s AND ThrowOnFail \<noteq> 0 then Inl OversizeRLP else Inr []) else Inr d)
        else Inr d)
       (\<lambda>m.
        if s AND FailIfTooSmall \<noteq> 0 then
          bindE (rlp_actualSize m) (\<lambda>a.
            if a > length d then (if s AND ThrowOnFail \<noteq> 0 then Inl UndersizeRLP else Inr []) else Inr m)
        else Inr m)"

definition rlp_sizeAsEncoded :: "bytes \<Rightarrow> nat result" where
  "rlp_sizeAsEncoded d = bindE (RLP d (ThrowOnFail OR FailIfTooSmall)) rlp_actualSize"

section \<open>Conversion of data items\<close>

definition rlp_toBytes :: "bytes \<Rightarrow> bytes result" where
  "rlp_toBytes d =
     (if \<not> rlp_isData d then Inr []
      else bindE (rlp_payload d) (\<lambda>p. bindE (rlp_length d) (\<lambda>l.
        if l \<le> length p then Inr (take l p) else Inl UndefinedBehaviour)))"

definition rlp_toString :: "bytes \<Rightarrow> string result" where
  "rlp_toString d =
     (if \<not> rlp_isData d then Inr []
      else bindE (rlp_payload d) (\<lambda>p. bindE (rlp_length d) (\<lambda>l. Inr (asString (cropped p 0 l)))))"

definition rlp_toStringStrict :: "bytes \<Rightarrow> string result" where
  "rlp_toStringStrict d = (if \<not> rlp_isData d then Inl BadCast else rlp_toString d)"

text \<open>\<open>toInt<T>\<close> for an unsigned \<open>T\<close> of \<open>maxSize\<close> bytes.\<close>

definition rlp_toInt :: "nat \<Rightarrow> nat \<Rightarrow> bytes \<Rightarrow> nat result" where
  "rlp_toInt maxSize flags d =
     bindE (rlp_requireGood d) (\<lambda>_. bindE (rlp_isInt d) (\<lambda>int.
       if (\<not> int \<and> flags AND AllowNonCanon = 0) \<or> rlp_isList d \<or> rlp_isNull d
       then (if flags AND ThrowOnFail \<noteq> 0 then Inl BadCast else Inr 0)
       else bindE (rlp_payload d) (\<lambda>p.
         if length p > maxSize \<and> flags AND FailIfTooBig \<noteq> 0
         then (if flags AND ThrowOnFail \<noteq> 0 then Inl BadCast else Inr 0)
         else Inr (fromBigEndian (8 * maxSize) p))))"

definition rlp_toHash :: "nat \<Rightarrow> nat \<Rightarrow> bytes \<Rightarrow> bytes result" where
  "rlp_toHash N flags d =
     bindE (rlp_requireGood d) (\<lambda>_. bindE (rlp_payload d) (\<lambda>p.
       let l = length p in
       if \<not> rlp_isData d \<or> (l > N \<and> flags AND FailIfTooBig \<noteq> 0) \<or> (l < N \<and> flags AND FailIfTooSmall \<noteq> 0)
       then (if flags AND ThrowOnFail \<noteq> 0 then Inl BadCast else Inr (fh_zero N))
       else let s = min N l in Inr (take (N - s) (fh_zero N) @ take s p)))"

section \<open>Sizes found by scanning\<close>

lemma flags_scan: "(ThrowOnFail OR FailIfTooSmall) AND FailIfTooBig = 0"
  "(ThrowOnFail OR FailIfTooSmall) AND FailIfTooSmall \<noteq> 0"
  "(ThrowOnFail OR FailIfTooSmall) AND ThrowOnFail \<noteq> 0"
  "VeryStrict AND FailIfTooBig \<noteq> 0" "VeryStrict AND FailIfTooSmall \<noteq> 0" "VeryStrict AND ThrowOnFail \<noteq> 0"
  by (simp_all add: rlp_flags)

lemma RLP_scan:
  "RLP d (ThrowOnFail OR FailIfTooSmall) =
   bindE (rlp_actualSize d) (\<lambda>a. if a > length d then Inl UndersizeRLP else Inr d)"
  by (simp add: RLP_def flags_scan)

lemma RLP_VeryStrict:
  "RLP d VeryStrict =
   bindE (rlp_actualSize d) (\<lambda>a.
     if a < length d then Inl OversizeRLP else if a > length d then Inl UndersizeRLP else Inr d)"
  by (cases "rlp_actualSize d") (simp_all add: RLP_def flags_scan)

lemma rlp_sizeAsEncoded_eq:
  "rlp_sizeAsEncoded d =
   bindE (rlp_actualSize d) (\<lambda>a. if a > length d then Inl UndersizeRLP else Inr a)"
  by (cases "rlp_actualSize d") (simp_all add: rlp_sizeAsEncoded_def RLP_scan)

lemma rlp_isData_or_isList: "d \<noteq> [] \<Longrightarrow> rlp_isData d \<or> rlp_isList d"
  by (auto simp: rlp_isData_def rlp_isList_def rlp_isNull_def)

lemma rlp_actualSize_pos: "d \<noteq> [] \<Longrightarrow> rlp_actualSize d = Inr n \<Longrightarrow> 0 < n"
  by (auto simp: rlp_actualSize_def rlp_isNull_def rlp_payloadOffset_def bindE_Inr_iff
      rlp_isData_or_isList split: if_splits)

lemma rlp_sizeAsEncoded_bounds:
  "d \<noteq> [] \<Longrightarrow> rlp_sizeAsEncoded d = Inr n \<Longrightarrow> 0 < n \<and> n \<le> length d"
  using rlp_actualSize_pos [of d] by (auto simp: rlp_sizeAsEncoded_eq bindE_Inr_iff split: if_splits)

section \<open>Lists\<close>

text \<open>The counting loop of \<open>items\<close>: drop one item at a time.\<close>

function rlp_items_loop :: "bytes \<Rightarrow> nat \<Rightarrow> nat result" where
  "rlp_items_loop d i =
     (if length d = 0 then Inr i
      else bindE (rlp_sizeAsEncoded d) (\<lambda>n. rlp_items_loop (cropped_from d n) (Suc i)))"
  by pat_completeness auto
termination
proof (relation "measure (\<lambda>(d, i). length d)")
  fix d :: bytes and i n
  assume "length d \<noteq> 0" and "rlp_sizeAsEncoded d = Inr n"
  then have "0 < n \<and> n \<le> length d" using rlp_sizeAsEncoded_bounds by simp
  then show "((cropped_from d n, Suc i), (d, i)) \<in> measure (\<lambda>(d, i). length d)"
    by (simp add: cropped_from_def) linarith
qed simp

declare rlp_items_loop.simps [simp del]

definition rlp_items :: "bytes \<Rightarrow> nat result" where
  "rlp_items d = (if rlp_isList d then bindE (rlp_payload d) (\<lambda>p. rlp_items_loop p 0) else Inr 0)"

definition rlp_itemCount :: "bytes \<Rightarrow> nat result" where
  "rlp_itemCount d = (if rlp_isList d then rlp_items d else Inr 0)"

definition rlp_itemCountStrict :: "bytes \<Rightarrow> nat result" where
  "rlp_itemCountStrict d = (if \<not> rlp_isList d then Inl BadCast else rlp_items d)"

text \<open>\<open>size\<close> and \<open>sizeStrict\<close>: the number of bytes of a data item.\<close>

definition rlp_size :: "bytes \<Rightarrow> nat result" where
  "rlp_size d = (if rlp_isData d then rlp_length d else Inr 0)"

definition rlp_sizeStrict :: "bytes \<Rightarrow> nat result" where
  "rlp_sizeStrict d = (if \<not> rlp_isData d then Inl BadCast else rlp_length d)"

text \<open>
  The list-indexing cache, which \<open>operator[]\<close> updates. The cache an exception leaves behind
  is not modelled.
\<close>

record rlp_cache =
  m_lastIndex :: nat
  m_lastEnd :: nat
  m_lastItem :: bytes

definition rlp_cache0 :: rlp_cache where
  "rlp_cache0 = \<lparr>m_lastIndex = 2 ^ 64 - 1, m_lastEnd = 0, m_lastItem = []\<rparr>"

function rlp_at_loop :: "bytes \<Rightarrow> nat \<Rightarrow> rlp_cache \<Rightarrow> rlp_cache result" where
  "rlp_at_loop d i c =
     (if m_lastIndex c < i \<and> length (m_lastItem c) \<noteq> 0 then
        bindE (rlp_payload d) (\<lambda>p.
          let it = cropped_from p (m_lastEnd c) in
          bindE (rlp_sizeAsEncoded it) (\<lambda>n.
            let it' = cropped it 0 n in
            rlp_at_loop d i \<lparr>m_lastIndex = Suc (m_lastIndex c), m_lastEnd = m_lastEnd c + length it', m_lastItem = it'\<rparr>))
      else Inr c)"
  by pat_completeness auto
termination
  by (relation "measure (\<lambda>(d, i, c). i - m_lastIndex c)") auto

declare rlp_at_loop.simps [simp del]

definition rlp_at :: "bytes \<Rightarrow> nat \<Rightarrow> rlp_cache \<Rightarrow> (bytes \<times> rlp_cache) result" where
  "rlp_at d i c =
     bindE
       (if i < m_lastIndex c then
          bindE (rlp_payload d) (\<lambda>p. bindE (rlp_sizeAsEncoded p) (\<lambda>e.
            Inr \<lparr>m_lastIndex = 0, m_lastEnd = e, m_lastItem = cropped p 0 e\<rparr>))
        else Inr c)
       (\<lambda>c. bindE (rlp_at_loop d i c) (\<lambda>c.
         bindE (RLP (m_lastItem c) (ThrowOnFail OR FailIfTooSmall)) (\<lambda>r. Inr (r, c))))"

text \<open>
  The iterator over the items of a list. The current item is a view into the parent's buffer;
  \<open>it_after\<close> is what follows it in that buffer, so that the position of the view, which
  \<open>operator==\<close> compares, is the distance to the end of the buffer.
\<close>

record rlp_iter =
  it_remaining :: nat
  it_current :: bytes
  it_after :: bytes

definition rlp_iterator :: "bytes \<Rightarrow> bool \<Rightarrow> rlp_iter result" where
  "rlp_iterator parent begin =
     (if begin \<and> rlp_isList parent then
        bindE (rlp_payload parent) (\<lambda>pl. bindE (rlp_sizeAsEncoded pl) (\<lambda>n.
          let cur = cropped pl 0 n in
          Inr \<lparr>it_remaining = length pl - length cur, it_current = cur,
               it_after = drop (rlp_payloadOffset parent + length cur) parent\<rparr>))
      else Inr \<lparr>it_remaining = 0, it_current = [], it_after = []\<rparr>)"

definition rlp_iter_next :: "rlp_iter \<Rightarrow> rlp_iter result" where
  "rlp_iter_next it =
     (if it_remaining it \<noteq> 0 then
        let c = take (it_remaining it) (it_after it) in
        bindE (rlp_sizeAsEncoded c) (\<lambda>n.
          let cur = cropped c 0 n in
          Inr \<lparr>it_remaining = it_remaining it - min (it_remaining it) (length cur),
               it_current = cur, it_after = drop (length cur) (it_after it)\<rparr>)
      else Inr (it\<lparr>it_current := []\<rparr>))"

definition rlp_iter_eq :: "rlp_iter \<Rightarrow> rlp_iter \<Rightarrow> bool" where
  "rlp_iter_eq a b =
     (length (it_current a) + length (it_after a) = length (it_current b) + length (it_after b) \<and>
      length (it_current a) = length (it_current b))"

text \<open>
  The range-for loop of \<open>toList\<close>; \<open>None\<close> stands for a loop that never reaches the end
  position.
\<close>

partial_function (option) rlp_collect :: "rlp_iter \<Rightarrow> rlp_iter \<Rightarrow> bytes list \<Rightarrow> bytes list result option" where
  "rlp_collect it end_it ret =
     (if rlp_iter_eq it end_it then Some (Inr ret)
      else case RLP (it_current it) VeryStrict of
        Inl e \<Rightarrow> Some (Inl e)
      | Inr r \<Rightarrow>
        (case rlp_iter_next it of
           Inl e \<Rightarrow> Some (Inl e)
         | Inr it' \<Rightarrow> rlp_collect it' end_it (ret @ [r])))"

definition rlp_toList :: "bytes \<Rightarrow> bytes list result option" where
  "rlp_toList d =
     (if \<not> rlp_isList d then Some (Inr [])
      else case rlp_iterator d True of
        Inl e \<Rightarrow> Some (Inl e)
      | Inr b \<Rightarrow>
        (case rlp_iterator d False of
           Inl e \<Rightarrow> Some (Inl e)
         | Inr e \<Rightarrow> rlp_collect b e []))"

text \<open>\<open>toPair\<close>: the two items of a list of two, each converted by a cast.\<close>

definition rlp_toPair :: "(bytes \<Rightarrow> 'a result) \<Rightarrow> (bytes \<Rightarrow> 'b result) \<Rightarrow> bytes \<Rightarrow> rlp_cache \<Rightarrow> ('a \<times> 'b) result" where
  "rlp_toPair f g d c =
     bindE (rlp_itemCountStrict d) (\<lambda>n.
       if n \<noteq> 2 then Inl BadCast
       else bindE (rlp_at d 0 c) (\<lambda>(r0, c). bindE (f r0) (\<lambda>x.
            bindE (rlp_at d 1 c) (\<lambda>(r1, c). bindE (g r1) (\<lambda>y. Inr (x, y))))))"

section \<open>Lemmas: reading a header\<close>

lemma cropped_take [simp]: "n \<le> length d \<Longrightarrow> cropped d 0 n = take n d"
  by (simp add: cropped_def)

lemma unat_of_nat_lt: "n < 256 \<Longrightarrow> unat (word_of_nat n :: byte) = n"
  by simp

text \<open>
  A well-formed header of kind \<open>base\<close> (\<open>0x80\<close> for strings, \<open>0xc0\<close> for lists) for a payload of
  \<open>n\<close> bytes, followed by anything. A one-byte string in this form must be \<open>0x80\<close> or more.
\<close>

definition header_ok :: "nat \<Rightarrow> nat \<Rightarrow> bytes \<Rightarrow> bool" where
  "header_ok base n t \<longleftrightarrow> (base = 0x80 \<or> base = 0xc0) \<and> n < rlp_max_size \<and> n \<le> length t \<and>
     (base = 0x80 \<and> n = 1 \<longrightarrow> 0x80 \<le> unat (hd t))"

lemma header_first:
  assumes "n < rlp_max_size" and "base = 0x80 \<or> base = 0xc0"
  shows "\<exists>h. rlp_header base n = h # (if n < 56 then [] else toCompactBigEndian n 0) \<and>
     unat h = (if n < 56 then base + n else base + 55 + bytesRequired n)"
proof -
  have "bytesRequired n \<le> 8" using assms(1) by (intro bytesRequired_le_8) (simp add: rlp_max_size_def)
  then show ?thesis using assms(2)
    by (auto simp: rlp_header_def simp del: of_nat_add intro!: unat_of_nat_lt)
qed

lemma header_read:
  assumes ok: "header_ok base n t"
  defines "d \<equiv> rlp_header base n @ t"
  shows "rlp_length d = Inr n"
    and "rlp_payloadOffset d = length (rlp_header base n)"
    and "rlp_isList d \<longleftrightarrow> base = 0xc0" and "rlp_isData d \<longleftrightarrow> base = 0x80"
    and "\<not> rlp_isSingleByte d" and "rlp_requireGood d = Inr ()"
proof -
  have base: "base = 0x80 \<or> base = 0xc0" and n: "n < rlp_max_size" "n \<le> length t"
    using ok by (auto simp: header_ok_def)
  have br8: "bytesRequired n \<le> 8" using n(1) by (intro bytesRequired_le_8) (simp add: rlp_max_size_def)
  obtain h where h: "rlp_header base n = h # (if n < 56 then [] else toCompactBigEndian n 0)"
      "unat h = (if n < 56 then base + n else base + 55 + bytesRequired n)"
    using header_first [OF n(1) base] by blast
  have d0: "d \<noteq> []" "d ! 0 = h" by (simp_all add: d_def h)
  have brpos: "\<not> n < 56 \<Longrightarrow> 0 < bytesRequired n" by simp
  note basic = d0 h(2) rlp_isNull_def rlp_constants
  show "rlp_isList d \<longleftrightarrow> base = 0xc0" "rlp_isData d \<longleftrightarrow> base = 0x80" "\<not> rlp_isSingleByte d"
    using base br8 brpos by (auto simp: rlp_isList_def rlp_isData_def rlp_isSingleByte_def basic)
  show offset: "rlp_payloadOffset d = length (rlp_header base n)"
    using base br8 brpos by (auto simp: rlp_payloadOffset_def rlp_lengthSize_def rlp_isSingleByte_def
        rlp_isList_def rlp_isData_def length_rlp_header basic)
  show good: "rlp_requireGood d = Inr ()"
  proof (cases "base = 0x80 \<and> n = 1")
    case True
    have "d = h # t" unfolding d_def h(1) using True by simp
    moreover have "t \<noteq> []" using True n(2) by auto
    ultimately show ?thesis using True ok
      by (cases t) (simp_all add: rlp_requireGood_def header_ok_def basic)
  next
    case False
    then show ?thesis using base br8 brpos by (auto simp: rlp_requireGood_def basic)
  qed
  show "rlp_length d = Inr n"
  proof (cases "n < 56")
    case True
    then show ?thesis using base by (auto simp: rlp_length_def good basic)
  next
    case False
    let ?br = "bytesRequired n"
    have br0: "0 < ?br" using False by simp
    have d_eq: "d = h # toCompactBigEndian n 0 @ t" using False by (simp add: d_def h)
    have d1: "d ! 1 = hd (toCompactBigEndian n 0)"
      using br0 by (simp add: d_eq nth_append hd_conv_nth)
    then have d1nz: "d ! 1 \<noteq> 0" using hd_toCompact [of n] False by simp
    have "take ?br (drop 1 d) = toCompactBigEndian n 0" by (simp add: d_eq)
    then have ret: "fromBigEndian 64 (take ?br (drop 1 d)) = n"
      using br8 by (simp add: fromBigEndian_fits)
    have "rlp_longLength d ?br 56 = Inr n"
      using d1nz br8 False n(1) ret
      by (simp add: rlp_longLength_def Let_def rlp_max_size_def) (simp add: d_eq)
    then show ?thesis using base br8 False br0 by (auto simp: rlp_length_def good basic)
  qed
qed

lemma header_payload:
  assumes ok: "header_ok base n t"
  shows "rlp_payload (rlp_header base n @ t) = Inr (take n t)"
    and "rlp_actualSize (rlp_header base n @ t) = Inr (length (rlp_header base n) + n)"
proof -
  have n: "n \<le> length t" and base: "base = 0x80 \<or> base = 0xc0" using ok by (auto simp: header_ok_def)
  show "rlp_payload (rlp_header base n @ t) = Inr (take n t)"
    using n by (simp add: rlp_payload_def header_read [OF ok] cropped_def)
  have "rlp_header base n @ t \<noteq> []" by (simp add: rlp_header_def)
  then show "rlp_actualSize (rlp_header base n @ t) = Inr (length (rlp_header base n) + n)"
    using base by (auto simp: rlp_actualSize_def header_read [OF ok] rlp_isNull_def)
qed

section \<open>Lemmas: reading an encoded item\<close>

text \<open>The payload of an item, and what the reader finds at the front of a buffer.\<close>

fun rlp_payload_of :: "rlp_item \<Rightarrow> bytes" where
  "rlp_payload_of (RStr b) = b"
| "rlp_payload_of (RList xs) = concat (map rlp_encode xs)"

fun is_RList :: "rlp_item \<Rightarrow> bool" where
  "is_RList (RStr b) = False"
| "is_RList (RList xs) = True"

lemma rlp_encode_cases:
  assumes "rlp_fits x"
  obtains (single) c where "x = RStr [c]" "unat c < 0x80" "rlp_encode x = [c]"
  | (header) base where "rlp_encode x = rlp_header base (length (rlp_payload_of x)) @ rlp_payload_of x"
      "\<And>r. header_ok base (length (rlp_payload_of x)) (rlp_payload_of x @ r)"
      "base = 0xc0 \<longleftrightarrow> is_RList x" "base = 0x80 \<longleftrightarrow> \<not> is_RList x"
proof (cases x)
  case (RStr b)
  show ?thesis
  proof (cases "length b = 1 \<and> unat (hd b) < 0x80")
    case True
    then obtain c where "b = [c]" by (cases b) auto
    with True RStr single show ?thesis by (simp add: rlp_string_def)
  next
    case False
    have "header_ok 0x80 (length b) (b @ r)" for r
      using False RStr assms by (cases b) (auto simp: header_ok_def)
    with False RStr header [of "0x80"] show ?thesis by (auto simp: rlp_string_def)
  qed
next
  case (RList xs)
  with assms header [of "0xc0"] show ?thesis by (auto simp: header_ok_def Let_def)
qed

lemma rlp_read_item_all:
  assumes "rlp_fits x"
  shows "rlp_actualSize (rlp_encode x @ r) = Inr (length (rlp_encode x)) \<and>
    rlp_payload (rlp_encode x @ r) = Inr (rlp_payload_of x) \<and>
    rlp_length (rlp_encode x @ r) = Inr (length (rlp_payload_of x)) \<and>
    rlp_isList (rlp_encode x @ r) = is_RList x \<and>
    rlp_isData (rlp_encode x @ r) = (\<not> is_RList x) \<and>
    rlp_payloadOffset (rlp_encode x @ r) + length (rlp_payload_of x) = length (rlp_encode x)"
proof (rule rlp_encode_cases [OF assms])
  fix c assume x: "x = RStr [c]" "unat c < 0x80" "rlp_encode x = [c]"
  show "rlp_actualSize (rlp_encode x @ r) = Inr (length (rlp_encode x)) \<and>
    rlp_payload (rlp_encode x @ r) = Inr (rlp_payload_of x) \<and>
    rlp_length (rlp_encode x @ r) = Inr (length (rlp_payload_of x)) \<and>
    rlp_isList (rlp_encode x @ r) = is_RList x \<and>
    rlp_isData (rlp_encode x @ r) = (\<not> is_RList x) \<and>
    rlp_payloadOffset (rlp_encode x @ r) + length (rlp_payload_of x) = length (rlp_encode x)"
    using x(2) unfolding x(3) unfolding x(1)
    by (auto simp: rlp_actualSize_def rlp_payload_def rlp_length_def rlp_requireGood_def rlp_isSingleByte_def
        rlp_payloadOffset_def rlp_isList_def rlp_isData_def rlp_isNull_def rlp_constants cropped_def)
next
  fix base
  assume e: "rlp_encode x = rlp_header base (length (rlp_payload_of x)) @ rlp_payload_of x"
    and ok: "\<And>r. header_ok base (length (rlp_payload_of x)) (rlp_payload_of x @ r)"
    and base: "(base = 0xc0) = is_RList x" "(base = 0x80) = (\<not> is_RList x)"
  show "rlp_actualSize (rlp_encode x @ r) = Inr (length (rlp_encode x)) \<and>
    rlp_payload (rlp_encode x @ r) = Inr (rlp_payload_of x) \<and>
    rlp_length (rlp_encode x @ r) = Inr (length (rlp_payload_of x)) \<and>
    rlp_isList (rlp_encode x @ r) = is_RList x \<and>
    rlp_isData (rlp_encode x @ r) = (\<not> is_RList x) \<and>
    rlp_payloadOffset (rlp_encode x @ r) + length (rlp_payload_of x) = length (rlp_encode x)"
    using base unfolding e
    by (simp add: header_read [OF ok [of r]] header_payload [OF ok [of r]])
qed

lemma rlp_read_item:
  assumes "rlp_fits x"
  shows "rlp_actualSize (rlp_encode x @ r) = Inr (length (rlp_encode x))"
    and "rlp_payload (rlp_encode x @ r) = Inr (rlp_payload_of x)"
    and "rlp_length (rlp_encode x @ r) = Inr (length (rlp_payload_of x))"
    and "rlp_isList (rlp_encode x @ r) = is_RList x"
    and "rlp_isData (rlp_encode x @ r) = (\<not> is_RList x)"
    and "rlp_payloadOffset (rlp_encode x @ r) + length (rlp_payload_of x) = length (rlp_encode x)"
  using rlp_read_item_all [OF assms, of r] by simp_all

lemma rlp_encode_nonempty [simp]: "rlp_fits x \<Longrightarrow> rlp_encode x \<noteq> []"
  by (erule rlp_encode_cases) (auto simp: rlp_header_def)

lemma rlp_sizeAsEncoded_item [simp]:
  "rlp_fits x \<Longrightarrow> rlp_sizeAsEncoded (rlp_encode x @ r) = Inr (length (rlp_encode x))"
  by (simp add: rlp_sizeAsEncoded_eq rlp_read_item)

text \<open>Encoded items form a prefix code: the reader's scan finds where the first one ends.\<close>

definition rlp_scan :: "bytes \<Rightarrow> (bytes \<times> bytes) option" where
  "rlp_scan d = (case rlp_sizeAsEncoded d of Inl e \<Rightarrow> None | Inr n \<Rightarrow> Some (take n d, drop n d))"

interpretation rlpc: prefix_code "\<lambda>b. b" rlp_scan "\<lambda>b. \<exists>x. rlp_fits x \<and> b = rlp_encode x"
  by unfold_locales (auto simp: rlp_scan_def)

lemmas rlp_read_item_nil = rlp_read_item [where r = "[]", simplified]

lemma RLP_item: "rlp_fits x \<Longrightarrow> RLP (rlp_encode x) VeryStrict = Inr (rlp_encode x)"
  by (simp add: RLP_VeryStrict rlp_read_item_nil)

lemma RLP_item_scan: "rlp_fits x \<Longrightarrow> RLP (rlp_encode x) (ThrowOnFail OR FailIfTooSmall) = Inr (rlp_encode x)"
  by (simp add: RLP_scan rlp_read_item_nil)

lemma rlp_toBytes_item: "rlp_fits (RStr b) \<Longrightarrow> rlp_toBytes (rlp_encode (RStr b)) = Inr b"
  using rlp_read_item_nil [of "RStr b"] by (simp add: rlp_toBytes_def)

section \<open>Lemmas: lists\<close>

abbreviation encs :: "rlp_item list \<Rightarrow> bytes" where
  "encs xs \<equiv> concat (map rlp_encode xs)"

lemma rlp_items_loop_encs: "list_all rlp_fits xs \<Longrightarrow> rlp_items_loop (encs xs) i = Inr (i + length xs)"
proof (induction xs arbitrary: i)
  case (Cons x xs)
  then have "encs (x # xs) \<noteq> []" by simp
  with Cons show ?case
    by (subst rlp_items_loop.simps) (simp add: cropped_from_def)
qed (simp add: rlp_items_loop.simps)

lemma rlp_items_list: "rlp_fits (RList xs) \<Longrightarrow> rlp_items (rlp_encode (RList xs)) = Inr (length xs)"
  using rlp_read_item_nil [of "RList xs"] by (simp add: rlp_items_def rlp_items_loop_encs del: rlp_encode.simps)

text \<open>The iterator standing on item \<open>i\<close> of a list.\<close>

definition iter_at :: "rlp_item list \<Rightarrow> rlp_iter" where
  "iter_at xs = (case xs of [] \<Rightarrow> \<lparr>it_remaining = 0, it_current = [], it_after = []\<rparr>
     | x # ys \<Rightarrow> \<lparr>it_remaining = length (encs ys), it_current = rlp_encode x, it_after = encs ys\<rparr>)"

lemma rlp_iter_next_at:
  assumes "list_all rlp_fits (x # xs)"
  shows "rlp_iter_next (iter_at (x # xs)) = Inr (iter_at xs)"
proof (cases xs)
  case Nil
  then show ?thesis by (simp add: rlp_iter_next_def iter_at_def)
next
  case (Cons y ys)
  with assms have "encs xs \<noteq> []" by simp
  with Cons assms show ?thesis by (simp add: rlp_iter_next_def iter_at_def)
qed

lemma rlp_collect_at:
  "list_all rlp_fits xs \<Longrightarrow> rlp_collect (iter_at xs) (iter_at []) ret = Some (Inr (ret @ map rlp_encode xs))"
proof (induction xs arbitrary: ret)
  case Nil
  show ?case by (simp add: rlp_collect.simps rlp_iter_eq_def)
next
  case (Cons x xs)
  then have "rlp_encode x \<noteq> []" by simp
  then have "\<not> rlp_iter_eq (iter_at (x # xs)) (iter_at [])"
    by (simp add: rlp_iter_eq_def iter_at_def)
  moreover have "RLP (it_current (iter_at (x # xs))) VeryStrict = Inr (rlp_encode x)"
    using Cons.prems by (simp add: iter_at_def RLP_item)
  ultimately show ?case
    using Cons rlp_iter_next_at [OF Cons.prems] by (simp add: rlp_collect.simps)
qed

lemma rlp_iterator_begin:
  assumes "rlp_fits (RList xs)"
  shows "rlp_iterator (rlp_encode (RList xs)) True = Inr (iter_at xs)"
proof -
  have fits: "list_all rlp_fits xs" using assms by simp
  note read = rlp_read_item_nil [OF assms]
  have off: "drop (rlp_payloadOffset (rlp_encode (RList xs)) + n) (rlp_encode (RList xs)) = drop n (encs xs)" for n
  proof -
    have "rlp_encode (RList xs) = rlp_header 0xc0 (length (encs xs)) @ encs xs" by (simp add: Let_def)
    moreover from this have "rlp_payloadOffset (rlp_encode (RList xs)) = length (rlp_header 0xc0 (length (encs xs)))"
      using read(6) by simp
    ultimately show ?thesis by simp
  qed
  show ?thesis
  proof (cases xs)
    case Nil
    have "rlp_sizeAsEncoded [] = Inr 0" by (simp add: rlp_sizeAsEncoded_eq rlp_actualSize_def rlp_isNull_def)
    with Nil read off [of 0] show ?thesis
      by (simp add: rlp_iterator_def iter_at_def Let_def del: rlp_encode.simps)
  next
    case (Cons x ys)
    have "rlp_sizeAsEncoded (encs xs) = Inr (length (rlp_encode x))" using Cons fits by simp
    with Cons read off show ?thesis
      by (simp add: rlp_iterator_def iter_at_def Let_def del: rlp_encode.simps)
  qed
qed

lemma rlp_toList_list:
  assumes "rlp_fits (RList xs)"
  shows "rlp_toList (rlp_encode (RList xs)) = Some (Inr (map rlp_encode xs))"
proof -
  have "rlp_iterator (rlp_encode (RList xs)) False = Inr (iter_at [])"
    by (simp add: rlp_iterator_def iter_at_def)
  then show ?thesis
    using assms rlp_read_item_nil(4) [OF assms]
    by (simp add: rlp_toList_def rlp_iterator_begin rlp_collect_at del: rlp_encode.simps)
qed

section \<open>Lemmas: the cached item access\<close>

text \<open>
  Item \<open>i\<close> of a list, the null view beyond its end; what the cache records once item \<open>k\<close>
  has been reached; and the caches that can occur: the initial one, and those that stand on an
  item or just past the last one.
\<close>

definition item_at :: "rlp_item list \<Rightarrow> nat \<Rightarrow> bytes" where
  "item_at xs i = (if i < length xs then rlp_encode (xs ! i) else [])"

definition cache_at :: "rlp_item list \<Rightarrow> nat \<Rightarrow> rlp_cache" where
  "cache_at xs k = \<lparr>m_lastIndex = k, m_lastEnd = length (encs (take (Suc k) xs)), m_lastItem = item_at xs k\<rparr>"

definition cache_inv :: "rlp_item list \<Rightarrow> rlp_cache \<Rightarrow> bool" where
  "cache_inv xs c \<longleftrightarrow> c = rlp_cache0 \<or> (\<exists>k \<le> length xs. c = cache_at xs k)"

lemma drop_encs: "drop (length (encs (take k xs))) (encs xs) = encs (drop k xs)"
proof -
  have "encs xs = encs (take k xs) @ encs (drop k xs)"
    by (metis append_take_drop_id concat_append map_append)
  then show ?thesis by simp
qed

lemma rlp_sizeAsEncoded_Nil: "rlp_sizeAsEncoded [] = Inr 0"
  by (simp add: rlp_sizeAsEncoded_eq rlp_actualSize_def rlp_isNull_def)

lemma rlp_sizeAsEncoded_encs_drop:
  "list_all rlp_fits xs \<Longrightarrow> rlp_sizeAsEncoded (encs (drop k xs)) = Inr (length (item_at xs k))"
proof (cases "k < length xs")
  case True
  moreover assume "list_all rlp_fits xs"
  ultimately show ?thesis
    by (simp add: item_at_def list_all_length flip: Cons_nth_drop_Suc)
qed (simp add: item_at_def rlp_sizeAsEncoded_Nil)

lemma take_item_at: "take (length (item_at xs k)) (encs (drop k xs)) = item_at xs k"
  by (cases "k < length xs") (simp_all add: item_at_def flip: Cons_nth_drop_Suc)

lemma length_encs_take_Suc: "length (encs (take (Suc k) xs)) = length (encs (take k xs)) + length (item_at xs k)"
  by (cases "k < length xs") (simp_all add: item_at_def take_Suc_conv_app_nth)

lemma item_at_Nil_iff: "list_all rlp_fits xs \<Longrightarrow> item_at xs k = [] \<longleftrightarrow> length xs \<le> k"
  by (auto simp: item_at_def list_all_length)

lemma m_lastItem_cache_at [simp]: "m_lastItem (cache_at xs k) = item_at xs k"
  by (simp add: cache_at_def)

lemma item_at_min: "item_at xs (min i (length xs)) = item_at xs i"
  by (simp add: item_at_def min_def)

lemma rlp_at_loop_cache:
  assumes fits: "rlp_fits (RList xs)"
  shows "k \<le> length xs \<Longrightarrow> k \<le> i \<Longrightarrow>
    rlp_at_loop (rlp_encode (RList xs)) i (cache_at xs k) = Inr (cache_at xs (min i (length xs)))"
proof (induction "i - k" arbitrary: k)
  case 0
  then show ?case by (simp add: rlp_at_loop.simps cache_at_def min_absorb1 del: rlp_encode.simps)
next
  case (Suc m)
  have all: "list_all rlp_fits xs" using fits by simp
  show ?case
  proof (cases "k = length xs")
    case True
    with Suc item_at_Nil_iff [OF all, of k] show ?thesis
      by (simp add: rlp_at_loop.simps cache_at_def min_absorb2 del: rlp_encode.simps)
  next
    case False
    have it: "cropped_from (encs xs) (length (encs (take (Suc k) xs))) = encs (drop (Suc k) xs)"
      by (metis (no_types) drop_encs cropped_from_def append_take_drop_id concat_append length_append map_append le_add1)
    have le: "length (item_at xs (Suc k)) \<le> length (encs (drop (Suc k) xs))"
      using take_item_at [of xs "Suc k"] by (metis length_take min.cobounded1 min.cobounded2)
    have "k < i" using Suc.hyps(2) by simp
    then have "rlp_at_loop (rlp_encode (RList xs)) i (cache_at xs k) =
          rlp_at_loop (rlp_encode (RList xs)) i (cache_at xs (Suc k))"
      using Suc.prems False item_at_Nil_iff [OF all, of k] rlp_read_item_nil(2) [OF fits]
      by (subst rlp_at_loop.simps)
        (simp add: cache_at_def it rlp_sizeAsEncoded_encs_drop [OF all] le take_item_at
          length_encs_take_Suc [of "Suc k"] Let_def del: rlp_encode.simps)
    with Suc False show ?thesis by (simp del: rlp_encode.simps)
  qed
qed

lemma rlp_at_cached:
  assumes fits: "rlp_fits (RList xs)" and c: "cache_inv xs c" and i: "i < 2 ^ 64 - 1"
  shows "rlp_at (rlp_encode (RList xs)) i c = Inr (item_at xs i, cache_at xs (min i (length xs)))"
proof -
  have all: "list_all rlp_fits xs" using fits by simp
  have scan: "RLP (item_at xs i) (ThrowOnFail OR FailIfTooSmall) = Inr (item_at xs i)"
  proof (cases "i < length xs")
    case True
    then show ?thesis using all by (simp add: item_at_def RLP_item_scan list_all_length)
  next
    case False
    then show ?thesis by (simp add: item_at_def RLP_scan rlp_actualSize_def rlp_isNull_def)
  qed
  have le: "length (item_at xs 0) \<le> length (encs xs)"
    using take_item_at [of xs 0] by (metis drop0 length_take min.cobounded1 min.cobounded2)
  have reset: "rlp_sizeAsEncoded (encs xs) = Inr (length (item_at xs 0))"
    "cropped (encs xs) 0 (length (item_at xs 0)) = item_at xs 0"
    "length (encs (take (Suc 0) xs)) = length (item_at xs 0)"
    using rlp_sizeAsEncoded_encs_drop [OF all, of 0] take_item_at [of xs 0] le
      length_encs_take_Suc [of 0 xs] by simp_all
  obtain k where k: "k \<le> length xs" "k \<le> i"
    "(if i < m_lastIndex c then
        bindE (rlp_payload (rlp_encode (RList xs))) (\<lambda>p. bindE (rlp_sizeAsEncoded p) (\<lambda>e.
          Inr \<lparr>m_lastIndex = 0, m_lastEnd = e, m_lastItem = cropped p 0 e\<rparr>))
      else Inr c) = Inr (cache_at xs k)"
  proof (cases "i < m_lastIndex c")
    case True
    then show ?thesis
      using that [of 0] rlp_read_item_nil(2) [OF fits] reset
      by (simp add: cache_at_def del: rlp_encode.simps)
  next
    case False
    with c i show ?thesis
      using that by (auto simp: cache_inv_def rlp_cache0_def cache_at_def)
  qed
  show ?thesis
    unfolding rlp_at_def k(3)
    by (simp add: rlp_at_loop_cache [OF fits k(1,2)] item_at_min scan del: rlp_encode.simps)
qed

section \<open>Lemmas: integers and injectivity\<close>

lemma rlp_toInt_RInt:
  assumes n: "n < 256 ^ maxSize" and size: "maxSize \<le> 32"
  shows "rlp_toInt maxSize Strict (rlp_encode (RInt n)) = Inr n"
proof -
  have br: "bytesRequired n \<le> maxSize" using n by (simp add: bytesRequired_le_iff)
  have fits: "rlp_fits (RInt n)" using br size by (simp add: RInt_def rlp_max_size_def)
  let ?d = "rlp_encode (RInt n)"
  have pay: "rlp_payload ?d = Inr (toCompactBigEndian n 0)" "\<not> rlp_isList ?d" "\<not> rlp_isNull ?d"
    using rlp_read_item_nil [OF fits] rlp_encode_nonempty [OF fits] by (simp_all add: RInt_def rlp_isNull_def del: rlp_encode.simps)
  have val: "fromBigEndian (8 * maxSize) (toCompactBigEndian n 0) = n"
    using br by (simp add: fromBigEndian_fits)
  have good: "rlp_requireGood ?d = Inr () \<and> rlp_isInt ?d = Inr True"
  proof (rule rlp_encode_cases [OF fits])
    fix c assume "RInt n = RStr [c]" "unat c < 0x80" and e: "?d = [c]"
    moreover from this have "c \<noteq> 0"
      using hd_toCompact [of n] by (cases "n = 0") (simp_all add: RInt_def toCompactBigEndian_def)
    ultimately show ?thesis
      unfolding e by (simp add: rlp_requireGood_def rlp_isInt_def rlp_isNull_def rlp_constants unat_eq_zero)
  next
    fix base
    assume e: "?d = rlp_header base (length (rlp_payload_of (RInt n))) @ rlp_payload_of (RInt n)"
      and ok: "\<And>r. header_ok base (length (rlp_payload_of (RInt n))) (rlp_payload_of (RInt n) @ r)"
      and b: "(base = 0x80) = (\<not> is_RList (RInt n))"
    have e': "?d = word_of_nat (0x80 + bytesRequired n) # toCompactBigEndian n 0"
      using e b br size by (simp add: RInt_def rlp_header_def)
    have "unat (word_of_nat (0x80 + bytesRequired n) :: byte) = 0x80 + bytesRequired n"
      using br size by (intro unat_of_nat_lt) simp
    moreover have good: "rlp_requireGood ?d = Inr ()"
      using header_read(6) [OF ok [of "[]"]] e by simp
    moreover have "0 < n \<Longrightarrow> toCompactBigEndian n 0 ! 0 \<noteq> 0"
      using hd_toCompact [of n] by (simp add: hd_conv_nth)
    ultimately show ?thesis
      using br size good unfolding e'
      by (cases "n = 0") (auto simp: rlp_isInt_def rlp_isNull_def rlp_constants simp del: of_nat_add)
  qed
  have "Strict AND ThrowOnFail \<noteq> 0" by (simp add: rlp_flags)
  then show ?thesis using good pay val br by (simp add: rlp_toInt_def del: rlp_encode.simps)
qed

lemma rlp_encode_inj:
  "rlp_fits x \<Longrightarrow> rlp_fits y \<Longrightarrow> rlp_encode x = rlp_encode y \<longleftrightarrow> x = y"
proof (induction x arbitrary: y)
  case (RStr b)
  show ?case
  proof
    assume eq: "rlp_encode (RStr b) = rlp_encode y"
    then have "\<not> is_RList y"
      using rlp_read_item_nil(4) [OF RStr(1)] rlp_read_item_nil(4) [OF RStr(2)] by simp
    then obtain c where y: "y = RStr c" by (cases y) auto
    with eq RStr rlp_toBytes_item [of b] rlp_toBytes_item [of c] show "RStr b = y" by simp
  qed simp
next
  case (RList xs)
  show ?case
  proof
    assume eq: "rlp_encode (RList xs) = rlp_encode y"
    then have "is_RList y"
      using rlp_read_item_nil(4) [OF RList.prems(1)] rlp_read_item_nil(4) [OF RList.prems(2)]
      by (simp del: rlp_encode.simps)
    then obtain ys where y: "y = RList ys" by (cases y) auto
    have "map rlp_encode xs = map rlp_encode ys"
      using rlp_toList_list [OF RList.prems(1)] rlp_toList_list [of ys] RList.prems(2) eq y
      by (simp del: rlp_encode.simps)
    then have len: "length xs = length ys"
      and each: "\<And>i. i < length xs \<Longrightarrow> rlp_encode (xs ! i) = rlp_encode (ys ! i)"
      by (auto dest: map_eq_imp_length_eq simp: list_eq_iff_nth_eq)
    have "xs ! i = ys ! i" if "i < length xs" for i
      using RList.IH [of "xs ! i" "ys ! i"] each [OF that] that len RList.prems y
      by (auto simp: list_all_length)
    with len y show "RList xs = y" by (simp add: list_eq_iff_nth_eq)
  qed simp
qed

section \<open>Claims\<close>

text \<open>C19: The stream writer and the reader of RLP agree: a list written with \<open>appendList\<close> and \<open>append\<close>
  comes out as the format's encoding, the strict reader accepts exactly these bytes, counts the
  items, and the iterator returns every item's encoding in order.\<close>

theorem rlp_write_read:
  assumes "rlp_fits (RList xs)"
  shows "\<exists>d. bindE (rlp_write (RList xs) rlp_empty) rlp_out = Inr d \<and> d = rlp_encode (RList xs) \<and>
    RLP d VeryStrict = Inr d \<and> rlp_itemCountStrict d = Inr (length xs) \<and> rlp_toList d = Some (Inr (map rlp_encode xs))"
proof -
  have "bindE (rlp_write (RList xs) rlp_empty) rlp_out = Inr (rlp_encode (RList xs))"
    using rlp_write_writes [OF assms] by (simp add: writes_def rlp_empty_def rlp_out_def del: rlp_encode.simps rlp_write.simps)
  then show ?thesis
    using RLP_item [OF assms] rlp_items_list [OF assms] rlp_toList_list [OF assms] rlp_read_item_nil(4) [OF assms]
    by (simp add: rlp_itemCountStrict_def del: rlp_encode.simps rlp_write.simps)
qed

theorem rlp_write_read_witness:
  "\<exists>d. bindE (rlp_write (RList [RStr [1], RStr [2, 3]]) rlp_empty) rlp_out = Inr d \<and> rlp_itemCountStrict d = Inr 2"
  using rlp_write_read [of "[RStr [1], RStr [2, 3]]"]
  by (simp add: rlp_max_size_def rlp_string_def rlp_header_def)

text \<open>C33: Random access with the reader's cache: in whatever state earlier accesses have left the cache of a
  list, \<open>operator[]\<close> returns the encoding of item \<open>i\<close>, or the null item past the end, and leaves a cache
  that is right again; this is for every index but the largest, which the cache uses as a mark.\<close>

theorem rlp_random_access:
  assumes "rlp_fits (RList xs)" and "cache_inv xs c" and "i < 2 ^ 64 - 1"
  shows "\<exists>c'. rlp_at (rlp_encode (RList xs)) i c = Inr (if i < length xs then rlp_encode (xs ! i) else [], c') \<and> cache_inv xs c'"
proof (intro exI conjI)
  show "cache_inv xs (cache_at xs (min i (length xs)))"
    unfolding cache_inv_def by (intro disjI2 exI [of _ "min i (length xs)"]) simp
qed (use rlp_at_cached [OF assms] in \<open>simp add: item_at_def del: rlp_encode.simps\<close>)

theorem rlp_random_access_witness:
  "\<exists>c'. rlp_at (rlp_encode (RList [RStr [1], RStr [2, 3]])) 1 rlp_cache0 = Inr (rlp_encode (RStr [2, 3]), c')"
proof -
  have "rlp_fits (RList [RStr [1], RStr [2, 3]])" by (simp add: rlp_max_size_def rlp_string_def rlp_header_def)
  moreover have "cache_inv [RStr [1], RStr [2, 3]] rlp_cache0" by (simp add: cache_inv_def)
  ultimately obtain c' where
    "rlp_at (rlp_encode (RList [RStr [1], RStr [2, 3]])) 1 rlp_cache0 =
      Inr (if 1 < length [RStr [1], RStr [2, 3]] then rlp_encode ([RStr [1], RStr [2, 3]] ! 1) else [], c')"
    using rlp_random_access [of "[RStr [1], RStr [2, 3]]" rlp_cache0 1] by auto
  then show ?thesis by (simp del: rlp_encode.simps)
qed

text \<open>Integers survive: \<open>toInt\<close> with the strict flags reads back the number whose minimal
  big-endian bytes were written, for every width up to 32 bytes, and two items with the same
  encoding are the same item.\<close>

theorem rlp_unambiguous:
  assumes "n < 256 ^ sz" and "sz \<le> 32" and "rlp_fits x" and "rlp_fits y"
  shows "rlp_toInt sz Strict (rlp_encode (RInt n)) = Inr n \<and> (rlp_encode x = rlp_encode y \<longleftrightarrow> x = y)"
  using rlp_toInt_RInt [OF assms(1,2)] rlp_encode_inj [OF assms(3,4)] by blast

theorem rlp_unambiguous_witness: "rlp_toInt 4 Strict (rlp_encode (RInt 1000)) = Inr 1000"
  using rlp_unambiguous [of 1000 4 "RStr []" "RStr []"] by (simp add: rlp_max_size_def)


end
