(* ===== verification/CStdlib.thy ===== *)
theory CStdlib
  imports Complex_Main CommonData
begin

text \<open>
  What the sources use of the C and C++ standard libraries: IEEE 754 binary floating point
  (\<open>float\<close> and \<open>double\<close>, round to nearest even), the conversions between numbers and text,
  and the string helpers of \<open>ethminer/Common.cpp\<close> and \<open>ethminer/Misc.cpp\<close> built on them.

  A finite floating-point number is its rational value; the sign of a zero is not
  represented (a division by zero is taken as one by \<open>+0\<close>).
\<close>

section \<open>Floating point\<close>

datatype fp = Fin rat | Inf bool | NaN

function bitlen :: "int \<Rightarrow> int" where
  "bitlen n = (if n \<le> 0 then 0 else 1 + bitlen (n div 2))"
  by pat_completeness auto
termination
  by (relation "measure nat") auto

declare bitlen.simps [simp del]

text \<open>The greatest \<open>e\<close> with \<open>2 ^ e \<le> q\<close>, for positive \<open>q\<close>.\<close>

definition ilog2 :: "rat \<Rightarrow> int" where
  "ilog2 q = (let (n, d) = quotient_of q; e = bitlen n - bitlen d in
     if 2 powi e \<le> q then e else e - 1)"

definition round_half_even :: "rat \<Rightarrow> int" where
  "round_half_even q =
     (let f = floor q; r = q - of_int f in
      if r < 1 / 2 then f else if r > 1 / 2 then f + 1 else if even f then f else f + 1)"

text \<open>Rounding to precision \<open>p\<close>, least exponent \<open>emin\<close> of a unit, greatest exponent \<open>emax\<close>.\<close>

definition round_fp :: "nat \<Rightarrow> int \<Rightarrow> int \<Rightarrow> rat \<Rightarrow> fp" where
  "round_fp p emin emax q =
     (if q = 0 then Fin 0
      else
        let e = max (ilog2 \<bar>q\<bar> - (int p - 1)) emin;
            u = 2 powi e;
            r = of_int (round_half_even (\<bar>q\<bar> / u)) * u
        in if 2 powi (emax + 1) \<le> r then Inf (q < 0) else Fin (sgn q * r))"

definition dbl :: "rat \<Rightarrow> fp" where "dbl = round_fp 53 (-1074) 1023"
definition flt :: "rat \<Rightarrow> fp" where "flt = round_fp 24 (-149) 127"

text \<open>A \<open>double\<close> assigned to a \<open>float\<close>.\<close>

definition to_flt :: "fp \<Rightarrow> fp" where
  "to_flt x = (case x of Fin q \<Rightarrow> flt q | _ \<Rightarrow> x)"

fun fneg :: "fp \<Rightarrow> fp" where
  "fneg (Fin q) = Fin (- q)"
| "fneg (Inf s) = Inf (\<not> s)"
| "fneg NaN = NaN"

fun fadd :: "(rat \<Rightarrow> fp) \<Rightarrow> fp \<Rightarrow> fp \<Rightarrow> fp" where
  "fadd rnd (Fin a) (Fin b) = rnd (a + b)"
| "fadd rnd (Inf s) (Inf t) = (if s = t then Inf s else NaN)"
| "fadd rnd (Inf s) (Fin b) = Inf s"
| "fadd rnd (Fin a) (Inf t) = Inf t"
| "fadd rnd _ _ = NaN"

definition fsub :: "(rat \<Rightarrow> fp) \<Rightarrow> fp \<Rightarrow> fp \<Rightarrow> fp" where
  "fsub rnd x y = fadd rnd x (fneg y)"

fun fmul :: "(rat \<Rightarrow> fp) \<Rightarrow> fp \<Rightarrow> fp \<Rightarrow> fp" where
  "fmul rnd (Fin a) (Fin b) = rnd (a * b)"
| "fmul rnd (Inf s) (Inf t) = Inf (s \<noteq> t)"
| "fmul rnd (Inf s) (Fin b) = (if b = 0 then NaN else Inf (s \<noteq> (b < 0)))"
| "fmul rnd (Fin a) (Inf t) = (if a = 0 then NaN else Inf ((a < 0) \<noteq> t))"
| "fmul rnd _ _ = NaN"

fun fdiv :: "(rat \<Rightarrow> fp) \<Rightarrow> fp \<Rightarrow> fp \<Rightarrow> fp" where
  "fdiv rnd (Fin a) (Fin b) = (if b = 0 then (if a = 0 then NaN else Inf (a < 0)) else rnd (a / b))"
| "fdiv rnd (Inf s) (Fin b) = Inf (s \<noteq> (b < 0))"
| "fdiv rnd (Fin a) (Inf t) = Fin 0"
| "fdiv rnd _ _ = NaN"

fun fless :: "fp \<Rightarrow> fp \<Rightarrow> bool" where
  "fless (Fin a) (Fin b) = (a < b)"
| "fless (Inf s) (Inf t) = (s \<and> \<not> t)"
| "fless (Inf s) (Fin b) = s"
| "fless (Fin a) (Inf t) = (\<not> t)"
| "fless _ _ = False"

text \<open>\<open>>=\<close> and \<open>==\<close>, false on NaN; \<open>std::max\<close> and \<open>std::min\<close>; \<open>fabs\<close>.\<close>

definition fge :: "fp \<Rightarrow> fp \<Rightarrow> bool" where
  "fge x y = (x \<noteq> NaN \<and> y \<noteq> NaN \<and> \<not> fless x y)"

definition feq :: "fp \<Rightarrow> fp \<Rightarrow> bool" where
  "feq x y = (x \<noteq> NaN \<and> x = y)"

definition fmax :: "fp \<Rightarrow> fp \<Rightarrow> fp" where
  "fmax a b = (if fless a b then b else a)"

definition fmin :: "fp \<Rightarrow> fp \<Rightarrow> fp" where
  "fmin a b = (if fless b a then b else a)"

fun fabs :: "fp \<Rightarrow> fp" where
  "fabs (Fin q) = Fin \<bar>q\<bar>"
| "fabs (Inf s) = Inf False"
| "fabs NaN = NaN"

text \<open>
  Conversion to an integer type with the range \<open>lo..hi\<close>: truncation towards zero; a value out
  of range has no defined result.
\<close>

definition trunc_rat :: "rat \<Rightarrow> int" where
  "trunc_rat q = (if 0 \<le> q then floor q else - floor (- q))"

definition fp_to_int :: "int \<Rightarrow> int \<Rightarrow> fp \<Rightarrow> int result" where
  "fp_to_int lo hi x =
     (case x of
        Fin q \<Rightarrow> (let n = trunc_rat q in if lo \<le> n \<and> n \<le> hi then Inr n else Inl UndefinedBehaviour)
      | _ \<Rightarrow> Inl UndefinedBehaviour)"

definition fp_to_int32 :: "fp \<Rightarrow> int result" where
  "fp_to_int32 = fp_to_int (- (2 ^ 31)) (2 ^ 31 - 1)"

definition fp_to_u64 :: "fp \<Rightarrow> int result" where
  "fp_to_u64 = fp_to_int 0 (2 ^ 64 - 1)"

definition dbl_of_int :: "int \<Rightarrow> fp" where
  "dbl_of_int n = dbl (of_int n)"

definition flt_of_int :: "int \<Rightarrow> fp" where
  "flt_of_int n = flt (of_int n)"

section \<open>Characters and numbers in text\<close>

definition isspace :: "char \<Rightarrow> bool" where
  "isspace c = (c \<in> {CHR '' '', CHR 0x09, CHR 0x0A, CHR 0x0B, CHR 0x0C, CHR 0x0D})"

definition isdigit :: "char \<Rightarrow> bool" where
  "isdigit c = (48 \<le> char_code c \<and> char_code c \<le> 57)"

definition tolower :: "char \<Rightarrow> char" where
  "tolower c = (if 65 \<le> char_code c \<and> char_code c \<le> 90 then char_of (char_code c + 32) else c)"

definition digitVal :: "char \<Rightarrow> nat" where
  "digitVal c = nat (hexVal c)"

definition isDigitOf :: "nat \<Rightarrow> char \<Rightarrow> bool" where
  "isDigitOf base c = (0 \<le> hexVal c \<and> hexVal c < int base)"

definition digitsVal :: "nat \<Rightarrow> string \<Rightarrow> nat" where
  "digitsVal base ds = foldl (\<lambda>a c. a * base + digitVal c) 0 ds"

text \<open>An optional sign: whether it is a minus, and the rest.\<close>

fun splitSign :: "string \<Rightarrow> bool \<times> string" where
  "splitSign (c # s) = (if c = CHR ''-'' then (True, s) else if c = CHR ''+'' then (False, s) else (False, c # s))"
| "splitSign [] = (False, [])"

definition hasHexPrefix :: "string \<Rightarrow> bool" where
  "hasHexPrefix s = (char_at s 0 = CHR ''0'' \<and> tolower (char_at s 1) = CHR ''x'' \<and> isDigitOf 16 (char_at s 2))"

text \<open>
  \<open>strtol\<close> before the range check: the number and the unread rest, or nothing when there are
  no digits. Base 0 takes the base from the prefix; base 16 allows the prefix \<open>0x\<close>.
\<close>

definition strtol_parse :: "nat \<Rightarrow> string \<Rightarrow> (int \<times> string) option" where
  "strtol_parse base0 s0 =
     (let (neg, s) = splitSign (dropWhile isspace s0);
          hex = (base0 = 0 \<or> base0 = 16) \<and> hasHexPrefix s;
          base = (if base0 \<noteq> 0 then base0 else if hex then 16 else if char_at s 0 = CHR ''0'' then 8 else 10);
          body = (if hex then drop 2 s else s);
          ds = takeWhile (isDigitOf base) body
      in if ds = [] then None
         else Some ((if neg then - int (digitsVal base ds) else int (digitsVal base ds)), dropWhile (isDigitOf base) body))"

definition ston :: "int \<Rightarrow> int \<Rightarrow> nat \<Rightarrow> string \<Rightarrow> int result" where
  "ston lo hi base s =
     (case strtol_parse base s of
        None \<Rightarrow> Inl (StdException ''invalid_argument'')
      | Some (v, _) \<Rightarrow> if lo \<le> v \<and> v \<le> hi then Inr v else Inl (StdException ''out_of_range''))"

text \<open>\<open>std::stoi\<close> and \<open>std::stol\<close> (LP64: \<open>long\<close> has 64 bits).\<close>

definition stoi :: "nat \<Rightarrow> string \<Rightarrow> int result" where
  "stoi base s = ston (- (2 ^ 31)) (2 ^ 31 - 1) base s"

definition stol :: "string \<Rightarrow> int result" where
  "stol s = ston (- (2 ^ 63)) (2 ^ 63 - 1) 10 s"

definition stoull :: "string \<Rightarrow> int result" where
  "stoull s = bindE (ston (- (2 ^ 64 - 1)) (2 ^ 64 - 1) 10 s) (\<lambda>v. Inr (v mod 2 ^ 64))"

definition clamp :: "int \<Rightarrow> int \<Rightarrow> int \<Rightarrow> int" where
  "clamp lo hi v = max lo (min hi v)"

text \<open>\<open>atoll\<close> saturates; \<open>atoi\<close> is \<open>(int) strtol(s)\<close>.\<close>

definition atoll :: "string \<Rightarrow> int" where
  "atoll s = (case strtol_parse 10 s of None \<Rightarrow> 0 | Some (v, _) \<Rightarrow> clamp (- (2 ^ 63)) (2 ^ 63 - 1) v)"

definition atoi :: "string \<Rightarrow> int" where
  "atoi s = signed_take_bit 31 (atoll s)"

definition scale10 :: "rat \<Rightarrow> int \<Rightarrow> rat" where
  "scale10 q e = q * 10 powi e"

text \<open>
  \<open>strtod\<close> on decimal numbers, infinities and NaNs: the value and the unread rest; with no
  number at all the value is 0 and everything is unread. Hexadecimal floating-point text is
  read as well.
\<close>

definition readExp :: "char \<Rightarrow> string \<Rightarrow> int \<times> string" where
  "readExp mark s =
     (if tolower (char_at s 0) = mark then
        (let (neg, t) = splitSign (drop 1 s); ds = takeWhile isdigit t in
         if ds = [] then (0, s)
         else ((if neg then - int (digitsVal 10 ds) else int (digitsVal 10 ds)), dropWhile isdigit t))
      else (0, s))"

definition readMantissa :: "nat \<Rightarrow> string \<Rightarrow> (rat \<times> string) option" where
  "readMantissa base s =
     (let ip = takeWhile (isDigitOf base) s; r = dropWhile (isDigitOf base) s;
          fr = (if char_at r 0 = CHR ''.'' then takeWhile (isDigitOf base) (drop 1 r) else []);
          r' = (if char_at r 0 = CHR ''.'' then drop (1 + length fr) r else r)
      in if ip = [] \<and> fr = [] then None
         else Some (of_nat (digitsVal base (ip @ fr)) / of_nat base ^ length fr, r'))"

definition strtod_exact :: "string \<Rightarrow> (fp \<times> string) option" where
  "strtod_exact s0 =
     (let (neg, s) = splitSign (dropWhile isspace s0);
          low = map tolower s;
          sgn = (\<lambda>q. if neg then - q else q)
      in if take 8 low = ''infinity'' then Some (Inf neg, drop 8 s)
         else if take 3 low = ''inf'' then Some (Inf neg, drop 3 s)
         else if take 3 low = ''nan'' then Some (NaN, drop 3 s)
         else if take 2 low = ''0x'' \<and> readMantissa 16 (drop 2 s) \<noteq> None then
           (case the (readMantissa 16 (drop 2 s)) of
              (m, r) \<Rightarrow> (case readExp (CHR ''p'') r of (e, r') \<Rightarrow> Some (Fin (sgn (m * 2 powi e)), r')))
         else (case readMantissa 10 s of
             None \<Rightarrow> None
           | Some (m, r) \<Rightarrow> (case readExp (CHR ''e'') r of (e, r') \<Rightarrow> Some (Fin (sgn (scale10 m e)), r'))))"

definition strtod :: "string \<Rightarrow> fp \<times> string" where
  "strtod s =
     (case strtod_exact s of
        None \<Rightarrow> (Fin 0, s)
      | Some (Fin q, r) \<Rightarrow> (dbl q, r)
      | Some (x, r) \<Rightarrow> (x, r))"

definition atof :: "string \<Rightarrow> fp" where
  "atof s = fst (strtod s)"

text \<open>\<open>std::stod\<close> throws when there is no number, and when the number overflows a double.\<close>

definition stod :: "string \<Rightarrow> fp result" where
  "stod s =
     (case strtod_exact s of
        None \<Rightarrow> Inl (StdException ''invalid_argument'')
      | Some (Fin q, r) \<Rightarrow>
          (case dbl q of Inf n \<Rightarrow> Inl (StdException ''out_of_range'') | x \<Rightarrow> Inr x)
      | Some (x, r) \<Rightarrow> Inr x)"

text \<open>Decimal text of a number: \<open>std::to_string\<close>, stream output of an integer.\<close>

fun showNat :: "nat \<Rightarrow> string" where
  "showNat n = (if n < 10 then [hexDigit n] else showNat (n div 10) @ [hexDigit (n mod 10)])"

declare showNat.simps [simp del]

definition showInt :: "int \<Rightarrow> string" where
  "showInt n = (if n < 0 then CHR ''-'' # showNat (nat (- n)) else showNat (nat n))"

section \<open>ethminer/Common.cpp and ethminer/Misc.cpp\<close>

definition strToInt :: "string \<Rightarrow> int \<Rightarrow> int" where
  "strToInt s defaultVal = (case stoi 10 s of Inr v \<Rightarrow> v | Inl _ \<Rightarrow> defaultVal)"

definition isDigits :: "string \<Rightarrow> bool" where
  "isDigits s = list_all isdigit s"

definition isNumeric :: "string \<Rightarrow> bool" where
  "isNumeric s = (if s = [] then False else char_at (snd (strtod s)) 0 = CHR 0x00)"

definition LowerCase :: "string \<Rightarrow> string" where
  "LowerCase s = map tolower s"

text \<open>
  \<open>HexToInt\<close> extracts an unsigned 64-bit number in base 16 from a string stream: no digits give
  0, a number too large gives the maximum, a minus sign negates modulo \<open>2 ^ 64\<close>. On blank text
  the extraction leaves the uninitialised variable as it is.
\<close>

definition HexToInt :: "string \<Rightarrow> u64 result" where
  "HexToInt value =
     (if list_all isspace value then Inl UndefinedBehaviour
      else case strtol_parse 16 value of
        None \<Rightarrow> Inr 0
      | Some (v, _) \<Rightarrow> Inr (if \<bar>v\<bar> \<le> 2 ^ 64 - 1 then word_of_int v else -1))"

text \<open>
  \<open>split\<close> with \<open>getline\<close>: the pieces between delimiters; an empty input has no pieces, and a
  delimiter at the end adds none.
\<close>

function split :: "string \<Rightarrow> char \<Rightarrow> string list" where
  "split s delim =
     (if s = [] then []
      else takeWhile (\<lambda>c. c \<noteq> delim) s # split (drop (Suc (length (takeWhile (\<lambda>c. c \<noteq> delim) s))) s) delim)"
  by pat_completeness auto
termination
  by (relation "measure (\<lambda>(s, delim). length s)") auto

declare split.simps [simp del]

text \<open>
  \<open>getlineEx\<close> on the rest of an input stream: whether a line was read, the line, and the new
  rest with its end-of-file flag. A carriage return ends a line and takes a following line feed
  with it.
\<close>

fun getlineEx_loop :: "string \<Rightarrow> string \<Rightarrow> string \<times> string \<times> bool" where
  "getlineEx_loop [] str = (str, [], True)"
| "getlineEx_loop (c # is) str =
     (if c = CHR 0x0A then (str, is, False)
      else if c = CHR 0x0D then
        (case is of
           d # is' \<Rightarrow> if d = CHR 0x0A then (str, is', False) else (str, is, False)
         | [] \<Rightarrow> (str, is, False))
      else getlineEx_loop is (str @ [c]))"

definition getlineEx :: "string \<Rightarrow> bool \<Rightarrow> bool \<times> string \<times> string \<times> bool" where
  "getlineEx is eof =
     (if eof then (False, [], is, eof)
      else case getlineEx_loop is [] of (str, rest, e) \<Rightarrow> (True, str, rest, e))"

section \<open>Lemmas: rounding\<close>

lemma bitlen_bounds: "0 < n \<Longrightarrow> 1 \<le> bitlen n \<and> 2 powi (bitlen n - 1) \<le> (of_int n :: rat) \<and> of_int n < (2 powi bitlen n :: rat)"
proof (induction n rule: bitlen.induct)
  case (1 n)
  show ?case
  proof (cases "n = 1")
    case True
    then show ?thesis by (simp add: bitlen.simps [of 1] bitlen.simps [of 0])
  next
    case False
    with "1.prems" have pos: "0 < n div 2" by linarith
    let ?b = "bitlen (n div 2)"
    have IH: "1 \<le> ?b" "2 powi (?b - 1) \<le> (of_int (n div 2) :: rat)" "of_int (n div 2) < (2 powi ?b :: rat)"
      using "1.IH" pos "1.prems" by auto
    have b: "bitlen n = 1 + ?b" using "1.prems" by (simp add: bitlen.simps [of n])
    have up: "(2::rat) powi (1 + ?b) = 2 * 2 powi ?b" "(2::rat) powi ?b = 2 * 2 powi (?b - 1)"
      using power_int_add [of "2::rat" 1 ?b] power_int_add [of "2::rat" 1 "?b - 1"] by simp_all
    have int: "(2::rat) powi ?b = of_int (2 ^ nat ?b)" using IH(1) by (simp add: power_int_def)
    have "n div 2 < 2 ^ nat ?b" using IH(3) unfolding int by (simp only: of_int_less_iff)
    then have "n < 2 * 2 ^ nat ?b" by linarith
    then have "(of_int n :: rat) < of_int (2 * 2 ^ nat ?b)" by (simp only: of_int_less_iff)
    then have less: "(of_int n :: rat) < 2 powi (1 + ?b)" by (simp add: up(1) int)
    have "2 * (n div 2) \<le> n" by linarith
    then have "(of_int (2 * (n div 2)) :: rat) \<le> of_int n" by (simp only: of_int_le_iff)
    with IH(2) have "(2::rat) powi ?b \<le> of_int n" unfolding up(2) by simp
    with less IH(1) show ?thesis by (simp add: b)
  qed
qed

lemma ilog2_bounds:
  assumes "0 < q"
  shows "2 powi ilog2 q \<le> q" "q < 2 powi (ilog2 q + 1)"
proof -
  obtain n d where nd: "quotient_of q = (n, d)" by (cases "quotient_of q")
  have d: "0 < d" and q: "q = of_int n / of_int d"
    using quotient_of_denom_pos [OF nd] quotient_of_div [OF nd] by simp_all
  have n: "0 < n" using assms d by (simp add: q zero_less_divide_iff)
  let ?e = "bitlen n - bitlen d"
  note bn = bitlen_bounds [OF n] and bd = bitlen_bounds [OF d]
  have two: "(2::rat) powi (i + j) = 2 powi i * 2 powi j" for i j by (simp add: power_int_add)
  have "(of_int n :: rat) < 2 powi (?e + 1) * 2 powi (bitlen d - 1)"
    using bn by (simp add: two [symmetric])
  also have "\<dots> \<le> 2 powi (?e + 1) * of_int d"
    using bd by (intro mult_left_mono) simp_all
  finally have up: "q < 2 powi (?e + 1)" using d by (simp add: q divide_less_eq)
  have "2 powi (?e - 1) * of_int d < (2 powi (?e - 1) * 2 powi bitlen d :: rat)"
    using bd by (intro mult_strict_left_mono) simp_all
  also have "\<dots> = 2 powi (bitlen n - 1)" by (simp add: two [symmetric])
  also have "\<dots> \<le> of_int n" using bn by simp
  finally have low: "2 powi (?e - 1) < q" using d by (simp add: q less_divide_eq)
  have "ilog2 q = (if 2 powi ?e \<le> q then ?e else ?e - 1)" by (simp add: ilog2_def nd Let_def)
  with up low show "2 powi ilog2 q \<le> q" "q < 2 powi (ilog2 q + 1)" by (auto split: if_splits)
qed

lemma round_half_even_of_int [simp]: "round_half_even (of_int n) = n"
  by (simp add: round_half_even_def Let_def)

text \<open>A number with at most \<open>p\<close> significant bits is not changed.\<close>

lemma round_fp_exact:
  assumes q: "q = of_int m * 2 powi k" and m: "\<bar>m\<bar> < 2 ^ p" and k: "emin \<le> k"
    and small: "\<bar>q\<bar> < 2 powi (emax + 1)"
  shows "round_fp p emin emax q = Fin q"
proof (cases "q = 0")
  case True
  then show ?thesis by (simp add: round_fp_def)
next
  case False
  let ?e = "max (ilog2 \<bar>q\<bar> - (int p - 1)) emin"
  have "2 powi ilog2 \<bar>q\<bar> \<le> \<bar>q\<bar>" using False by (intro ilog2_bounds) simp
  also have "\<dots> = of_int \<bar>m\<bar> * 2 powi k" by (simp add: q abs_mult)
  also have "\<dots> < of_int (2 ^ p) * 2 powi k" using m by (intro mult_strict_right_mono) (simp_all only: of_int_less_iff, simp)
  also have "\<dots> = 2 powi (int p + k)" by (simp add: power_int_add)
  finally have less: "(2::rat) powi ilog2 \<bar>q\<bar> < 2 powi (int p + k)" .
  have "ilog2 \<bar>q\<bar> < int p + k"
  proof (rule ccontr)
    assume "\<not> ?thesis"
    then have "(2::rat) powi (int p + k) \<le> 2 powi ilog2 \<bar>q\<bar>" by (intro power_int_increasing) simp_all
    with less show False by simp
  qed
  with k have e: "?e \<le> k" by simp
  define j where "j = nat (k - ?e)"
  have "k = int j + ?e" using e by (simp add: j_def)
  then have "(2::rat) powi k = 2 powi (int j + ?e)" by (rule arg_cong)
  then have split: "(2::rat) powi k = 2 ^ j * 2 powi ?e" by (simp add: power_int_add)
  define u :: rat where "u = 2 powi ?e"
  have abs: "\<bar>q\<bar> = of_int (\<bar>m\<bar> * 2 ^ j) * u"
    by (subst q) (simp add: abs_mult split u_def)
  moreover have "u \<noteq> 0" by (simp add: u_def)
  ultimately have "\<bar>q\<bar> / u = of_int (\<bar>m\<bar> * 2 ^ j)" by simp
  then have "of_int (round_half_even (\<bar>q\<bar> / u)) * u = \<bar>q\<bar>"
    by (simp only: round_half_even_of_int abs [symmetric])
  with False small show ?thesis
    by (simp add: round_fp_def Let_def u_def [symmetric] sgn_mult_abs)
qed

lemma dbl_exact:
  "q = of_int m * 2 powi k \<Longrightarrow> \<bar>m\<bar> < 2 ^ 53 \<Longrightarrow> -1074 \<le> k \<Longrightarrow> \<bar>q\<bar> < 2 powi 1024 \<Longrightarrow> dbl q = Fin q"
  unfolding dbl_def by (rule round_fp_exact) simp_all

lemma dbl_of_int_exact: "\<bar>n\<bar> < 2 ^ 53 \<Longrightarrow> dbl_of_int n = Fin (of_int n)"
  unfolding dbl_of_int_def
proof (rule dbl_exact [where m = n and k = 0])
  assume "\<bar>n\<bar> < 2 ^ 53"
  then have "\<bar>of_int n :: rat\<bar> < of_int (2 ^ 53)" by (simp only: of_int_abs [symmetric] of_int_less_iff)
  also have "\<dots> \<le> 2 powi 1024" by (simp add: power_int_def)
  finally show "\<bar>of_int n :: rat\<bar> < 2 powi 1024" .
qed simp_all

lemma dbl_of_int_arg: "\<bar>n\<bar> < 2 ^ 53 \<Longrightarrow> dbl (of_int n) = Fin (of_int n)"
  using dbl_of_int_exact by (simp add: dbl_of_int_def)

lemma dbl_small_ints [simp]:
  "dbl 0 = Fin 0" "dbl 1 = Fin 1"
  "numeral w < (2 ^ 53 :: int) \<Longrightarrow> dbl (numeral w) = Fin (numeral w)"
  "numeral w < (2 ^ 53 :: int) \<Longrightarrow> dbl (- numeral w) = Fin (- numeral w)"
  using dbl_of_int_arg [of 0] dbl_of_int_arg [of 1] dbl_of_int_arg [of "numeral w"] dbl_of_int_arg [of "- numeral w"]
  by simp_all

lemma dbl_quarter:
  assumes "\<bar>n\<bar> < 2 ^ 53"
  shows "dbl (of_int n / 4) = Fin (of_int n / 4)"
proof (rule dbl_exact [where m = n and k = "-2"])
  show "(of_int n / 4 :: rat) = of_int n * 2 powi -2" by (simp add: power_int_def power2_eq_square)
  have "\<bar>of_int n :: rat\<bar> < of_int (2 ^ 53)" using assms by (simp only: of_int_abs [symmetric] of_int_less_iff)
  then have "\<bar>of_int n / 4 :: rat\<bar> < of_int (2 ^ 53)" by simp
  also have "\<dots> \<le> 2 powi 1024" by (simp add: power_int_def)
  finally show "\<bar>of_int n / 4 :: rat\<bar> < 2 powi 1024" .
qed (use assms in simp_all)

section \<open>Lemmas: decimal text\<close>

lemma showNat_induct [case_names digit more]:
  assumes "\<And>n::nat. n < 10 \<Longrightarrow> P n" "\<And>n. 10 \<le> n \<Longrightarrow> P (n div 10) \<Longrightarrow> P n"
  shows "P n"
proof (induction n rule: less_induct)
  case (less n)
  show ?case
  proof (cases "n < 10")
    case True
    then show ?thesis by (rule assms(1))
  next
    case False
    then have "n div 10 < n" by simp
    then have "P (n div 10)" by (rule less)
    moreover have "10 \<le> n" using False by simp
    ultimately show ?thesis by (rule assms(2) [rotated])
  qed
qed

lemma hexDigit_decimal:
  assumes "n < 10"
  shows "isDigitOf 10 (hexDigit n)" "digitVal (hexDigit n) = n" "isdigit (hexDigit n)"
proof -
  have "n \<in> {0, 1, 2, 3, 4, 5, 6, 7, 8, 9}" using assms by auto
  then show "isDigitOf 10 (hexDigit n)" "digitVal (hexDigit n) = n" "isdigit (hexDigit n)"
    by (auto simp: isDigitOf_def digitVal_def isdigit_def hexDigit_def hexVal_def fromHexChar_def char_code_def)
qed

lemma showNat_digits: "list_all (isDigitOf 10) (showNat n) \<and> list_all isdigit (showNat n) \<and> showNat n \<noteq> [] \<and> digitsVal 10 (showNat n) = n"
proof (induction n rule: showNat_induct)
  case (digit n)
  then show ?case by (simp add: showNat.simps [of n] digitsVal_def hexDigit_decimal)
next
  case (more n)
  then show ?case by (simp add: showNat.simps [of n] digitsVal_def hexDigit_decimal)
qed

lemma isdigit_not_space: "isdigit c \<Longrightarrow> \<not> isspace c \<and> c \<noteq> CHR ''-'' \<and> c \<noteq> CHR ''+''"
  by (auto simp: isdigit_def isspace_def char_code_def)

lemma strtol_parse_digits:
  assumes "list_all (isDigitOf 10) ds" "list_all isdigit ds" "ds \<noteq> []"
  shows "strtol_parse 10 ds = Some (int (digitsVal 10 ds), [])"
    "strtol_parse 10 (CHR ''-'' # ds) = Some (- int (digitsVal 10 ds), [])"
proof -
  obtain c cs where ds: "ds = c # cs" using assms(3) by (cases ds) auto
  with assms(2) isdigit_not_space [of c] have c: "\<not> isspace c" "c \<noteq> CHR ''-''" "c \<noteq> CHR ''+''" by simp_all
  have tw: "takeWhile (isDigitOf 10) ds = ds" "dropWhile (isDigitOf 10) ds = []"
    using assms(1) by (simp_all add: list_all_iff)
  have "dropWhile isspace ds = ds" "splitSign ds = (False, ds)" using c by (simp_all add: ds)
  then show "strtol_parse 10 ds = Some (int (digitsVal 10 ds), [])"
    using assms(3) by (simp add: strtol_parse_def Let_def tw del: takeWhile_eq_all_conv)
  have "\<not> isspace (CHR ''-'')" by (simp add: isspace_def)
  then show "strtol_parse 10 (CHR ''-'' # ds) = Some (- int (digitsVal 10 ds), [])"
    using assms(3) by (simp add: strtol_parse_def Let_def tw del: takeWhile_eq_all_conv)
qed

lemma strtol_showInt: "strtol_parse 10 (showInt n) = Some (n, [])"
  using strtol_parse_digits [of "showNat (nat \<bar>n\<bar>)"] showNat_digits [of "nat \<bar>n\<bar>"]
  by (auto simp: showInt_def)

lemma strtol_showNat: "strtol_parse 10 (showNat n) = Some (int n, [])"
  using strtol_parse_digits [of "showNat n"] showNat_digits [of n] by simp

lemma strToInt_showInt: "strToInt (showInt n) d = (if - (2 ^ 31) \<le> n \<and> n \<le> 2 ^ 31 - 1 then n else d)"
  by (simp add: strToInt_def stoi_def ston_def strtol_showInt)

lemma strToInt_showNat: "strToInt (showNat n) d = (if n < 2 ^ 31 then int n else d)"
  by (auto simp: strToInt_def stoi_def ston_def strtol_showNat)

lemma stoull_showNat: "n < 2 ^ 64 \<Longrightarrow> stoull (showNat n) = Inr (int n)"
  by (simp add: stoull_def ston_def strtol_showNat)

end
