(* ===== verification/Transaction.thy ===== *)
theory Transaction
  imports RlpReader Keccak CStdlib
begin

text \<open>
  \<open>ethminer/SignTx.h\<close>: the Ethereum transaction that carries a solution, its serialisation (with
  the type byte of EIP-1559, or legacy with the chain id of EIP-155), its hash and its
  signature; with \<open>toAddress\<close> of \<open>libethcore/Common.cpp\<close>.

  The signature function of the vendored secp256k1 library is an argument
  \<open>sign_compact hash key\<close>: nothing when it fails, or the 64 bytes \<open>r\<close>, \<open>s\<close> and the recovery id.
\<close>

section \<open>Signatures\<close>

record signature_struct =
  sig_r :: h256
  sig_s :: h256
  sig_v :: u32

definition sig_empty :: signature_struct where
  "sig_empty = \<lparr>sig_r = fh_zero 32, sig_s = fh_zero 32, sig_v = 0\<rparr>"

definition secp256k1n :: nat where
  "secp256k1n = 115792089237316195423570985008687907852837564279074904382605163141518161494337"

definition secp256k1n_h256 :: "h256 result" where
  "secp256k1n_h256 =
     fh_of_string 32 ''0xfffffffffffffffffffffffffffffffebaaedce6af48a03bbfd25e8cd0364141'' FromHex FailIfDifferent"

definition sig_isValid :: "signature_struct \<Rightarrow> bool" where
  "sig_isValid ss =
     (case secp256k1n_h256 of
        Inl _ \<Rightarrow> False
      | Inr n \<Rightarrow>
          if sig_v ss > 1 \<or> fh_ge (sig_r ss) n \<or> fh_ge (sig_s ss) n \<or>
             fh_less (sig_s ss) (fh_of_unsigned 32 1) \<or> fh_less (sig_r ss) (fh_of_unsigned 32 1)
          then False else True)"

definition signBytes :: "(h256 \<Rightarrow> bytes \<Rightarrow> (bytes \<times> int) option) \<Rightarrow> bytes \<Rightarrow> h256 \<Rightarrow> signature_struct" where
  "signBytes sign_compact k h =
     (case sign_compact h k of
        None \<Rightarrow> sig_empty
      | Some (out, v) \<Rightarrow>
          let ss = \<lparr>sig_r = take 32 out, sig_s = take 32 (drop 32 out), sig_v = word_of_int v\<rparr> in
          if fh_gt (sig_s ss) (fh_of_arith 32 (secp256k1n div 2))
          then ss\<lparr>sig_v := sig_v ss XOR 1,
                  sig_s := fh_of_arith 32 (unat (word_of_nat secp256k1n - word_of_nat (fh_to_arith (sig_s ss)) :: u256))\<rparr>
          else ss)"

section \<open>Transactions\<close>

datatype rlp_mode = GenerateSigHash | GeneratePayload

definition TRANSACTIONTYPE :: byte where "TRANSACTIONTYPE = 2"

record transaction =
  tx_chainId :: u32
  tx_nonce :: u256
  tx_value :: u256
  tx_receiveAddress :: h160
  tx_gasPrice :: u256
  tx_gas :: u256
  tx_data :: bytes
  tx_txHash :: string
  tx_challenge :: bytes
  tx_eip1559 :: bool
  tx_priorityFee :: u256
  tx_maxFee :: u256
  tx_vrs :: signature_struct

text \<open>
  The default constructor, on the ini value of \<open>Gas.EIP1559\<close>. Boost integers start at zero;
  \<open>chainId\<close> has no initialiser, so its first value is an argument.
\<close>

definition Transaction :: "u32 \<Rightarrow> string \<Rightarrow> transaction" where
  "Transaction chainId0 ini =
     (let s1559 = LowerCase ini in
      \<lparr>tx_chainId = chainId0, tx_nonce = 0, tx_value = 0, tx_receiveAddress = fh_zero 20, tx_gasPrice = 0,
       tx_gas = 0, tx_data = [], tx_txHash = [], tx_challenge = [],
       tx_eip1559 = (s1559 = ''true'' \<or> s1559 = ''1'' \<or> s1559 = ''yes''),
       tx_priorityFee = 0, tx_maxFee = 0, tx_vrs = sig_empty\<rparr>)"

text \<open>\<open>_s << a << b << \<dots>\<close>: one append after the other, stopping at an exception.\<close>

definition appends :: "(rlp_stream \<Rightarrow> rlp_stream result) list \<Rightarrow> rlp_stream \<Rightarrow> rlp_stream result" where
  "appends = append_each (\<lambda>w. w)"

definition app_u256 :: "u256 \<Rightarrow> rlp_stream \<Rightarrow> rlp_stream result" where
  "app_u256 w = appendInt (unat w)"

definition app_unsigned :: "u32 \<Rightarrow> rlp_stream \<Rightarrow> rlp_stream result" where
  "app_unsigned w = appendInt (unat w)"

definition app_h256_int :: "h256 \<Rightarrow> rlp_stream \<Rightarrow> rlp_stream result" where
  "app_h256_int h = appendInt (fh_to_arith h)"

definition app_bytes :: "bytes \<Rightarrow> rlp_stream \<Rightarrow> rlp_stream result" where
  "app_bytes b = appendBytes b False"

definition app_hash :: "bytes \<Rightarrow> rlp_stream \<Rightarrow> rlp_stream result" where
  "app_hash h = appendHash h False False"

definition tx_streamRLP :: "transaction \<Rightarrow> rlp_mode \<Rightarrow> rlp_stream \<Rightarrow> rlp_stream result" where
  "tx_streamRLP t mode s =
     (if tx_eip1559 t then
        bindE (appendList (if mode = GenerateSigHash then 9 else 12) s) (\<lambda>s.
        bindE (appends
          [app_unsigned (tx_chainId t), app_u256 (tx_nonce t), app_u256 (tx_priorityFee t), app_u256 (tx_maxFee t)] s) (\<lambda>s.
        bindE (appends
          [app_u256 (tx_gas t), app_hash (tx_receiveAddress t), app_u256 (tx_value t), app_bytes (tx_data t),
           appendVector appendInt []] s) (\<lambda>s.
        if mode = GeneratePayload then
          appends [app_unsigned (sig_v (tx_vrs t)), app_h256_int (sig_r (tx_vrs t)), app_h256_int (sig_s (tx_vrs t))] s
        else Inr s)))
      else
        bindE (appendList 9 s) (\<lambda>s.
        bindE (appends [app_u256 (tx_nonce t), app_u256 (tx_gasPrice t), app_u256 (tx_gas t)] s) (\<lambda>s.
        bindE (appends [app_hash (tx_receiveAddress t)] s) (\<lambda>s.
        bindE (appends [app_u256 (tx_value t), app_bytes (tx_data t)] s) (\<lambda>s.
        if mode = GeneratePayload then
          appends [app_unsigned (sig_v (tx_vrs t)), app_h256_int (sig_r (tx_vrs t)), app_h256_int (sig_s (tx_vrs t))] s
        else appends [app_unsigned (tx_chainId t), app_u256 0, app_u256 0] s)))))"

definition tx_rlp :: "transaction \<Rightarrow> rlp_mode \<Rightarrow> bytes result" where
  "tx_rlp t mode =
     bindE (tx_streamRLP t mode rlp_empty) (\<lambda>s.
     bindE (rlp_out s) (\<lambda>txBytes.
     Inr (if tx_eip1559 t then TRANSACTIONTYPE # txBytes else txBytes)))"

definition generateTxHash :: "transaction \<Rightarrow> rlp_mode \<Rightarrow> h256 result" where
  "generateTxHash t mode =
     bindE (tx_streamRLP t mode rlp_empty) (\<lambda>s.
     bindE (rlp_out s) (\<lambda>txBytes.
     Inr (sha3 (if tx_eip1559 t then TRANSACTIONTYPE # txBytes else txBytes))))"

definition tx_sign :: "(h256 \<Rightarrow> bytes \<Rightarrow> (bytes \<times> int) option) \<Rightarrow> bytes \<Rightarrow> transaction \<Rightarrow> transaction result" where
  "tx_sign sign_compact priv t =
     bindE (generateTxHash t GenerateSigHash) (\<lambda>h.
     let ss = signBytes sign_compact priv h in
     Inr (if sig_isValid ss then
            (let t' = t\<lparr>tx_vrs := ss\<rparr> in
             if \<not> tx_eip1559 t then t'\<lparr>tx_vrs := ss\<lparr>sig_v := sig_v ss + (tx_chainId t * 2 + 35)\<rparr>\<rparr> else t')
          else t))"

section \<open>Addresses\<close>

definition toAddress :: "string \<Rightarrow> h160 result" where
  "toAddress s =
     (case fromHex (if substr s 0 2 = ''0x'' then drop 2 s else s) Throw of
        Inr b \<Rightarrow> if length b = 20 then Inr b else Inl InvalidAddress
      | Inl BadHexCharacter \<Rightarrow> Inl InvalidAddress
      | Inl e \<Rightarrow> Inl e)"

section \<open>The specification: the item a transaction stands for\<close>

text \<open>
  The fields in the order of EIP-1559 and of the legacy format, as an abstract item: integers
  without leading zeros, the address and the call data as byte strings, an empty access list.
\<close>

definition tx_sig_items :: "transaction \<Rightarrow> rlp_item list" where
  "tx_sig_items t =
     [RInt (unat (sig_v (tx_vrs t))), RInt (be_val (sig_r (tx_vrs t))), RInt (be_val (sig_s (tx_vrs t)))]"

definition tx_items :: "transaction \<Rightarrow> rlp_mode \<Rightarrow> rlp_item list" where
  "tx_items t mode =
     (if tx_eip1559 t then
        [RInt (unat (tx_chainId t)), RInt (unat (tx_nonce t)), RInt (unat (tx_priorityFee t)), RInt (unat (tx_maxFee t)),
         RInt (unat (tx_gas t)), RStr (tx_receiveAddress t), RInt (unat (tx_value t)), RStr (tx_data t), RList []]
        @ (if mode = GeneratePayload then tx_sig_items t else [])
      else
        [RInt (unat (tx_nonce t)), RInt (unat (tx_gasPrice t)), RInt (unat (tx_gas t)),
         RStr (tx_receiveAddress t), RInt (unat (tx_value t)), RStr (tx_data t)]
        @ (if mode = GeneratePayload then tx_sig_items t else [RInt (unat (tx_chainId t)), RInt 0, RInt 0]))"

definition tx_encode :: "transaction \<Rightarrow> rlp_mode \<Rightarrow> bytes" where
  "tx_encode t mode =
     (if tx_eip1559 t then [TRANSACTIONTYPE] else []) @ rlp_encode (RList (tx_items t mode))"

text \<open>A transaction with fields of the right sizes.\<close>

definition tx_ok :: "transaction \<Rightarrow> bool" where
  "tx_ok t \<longleftrightarrow> length (tx_receiveAddress t) = 20 \<and> length (sig_r (tx_vrs t)) = 32 \<and>
     length (sig_s (tx_vrs t)) = 32 \<and> length (tx_data t) < 2 ^ 60"

section \<open>Lemmas: serialisation\<close>

lemma append_each_Nil [simp]: "append_each app [] = Inr"
  by (rule ext) simp

lemma append_each_Cons: "append_each app (x # xs) = (\<lambda>st. bindE (app x st) (append_each app xs))"
  by (rule ext) simp

lemma unat_u256_lt: "unat (w :: u256) < 2 ^ 256"
  using unsigned_less [of w] by simp

lemma writes_u256: "writes (\<lambda>w. w) (app_u256 w) (RInt (unat w))"
  by (simp add: writes_def app_u256_def appendInt_eq [OF unat_u256_lt] del: rlp_encode.simps)

lemma writes_unsigned: "writes (\<lambda>w. w) (app_unsigned w) (RInt (unat w))"
proof -
  have "unat w < 2 ^ 32" using unsigned_less [of w] by simp
  also have "(2::nat) ^ 32 \<le> 2 ^ 256" by (rule power_increasing) simp_all
  finally show ?thesis by (simp add: writes_def app_unsigned_def appendInt_eq del: rlp_encode.simps)
qed

lemma writes_h256_int: "length h = 32 \<Longrightarrow> writes (\<lambda>w. w) (app_h256_int h) (RInt (be_val h))"
  using be_val_lt [of h]
  by (simp add: writes_def app_h256_int_def fh_to_arith_def fromBigEndian_fits appendInt_eq pow256 del: rlp_encode.simps)

lemma writes_bytes: "length b < 2 ^ 64 \<Longrightarrow> writes (\<lambda>w. w) (app_bytes b) (RStr b)"
  by (simp add: writes_def app_bytes_def appendBytes_eq del: rlp_encode.simps)

lemma writes_hash: "length h = 20 \<Longrightarrow> writes (\<lambda>w. w) (app_hash h) (RStr h)"
  by (simp add: writes_def app_hash_def appendHash_def appendBytes_eq del: rlp_encode.simps)

lemma writes_empty_list: "writes (\<lambda>w. w) (appendVector app []) (RList [])"
  by (simp add: writes_def appendVector_def appendList_0_eq del: rlp_encode.simps)

lemmas tx_writes = writes_u256 writes_unsigned writes_h256_int writes_bytes writes_hash writes_empty_list

definition tx_writers :: "transaction \<Rightarrow> rlp_mode \<Rightarrow> (rlp_stream \<Rightarrow> rlp_stream result) list" where
  "tx_writers t mode =
     (let sig = [app_unsigned (sig_v (tx_vrs t)), app_h256_int (sig_r (tx_vrs t)), app_h256_int (sig_s (tx_vrs t))] in
      if tx_eip1559 t then
        [app_unsigned (tx_chainId t), app_u256 (tx_nonce t), app_u256 (tx_priorityFee t), app_u256 (tx_maxFee t),
         app_u256 (tx_gas t), app_hash (tx_receiveAddress t), app_u256 (tx_value t), app_bytes (tx_data t),
         appendVector appendInt []]
        @ (if mode = GeneratePayload then sig else [])
      else
        [app_u256 (tx_nonce t), app_u256 (tx_gasPrice t), app_u256 (tx_gas t),
         app_hash (tx_receiveAddress t), app_u256 (tx_value t), app_bytes (tx_data t)]
        @ (if mode = GeneratePayload then sig else [app_unsigned (tx_chainId t), app_u256 0, app_u256 0]))"

lemma tx_streamRLP_writers:
  "tx_streamRLP t mode s = appendVector (\<lambda>w. w) (tx_writers t mode) s"
  by (cases mode)
    (simp_all add: tx_streamRLP_def tx_writers_def appendVector_def appends_def Let_def
      append_each_Cons bindE_assoc eval_nat_numeral)

lemma tx_writers_items: "tx_ok t \<Longrightarrow> list_all2 (writes (\<lambda>w. w)) (tx_writers t mode) (tx_items t mode)"
  using writes_u256 [of 0]
  by (cases mode) (auto simp: tx_writers_def tx_items_def tx_sig_items_def tx_ok_def Let_def tx_writes simp del: rlp_encode.simps)

lemma length_rlp_RInt: "n < 2 ^ 256 \<Longrightarrow> length (rlp_encode (RInt n)) \<le> 33"
proof -
  assume "n < 2 ^ 256"
  then have "bytesRequired n \<le> 32" by (simp add: bytesRequired_le_iff pow256)
  then show ?thesis
    by (auto simp: RInt_def rlp_string_def rlp_header_def)
qed

lemma appendVector_fresh:
  assumes "list_all2 (writes app) xs is" and "length (concat (map rlp_encode is)) < 2 ^ 64"
  shows "bindE (appendVector app xs rlp_empty) rlp_out = Inr (rlp_encode (RList is))"
  using appendVector_eq [OF assms, of rlp_empty]
  by (simp add: rlp_empty_def rlp_out_def del: rlp_encode.simps)

lemma length_tx_payload:
  assumes "tx_ok t"
  shows "length (concat (map rlp_encode (tx_items t mode))) < rlp_max_size"
proof -
  have w: "length (rlp_encode (RInt (unat w))) \<le> 33" for w :: u256
    using length_rlp_RInt [OF unat_u256_lt] .
  have u: "length (rlp_encode (RInt (unat w))) \<le> 33" for w :: u32
  proof (rule length_rlp_RInt)
    have "unat w < 2 ^ 32" using unsigned_less [of w] by simp
    also have "(2::nat) ^ 32 \<le> 2 ^ 256" by (rule power_increasing) simp_all
    finally show "unat w < 2 ^ 256" .
  qed
  have h: "length (rlp_encode (RInt (be_val h))) \<le> 33" if "length h = 32" for h
    using be_val_lt [of h] that by (intro length_rlp_RInt) (simp add: pow256)
  have z: "length (rlp_encode (RInt 0)) \<le> 33" by (rule length_rlp_RInt) simp
  have a: "length (rlp_encode (RStr h)) \<le> 33" if "length h = 20" for h
    using that by (auto simp: rlp_string_def rlp_header_def)
  have d: "length (rlp_encode (RStr b)) \<le> length b + 9" if "length b < 2 ^ 60" for b
    using that bytesRequired_le_8 [of "length b"] by (auto simp: rlp_string_def rlp_header_def)
  have e: "length (rlp_encode (RList [])) = 1" by (simp add: rlp_header_def)
  note bounds = w u h z a
  have "length (concat (map rlp_encode (tx_items t mode))) \<le> 33 * 11 + (length (tx_data t) + 9) + 1"
    using assms w [of "tx_nonce t"] w [of "tx_priorityFee t"] w [of "tx_maxFee t"] w [of "tx_gas t"]
      w [of "tx_value t"] w [of "tx_gasPrice t"] u [of "tx_chainId t"] u [of "sig_v (tx_vrs t)"]
      h [of "sig_r (tx_vrs t)"] h [of "sig_s (tx_vrs t)"] a [of "tx_receiveAddress t"] d [of "tx_data t"] z e
    by (simp add: tx_items_def tx_sig_items_def tx_ok_def split: if_splits del: rlp_encode.simps)
  also have "\<dots> < rlp_max_size" using assms by (simp add: tx_ok_def rlp_max_size_def)
  finally show ?thesis .
qed

lemma tx_stream_out:
  assumes "tx_ok t"
  shows "bindE (tx_streamRLP t mode rlp_empty) rlp_out = Inr (rlp_encode (RList (tx_items t mode)))"
proof -
  have "length (concat (map rlp_encode (tx_items t mode))) < 2 ^ 64"
    using length_tx_payload [OF assms, of mode] by (simp add: rlp_max_size_def)
  from appendVector_fresh [OF tx_writers_items [OF assms] this] show ?thesis
    by (simp add: tx_streamRLP_writers del: rlp_encode.simps)
qed

lemma bindE_out_map:
  "bindE r f = Inr b \<Longrightarrow> bindE r (\<lambda>s. bindE (f s) g) = g b"
  by (cases r) (simp_all add: bindE_assoc)

lemma tx_rlp_encode: "tx_ok t \<Longrightarrow> tx_rlp t mode = Inr (tx_encode t mode)"
  by (simp add: tx_rlp_def bindE_out_map [OF tx_stream_out] tx_encode_def del: rlp_encode.simps)

lemma generateTxHash_encode: "tx_ok t \<Longrightarrow> generateTxHash t mode = Inr (sha3 (tx_encode t mode))"
  by (simp add: generateTxHash_def bindE_out_map [OF tx_stream_out] tx_encode_def del: rlp_encode.simps)

lemma RInt_eq_iff [simp]: "RInt m = RInt n \<longleftrightarrow> m = n"
  by (metis RInt_def be_val_toCompact rlp_item.inject(1))

lemma rlp_fits_RInt: "n < 2 ^ 256 \<Longrightarrow> rlp_fits (RInt n)"
proof -
  assume "n < 2 ^ 256"
  then have "bytesRequired n \<le> 32" by (simp add: bytesRequired_le_iff)
  then show ?thesis by (simp add: RInt_def rlp_max_size_def)
qed

lemma unat_u32_lt_256: "unat (w :: u32) < 2 ^ 256"
proof -
  have "unat w < 2 ^ 32" using unsigned_less [of w] by simp
  also have "(2::nat) ^ 32 \<le> 2 ^ 256" by (rule power_increasing) simp_all
  finally show ?thesis .
qed

lemma be_val_h256_lt: "length h = 32 \<Longrightarrow> be_val h < 2 ^ 256"
  using be_val_lt [of h] by (simp add: pow256)

lemmas rlp_fits_ints = rlp_fits_RInt [OF unat_u256_lt] rlp_fits_RInt [OF unat_u32_lt_256]
  rlp_fits_RInt [OF be_val_h256_lt]

lemma tx_items_fit: "tx_ok t \<Longrightarrow> rlp_fits (RList (tx_items t mode))"
proof -
  assume ok: "tx_ok t"
  have "rlp_fits (RInt 0)" by (rule rlp_fits_RInt) simp
  with ok have "list_all rlp_fits (tx_items t mode)"
    by (auto simp: tx_items_def tx_sig_items_def tx_ok_def rlp_fits_ints) (simp_all add: rlp_max_size_def)
  with length_tx_payload [OF ok] show ?thesis by simp
qed

text \<open>What a signature commits to.\<close>

definition tx_content :: "transaction \<Rightarrow> bool \<times> u32 \<times> u256 list \<times> h160 \<times> u256 \<times> bytes" where
  "tx_content t =
     (tx_eip1559 t, tx_chainId t,
      [tx_nonce t, tx_gas t] @ (if tx_eip1559 t then [tx_priorityFee t, tx_maxFee t] else [tx_gasPrice t]),
      tx_receiveAddress t, tx_value t, tx_data t)"

lemma unat_eq_iff_eq: "unat a = unat b \<longleftrightarrow> a = b"
  by (simp add: word_unat_eq_iff)

lemma tx_items_content:
  assumes "tx_eip1559 t = tx_eip1559 u"
  shows "tx_items t GenerateSigHash = tx_items u GenerateSigHash \<longleftrightarrow> tx_content t = tx_content u"
  using assms by (auto simp: tx_items_def tx_content_def unat_eq_iff_eq)

lemma rlp_list_first: "x \<in> set (take 1 (rlp_encode (RList xs))) \<Longrightarrow> rlp_fits (RList xs) \<Longrightarrow> 192 \<le> unat x"
proof -
  assume x: "x \<in> set (take 1 (rlp_encode (RList xs)))" and fits: "rlp_fits (RList xs)"
  let ?n = "length (concat (map rlp_encode xs))"
  have "bytesRequired ?n \<le> 8" using fits by (intro bytesRequired_le_8) (simp add: rlp_max_size_def)
  with x show ?thesis
    by (auto simp: rlp_header_def Let_def simp del: of_nat_add split: if_splits)
qed

lemma tx_encode_content:
  assumes t: "tx_ok t" and u: "tx_ok u"
  shows "tx_encode t GenerateSigHash = tx_encode u GenerateSigHash \<longleftrightarrow> tx_content t = tx_content u"
proof (cases "tx_eip1559 t = tx_eip1559 u")
  case True
  then show ?thesis
    using rlp_encode_inj [OF tx_items_fit [OF t] tx_items_fit [OF u]] tx_items_content [OF True]
    by (simp add: tx_encode_def del: rlp_encode.simps)
next
  case False
  have ne: "rlp_encode (RList (tx_items v m)) \<noteq> TRANSACTIONTYPE # r" if v: "tx_ok v" for v m r
  proof
    assume e: "rlp_encode (RList (tx_items v m)) = TRANSACTIONTYPE # r"
    then have "TRANSACTIONTYPE \<in> set (take 1 (rlp_encode (RList (tx_items v m))))"
      unfolding e by simp
    from rlp_list_first [OF this tx_items_fit [OF v]] show False by (simp add: TRANSACTIONTYPE_def)
  qed
  have "tx_content t \<noteq> tx_content u" using False by (simp add: tx_content_def)
  moreover have "tx_encode t GenerateSigHash \<noteq> tx_encode u GenerateSigHash"
    using False ne [OF t] ne [OF u] ne [OF u, THEN not_sym] by (cases "tx_eip1559 t") (auto simp: tx_encode_def simp del: rlp_encode.simps)
  ultimately show ?thesis by simp
qed

section \<open>Lemmas: signatures\<close>

lemma fh_of_hex_literal:
  "hexBody s = d \<Longrightarrow> list_all isHex d \<Longrightarrow> hexNum d = n \<Longrightarrow> length d = 2 * N \<Longrightarrow>
   fh_of_string N s FromHex FailIfDifferent = Inr (fh_of_arith N n)"
  by (simp add: fh_of_string_def fh_of_bytes_def fh_of_arith_def fromHex_spec hexOutcome_def)

lemma secp256k1n_h256_eq: "secp256k1n_h256 = Inr (fh_of_arith 32 secp256k1n)"
  unfolding secp256k1n_h256_def
proof (rule fh_of_hex_literal)
  let ?d = "''fffffffffffffffffffffffffffffffebaaedce6af48a03bbfd25e8cd0364141''"
  show "hexBody ''0xfffffffffffffffffffffffffffffffebaaedce6af48a03bbfd25e8cd0364141'' = ?d" by (simp add: hexBody_def char_at_def)
  show "list_all isHex ?d" by (simp add: isHex_def hexVal_def fromHexChar_def char_code_def)
  show "hexNum ?d = secp256k1n"
    by (simp add: hexNum_def hexVal_def fromHexChar_def char_code_def secp256k1n_def)
  show "length ?d = 2 * 32" by simp
qed

lemma sig_isValid_iff:
  assumes "length (sig_r ss) = 32" "length (sig_s ss) = 32"
  shows "sig_isValid ss \<longleftrightarrow> sig_v ss \<le> 1 \<and> be_val (sig_r ss) \<in> {0<..<secp256k1n} \<and> be_val (sig_s ss) \<in> {0<..<secp256k1n}"
proof -
  have n: "be_val (fh_of_arith 32 secp256k1n) = secp256k1n" "length (fh_of_arith 32 secp256k1n) = 32"
    by (simp_all add: fh_of_arith_def be_val_toBigEndian secp256k1n_def)
  have one: "be_val (fh_of_unsigned 32 1) = 1" "length (fh_of_unsigned 32 1) = 32"
    by (simp_all add: fh_of_unsigned_def be_val_toBigEndian)
  show ?thesis
    using assms n one
    by (auto simp: sig_isValid_def secp256k1n_h256_eq fh_ge_iff fh_less_iff)
qed

text \<open>
  What the code relies on of \<open>secp256k1_ecdsa_sign_compact\<close>: on success \<open>r\<close> and \<open>s\<close> are in
  the range of the group order, and the recovery id is 0 or 1 (it is 2 or 3 only when the curve
  point has an \<open>x\<close> above the order, which no one has ever seen).
\<close>

definition good_signature :: "(bytes \<times> int) option \<Rightarrow> bool" where
  "good_signature sig \<longleftrightarrow>
     (\<exists>r s v. sig = Some (r @ s, v) \<and> length r = 32 \<and> length s = 32 \<and> be_val r \<in> {0<..<secp256k1n} \<and>
              be_val s \<in> {0<..<secp256k1n} \<and> v \<in> {0, 1})"

definition low_s :: "signature_struct \<Rightarrow> bool" where
  "low_s ss \<longleftrightarrow> length (sig_r ss) = 32 \<and> length (sig_s ss) = 32 \<and> sig_isValid ss \<and> be_val (sig_s ss) \<le> secp256k1n div 2"

lemma secp256k1n_bounds: "secp256k1n < 2 ^ 256" "odd secp256k1n"
  by (simp_all add: secp256k1n_def)

lemma neg_s:
  assumes "0 < x" "x < secp256k1n"
  shows "unat (word_of_nat secp256k1n - word_of_nat x :: u256) = secp256k1n - x"
proof -
  have "x < 2 ^ 256" "secp256k1n < 2 ^ 256" using assms secp256k1n_bounds by linarith+
  then have "unat (word_of_nat x :: u256) = x" "unat (word_of_nat secp256k1n :: u256) = secp256k1n"
    by (simp_all only: unat_of_nat len_num1 len_bit0 mult_1_right) (simp_all add: secp256k1n_def)
  with assms show ?thesis by (simp add: unat_sub word_le_nat_alt)
qed

lemma signBytes_low_s:
  assumes "good_signature (sign_compact h k)"
  shows "low_s (signBytes sign_compact k h)"
proof -
  obtain r s v where sig: "sign_compact h k = Some (r @ s, v)" "length r = 32" "length s = 32"
    "0 < be_val r" "be_val r < secp256k1n" "0 < be_val s" "be_val s < secp256k1n" "v = 0 \<or> v = 1"
    using assms by (auto simp: good_signature_def)
  let ?half = "fh_of_arith 32 (secp256k1n div 2)"
  have half: "be_val ?half = secp256k1n div 2" "length ?half = 32"
    by (simp_all add: fh_of_arith_def be_val_toBigEndian secp256k1n_def)
  let ?s' = "fh_of_arith 32 (secp256k1n - be_val s)"
  have s': "be_val ?s' = secp256k1n - be_val s" "length ?s' = 32"
    using secp256k1n_bounds(1) by (simp_all add: fh_of_arith_def be_val_toBigEndian pow256 less_imp_diff_less)
  have val: "fh_to_arith s = be_val s"
    using sig(3) by (simp add: fh_to_arith_def fromBigEndian_fits)
  show ?thesis
  proof (cases "secp256k1n div 2 < be_val s")
    case True
    then have gt: "fh_gt s ?half" using half sig(3) by (simp add: fh_gt_iff)
    have "secp256k1n - be_val s \<le> secp256k1n div 2" using True by linarith
    moreover have "(word_of_int v :: u32) XOR 1 \<le> 1" using sig(8) by auto
    ultimately show ?thesis
      using sig s' gt by (simp add: signBytes_def val neg_s low_s_def sig_isValid_iff)
  next
    case False
    then have "\<not> fh_gt s ?half" using half sig(3) by (simp add: fh_gt_iff)
    moreover have "(word_of_int v :: u32) \<le> 1" using sig(8) by auto
    ultimately show ?thesis
      using sig False by (simp add: signBytes_def low_s_def sig_isValid_iff)
  qed
qed

lemma tx_sign_low_s:
  assumes ok: "tx_ok t" and sig: "good_signature (sign_compact (sha3 (tx_encode t GenerateSigHash)) k)"
  obtains ss where "low_s ss"
    "ss = signBytes sign_compact k (sha3 (tx_encode t GenerateSigHash))"
    "tx_sign sign_compact k t =
       Inr (t\<lparr>tx_vrs := ss\<lparr>sig_v := sig_v ss + (if tx_eip1559 t then 0 else tx_chainId t * 2 + 35)\<rparr>\<rparr>)"
proof -
  let ?ss = "signBytes sign_compact k (sha3 (tx_encode t GenerateSigHash))"
  have "low_s ?ss" using sig by (rule signBytes_low_s)
  then show ?thesis
    by (intro that [of ?ss]) (auto simp: tx_sign_def generateTxHash_encode [OF ok] low_s_def Let_def)
qed

section \<open>Claims\<close>

text \<open>C11: \<open>Transaction::rlp\<close> never fails on a transaction whose fields have their sizes, and yields the
  bytes of the format: for EIP-1559 the type byte 2 and the list with the chain id first, for a
  legacy transaction the list of EIP-155; \<open>generateTxHash\<close> is the Keccak-256 of these bytes.\<close>

theorem transaction_serialises:
  assumes "tx_ok t"
  shows "tx_rlp t mode = Inr (tx_encode t mode) \<and> generateTxHash t mode = Inr (sha3 (tx_encode t mode))"
  using tx_rlp_encode [OF assms] generateTxHash_encode [OF assms] by blast

lemma default_tx_ok: "tx_ok (Transaction n ini)"
  by (simp add: tx_ok_def Transaction_def Let_def sig_empty_def fh_zero_def)

theorem transaction_serialises_witness:
  "tx_rlp (Transaction 1 ''true'') GeneratePayload = Inr (tx_encode (Transaction 1 ''true'') GeneratePayload)"
  using transaction_serialises [OF default_tx_ok] by blast

text \<open>C10: The signature covers the whole transaction: the bytes that \<open>rlp\<close> writes without a signature, whose
  Keccak-256 is what is signed, are the same for two transactions, with fields of the right sizes, exactly
  if these agree on their type, chain, nonce, gas, fees, receiver, value and data. So a signature cannot
  be moved to another transaction, or to another chain.\<close>

theorem signing_payload_binds:
  assumes "tx_ok t" and "tx_ok u"
  shows "\<exists>bt bu. tx_rlp t GenerateSigHash = Inr bt \<and> tx_rlp u GenerateSigHash = Inr bu \<and>
    generateTxHash t GenerateSigHash = Inr (sha3 bt) \<and> generateTxHash u GenerateSigHash = Inr (sha3 bu) \<and>
    (bt = bu \<longleftrightarrow> tx_content t = tx_content u)"
  using assms by (simp add: tx_rlp_encode generateTxHash_encode tx_encode_content)

theorem signing_payload_binds_witness:
  "\<exists>bt bu. tx_rlp (Transaction 1 ''true'') GenerateSigHash = Inr bt \<and> tx_rlp (Transaction 3 ''true'') GenerateSigHash = Inr bu \<and>
    bt \<noteq> bu"
proof -
  have "tx_content (Transaction 1 ''true'') \<noteq> tx_content (Transaction 3 ''true'')"
    by (simp add: tx_content_def Transaction_def Let_def)
  then show ?thesis
    using signing_payload_binds [OF default_tx_ok default_tx_ok, of 1 "''true''" 3 "''true''"] by blast
qed

text \<open>Signing: with a signature that secp256k1 may return, \<open>Transaction::sign\<close> stores one that
  is valid and canonical (\<open>s\<close> at most half the group order, with the parity flipped when it was
  reflected), and for a legacy transaction the \<open>v\<close> of EIP-155; no other field changes.\<close>

theorem transaction_signature_canonical:
  assumes "tx_ok t" and "good_signature (sign_compact (sha3 (tx_encode t GenerateSigHash)) k)"
  shows "\<exists>ss. tx_sign sign_compact k t =
      Inr (t\<lparr>tx_vrs := ss\<lparr>sig_v := sig_v ss + (if tx_eip1559 t then 0 else tx_chainId t * 2 + 35)\<rparr>\<rparr>) \<and>
    sig_v ss \<le> 1 \<and> 0 < be_val (sig_r ss) \<and> be_val (sig_r ss) < secp256k1n \<and>
    0 < be_val (sig_s ss) \<and> be_val (sig_s ss) \<le> secp256k1n div 2"
proof -
  obtain ss where ss: "low_s ss" "tx_sign sign_compact k t =
      Inr (t\<lparr>tx_vrs := ss\<lparr>sig_v := sig_v ss + (if tx_eip1559 t then 0 else tx_chainId t * 2 + 35)\<rparr>\<rparr>)"
    by (rule tx_sign_low_s [where t = t and k = k and sign_compact = sign_compact]) (use assms in blast)+
  from ss(1) have "length (sig_r ss) = 32" "length (sig_s ss) = 32" by (simp_all add: low_s_def)
  with ss show ?thesis by (intro exI [of _ ss]) (simp add: low_s_def sig_isValid_iff)
qed

definition demo_rs :: bytes where
  "demo_rs = replicate 31 0 @ [1]"

lemma demo_rs: "length demo_rs = 32" "be_val demo_rs = 1"
  by (simp_all only: demo_rs_def be_val_snoc be_val_replicate_0) simp_all

theorem transaction_signature_canonical_witness:
  "\<exists>ss. tx_sign (\<lambda>_ _. Some (demo_rs @ demo_rs, 1)) [] (Transaction 1 ''true'') = Inr ((Transaction 1 ''true'')\<lparr>tx_vrs := ss\<rparr>) \<and>
     be_val (sig_s ss) \<le> secp256k1n div 2"
proof -
  have "good_signature (Some (demo_rs @ demo_rs, 1))"
    by (auto simp: good_signature_def demo_rs secp256k1n_def intro!: exI [of _ demo_rs])
  moreover have "tx_eip1559 (Transaction 1 ''true'')"
    by (simp add: Transaction_def Let_def LowerCase_def tolower_def char_code_def)
  ultimately show ?thesis
    using transaction_signature_canonical [OF default_tx_ok, of "\<lambda>_ _. Some (demo_rs @ demo_rs, 1)" 1 "''true''" "[]"]
    by (auto intro: exI [where P = "\<lambda>ss. _ ss \<and> be_val (sig_s ss) \<le> secp256k1n div 2"])
qed


end
