(* ===== verification/Worker.thy ===== *)
theory Worker
  imports Prelude
begin

text \<open>
  \<open>libdevcore/Worker.cpp\<close>: the thread that runs a miner's work loop and the calls that start,
  stop and end it. The two sides communicate through the atomic \<open>m_state\<close>; the mutex
  \<open>x_work\<close> admits one caller at a time. Each access of \<open>m_state\<close> is one step of the
  interleaving.
\<close>

section \<open>State\<close>

datatype worker_state = Starting | Started | Stopping | Stopped | Killing

text \<open>Where the worker thread is (\<open>NoThread\<close>: \<open>m_work\<close> is null), and the caller that holds \<open>x_work\<close>.\<close>

datatype thread_pc =
    NoThread
  | WhileNotKilling
  | AtStarted
  | LoopTest
  | InWork
  | AtExchange
  | AtRestore worker_state
  | WaitStopped
  | Finished

datatype caller_pc = NoCall | InStart | InStop | InTerminate

record worker =
  w_state :: worker_state
  w_thread :: thread_pc
  w_caller :: caller_pc

definition worker_new :: worker where
  "worker_new = \<lparr>w_state = Starting, w_thread = NoThread, w_caller = NoCall\<rparr>"

definition compare_exchange :: "worker_state \<Rightarrow> worker_state \<Rightarrow> worker \<Rightarrow> worker" where
  "compare_exchange ex new w = (if w_state w = ex then w\<lparr>w_state := new\<rparr> else w)"

section \<open>The thread\<close>

text \<open>
  The body of the thread. \<open>LoopTest\<close> is the condition of \<open>workLoop\<close>, \<open>InWork\<close> its body; a body
  may leave the loop by itself (\<open>brk\<close>, the miner that found a solution, or an exception).
\<close>

definition thread_step :: "bool \<Rightarrow> worker \<Rightarrow> worker" where
  "thread_step brk w =
     (case w_thread w of
        NoThread \<Rightarrow> w
      | WhileNotKilling \<Rightarrow> w\<lparr>w_thread := (if w_state w \<noteq> Killing then AtStarted else Finished)\<rparr>
      | AtStarted \<Rightarrow> (compare_exchange Starting Started w)\<lparr>w_thread := LoopTest\<rparr>
      | LoopTest \<Rightarrow> w\<lparr>w_thread := (if w_state w = Started then InWork else AtExchange)\<rparr>
      | InWork \<Rightarrow> w\<lparr>w_thread := (if brk then AtExchange else LoopTest)\<rparr>
      | AtExchange \<Rightarrow> w\<lparr>w_state := Stopped, w_thread := AtRestore (w_state w)\<rparr>
      | AtRestore ex \<Rightarrow>
          (if ex = Killing \<or> ex = Starting then w\<lparr>w_state := ex\<rparr> else w)\<lparr>w_thread := WaitStopped\<rparr>
      | WaitStopped \<Rightarrow> if w_state w = Stopped then w else w\<lparr>w_thread := WhileNotKilling\<rparr>
      | Finished \<Rightarrow> w)"

section \<open>The callers\<close>

text \<open>The part of each call before it waits; a call that has nothing to wait for returns.\<close>

definition startWorking :: "worker \<Rightarrow> worker" where
  "startWorking w =
     (if w_thread w \<noteq> NoThread then (compare_exchange Stopped Starting w)\<lparr>w_caller := InStart\<rparr>
      else w\<lparr>w_state := Starting, w_thread := WhileNotKilling, w_caller := InStart\<rparr>)"

definition stopWorking :: "worker \<Rightarrow> worker" where
  "stopWorking w =
     (if w_thread w \<noteq> NoThread then (compare_exchange Started Stopping w)\<lparr>w_caller := InStop\<rparr> else w)"

definition terminate :: "worker \<Rightarrow> worker" where
  "terminate w =
     (if w_thread w \<noteq> NoThread then w\<lparr>w_state := Killing, w_caller := InTerminate\<rparr> else w)"

text \<open>What each waiting call waits for, and its return.\<close>

definition call_done :: "worker \<Rightarrow> bool" where
  "call_done w =
     (case w_caller w of
        NoCall \<Rightarrow> False
      | InStart \<Rightarrow> w_state w \<noteq> Starting
      | InStop \<Rightarrow> w_state w = Stopped
      | InTerminate \<Rightarrow> w_thread w = Finished)"

definition call_return :: "worker \<Rightarrow> worker" where
  "call_return w =
     (if w_caller w = InTerminate then w\<lparr>w_thread := NoThread, w_caller := NoCall\<rparr>
      else w\<lparr>w_caller := NoCall\<rparr>)"

definition isWorking :: "worker \<Rightarrow> bool" where
  "isWorking w = (w_state w = Started)"

definition shouldStop :: "worker \<Rightarrow> bool" where
  "shouldStop w = (w_state w \<noteq> Started)"

section \<open>The interleaving\<close>

datatype worker_event = Thread bool | CallStart | CallStop | CallTerminate | Return

inductive worker_step :: "worker \<Rightarrow> worker_event \<Rightarrow> worker \<Rightarrow> bool" where
  thread: "worker_step w (Thread brk) (thread_step brk w)"
| start: "w_caller w = NoCall \<Longrightarrow> worker_step w CallStart (startWorking w)"
| stop: "w_caller w = NoCall \<Longrightarrow> worker_step w CallStop (stopWorking w)"
| kill: "w_caller w = NoCall \<Longrightarrow> worker_step w CallTerminate (terminate w)"
| return: "call_done w \<Longrightarrow> worker_step w Return (call_return w)"

code_pred worker_step .

inductive_cases worker_stepE: "worker_step w e w'"
inductive_simps worker_step_simps:
  "worker_step w (Thread brk) w'" "worker_step w CallStart w'" "worker_step w CallStop w'"
  "worker_step w CallTerminate w'" "worker_step w Return w'"

text \<open>In the work loop: between the test of its condition and the exchange that ends it.\<close>

definition in_workLoop :: "worker \<Rightarrow> bool" where
  "in_workLoop w = (w_thread w = InWork)"

section \<open>The invariant\<close>

text \<open>Which positions of the thread and of the caller go with each value of \<open>m_state\<close>.\<close>

fun worker_ok :: "worker_state \<Rightarrow> thread_pc \<Rightarrow> caller_pc \<Rightarrow> bool" where
  "worker_ok Starting t c \<longleftrightarrow>
     (t = NoThread \<and> c = NoCall) \<or>
     (t \<in> {WhileNotKilling, AtStarted, WaitStopped, AtRestore Started, AtRestore Stopping} \<and> c = InStart)"
| "worker_ok Started t c \<longleftrightarrow> t \<in> {LoopTest, InWork, AtExchange} \<and> c \<in> {NoCall, InStart}"
| "worker_ok Stopping t c \<longleftrightarrow> t \<in> {LoopTest, InWork, AtExchange} \<and> c = InStop"
| "worker_ok Stopped t c \<longleftrightarrow>
     (t \<in> {WaitStopped, AtRestore Started, AtRestore Stopping} \<and> c \<noteq> InTerminate) \<or>
     (t = AtRestore Killing \<and> c = InTerminate)"
| "worker_ok Killing t c \<longleftrightarrow>
     (t = NoThread \<and> c = NoCall) \<or>
     (t \<in> {WhileNotKilling, AtStarted, LoopTest, InWork, AtExchange, WaitStopped, Finished,
            AtRestore Started, AtRestore Stopping} \<and> c = InTerminate)"

definition worker_inv :: "worker \<Rightarrow> bool" where
  "worker_inv w = worker_ok (w_state w) (w_thread w) (w_caller w)"

lemmas worker_defs = thread_step_def startWorking_def stopWorking_def terminate_def call_done_def
  call_return_def compare_exchange_def worker_inv_def

lemma worker_inv_new: "worker_inv worker_new"
  by (simp add: worker_new_def worker_inv_def)

lemma worker_inv_thread: "worker_inv w \<Longrightarrow> worker_inv (thread_step brk w)"
  by (cases w; cases "w_state w"; cases "w_thread w"; cases "w_caller w") (auto simp: worker_defs)

lemma worker_inv_call:
  "worker_inv w \<Longrightarrow> w_caller w = NoCall \<Longrightarrow>
   worker_inv (startWorking w) \<and> worker_inv (stopWorking w) \<and> worker_inv (terminate w)"
  by (cases w; cases "w_state w"; cases "w_thread w") (auto simp: worker_defs)

lemma worker_inv_return: "worker_inv w \<Longrightarrow> call_done w \<Longrightarrow> worker_inv (call_return w)"
  by (cases w; cases "w_state w"; cases "w_thread w"; cases "w_caller w") (auto simp: worker_defs)

interpretation worker: invariant_machine "\<lambda>w. w = worker_new" worker_step worker_inv
  by unfold_locales
    (auto simp: worker_inv_new worker_inv_thread worker_inv_call worker_inv_return elim: worker_stepE)

section \<open>Progress\<close>

text \<open>
  The steps the thread still needs before the waiting caller can return. The work loop's body is
  one step: it is taken to return.
\<close>

definition call_waits :: "worker \<Rightarrow> bool" where
  "call_waits w = (w_caller w \<noteq> NoCall \<and> \<not> call_done w)"

definition thread_rank :: "worker \<Rightarrow> nat" where
  "thread_rank w =
     (case w_thread w of
        AtStarted \<Rightarrow> if w_caller w = InTerminate then 6 else 0
      | InWork \<Rightarrow> 6
      | LoopTest \<Rightarrow> 5
      | AtExchange \<Rightarrow> 4
      | AtRestore _ \<Rightarrow> 3
      | WaitStopped \<Rightarrow> 2
      | WhileNotKilling \<Rightarrow> 1
      | _ \<Rightarrow> 0)"

lemma thread_rank_le: "thread_rank w \<le> 6"
  by (simp add: thread_rank_def split: thread_pc.splits)

lemma thread_rank_less:
  "worker_inv w \<Longrightarrow> call_waits w \<Longrightarrow> call_waits (thread_step brk w) \<Longrightarrow>
   thread_rank (thread_step brk w) < thread_rank w"
  by (cases w; cases "w_state w"; cases "w_thread w"; cases "w_caller w")
    (auto simp: worker_defs call_waits_def thread_rank_def)

interpretation worker_progress: progress_machine
  "\<lambda>w. w = worker_new" worker_step worker_inv call_waits thread_rank Thread thread_step
  by unfold_locales (auto intro: worker_step.thread dest: thread_rank_less)

text \<open>A stopped worker without a caller: nothing the thread does leads back into the work loop.\<close>

lemma stopped_stays:
  assumes "worker_inv w" "w_state w = Stopped" "w_caller w \<noteq> InTerminate"
  shows "w_state (fold thread_step brks w) = Stopped \<and> \<not> in_workLoop (fold thread_step brks w)"
  using assms
proof (induction brks arbitrary: w)
  case Nil
  then show ?case by (cases w; cases "w_thread w") (auto simp: worker_inv_def in_workLoop_def)
next
  case (Cons brk brks)
  have "w_state (thread_step brk w) = Stopped \<and> w_caller (thread_step brk w) = w_caller w"
    using Cons.prems by (cases w; cases "w_thread w") (auto simp: worker_defs)
  with Cons worker_inv_thread [of w brk] show ?case by simp
qed

section \<open>Claims\<close>

text \<open>C17: Stopping is safe: in every interleaving of the worker thread with its callers, once a
  call of \<open>stopWorking\<close> returns, \<open>m_state\<close> is \<open>Stopped\<close> and no further step of the thread
  executes the work loop's body, until the next call.\<close>

theorem stopWorking_quiesces:
  assumes "runs worker_step worker_new es w" and "w_caller w = InStop" and "worker_step w Return w'"
  shows "w_caller w' = NoCall \<and> w_state (fold thread_step brks w') = Stopped \<and>
         \<not> in_workLoop (fold thread_step brks w')"
proof -
  have inv: "worker_inv w" using worker.inv_reachable assms(1) by blast
  have "call_done w" "w' = call_return w" using assms(3) by (simp_all add: worker_step_simps)
  with inv assms(2) have "worker_inv w'" "w_state w' = Stopped" "w_caller w' = NoCall"
    by (auto simp: worker_inv_return) (auto simp: call_done_def call_return_def)
  then show ?thesis using stopped_stays [of w' brks] by simp
qed

theorem stopWorking_quiesces_witness:
  "w_state (fold thread_step [False, True, False] \<lparr>w_state = Stopped, w_thread = AtRestore Stopping, w_caller = NoCall\<rparr>) = Stopped"
proof -
  have "runs worker_step worker_new [CallStart, Thread False, Thread False, Return, CallStop, Thread False, Thread False]
      \<lparr>w_state = Stopped, w_thread = AtRestore Stopping, w_caller = InStop\<rparr>"
    by (rule runs_ConsI, rule worker_step.start, simp add: worker_new_def, rule runs_ConsI, rule worker_step.thread,
        rule runs_ConsI, rule worker_step.thread, rule runs_ConsI, rule worker_step.return, simp add: worker_new_def worker_defs,
        rule runs_ConsI, rule worker_step.stop, simp add: worker_new_def worker_defs, rule runs_ConsI, rule worker_step.thread,
        rule runs_ConsI, rule worker_step.thread, simp add: worker_new_def worker_defs)
  moreover have "worker_step \<lparr>w_state = Stopped, w_thread = AtRestore Stopping, w_caller = InStop\<rparr> Return
      \<lparr>w_state = Stopped, w_thread = AtRestore Stopping, w_caller = NoCall\<rparr>"
    by (simp add: worker_step_simps call_done_def call_return_def)
  ultimately show ?thesis
    using stopWorking_quiesces [of _ "\<lparr>w_state = Stopped, w_thread = AtRestore Stopping, w_caller = InStop\<rparr>" _ "[False, True, False]"]
    by (metis worker.select_convs(3))
qed

text \<open>C18: No call deadlocks: in every reachable state where a caller of \<open>startWorking\<close>,
  \<open>stopWorking\<close> or \<open>terminate\<close> waits for the thread, any seven steps of the thread let it
  return (the body of the work loop being one step).\<close>

theorem worker_calls_return:
  assumes "runs worker_step worker_new es w" and "w_caller w \<noteq> NoCall" and "length brks = 7"
  shows "\<exists>n \<le> 7. call_done (fold thread_step (take n brks) w)"
proof -
  have inv: "worker_inv w" using worker.inv_reachable assms(1) by blast
  have "thread_rank w < length brks" using thread_rank_le [of w] assms(3) by simp
  with inv obtain n where n: "n \<le> 7" "\<not> call_waits (fold thread_step (take n brks) w)"
    using worker_progress.leaves_busy assms(3) by metis
  have "w_caller (fold thread_step bs w) = w_caller w" for bs
  proof (induction bs arbitrary: w)
    case (Cons b bs)
    have "w_caller (thread_step b w) = w_caller w" for w
      by (simp add: thread_step_def compare_exchange_def split: thread_pc.splits)
    with Cons show ?case by simp
  qed simp
  with n assms(2) show ?thesis by (auto simp: call_waits_def)
qed


theorem worker_calls_return_witness:
  "\<exists>n \<le> 7. call_done (fold thread_step (take n (replicate 7 False)) \<lparr>w_state = Starting, w_thread = WhileNotKilling, w_caller = InStart\<rparr>)"
proof -
  have "runs worker_step worker_new [CallStart] \<lparr>w_state = Starting, w_thread = WhileNotKilling, w_caller = InStart\<rparr>"
    by (simp add: worker_step_simps worker_new_def worker_defs)
  from worker_calls_return [OF this, of "replicate 7 False"] show ?thesis by simp
qed

end
