(* ===== verification/Miner.thy ===== *)
theory Miner
  imports FixedHash CStdlib
begin

text \<open>
  \<open>libethcore/Miner.h\<close>, with the hash-rate average of \<open>libdevcore/Common.h\<close> and the token's hash
  of \<open>ethminer/Misc.cpp\<close>: the statistics, the PID controller that throttles a GPU, and what a
  miner does by itself. Operations that need the farm take what they read of it as arguments;
  \<open>Farm\<close> composes them.

  Times come from the system's clocks and temperatures from the GPU driver: they are
  arguments.
\<close>

section \<open>Exponential moving average\<close>

record ema =
  ema_period :: int
  ema_firstVal :: bool
  ema_value :: fp

definition EMA :: "int \<Rightarrow> ema" where
  "EMA period = \<lparr>ema_period = period, ema_firstVal = True, ema_value = Fin 0\<rparr>"

definition ema_newVal :: "fp \<Rightarrow> ema \<Rightarrow> ema" where
  "ema_newVal dataPoint e =
     (let v = (if ema_firstVal e then dataPoint
               else fadd dbl
                      (fdiv dbl (fmul dbl (fsub dbl dataPoint (ema_value e)) (Fin 2))
                                (fadd dbl (Fin 1) (dbl_of_int (ema_period e))))
                      (ema_value e))
      in e\<lparr>ema_value := v,
           ema_firstVal := (if ema_firstVal e \<and> \<not> feq v (Fin 0) then False else ema_firstVal e)\<rparr>)"

section \<open>Solution statistics\<close>

datatype solution_state = Accepted | Rejected | Failed

record solution_stats =
  ss_accepts :: u32
  ss_rejects :: u32
  ss_failures :: u32
  ss_acceptedStales :: u32
  ss_rejectedStales :: u32

definition ss_zero :: solution_stats where
  "ss_zero = \<lparr>ss_accepts = 0, ss_rejects = 0, ss_failures = 0, ss_acceptedStales = 0, ss_rejectedStales = 0\<rparr>"

definition ss_accepted :: "solution_stats \<Rightarrow> solution_stats" where
  "ss_accepted s = s\<lparr>ss_accepts := ss_accepts s + 1\<rparr>"

definition ss_rejected :: "solution_stats \<Rightarrow> solution_stats" where
  "ss_rejected s = s\<lparr>ss_rejects := ss_rejects s + 1\<rparr>"

definition ss_failed :: "solution_stats \<Rightarrow> solution_stats" where
  "ss_failed s = s\<lparr>ss_failures := ss_failures s + 1\<rparr>"

definition ss_acceptedStale :: "solution_stats \<Rightarrow> solution_stats" where
  "ss_acceptedStale s = s\<lparr>ss_acceptedStales := ss_acceptedStales s + 1\<rparr>"

definition ss_rejectedStale :: "solution_stats \<Rightarrow> solution_stats" where
  "ss_rejectedStale s = s\<lparr>ss_rejectedStales := ss_rejectedStales s + 1\<rparr>"

definition ss_reset :: "solution_stats \<Rightarrow> solution_stats" where
  "ss_reset s = ss_zero"

definition ss_show :: "solution_stats \<Rightarrow> string" where
  "ss_show s =
     ''[A'' @ showNat (unat (ss_accepts s)) @ ''+'' @ showNat (unat (ss_acceptedStales s)) @
     '':R'' @ showNat (unat (ss_rejects s)) @ ''+'' @ showNat (unat (ss_rejectedStales s)) @
     '':F'' @ showNat (unat (ss_failures s)) @ '']''"

section \<open>The PID controller\<close>

record pid =
  pid_setPoint :: fp
  pid_shutDownTime :: int
  pid_Kp :: fp
  pid_Ki :: fp
  pid_Kd :: fp
  pid_iTerm :: fp
  pid_prevError :: fp
  pid_thermalRunaway :: int

definition c_updateRate :: int where "c_updateRate = 2000"

text \<open>The constructor, on the two ini values.\<close>

definition PIDController :: "string \<Rightarrow> string \<Rightarrow> pid" where
  "PIDController throttleTemp shutDown =
     \<lparr>pid_setPoint = dbl_of_int (strToInt throttleTemp 80), pid_shutDownTime = strToInt shutDown 20,
      pid_Kp = Fin 8, pid_Ki = Fin 4, pid_Kd = Fin 1,
      pid_iTerm = Fin 0, pid_prevError = Fin 0, pid_thermalRunaway = -1\<rparr>"

text \<open>Signed 32-bit arithmetic: a result out of range is undefined.\<close>

definition int32 :: "int \<Rightarrow> int result" where
  "int32 n = (if - (2 ^ 31) \<le> n \<and> n < 2 ^ 31 then Inr n else Inl UndefinedBehaviour)"

text \<open>The thermal runaway part of \<open>update\<close>: whether to shut down, and the new counter.\<close>

definition pid_runaway :: "fp \<Rightarrow> pid \<Rightarrow> (bool \<times> int) result" where
  "pid_runaway gpuTemp p =
     (let threshold = (if pid_thermalRunaway p > 0 then Fin (3 / 4) else Fin 0) in
      if fless (fsub dbl (pid_setPoint p) threshold) gpuTemp then
        bindE (int32 (pid_thermalRunaway p + c_updateRate)) (\<lambda>r.
        bindE (int32 (pid_shutDownTime p * 1000)) (\<lambda>limit.
        Inr (r > limit, r)))
      else Inr (False, max 0 (pid_thermalRunaway p - 1500)))"

text \<open>
  \<open>update\<close> with the two readings of the elapsed time it makes: \<open>shutDown\<close> of the farm to be set,
  the throttle to apply, and the new controller.
\<close>

definition pid_update :: "fp \<Rightarrow> fp \<Rightarrow> fp \<Rightarrow> pid \<Rightarrow> (bool \<times> int option \<times> pid) result" where
  "pid_update gpuTemp elapsed1 elapsed2 p =
     (if fless (pid_setPoint p) (Fin 0) then Inr (False, None, p)
      else
        bindE (pid_runaway gpuTemp p) (\<lambda>(shut, runaway).
        let err = fsub dbl gpuTemp (pid_setPoint p);
            iTerm0 = fadd dbl (pid_iTerm p) (fmul dbl (pid_Ki p) (fmul dbl err elapsed1));
            iTerm = fmin (Fin 100) (fmax (Fin 0) iTerm0);
            derivative = fdiv dbl (fsub dbl err (pid_prevError p)) elapsed2
        in bindE (fp_to_int32 (fadd dbl (fadd dbl (fmul dbl (pid_Kp p) err) iTerm) (fmul dbl (pid_Kd p) derivative)))
             (\<lambda>t. Inr (shut, Some (min 100 (max 0 t)),
                       p\<lparr>pid_thermalRunaway := runaway, pid_iTerm := iTerm, pid_prevError := err\<rparr>))))"

definition pid_tune :: "fp \<Rightarrow> fp \<Rightarrow> fp \<Rightarrow> pid \<Rightarrow> pid" where
  "pid_tune kp ki kd p =
     p\<lparr>pid_Kp := (if fless kp (Fin 0) then pid_Kp p else kp),
       pid_Ki := (if fless ki (Fin 0) then pid_Ki p else ki),
       pid_Kd := (if fless kd (Fin 0) then pid_Kd p else kd)\<rparr>"

section \<open>Miners\<close>

datatype miner_kind = CPU | GPU

text \<open>
  \<open>mn_running\<close> is the worker thread as the calls of \<open>Worker\<close> leave it: true after
  \<open>startWorking\<close>, false after \<open>stopWorking\<close>. \<open>mn_hook\<close> are \<open>m_abort\<close> and \<open>m_aborted\<close> of a
  GPU miner's \<open>EthashCLHook\<close>, \<open>mn_clBest\<close> the best hash of its \<open>ethash_cl_miner\<close>, which the
  work loop creates.
\<close>

record miner =
  mn_index :: nat
  mn_kind :: miner_kind
  mn_challenge :: bytes
  mn_target :: h256
  mn_currentHash :: u64
  mn_bestHash :: u64
  mn_closeHit :: u64
  mn_throttle :: int
  mn_hashCount :: u64
  mn_hashRate :: ema
  mn_pid :: pid
  mn_running :: bool
  mn_hook :: "bool \<times> bool"
  mn_clBest :: "u64 option"

definition mn_kickOff :: "miner \<Rightarrow> miner" where
  "mn_kickOff m =
     (case mn_kind m of
        CPU \<Rightarrow> m\<lparr>mn_running := True\<rparr>
      | GPU \<Rightarrow> m\<lparr>mn_hook := (False, False), mn_running := True\<rparr>)"

definition mn_pause :: "miner \<Rightarrow> miner" where
  "mn_pause m =
     (case mn_kind m of
        CPU \<Rightarrow> m\<lparr>mn_running := False\<rparr>
      | GPU \<Rightarrow> (if snd (mn_hook m) then m else m\<lparr>mn_hook := (True, True)\<rparr>)\<lparr>mn_running := False\<rparr>)"

text \<open>
  \<open>calcWorkUnitThreshold\<close>, with the miner's rate (a \<open>float\<close>) and the farm's two settings.
\<close>

definition workUnitFrequency :: "fp \<Rightarrow> int \<Rightarrow> u64 result" where
  "workUnitFrequency rate workUnitFreq =
     (let divisor = fmul dbl (fmul dbl rate (Fin 1000000)) (dbl_of_int workUnitFreq) in
      if feq divisor (Fin 0) then Inr 0
      else bindE (fp_to_u64 (fdiv dbl (dbl_of_int (2 ^ 64 - 1)) divisor)) (\<lambda>n. Inr (word_of_int n)))"

definition mn_calcWorkUnitThreshold :: "fp \<Rightarrow> int \<Rightarrow> u64 \<Rightarrow> miner \<Rightarrow> miner result" where
  "mn_calcWorkUnitThreshold rate workUnitFreq closeHitThreshold m =
     bindE (workUnitFrequency rate workUnitFreq) (\<lambda>f. Inr (m\<lparr>mn_closeHit := max f closeHitThreshold\<rparr>))"

text \<open>\<open>setWork\<close> up to the parts that touch the farm.\<close>

definition mn_setWork :: "bytes \<Rightarrow> h256 \<Rightarrow> miner \<Rightarrow> miner" where
  "mn_setWork challenge target m =
     (let old = mn_challenge m; m1 = m\<lparr>mn_challenge := challenge, mn_target := target\<rparr> in
      if challenge \<noteq> [] then mn_kickOff (mn_pause m1)
      else if challenge = [] \<and> old \<noteq> [] then mn_pause m1
      else m1)"

definition mn_setBestHash :: "u64 \<Rightarrow> miner \<Rightarrow> miner" where
  "mn_setBestHash bh m = m\<lparr>mn_bestHash := bh\<rparr>"

definition mn_setCurrentHash :: "u64 \<Rightarrow> miner \<Rightarrow> miner" where
  "mn_setCurrentHash h m = m\<lparr>mn_currentHash := h\<rparr>"

text \<open>\<open>resetBestHash\<close>; the GPU's goes through its \<open>ethash_cl_miner\<close>, which may not exist yet.\<close>

definition mn_resetBestHash :: "miner \<Rightarrow> miner result" where
  "mn_resetBestHash m =
     (let m1 = m\<lparr>mn_bestHash := -1\<rparr> in
      case mn_kind m of
        CPU \<Rightarrow> Inr m1
      | GPU \<Rightarrow> (case mn_clBest m of None \<Rightarrow> Inl UndefinedBehaviour | Some _ \<Rightarrow> Inr (m1\<lparr>mn_clBest := Some (-1)\<rparr>)))"

definition mn_setThrottle :: "bool \<Rightarrow> int \<Rightarrow> miner \<Rightarrow> miner result" where
  "mn_setThrottle farmIsMining percent m =
     (case mn_kind m of
        CPU \<Rightarrow> Inr m
      | GPU \<Rightarrow> if \<not> farmIsMining then Inr m
          else if mn_clBest m = None then Inl UndefinedBehaviour
          else Inr (m\<lparr>mn_throttle := percent\<rparr>))"

definition mn_thermalProtection :: "int \<Rightarrow> fp \<Rightarrow> miner \<Rightarrow> miner result" where
  "mn_thermalProtection maxTemp shutdown m =
     bindE (fp_to_int32 shutdown) (\<lambda>s.
     Inr (m\<lparr>mn_pid := (mn_pid m)\<lparr>pid_setPoint := dbl_of_int maxTemp, pid_shutDownTime := s\<rparr>\<rparr>))"

definition mn_tunePIDController :: "fp \<Rightarrow> fp \<Rightarrow> fp \<Rightarrow> miner \<Rightarrow> miner" where
  "mn_tunePIDController kp ki kd m = m\<lparr>mn_pid := pid_tune kp ki kd (mn_pid m)\<rparr>"

text \<open>
  \<open>storeNonceIndex\<close> on the set shared by all miners. The 64-bit index is stored as
  \<open>unsigned\<close>.
\<close>

definition storeNonceIndex :: "u64 \<Rightarrow> bool \<Rightarrow> u32 set \<Rightarrow> bool \<times> u32 set" where
  "storeNonceIndex nonceIndex clear used =
     (if clear then (True, {})
      else (ucast nonceIndex \<notin> used, insert (ucast nonceIndex) used))"

text \<open>
  \<open>accumulateHashes\<close>, with the microseconds since the timer was last started.
\<close>

definition mn_accumulateHashes :: "u32 \<Rightarrow> int \<Rightarrow> u64 \<Rightarrow> miner \<Rightarrow> miner" where
  "mn_accumulateHashes n batchCount elapsed m =
     (if batchCount < 2 then m\<lparr>mn_hashCount := 0\<rparr>
      else
        let m1 = m\<lparr>mn_hashCount := mn_hashCount m + ucast n\<rparr> in
        if unat elapsed div 1000 > 700 then
          (let batchRate = fdiv dbl (dbl_of_int (uint (mn_hashCount m1))) (dbl_of_int (uint elapsed)) in
           m1\<lparr>mn_hashRate := ema_newVal batchRate (mn_hashRate m1), mn_hashCount := 0\<rparr>)
        else m1)"

section \<open>The token's proof of work\<close>

text \<open>
  The 84 bytes that are hashed: challenge, sender and nonce. Copying 32 bytes out of a shorter
  challenge reads past its end. The hash itself is Crypto++'s, an argument.
\<close>

definition mix84 :: "bytes \<Rightarrow> h160 \<Rightarrow> h256 \<Rightarrow> bytes result" where
  "mix84 challenge sender nonce =
     (if length challenge < 32 then Inl UndefinedBehaviour else Inr (take 32 challenge @ sender @ nonce))"

definition keccak256_0xBitcoin :: "(bytes \<Rightarrow> h256) \<Rightarrow> bytes \<Rightarrow> h160 \<Rightarrow> h256 \<Rightarrow> h256 result" where
  "keccak256_0xBitcoin SHA3_256 challenge sender nonce =
     bindE (mix84 challenge sender nonce) (\<lambda>mix. Inr (SHA3_256 mix))"

section \<open>Lemmas: thermal runaway\<close>

text \<open>
  A sequence of updates, each with its temperature and its two times: the \<open>shutDown\<close> requests
  in order, and the final controller.
\<close>

fun pid_run :: "(fp \<times> fp \<times> fp) list \<Rightarrow> pid \<Rightarrow> (bool list \<times> pid) result" where
  "pid_run [] p = Inr ([], p)"
| "pid_run ((t, e1, e2) # us) p =
     bindE (pid_update t e1 e2 p) (\<lambda>(shut, _, p'). bindE (pid_run us p') (\<lambda>(fs, q). Inr (shut # fs, q)))"

text \<open>Over the limit, with and without the hysteresis of three quarters of a degree.\<close>

definition over_limit :: "pid \<Rightarrow> fp \<Rightarrow> bool" where
  "over_limit p t \<longleftrightarrow> fless (fsub dbl (pid_setPoint p) (Fin 0)) t \<and> fless (fsub dbl (pid_setPoint p) (Fin (3 / 4))) t"

lemma int32_Inr: "int32 n = Inr r \<longleftrightarrow> r = n \<and> - (2 ^ 31) \<le> n \<and> n < 2 ^ 31"
  by (auto simp: int32_def)

lemma pid_update_cases:
  assumes "pid_update t e1 e2 p = Inr (shut, thr, p')" and "\<not> fless (pid_setPoint p) (Fin 0)"
  shows "pid_runaway t p = Inr (shut, pid_thermalRunaway p')"
    "pid_setPoint p' = pid_setPoint p" "pid_shutDownTime p' = pid_shutDownTime p"
    "pid_Kp p' = pid_Kp p" "pid_Ki p' = pid_Ki p" "pid_Kd p' = pid_Kd p"
    "\<exists>q. pid_iTerm p' = fmin (Fin 100) (fmax (Fin 0) q)"
    "\<exists>n. thr = Some n \<and> 0 \<le> n \<and> n \<le> 100"
  using assms by (auto simp: pid_update_def bindE_Inr_iff Let_def)

lemma pid_runaway_Inr:
  assumes "pid_runaway t p = Inr (shut, r)"
  shows "over_limit p t \<Longrightarrow> r = pid_thermalRunaway p + 2000 \<and> (shut \<longleftrightarrow> r > pid_shutDownTime p * 1000)"
    "shut \<Longrightarrow> r > pid_shutDownTime p * 1000"
    "r \<le> max 0 (pid_thermalRunaway p + 2000)" "\<not> shut \<Longrightarrow> r \<le> max 0 (pid_thermalRunaway p + 2000)"
  using assms
  by (auto simp: pid_runaway_def over_limit_def Let_def bindE_Inr_iff int32_Inr c_updateRate_def split: if_splits)

lemma pid_run_hot:
  "pid_run us p = Inr (fs, q) \<Longrightarrow> \<not> fless (pid_setPoint p) (Fin 0) \<Longrightarrow> \<forall>u \<in> set us. over_limit p (fst u) \<Longrightarrow>
   length fs = length us \<and>
   (\<forall>i < length us. fs ! i \<longleftrightarrow> pid_thermalRunaway p + 2000 * int (Suc i) > pid_shutDownTime p * 1000)"
proof (induction us arbitrary: p fs)
  case (Cons u us)
  obtain t e1 e2 where u: "u = (t, e1, e2)" by (cases u)
  obtain shut thr p' gs where upd: "pid_update t e1 e2 p = Inr (shut, thr, p')"
    and run: "pid_run us p' = Inr (gs, q)" and fs: "fs = shut # gs"
    using Cons.prems(1) by (auto simp: u bindE_Inr_iff)
  note c = pid_update_cases [OF upd Cons.prems(2)]
  have r: "pid_thermalRunaway p' = pid_thermalRunaway p + 2000"
    "shut \<longleftrightarrow> pid_thermalRunaway p' > pid_shutDownTime p * 1000"
    using pid_runaway_Inr(1) [OF c(1)] Cons.prems(3) by (simp_all add: u)
  have "\<forall>v \<in> set us. over_limit p' (fst v)" "\<not> fless (pid_setPoint p') (Fin 0)"
    using Cons.prems(2,3) by (simp_all add: over_limit_def c(2))
  from Cons.IH [OF run this(2,1)] r show ?case
    by (simp add: fs c(3) All_less_Suc2 algebra_simps)
qed simp

text \<open>Updates at which the temperature is over the limit the controller then applies.\<close>

definition is_hot :: "pid \<Rightarrow> fp \<Rightarrow> bool" where
  "is_hot p t \<longleftrightarrow> fless (fsub dbl (pid_setPoint p) (if pid_thermalRunaway p > 0 then Fin (3 / 4) else Fin 0)) t"

fun hot_updates :: "(fp \<times> fp \<times> fp) list \<Rightarrow> pid \<Rightarrow> nat" where
  "hot_updates [] p = 0"
| "hot_updates ((t, e1, e2) # us) p =
     (if is_hot p t then 1 else 0) +
     (case pid_update t e1 e2 p of Inr (_, _, p') \<Rightarrow> hot_updates us p' | Inl _ \<Rightarrow> 0)"

lemma pid_runaway_hot:
  assumes "pid_runaway t p = Inr (shut, r)"
  shows "r \<le> max 0 (pid_thermalRunaway p) + 2000 * (if is_hot p t then 1 else 0)" "shut \<Longrightarrow> r > pid_shutDownTime p * 1000"
  using assms
  by (auto simp: pid_runaway_def is_hot_def Let_def bindE_Inr_iff int32_Inr c_updateRate_def split: if_splits)

lemma pid_run_needs_heat:
  "pid_run us p = Inr (fs, q) \<Longrightarrow> \<not> fless (pid_setPoint p) (Fin 0) \<Longrightarrow> True \<in> set fs \<Longrightarrow>
   pid_shutDownTime p * 1000 < max 0 (pid_thermalRunaway p) + 2000 * int (hot_updates us p)"
proof (induction us arbitrary: p fs)
  case (Cons u us)
  obtain t e1 e2 where u: "u = (t, e1, e2)" by (cases u)
  obtain shut thr p' gs where upd: "pid_update t e1 e2 p = Inr (shut, thr, p')"
    and run: "pid_run us p' = Inr (gs, q)" and fs: "fs = shut # gs"
    using Cons.prems(1) by (auto simp: u bindE_Inr_iff)
  note c = pid_update_cases [OF upd Cons.prems(2)]
  note r = pid_runaway_hot [OF c(1)]
  show ?case
  proof (cases shut)
    case True
    with r show ?thesis by (auto simp: u upd split: if_splits)
  next
    case False
    then have "True \<in> set gs" using Cons.prems(3) by (simp add: fs)
    with Cons.IH [OF run] Cons.prems(2) have
      "pid_shutDownTime p * 1000 < max 0 (pid_thermalRunaway p') + 2000 * int (hot_updates us p')"
      by (simp add: c(2,3))
    with r(1) show ?thesis by (auto simp: u upd split: if_splits)
  qed
qed simp

section \<open>Claims\<close>

text \<open>Thermal shutdown is complete: a fresh controller that is fed only temperatures over its
  limit asks for a shutdown at update number \<open>k\<close> (from 1) exactly when \<open>2000 k - 1\<close> milliseconds
  exceed the \<open>ShutDown\<close> seconds of the settings.\<close>

theorem pid_shuts_down:
  assumes "pid_run us (PIDController temp time) = Inr (flags, p)"
    and "0 \<le> strToInt temp 80" and "\<forall>u \<in> set us. over_limit (PIDController temp time) (fst u)"
  shows "length flags = length us \<and>
         (\<forall>i < length us. flags ! i \<longleftrightarrow> strToInt time 20 * 1000 < 2000 * int (Suc i) - 1)"
proof -
  have "\<not> fless (pid_setPoint (PIDController temp time)) (Fin 0)"
  proof -
    have "\<bar>strToInt temp 80\<bar> < 2 ^ 53"
      by (auto simp: strToInt_def stoi_def ston_def split: sum.split option.split)
    with assms(2) show ?thesis by (simp add: PIDController_def dbl_of_int_exact)
  qed
  from pid_run_hot [OF assms(1) this assms(3)] show ?thesis
    by (simp add: PIDController_def)
qed

lemma pid_example_ini: "strToInt ''80'' 80 = 80" "strToInt ''1'' 20 = 1"
  using strToInt_showNat [of 80 80] strToInt_showNat [of 1 20] by (simp_all add: showNat.simps hexDigit_def)

lemma pid_example_run: "\<exists>p. pid_run [(Fin 90, Fin 2, Fin 2)] (PIDController ''80'' ''1'') = Inr ([True], p)"
  by (simp add: pid_update_def pid_runaway_def PIDController_def pid_example_ini dbl_of_int_exact fsub_def Let_def
      int32_def c_updateRate_def fmax_def fmin_def fp_to_int32_def fp_to_int_def trunc_rat_def)

theorem pid_shuts_down_witness:
  "strToInt ''1'' 20 * 1000 < 2000 * int (Suc 0) - 1"
proof -
  obtain p where run: "pid_run [(Fin 90, Fin 2, Fin 2)] (PIDController ''80'' ''1'') = Inr ([True], p)"
    using pid_example_run by blast
  have q: "dbl (317 / 4) = Fin (317 / 4)" using dbl_quarter [of 317] by simp
  have "over_limit (PIDController ''80'' ''1'') (Fin 90)"
    by (simp add: over_limit_def PIDController_def pid_example_ini dbl_of_int_exact fsub_def q)
  then show ?thesis using pid_shuts_down [OF run] by (simp add: pid_example_ini)
qed

text \<open>Thermal shutdown is sound: the controller asks for a shutdown only if the updates that saw
  a temperature over the limit account, at two seconds each, for more than the \<open>ShutDown\<close> time.\<close>

theorem pid_shutdown_needs_heat:
  assumes "pid_run us (PIDController temp time) = Inr (flags, p)"
    and "0 \<le> strToInt temp 80" and "True \<in> set flags"
  shows "strToInt time 20 * 1000 < 2000 * int (hot_updates us (PIDController temp time))"
proof -
  have "\<bar>strToInt temp 80\<bar> < 2 ^ 53"
    by (auto simp: strToInt_def stoi_def ston_def split: sum.split option.split)
  with assms(2) have "\<not> fless (pid_setPoint (PIDController temp time)) (Fin 0)"
    by (simp add: PIDController_def dbl_of_int_exact)
  from pid_run_needs_heat [OF assms(1) this assms(3)] show ?thesis by (simp add: PIDController_def)
qed

theorem pid_shutdown_needs_heat_witness:
  "strToInt ''1'' 20 * 1000 < 2000 * int (hot_updates [(Fin 90, Fin 2, Fin 2)] (PIDController ''80'' ''1''))"
  using pid_example_run pid_shutdown_needs_heat [of "[(Fin 90, Fin 2, Fin 2)]" "''80''" "''1''" "[True]"]
  by (auto simp: pid_example_ini)

end
