(* ===== verification/Ini.thy ===== *)
theory Ini
  imports CStdlib
begin

text \<open>
  \<open>ethminer/ini_parser_ex.hpp\<close>: the ini reader and writer of the settings file, extended to keep
  blank lines and comments, which are stored as entries with the key \<open>;\<close>.

  The tree is Boost's \<open>iptree\<close>, as documented: a node has data and an ordered list of named
  children; names are compared without regard to case, and a search finds the first match.
\<close>

section \<open>The tree\<close>

datatype ptree = PTree (pt_data: string) (pt_children: "(string \<times> ptree) list")

definition toupper :: "char \<Rightarrow> char" where
  "toupper c = (if 97 \<le> char_code c \<and> char_code c \<le> 122 then char_of (char_code c - 32) else c)"

definition key_eq :: "string \<Rightarrow> string \<Rightarrow> bool" where
  "key_eq k k' = (map toupper k = map toupper k')"

fun pt_find :: "string \<Rightarrow> (string \<times> ptree) list \<Rightarrow> ptree option" where
  "pt_find k [] = None"
| "pt_find k ((k', t) # cs) = (if key_eq k' k then Some t else pt_find k cs)"

text \<open>\<open>get_optional\<close> and \<open>put\<close> at a path of names.\<close>

fun pt_get_path :: "string list \<Rightarrow> ptree \<Rightarrow> string option" where
  "pt_get_path [] t = Some (pt_data t)"
| "pt_get_path (k # ks) t = (case pt_find k (pt_children t) of None \<Rightarrow> None | Some c \<Rightarrow> pt_get_path ks c)"

text \<open>Apply \<open>f\<close> to the child named \<open>k\<close>, a new last one if there is none.\<close>

fun pt_update :: "string \<Rightarrow> (ptree \<Rightarrow> ptree) \<Rightarrow> (string \<times> ptree) list \<Rightarrow> (string \<times> ptree) list" where
  "pt_update k f [] = [(k, f (PTree [] []))]"
| "pt_update k f ((k', t) # cs) = (if key_eq k' k then (k', f t) # cs else (k', t) # pt_update k f cs)"

fun pt_put_path :: "string list \<Rightarrow> string \<Rightarrow> ptree \<Rightarrow> ptree" where
  "pt_put_path [] v t = PTree v (pt_children t)"
| "pt_put_path (k # ks) v t = PTree (pt_data t) (pt_update k (pt_put_path ks v) (pt_children t))"

fun path_parts :: "string \<Rightarrow> string \<Rightarrow> string list" where
  "path_parts [] acc = [acc]"
| "path_parts (c # s) acc = (if c = CHR ''.'' then acc # path_parts s [] else path_parts s (acc @ [c]))"

section \<open>Reading\<close>

definition newline :: char where "newline = CHR 0x0A"

text \<open>
  The lines \<open>std::getline\<close> delivers while the stream is good: the pieces between line feeds, the
  last one, which may be empty, with the end of file.
\<close>

fun lines_eof :: "string \<Rightarrow> string \<Rightarrow> (string \<times> bool) list" where
  "lines_eof [] acc = [(acc, True)]"
| "lines_eof (c # s) acc = (if c = newline then (acc, False) # lines_eof s [] else lines_eof s (acc @ [c]))"

definition trim :: "string \<Rightarrow> string" where
  "trim s = rev (dropWhile isspace (rev (dropWhile isspace s)))"

definition pos_of :: "char \<Rightarrow> string \<Rightarrow> nat option" where
  "pos_of c s = (if c \<in> set s then Some (length (takeWhile (\<lambda>d. d \<noteq> c) s)) else None)"

text \<open>
  \<open>local\<close> and \<open>section\<close>: the children read so far, and whether the last of them is the open
  section, into which entries then go.
\<close>

definition container :: "bool \<Rightarrow> (string \<times> ptree) list \<Rightarrow> (string \<times> ptree) list" where
  "container sec cs = (if sec then pt_children (snd (last cs)) else cs)"

definition pt_push :: "bool \<Rightarrow> string \<times> ptree \<Rightarrow> (string \<times> ptree) list \<Rightarrow> (string \<times> ptree) list" where
  "pt_push sec e cs =
     (if sec then butlast cs @ [(fst (last cs), PTree (pt_data (snd (last cs))) (pt_children (snd (last cs)) @ [e]))]
      else cs @ [e])"

definition read_line :: "string \<Rightarrow> bool \<Rightarrow> bool \<times> (string \<times> ptree) list \<Rightarrow> (bool \<times> (string \<times> ptree) list) result" where
  "read_line fullLine eof st =
     (let line = trim fullLine; sec = fst st; cs = snd st in
      if line \<noteq> [] \<and> hd line = CHR ''['' then
        (case pos_of (CHR '']'') line of
           None \<Rightarrow> Inl (StdException ''unmatched'')
         | Some e \<Rightarrow>
             let key = trim (substr line 1 (e - 1)) in
             if pt_find key cs \<noteq> None then Inl (StdException ''duplicate section name'')
             else Inr (True, cs @ [(key, PTree [] [])]))
      else if line = [] \<and> eof then Inr st
      else if line = [] \<or> hd line = CHR '';'' \<or> hd line = CHR ''#'' then
        Inr (sec, pt_push sec ('';'', PTree fullLine []) cs)
      else
        (case pos_of (CHR ''='') line of
           None \<Rightarrow> Inl (StdException ''equals sign not found in line'')
         | Some e \<Rightarrow>
             if e = 0 then Inl (StdException ''key expected'')
             else
               let key = trim (take e line); dat = trim (drop (e + 1) line) in
               if pt_find key (container sec cs) \<noteq> None then Inl (StdException ''duplicate key name'')
               else Inr (sec, pt_push sec (key, PTree dat []) cs)))"

fun read_lines :: "(string \<times> bool) list \<Rightarrow> bool \<times> (string \<times> ptree) list \<Rightarrow> (bool \<times> (string \<times> ptree) list) result" where
  "read_lines [] st = Inr st"
| "read_lines ((l, eof) # ls) st = bindE (read_line l eof st) (read_lines ls)"

definition read_ini_ex :: "string \<Rightarrow> ptree result" where
  "read_ini_ex stream = bindE (read_lines (lines_eof stream []) (False, [])) (\<lambda>st. Inr (PTree [] (snd st)))"

section \<open>Writing\<close>

text \<open>
  \<open>check_dupes\<close> walks the children in the order of their names; neighbours there are neighbours
  among the children with equivalent names.
\<close>

fun adjacent_eq :: "string list \<Rightarrow> bool" where
  "adjacent_eq (a # b # ks) = ((a = b \<and> a \<noteq> '';'') \<or> adjacent_eq (b # ks))"
| "adjacent_eq _ = False"

definition check_dupes :: "(string \<times> ptree) list \<Rightarrow> bool" where
  "check_dupes cs =
     list_ex (\<lambda>k. adjacent_eq (filter (key_eq k) (map fst cs))) (map fst cs)"

definition entry_text :: "string \<times> ptree \<Rightarrow> string" where
  "entry_text e =
     (if fst e = '';'' then pt_data (snd e) @ [newline] else fst e @ ''='' @ pt_data (snd e) @ [newline])"

fun write_entries :: "(string \<times> ptree) list \<Rightarrow> string result" where
  "write_entries [] = Inr []"
| "write_entries (e # es) =
     (if pt_children (snd e) \<noteq> [] then Inl (StdException ''ptree is too deep'')
      else bindE (write_entries es) (\<lambda>s. Inr (entry_text e @ s)))"

fun write_children :: "(string \<times> ptree) list \<Rightarrow> string result" where
  "write_children [] = Inr []"
| "write_children ((k, t) # cs) =
     (if check_dupes (pt_children t) then Inl (StdException ''duplicate key'')
      else
        bindE
          (if pt_children t = [] then Inr (entry_text (k, t))
           else if pt_data t \<noteq> [] then Inl (StdException ''mixed data and children'')
           else bindE (write_entries (pt_children t)) (\<lambda>s. Inr (''['' @ k @ '']'' @ [newline] @ s)))
          (\<lambda>s. bindE (write_children cs) (\<lambda>r. Inr (s @ r))))"

definition write_ini :: "ptree \<Rightarrow> string result" where
  "write_ini t =
     (if pt_data t \<noteq> [] then Inl (StdException ''ptree has data on root'')
      else if check_dupes (pt_children t) then Inl (StdException ''duplicate key'')
      else write_children (pt_children t))"

section \<open>The trees an ini file can hold\<close>

definition good_value :: "string \<Rightarrow> bool" where
  "good_value d \<longleftrightarrow> newline \<notin> set d \<and> trim d = d"

definition good_key :: "string \<Rightarrow> bool" where
  "good_key k \<longleftrightarrow> k \<noteq> [] \<and> newline \<notin> set k \<and> CHR ''='' \<notin> set k \<and> trim k = k \<and>
     hd k \<notin> {CHR ''['', CHR '';'', CHR ''#''}"

definition good_comment :: "string \<Rightarrow> bool" where
  "good_comment d \<longleftrightarrow> newline \<notin> set d \<and> (trim d = [] \<or> hd (trim d) = CHR '';'' \<or> hd (trim d) = CHR ''#'')"

definition good_name :: "string \<Rightarrow> bool" where
  "good_name k \<longleftrightarrow> newline \<notin> set k \<and> CHR '']'' \<notin> set k \<and> trim k = k \<and> k \<noteq> '';''"

definition good_entry :: "string \<times> ptree \<Rightarrow> bool" where
  "good_entry e \<longleftrightarrow> pt_children (snd e) = [] \<and>
     (if fst e = '';'' then good_comment (pt_data (snd e)) else good_key (fst e) \<and> good_value (pt_data (snd e)))"

text \<open>No two entries have equivalent names, blank lines and comments apart.\<close>

definition keys_ok :: "string list \<Rightarrow> bool" where
  "keys_ok ks \<longleftrightarrow> distinct (map (map toupper) (filter (\<lambda>k. k \<noteq> '';'') ks))"

definition good_section :: "string \<times> ptree \<Rightarrow> bool" where
  "good_section e \<longleftrightarrow> good_name (fst e) \<and> pt_data (snd e) = [] \<and> pt_children (snd e) \<noteq> [] \<and>
     list_all good_entry (pt_children (snd e)) \<and> keys_ok (map fst (pt_children (snd e)))"

definition good_ini :: "ptree \<Rightarrow> bool" where
  "good_ini t \<longleftrightarrow> pt_data t = [] \<and>
     (\<exists>es ss. pt_children t = es @ ss \<and> list_all good_entry es \<and> list_all good_section ss \<and>
              keys_ok (map fst (es @ ss)))"

section \<open>Lemmas: lines and blanks\<close>

lemma lines_eof_line: "newline \<notin> set l \<Longrightarrow> lines_eof (l @ newline # r) acc = (acc @ l, False) # lines_eof r []"
  by (induction l arbitrary: acc) auto

lemma trim_eq_iff: "trim s = s \<longleftrightarrow> s = [] \<or> (\<not> isspace (hd s) \<and> \<not> isspace (last s))"
proof
  assume eq: "trim s = s"
  have "length (trim s) \<le> length (dropWhile isspace s)"
    using length_dropWhile_le [of isspace "rev (dropWhile isspace s)"] by (simp add: trim_def)
  with eq have "length s \<le> length (dropWhile isspace s)" by simp
  moreover have "length (takeWhile isspace s) + length (dropWhile isspace s) = length s"
    by (metis length_append takeWhile_dropWhile_id)
  ultimately have "length (takeWhile isspace s) = 0" by linarith
  then have "takeWhile isspace s = []" by simp
  then have 1: "dropWhile isspace s = s" by (metis append_Nil takeWhile_dropWhile_id)
  with eq have "dropWhile isspace (rev s) = rev s" by (metis trim_def rev_rev_ident)
  with 1 show "s = [] \<or> (\<not> isspace (hd s) \<and> \<not> isspace (last s))"
    by (metis dropWhile_eq_self_iff hd_rev rev_is_Nil_conv)
next
  assume "s = [] \<or> (\<not> isspace (hd s) \<and> \<not> isspace (last s))"
  then have "dropWhile isspace s = s" "dropWhile isspace (rev s) = rev s"
    by (auto simp: dropWhile_eq_self_iff hd_rev)
  then show "trim s = s" by (simp add: trim_def)
qed

lemma trim_Nil [simp]: "trim [] = []"
  by (simp add: trim_def)

lemma isspace_chars [simp]: "\<not> isspace (CHR ''='')" "\<not> isspace (CHR ''['')" "\<not> isspace (CHR '']'')"
  by (simp_all add: isspace_def)

lemma newline_chars [simp]: "newline \<noteq> CHR ''=''" "newline \<noteq> CHR ''[''" "newline \<noteq> CHR '']''"
  by (simp_all add: newline_def)

lemma pos_of_first: "c \<notin> set a \<Longrightarrow> pos_of c (a @ c # b) = Some (length a)"
  by (induction a) (auto simp: pos_of_def)

section \<open>Lemmas: names\<close>

lemma key_eq_refl [simp]: "key_eq k k"
  by (simp add: key_eq_def)

lemma key_eq_sym: "key_eq k k' = key_eq k' k"
  by (auto simp: key_eq_def)

lemma key_eq_trans: "key_eq a b \<Longrightarrow> key_eq b c = key_eq a c"
  by (simp add: key_eq_def)

lemma toupper_semicolon: "toupper c = CHR '';'' \<longleftrightarrow> c = CHR '';''"
proof
  assume up: "toupper c = CHR '';''"
  show "c = CHR '';''"
  proof (cases "97 \<le> char_code c \<and> char_code c \<le> 122")
    case True
    with up have "char_of (char_code c - 32) = CHR '';''" by (simp add: toupper_def)
    then have "(of_char (char_of (char_code c - 32) :: char) :: nat) = of_char (CHR '';'')" by simp
    then have "(char_code c - 32) mod 256 = 59" by (simp add: of_char_of)
    moreover have "(char_code c - 32) mod 256 = char_code c - 32"
      using True by (intro mod_less) linarith
    ultimately show ?thesis using True by linarith
  next
    case False
    with up show ?thesis by (auto simp: toupper_def)
  qed
qed (simp add: toupper_def char_code_def)

lemma key_eq_semicolon: "key_eq k '';'' \<longleftrightarrow> k = '';''"
proof -
  have up: "toupper (CHR '';'') = CHR '';''" by (simp add: toupper_semicolon)
  show ?thesis by (cases k) (auto simp: key_eq_def up toupper_semicolon)
qed

lemma keys_ok_append_fresh:
  assumes "keys_ok (ks @ k # ls)" "k \<noteq> '';''" "k' \<in> set ks"
  shows "\<not> key_eq k' k"
proof (cases "k' = '';''")
  case True
  with assms(2) show ?thesis using key_eq_semicolon [of k] key_eq_sym by blast
next
  case False
  let ?S = "map toupper ` {x \<in> set ks. x \<noteq> '';''}"
  have new: "map toupper k \<notin> ?S"
    using assms(1,2) by (auto simp: keys_ok_def)
  have old: "map toupper k' \<in> ?S"
    using False assms(3) by blast
  show ?thesis
  proof
    assume "key_eq k' k"
    then have eq: "map toupper k' = map toupper k" by (simp only: key_eq_def)
    from old have "map toupper k \<in> ?S" by (simp only: eq)
    with new show False by (rule notE)
  qed
qed

lemma pt_find_None: "pt_find k cs = None \<longleftrightarrow> (\<forall>k' \<in> fst ` set cs. \<not> key_eq k' k)"
  by (induction k cs rule: pt_find.induct) auto

lemma adjacent_eq_dup: "adjacent_eq ks \<Longrightarrow> \<not> distinct (filter (\<lambda>k. k \<noteq> '';'') ks)"
  by (induction ks rule: adjacent_eq.induct) auto

lemma keys_ok_no_dupes: "keys_ok (map fst cs) \<Longrightarrow> \<not> check_dupes cs"
proof
  assume ok: "keys_ok (map fst cs)" and "check_dupes cs"
  then obtain k where "adjacent_eq (filter (key_eq k) (map fst cs))"
    by (auto simp: check_dupes_def list_ex_iff)
  then have "\<not> distinct (filter (\<lambda>k. k \<noteq> '';'') (filter (key_eq k) (map fst cs)))"
    by (rule adjacent_eq_dup)
  moreover have "filter (\<lambda>k. k \<noteq> '';'') (filter (key_eq k) (map fst cs)) =
      filter (key_eq k) (filter (\<lambda>k. k \<noteq> '';'') (map fst cs))"
    by (simp add: conj_commute)
  moreover have "distinct (filter (\<lambda>k. k \<noteq> '';'') (map fst cs))"
    using ok unfolding keys_ok_def distinct_map by blast
  ultimately show False by (metis distinct_filter)
qed

section \<open>Lemmas: reading what was written\<close>

lemma good_key_line:
  assumes "good_key k" "good_value d"
  shows "trim (k @ ''='' @ d) = k @ ''='' @ d" "trim k = k" "trim d = d" "k \<noteq> []"
    "newline \<notin> set (k @ ''='' @ d)" "pos_of (CHR ''='') (k @ ''='' @ d) = Some (length k)"
proof -
  from assms have "\<not> isspace (hd k)" "d = [] \<or> \<not> isspace (last d)"
    by (auto simp: good_key_def good_value_def trim_eq_iff)
  then show "trim (k @ ''='' @ d) = k @ ''='' @ d"
    using assms by (auto simp: trim_eq_iff good_key_def hd_append)
  show "pos_of (CHR ''='') (k @ ''='' @ d) = Some (length k)"
    using assms by (simp add: pos_of_first good_key_def)
qed (use assms in \<open>auto simp: good_key_def good_value_def\<close>)

lemma read_line_entry:
  assumes "good_entry e" and "keys_ok (map fst (container sec cs @ e # es))"
  shows "newline \<notin> set (butlast (entry_text e))" "entry_text e = butlast (entry_text e) @ [newline]"
    "read_line (butlast (entry_text e)) False (sec, cs) = Inr (sec, pt_push sec e cs)"
proof -
  obtain k d where e: "e = (k, PTree d [])"
    using assms(1) by (cases e; cases "snd e") (auto simp: good_entry_def)
  show "entry_text e = butlast (entry_text e) @ [newline]" by (simp add: entry_text_def butlast_append)
  show "newline \<notin> set (butlast (entry_text e))"
    using assms(1) by (auto simp: e entry_text_def butlast_append good_entry_def good_comment_def good_key_def good_value_def split: if_splits)
  show "read_line (butlast (entry_text e)) False (sec, cs) = Inr (sec, pt_push sec e cs)"
  proof (cases "k = '';''")
    case True
    with assms(1) have "good_comment d" by (simp add: good_entry_def e)
    with True show ?thesis
      by (auto simp: read_line_def e entry_text_def good_comment_def Let_def)
  next
    case False
    with assms(1) have good: "good_key k" "good_value d" by (simp_all add: good_entry_def e)
    have "pt_find k (container sec cs) = None"
      using assms(2) keys_ok_append_fresh [of "map fst (container sec cs)" k "map fst es"] False
      by (auto simp: pt_find_None e)
    with False good good_key_line [OF good] show ?thesis
      by (auto simp: read_line_def e entry_text_def Let_def butlast_append good_key_def)
  qed
qed

lemma read_lines_line:
  "newline \<notin> set l \<Longrightarrow>
   read_lines (lines_eof (l @ newline # r) []) st = bindE (read_line l False st) (read_lines (lines_eof r []))"
  by (simp add: lines_eof_line)

lemma container_push: "(sec \<Longrightarrow> cs \<noteq> []) \<Longrightarrow> container sec (pt_push sec e cs) = container sec cs @ [e]"
  by (simp add: container_def pt_push_def)

lemma pt_push_Nil [simp]: "pt_push sec e cs \<noteq> []"
  by (simp add: pt_push_def)

lemma read_entries:
  "list_all good_entry es \<Longrightarrow> keys_ok (map fst (container sec cs @ es)) \<Longrightarrow> (sec \<Longrightarrow> cs \<noteq> []) \<Longrightarrow>
   read_lines (lines_eof (concat (map entry_text es) @ r) []) (sec, cs) =
   read_lines (lines_eof r []) (sec, fold (pt_push sec) es cs)"
proof (induction es arbitrary: cs)
  case (Cons e es)
  have good: "good_entry e" and ok: "keys_ok (map fst (container sec cs @ e # es))"
    using Cons.prems(1,2) by simp_all
  note e = read_line_entry [OF good ok]
  let ?l = "butlast (entry_text e)" and ?r = "concat (map entry_text es) @ r"
  have line: "concat (map entry_text (e # es)) @ r = ?l @ newline # ?r"
    by (subst list.map(2), subst concat.simps(2), subst e(2)) simp
  have "keys_ok (map fst (container sec (pt_push sec e cs) @ es))"
    using ok container_push [of sec cs e] Cons.prems(3) by simp
  from Cons.IH [OF _ this] Cons.prems(1) show ?case
    unfolding line by (simp add: read_lines_line [OF e(1)] e(3))
qed simp

lemma fold_push_root: "fold (pt_push False) es cs = cs @ es"
  by (induction es arbitrary: cs) (simp_all add: pt_push_def)

lemma fold_push_section:
  "fold (pt_push True) es (cs @ [(k, PTree d ch)]) = cs @ [(k, PTree d (ch @ es))]"
  by (induction es arbitrary: ch) (simp_all add: pt_push_def)

definition section_text :: "string \<times> ptree \<Rightarrow> string" where
  "section_text e = ''['' @ fst e @ '']'' @ [newline] @ concat (map entry_text (pt_children (snd e)))"

lemma read_line_section:
  assumes "good_name k" "pt_find k cs = None"
  shows "read_line (''['' @ k @ '']'') False (sec, cs) = Inr (True, cs @ [(k, PTree [] [])])"
proof -
  have "trim (''['' @ k @ '']'') = ''['' @ k @ '']''" by (simp add: trim_eq_iff)
  moreover have "pos_of (CHR '']'') ((CHR ''['' # k) @ CHR '']'' # []) = Some (length (CHR ''['' # k))"
    using assms(1) by (intro pos_of_first) (simp add: good_name_def)
  ultimately show ?thesis
    using assms by (simp add: read_line_def Let_def substr_def good_name_def)
qed

lemma read_section:
  assumes "good_section e" and "keys_ok (map fst (cs @ e # ss))"
  shows "read_lines (lines_eof (section_text e @ r) []) (sec, cs) = read_lines (lines_eof r []) (True, cs @ [e])"
proof -
  obtain k es where e: "e = (k, PTree [] es)"
    using assms(1) by (cases e; cases "snd e") (auto simp: good_section_def)
  have good: "good_name k" "list_all good_entry es" "keys_ok (map fst es)"
    using assms(1) by (simp_all add: good_section_def e)
  have "pt_find k cs = None"
    using assms(2) keys_ok_append_fresh [of "map fst cs" k "map fst ss"] good(1)
    by (auto simp: pt_find_None e good_name_def)
  note sect = read_line_section [OF good(1) this, of sec]
  have line: "section_text e @ r = (''['' @ k @ '']'') @ newline # (concat (map entry_text es) @ r)"
    by (simp add: section_text_def e)
  have nl: "newline \<notin> set (''['' @ k @ '']'')" using good(1) by (simp add: good_name_def)
  have keys: "keys_ok (map fst (container True (cs @ [(k, PTree [] [])]) @ es))"
    using good(3) by (simp add: container_def)
  show ?thesis
    unfolding line read_lines_line [OF nl] sect
    using read_entries [OF good(2) keys, of r] by (simp add: fold_push_section e)
qed

lemma read_sections:
  "list_all good_section ss \<Longrightarrow> keys_ok (map fst (cs @ ss)) \<Longrightarrow>
   \<exists>sec'. read_lines (lines_eof (concat (map section_text ss) @ r) []) (sec, cs) =
          read_lines (lines_eof r []) (sec', cs @ ss)"
proof (induction ss arbitrary: cs sec)
  case (Cons e ss)
  have good: "good_section e" "keys_ok (map fst (cs @ e # ss))" using Cons.prems by simp_all
  have keys: "keys_ok (map fst ((cs @ [e]) @ ss))" using Cons.prems(2) by simp
  obtain sec' where "read_lines (lines_eof (concat (map section_text ss) @ r) []) (True, cs @ [e]) =
      read_lines (lines_eof r []) (sec', (cs @ [e]) @ ss)"
    using Cons.IH [OF _ keys] Cons.prems(1) by (meson list.pred_inject(2))
  with read_section [OF good, of "concat (map section_text ss) @ r" sec] show ?case
    by (intro exI [of _ sec']) simp
qed auto

section \<open>Lemmas: writing\<close>

lemma write_entries_good: "list_all good_entry es \<Longrightarrow> write_entries es = Inr (concat (map entry_text es))"
  by (induction es) (simp_all add: good_entry_def)

lemma write_children_entries:
  "list_all good_entry es \<Longrightarrow> write_children (es @ cs) =
   bindE (write_children cs) (\<lambda>r. Inr (concat (map entry_text es) @ r))"
proof (induction es)
  case (Cons e es)
  then show ?case
    by (cases e) (simp add: good_entry_def check_dupes_def bindE_assoc)
qed simp

lemma write_children_sections:
  "list_all good_section ss \<Longrightarrow> write_children ss = Inr (concat (map section_text ss))"
proof (induction ss)
  case (Cons e ss)
  then show ?case
    by (cases e) (simp add: good_section_def keys_ok_no_dupes write_entries_good section_text_def)
qed simp

lemma keys_ok_append: "keys_ok (ks @ ls) \<Longrightarrow> keys_ok ks"
  by (simp add: keys_ok_def)

lemma ini_roundtrip:
  assumes "good_ini t"
  shows "\<exists>text. write_ini t = Inr text \<and> read_ini_ex text = Inr t"
proof -
  obtain es ss where t: "t = PTree [] (es @ ss)" and good: "list_all good_entry es" "list_all good_section ss"
    and keys: "keys_ok (map fst (es @ ss))"
    using assms by (cases t) (auto simp: good_ini_def)
  let ?text = "concat (map entry_text es) @ concat (map section_text ss)"
  have "write_ini t = Inr ?text"
    using keys_ok_no_dupes [OF keys]
    by (simp add: write_ini_def t write_children_entries [OF good(1)] write_children_sections [OF good(2)])
  moreover have "keys_ok (map fst (container False [] @ es))"
    using keys keys_ok_append by (simp add: container_def)
  then have "read_lines (lines_eof (?text @ []) []) (False, []) =
      read_lines (lines_eof (concat (map section_text ss) @ []) []) (False, es)"
    using read_entries [OF good(1), of False "[]"] by (simp add: fold_push_root)
  then obtain sec where "read_lines (lines_eof ?text []) (False, []) = read_lines (lines_eof [] []) (sec, es @ ss)"
    using read_sections [OF good(2) keys, of "[]" False] by auto
  then have "read_ini_ex ?text = Inr t"
    by (simp add: read_ini_ex_def read_line_def t)
  ultimately show ?thesis by blast
qed

section \<open>Lemmas: changing a tree\<close>

lemma path_parts_two:
  "CHR ''.'' \<notin> set s \<Longrightarrow> CHR ''.'' \<notin> set k \<Longrightarrow> path_parts (s @ CHR ''.'' # k) [] = [s, k]"
proof -
  have one: "CHR ''.'' \<notin> set a \<Longrightarrow> path_parts a acc = [acc @ a]" for a acc
    by (induction a arbitrary: acc) auto
  have "CHR ''.'' \<notin> set a \<Longrightarrow> path_parts (a @ CHR ''.'' # b) acc = (acc @ a) # path_parts b []" for a b acc
    by (induction a arbitrary: acc) auto
  then show "CHR ''.'' \<notin> set s \<Longrightarrow> CHR ''.'' \<notin> set k \<Longrightarrow> ?thesis" by (simp add: one)
qed

lemma pt_find_update:
  "pt_find k' (pt_update k f cs) =
   (if key_eq k k' then Some (f (case pt_find k cs of Some t \<Rightarrow> t | None \<Rightarrow> PTree [] [])) else pt_find k' cs)"
proof (induction cs)
  case (Cons c cs)
  obtain a t where c: "c = (a, t)" by (cases c)
  show ?case
  proof (cases "key_eq a k")
    case True
    then show ?thesis using key_eq_trans [OF True, of k'] by (simp add: c)
  next
    case False
    then show ?thesis
      using Cons key_eq_trans [of k k' a] by (auto simp: c key_eq_sym)
  qed
qed simp

lemma pt_get_put:
  "pt_get_path [s', k'] (pt_put_path [s, k] v t) =
   (if key_eq s s' \<and> key_eq k k' then Some v else pt_get_path [s', k'] t)"
proof -
  have "key_eq s s' \<Longrightarrow> pt_find s' cs = pt_find s cs" for cs
    by (induction cs) (auto simp: key_eq_def)
  then show ?thesis
    by (auto simp: pt_find_update split: option.split)
qed

lemma fst_pt_update:
  "map fst (pt_update k f cs) = (if pt_find k cs = None then map fst cs @ [k] else map fst cs)"
  by (induction k f cs rule: pt_update.induct) auto

lemma keys_ok_snoc:
  "keys_ok ks \<Longrightarrow> \<forall>k' \<in> set ks. \<not> key_eq k' k \<Longrightarrow> keys_ok (ks @ [k])"
  by (auto simp: keys_ok_def key_eq_def)

lemma keys_ok_update: "keys_ok (map fst cs) \<Longrightarrow> keys_ok (map fst (pt_update k f cs))"
  using keys_ok_snoc [of "map fst cs" k] by (simp add: fst_pt_update pt_find_None)

lemma list_all_update:
  assumes "list_all P cs" and "\<And>k' t. P (k', t) \<Longrightarrow> key_eq k' k \<Longrightarrow> P (k', f t)" and "P (k, f (PTree [] []))"
  shows "list_all P (pt_update k f cs)"
  using assms(1) assms(2,3) by (induction k f cs rule: pt_update.induct) auto

lemma good_entry_put:
  assumes "list_all good_entry es" "good_key k" "good_value v"
  shows "list_all good_entry (pt_update k (pt_put_path [] v) es)"
proof -
  have k: "k \<noteq> '';''" using assms(2) by (auto simp: good_key_def)
  show ?thesis
  proof (rule list_all_update [OF assms(1)])
    fix k' t assume g: "good_entry (k', t)" and eq: "key_eq k' k"
    have "k' \<noteq> '';''" using k eq key_eq_semicolon [of k] key_eq_sym by blast
    with g assms(3) show "good_entry (k', pt_put_path [] v t)" by (simp add: good_entry_def)
  qed (use assms k in \<open>simp add: good_entry_def\<close>)
qed

lemma pt_update_not_Nil [simp]: "pt_update k f cs \<noteq> []"
  by (induction k f cs rule: pt_update.induct) auto

lemma good_section_put:
  assumes "list_all good_section ss" "good_name s" "good_key k" "good_value v"
  shows "list_all good_section (pt_update s (pt_put_path [k] v) ss)"
proof (rule list_all_update [OF assms(1)])
  fix k' t assume "good_section (k', t)"
  then show "good_section (k', pt_put_path [k] v t)"
    using good_entry_put [OF _ assms(3,4)] by (simp add: good_section_def keys_ok_update)
next
  show "good_section (s, pt_put_path [k] v (PTree [] []))"
    using assms by (auto simp: good_section_def good_entry_def keys_ok_def good_key_def)
qed

definition settable :: "ptree \<Rightarrow> string \<Rightarrow> string \<Rightarrow> string \<Rightarrow> bool" where
  "settable t s k v \<longleftrightarrow> good_name s \<and> good_key k \<and> good_value v \<and>
     (\<forall>e \<in> set (pt_children t). key_eq (fst e) s \<longrightarrow> pt_children (snd e) \<noteq> [])"

lemma good_ini_put:
  assumes "good_ini t" "settable t s k v"
  shows "good_ini (pt_put_path [s, k] v t)"
proof -
  obtain es ss where t: "t = PTree [] (es @ ss)" and good: "list_all good_entry es" "list_all good_section ss"
    and keys: "keys_ok (map fst (es @ ss))"
    using assms by (cases t) (auto simp: good_ini_def)
  have "\<forall>e \<in> set es. \<not> key_eq (fst e) s"
    using good(1) assms(2) by (auto simp: settable_def t list_all_iff good_entry_def)
  then have skip: "pt_update s f (es @ ss) = es @ pt_update s f ss" for f
    by (induction es) auto
  have "list_all good_section (pt_update s (pt_put_path [k] v) ss)"
    using good(2) assms(2) by (intro good_section_put) (simp_all add: settable_def)
  moreover have "keys_ok (map fst (es @ pt_update s (pt_put_path [k] v) ss))"
    using keys_ok_update [OF keys, of s "pt_put_path [k] v"] by (simp only: skip)
  ultimately show ?thesis
    using good(1) by (auto simp: good_ini_def t skip simp del: map_append)
qed

end
