(* ===== verification/ProgOpt.thy ===== *)
theory ProgOpt
  imports Ini
begin

text \<open>
  \<open>ethminer/ProgOpt.cpp\<close>: the program settings, an ini file held as a Boost property tree with a
  table of defaults. The property tree and its ini reader and writer are the fields of an
  argument \<open>L\<close>; files are a map from paths to contents. The two places where the ini file is
  looked for are arguments.
\<close>

section \<open>State\<close>

text \<open>
  What the code uses of the tree: the value at a path if there is one, \<open>put\<close> at a path,
  \<open>read_ini_ex\<close> of a file's text and the text \<open>write_ini\<close> writes.
\<close>

record 't ptree_lib =
  pt_empty :: 't
  pt_get :: "'t \<Rightarrow> string \<Rightarrow> string option"
  pt_put :: "'t \<Rightarrow> string \<Rightarrow> string \<Rightarrow> 't"
  pt_read :: "string \<Rightarrow> 't result"
  pt_write :: "'t \<Rightarrow> string result"

record 't progopt =
  po_tree :: 't
  po_defaults :: "string \<rightharpoonup> string"
  po_updating :: bool
  po_path :: string
  po_files :: "string \<rightharpoonup> string"

section \<open>Operations\<close>

definition po_default_settings :: "string \<rightharpoonup> string" where
  "po_default_settings =
     [''ThermalProtection.TempProvider'' \<mapsto> ''amd_adl'',
      ''ThermalProtection.ThrottleTemp'' \<mapsto> ''80'',
      ''ThermalProtection.ShutDown'' \<mapsto> ''20'',
      ''Node.Host'' \<mapsto> ''127.0.0.1'',
      ''Node.RPCPort'' \<mapsto> ''8545'']"

definition po_read :: "'t ptree_lib \<Rightarrow> 't progopt \<Rightarrow> bool \<times> 't progopt" where
  "po_read L st =
     (case po_files st (po_path st) of
        None \<Rightarrow> (False, st)
      | Some txt \<Rightarrow>
          case pt_read L txt of
            Inl _ \<Rightarrow> (False, st)
          | Inr t \<Rightarrow> (True, st\<lparr>po_tree := t, po_defaults := po_default_settings\<rparr>))"

definition po_Load :: "'t ptree_lib \<Rightarrow> string \<Rightarrow> string \<Rightarrow> string \<Rightarrow> 't progopt \<Rightarrow> bool \<times> 't progopt" where
  "po_Load L exec_ini app_ini config st0 =
     (let st = st0\<lparr>po_tree := pt_empty L, po_defaults := Map.empty\<rparr> in
      if config \<noteq> [] \<and> po_files st config = None then (False, st)
      else if config \<noteq> [] then po_read L (st\<lparr>po_path := config\<rparr>)
      else if po_files st exec_ini \<noteq> None then po_read L (st\<lparr>po_path := exec_ini\<rparr>)
      else if po_files st app_ini \<noteq> None then po_read L (st\<lparr>po_path := app_ini\<rparr>)
      else (False, st\<lparr>po_path := app_ini\<rparr>))"

definition po_Reload :: "'t ptree_lib \<Rightarrow> string \<Rightarrow> string \<Rightarrow> 't progopt \<Rightarrow> 't progopt" where
  "po_Reload L exec_ini app_ini st = snd (po_Load L exec_ini app_ini (po_path st) st)"

definition po_SaveToDisk :: "'t ptree_lib \<Rightarrow> 't progopt \<Rightarrow> 't progopt result" where
  "po_SaveToDisk L st =
     bindE (pt_write L (po_tree st)) (\<lambda>txt. Inr (st\<lparr>po_files := (po_files st)(po_path st \<mapsto> txt)\<rparr>))"

definition po_key :: "string \<Rightarrow> string \<Rightarrow> string" where
  "po_key section key = section @ ''.'' @ key"

definition tree_get :: "'t ptree_lib \<Rightarrow> 't \<Rightarrow> string \<Rightarrow> string \<Rightarrow> string" where
  "tree_get L t path dflt = (case pt_get L t path of Some v \<Rightarrow> v | None \<Rightarrow> dflt)"

text \<open>\<open>Get\<close> with a default in the call, and with the table's.\<close>

definition po_GetD :: "'t ptree_lib \<Rightarrow> 't progopt \<Rightarrow> string \<Rightarrow> string \<Rightarrow> string \<Rightarrow> string" where
  "po_GetD L st section key dflt = tree_get L (po_tree st) (po_key section key) dflt"

definition po_Get :: "'t ptree_lib \<Rightarrow> 't progopt \<Rightarrow> string \<Rightarrow> string \<Rightarrow> string" where
  "po_Get L st section key =
     (case po_defaults st (po_key section key) of
        None \<Rightarrow> tree_get L (po_tree st) (po_key section key) ''''
      | Some d \<Rightarrow> tree_get L (po_tree st) (po_key section key) d)"

definition po_Put :: "'t ptree_lib \<Rightarrow> string \<Rightarrow> string \<Rightarrow> string \<Rightarrow> 't progopt \<Rightarrow> 't progopt result" where
  "po_Put L section key v st =
     (let st' = st\<lparr>po_tree := pt_put L (po_tree st) (po_key section key) v\<rparr> in
      if \<not> po_updating st' then po_SaveToDisk L st' else Inr st')"

definition po_PutU :: "'t ptree_lib \<Rightarrow> string \<Rightarrow> string \<Rightarrow> u64 \<Rightarrow> 't progopt \<Rightarrow> 't progopt result" where
  "po_PutU L section key v st = po_Put L section key (showNat (unat v)) st"

definition po_beginUpdating :: "'t progopt \<Rightarrow> 't progopt" where
  "po_beginUpdating st = st\<lparr>po_updating := True\<rparr>"

definition po_endUpdating :: "'t ptree_lib \<Rightarrow> 't progopt \<Rightarrow> 't progopt result" where
  "po_endUpdating L st = po_SaveToDisk L (st\<lparr>po_updating := False\<rparr>)"

section \<open>The contract of the property tree\<close>

text \<open>
  What the code relies on: \<open>get\<close> after \<open>put\<close>, and that a tree written as text is read back.
\<close>

definition plain :: "string \<Rightarrow> bool" where
  "plain s \<longleftrightarrow> CHR ''.'' \<notin> set s"

locale ptree_contract =
  fixes L :: "'t ptree_lib" and good :: "'t \<Rightarrow> bool"
    and ok_put :: "'t \<Rightarrow> string \<Rightarrow> string \<Rightarrow> string \<Rightarrow> bool"
  assumes get_put: "plain s \<Longrightarrow> plain k \<Longrightarrow> plain s' \<Longrightarrow> plain k' \<Longrightarrow>
      pt_get L (pt_put L t (po_key s k) v) (po_key s' k') =
      (if key_eq s s' \<and> key_eq k k' then Some v else pt_get L t (po_key s' k'))"
    and good_put: "good t \<Longrightarrow> plain s \<Longrightarrow> plain k \<Longrightarrow> ok_put t s k v \<Longrightarrow> good (pt_put L t (po_key s k) v)"
    and write_good: "good t \<Longrightarrow> \<exists>out. pt_write L t = Inr out \<and> pt_read L out = Inr t"
begin

lemma SaveToDisk_reload:
  assumes "good (po_tree st)" "po_path st \<noteq> []"
  shows "\<exists>st'. po_SaveToDisk L st = Inr st' \<and> po_tree st' = po_tree st \<and> po_path st' = po_path st \<and>
               po_defaults st' = po_defaults st \<and>
               po_tree (po_Reload L e a st') = po_tree st \<and>
               po_defaults (po_Reload L e a st') = po_default_settings"
proof -
  obtain out where out: "pt_write L (po_tree st) = Inr out" "pt_read L out = Inr (po_tree st)"
    using write_good assms(1) by blast
  let ?st' = "st\<lparr>po_files := (po_files st)(po_path st \<mapsto> out)\<rparr>"
  have "po_SaveToDisk L st = Inr ?st'" by (simp add: po_SaveToDisk_def out)
  moreover have "po_tree (po_Reload L e a ?st') = po_tree st"
    "po_defaults (po_Reload L e a ?st') = po_default_settings"
    using assms(2) by (simp_all add: po_Reload_def po_Load_def po_read_def out Let_def)
  ultimately show ?thesis by (intro exI [of _ ?st']) simp
qed

lemma Put_updating:
  "po_updating st \<Longrightarrow>
   po_Put L s k v st = Inr (st\<lparr>po_tree := pt_put L (po_tree st) (po_key s k) v\<rparr>)"
  by (simp add: po_Put_def Let_def)

lemma tree_get_put:
  "plain s \<Longrightarrow> plain k \<Longrightarrow> plain s' \<Longrightarrow> plain k' \<Longrightarrow>
   tree_get L (pt_put L t (po_key s k) v) (po_key s' k') d =
   (if key_eq s s' \<and> key_eq k k' then v else tree_get L t (po_key s' k') d)"
  by (simp add: tree_get_def get_put)

text \<open>A setting written outside a batch is on disk: it survives a reload.\<close>

lemma Put_reload:
  assumes "good (po_tree st)" "po_path st \<noteq> []" "\<not> po_updating st" "plain s" "plain k" "ok_put (po_tree st) s k v"
  shows "\<exists>st'. po_Put L s k v st = Inr st' \<and> po_Get L (po_Reload L e a st') s k = v \<and>
    (\<forall>s' k' d. plain s' \<and> plain k' \<and> \<not> (key_eq s s' \<and> key_eq k k') \<longrightarrow>
       po_GetD L (po_Reload L e a st') s' k' d = po_GetD L st s' k' d)"
proof -
  let ?st = "st\<lparr>po_tree := pt_put L (po_tree st) (po_key s k) v\<rparr>"
  have "good (po_tree ?st)" using assms by (simp add: good_put)
  then obtain st' where st': "po_SaveToDisk L ?st = Inr st'"
    "po_tree (po_Reload L e a st') = pt_put L (po_tree st) (po_key s k) v"
    using SaveToDisk_reload [of ?st] assms(2) by auto
  have "po_Put L s k v st = Inr st'" using st'(1) assms(3) by (simp add: po_Put_def Let_def)
  moreover have "po_Get L (po_Reload L e a st') s k = v"
    using assms(4,5) by (simp add: po_Get_def st'(2) tree_get_put split: option.split)
  moreover have "po_GetD L (po_Reload L e a st') s' k' d = po_GetD L st s' k' d"
    if "plain s'" "plain k'" "\<not> (key_eq s s' \<and> key_eq k k')" for s' k' d
    using that assms(4,5) by (auto simp: po_GetD_def st'(2) tree_get_put)
  ultimately show ?thesis by blast
qed

end

section \<open>The ini library\<close>

definition ini_lib :: "ptree ptree_lib" where
  "ini_lib =
     \<lparr>pt_empty = PTree [] [],
      pt_get = (\<lambda>t p. pt_get_path (path_parts p []) t),
      pt_put = (\<lambda>t p v. pt_put_path (path_parts p []) v t),
      pt_read = read_ini_ex,
      pt_write = write_ini\<rparr>"

lemma po_key_parts: "plain s \<Longrightarrow> plain k \<Longrightarrow> path_parts (po_key s k) [] = [s, k]"
  by (simp add: plain_def po_key_def path_parts_two)

interpretation ini: ptree_contract ini_lib good_ini settable
proof
  show "good_ini t \<Longrightarrow> \<exists>out. pt_write ini_lib t = Inr out \<and> pt_read ini_lib out = Inr t" for t
    by (simp add: ini_lib_def ini_roundtrip)
qed (simp_all add: ini_lib_def po_key_parts pt_get_put good_ini_put del: pt_get_path.simps pt_put_path.simps)

section \<open>Claims\<close>

text \<open>C37: The ini file round trip: writing a property tree and reading the text again gives the same tree, for a
  tree of entries followed by sections that are not empty (a section without entries is written as an
  entry), with the blank and comment entries the extended parser allows; names are distinct up to case, and
  names and values are single lines without blanks at their ends, the key of an entry not empty, without an
  equals sign and not beginning like a section or a comment, the name of a section without a closing
  bracket and not a semicolon.\<close>

theorem ini_text_roundtrip:
  assumes "good_ini t"
  shows "\<exists>out. write_ini t = Inr out \<and> read_ini_ex out = Inr t"
  using assms by (rule ini_roundtrip)

text \<open>A tree with an entry, a comment and two sections, one with a blank line, for the witness.\<close>

definition demo_ini_tree :: ptree where
  "demo_ini_tree = PTree []
     [(''Version'', PTree ''2'' []), ('';'', PTree ''; the node'' []),
      (''Node'', PTree [] [(''Host'', PTree ''127.0.0.1'' []), ('';'', PTree [] []), (''RPC port'', PTree ''8545'' [])]),
      (''Gas'', PTree [] [(''Max Fee'', PTree [] [])])]"

theorem ini_text_roundtrip_witness: "\<exists>out. write_ini demo_ini_tree = Inr out \<and> read_ini_ex out = Inr demo_ini_tree"
proof (rule ini_text_roundtrip)
  have "list_all good_entry (take 2 (pt_children demo_ini_tree)) \<and> list_all good_section (drop 2 (pt_children demo_ini_tree)) \<and>
      keys_ok (map fst (take 2 (pt_children demo_ini_tree) @ drop 2 (pt_children demo_ini_tree))) \<and> pt_data demo_ini_tree = []"
    by code_simp
  then show "good_ini demo_ini_tree" unfolding good_ini_def by (metis append_take_drop_id)
qed

text \<open>A setting that is put outside a batch survives a restart: it is on disk, so that \<open>Get\<close> after a
  reload returns it and every other setting of the tree is as before.\<close>

theorem setting_survives_reload:
  assumes "good_ini (po_tree st)" and "po_path st \<noteq> []" and "\<not> po_updating st"
    and "plain s" and "plain k" and "settable (po_tree st) s k v"
  shows "\<exists>st'. po_Put ini_lib s k v st = Inr st' \<and> po_Get ini_lib (po_Reload ini_lib e a st') s k = v \<and>
    (\<forall>s' k' d. plain s' \<and> plain k' \<and> \<not> (key_eq s s' \<and> key_eq k k') \<longrightarrow>
       po_GetD ini_lib (po_Reload ini_lib e a st') s' k' d = po_GetD ini_lib st s' k' d)"
  using assms by (rule ini.Put_reload)


theorem setting_survives_reload_witness:
  "\<exists>st'. po_Put ini_lib ''Node'' ''Host'' ''h'' \<lparr>po_tree = PTree [] [], po_defaults = Map.empty, po_updating = False, po_path = ''p'',
      po_files = Map.empty\<rparr> = Inr st' \<and> po_Get ini_lib (po_Reload ini_lib [] [] st') ''Node'' ''Host'' = ''h''"
proof -
  let ?st = "\<lparr>po_tree = PTree [] [], po_defaults = Map.empty, po_updating = False, po_path = ''p'', po_files = Map.empty\<rparr>"
  have "settable (po_tree ?st) ''Node'' ''Host'' ''h''"
    by (simp add: settable_def good_name_def good_key_def good_value_def trim_def newline_def isspace_def char_code_def)
  moreover have "good_ini (po_tree ?st)" by (simp add: good_ini_def keys_ok_def)
  ultimately show ?thesis
    using setting_survives_reload [of ?st "''Node''" "''Host''" "''h''" "[]" "[]"] by (auto simp: plain_def)
qed

end
