(* ===== verification/Farm.thy ===== *)
theory Farm
  imports Miner ProgOpt
begin

text \<open>
  \<open>libethcore/Farm.h\<close>: the farm of miners that share one work package, its hash rates, its
  best hash and its one-place mailbox for a solution; with the parts of \<open>Miner.h\<close>,
  \<open>EthashCPUMiner.cpp\<close> and \<open>EthashGPUMiner.cpp\<close> that call the farm.

  A pointer to a miner is its position in \<open>m_miners\<close>. The calls that go to the data logger are
  collected in \<open>fm_log\<close>, the newest first. An out-of-range index of a vector is undefined
  behaviour, except for \<open>at\<close>, which throws.
\<close>

datatype operation_mode = NoMode | Benchmark | Solo | Pool

datatype log_entry = BestHash u64 | CloseHit u64 u32 int | HashFault int

record farm =
  fm_opMode :: operation_mode
  fm_challenge :: bytes
  fm_target :: h256
  fm_miners :: "miner list"
  fm_isMining :: bool
  fm_minerRates :: "ema list"
  fm_lastReportedRate :: "fp list"
  fm_farmRate :: fp
  fm_closeHitThreshold :: u64
  fm_workUnitFreq :: int
  fm_shutDown :: bool
  fm_hashingAcct :: string
  fm_onBestHash :: "(u64 \<Rightarrow> unit) option"
  fm_onCloseHit :: "(u64 \<Rightarrow> u32 \<Rightarrow> int \<Rightarrow> bool) option"
  fm_onHashFault :: "(int \<Rightarrow> bool) option"
  fm_hashFaults :: "int list"
  fm_bestHash :: u64
  fm_solutionStats :: solution_stats
  fm_closeHits :: u32
  fm_lastCloseHit :: u64
  fm_solution :: h256
  fm_solutionMiner :: int
  fm_usedNonces :: "u32 set"
  fm_log :: "log_entry list"

section \<open>Construction and start\<close>

text \<open>
  The constructor, on the ini values of \<open>CloseHits\<close>; \<open>m_bestHash\<close> and \<open>m_lastCloseHit\<close> have no
  initialiser.
\<close>

definition GenericFarm :: "operation_mode \<Rightarrow> string \<Rightarrow> string \<Rightarrow> string \<Rightarrow> u64 \<Rightarrow> u64 \<Rightarrow> farm result" where
  "GenericFarm opMode enabled threshold freq bestHash0 lastCloseHit0 =
     (let f = \<lparr>fm_opMode = opMode, fm_challenge = [], fm_target = fh_zero 32, fm_miners = [], fm_isMining = False,
               fm_minerRates = [], fm_lastReportedRate = [], fm_farmRate = Fin 0,
               fm_closeHitThreshold = 0, fm_workUnitFreq = 0, fm_shutDown = False, fm_hashingAcct = [],
               fm_onBestHash = None, fm_onCloseHit = None, fm_onHashFault = None, fm_hashFaults = [],
               fm_bestHash = bestHash0, fm_solutionStats = ss_zero, fm_closeHits = 0,
               fm_lastCloseHit = lastCloseHit0, fm_solution = fh_zero 32, fm_solutionMiner = -1,
               fm_usedNonces = {}, fm_log = []\<rparr>
      in if enabled = ''1'' then
           bindE (stoull threshold) (\<lambda>t. bindE (stoull freq) (\<lambda>w.
           Inr (f\<lparr>fm_closeHitThreshold := word_of_int t, fm_workUnitFreq := signed_take_bit 31 w\<rparr>)))
         else Inr f)"

definition fm_start :: "miner list \<Rightarrow> u64 \<Rightarrow> farm \<Rightarrow> farm" where
  "fm_start miners retrievedBestHash f =
     f\<lparr>fm_miners := miners, fm_hashFaults := replicate (length miners) 0, fm_bestHash := retrievedBestHash,
       fm_minerRates := fm_minerRates f @ replicate (length miners) (EMA 3)\<rparr>"

definition fm_stop :: "farm \<Rightarrow> farm" where
  "fm_stop f = f\<lparr>fm_miners := [], fm_isMining := False\<rparr>"

definition fm_pauseMining :: "farm \<Rightarrow> farm" where
  "fm_pauseMining f = f\<lparr>fm_miners := map mn_pause (fm_miners f)\<rparr>"

section \<open>Hash rates\<close>

definition fm_minerRate :: "farm \<Rightarrow> nat \<Rightarrow> fp result" where
  "fm_minerRate f i =
     (if i < length (fm_minerRates f) then Inr (to_flt (ema_value (fm_minerRates f ! i)))
      else Inl UndefinedBehaviour)"

text \<open>
  \<open>HashRates::update\<close>: every miner's rate enters its average, and the farm's rate is their sum in
  a \<open>float\<close>. With no miners, cutting the last separator off an empty text throws.
\<close>

fun update_rates :: "miner list \<Rightarrow> ema list \<Rightarrow> fp \<Rightarrow> (ema list \<times> fp) result" where
  "update_rates [] es tot = Inr (es, tot)"
| "update_rates (m # ms) [] tot = Inl UndefinedBehaviour"
| "update_rates (m # ms) (e # es) tot =
     (let e' = ema_newVal (ema_value (mn_hashRate m)) e in
      bindE (update_rates ms es (to_flt (fadd dbl tot (ema_value e')))) (\<lambda>(es', t). Inr (e' # es', t)))"

definition fm_updateRates :: "farm \<Rightarrow> farm result" where
  "fm_updateRates f =
     bindE (update_rates (fm_miners f) (fm_minerRates f) (Fin 0)) (\<lambda>(es, tot).
     if fm_miners f = [] then Inl (StdException ''length_error'')
     else Inr (f\<lparr>fm_minerRates := es, fm_farmRate := tot\<rparr>))"

fun delta_loop :: "fp \<Rightarrow> ema list \<Rightarrow> fp list \<Rightarrow> bool \<Rightarrow> (bool \<times> fp list) result" where
  "delta_loop delta [] ls exc = Inr (exc, ls)"
| "delta_loop delta (e # es) [] exc = Inl UndefinedBehaviour"
| "delta_loop delta (e # es) (l # ls) exc =
     (if fge (fabs (fsub dbl (ema_value e) l)) delta
      then bindE (delta_loop delta es ls True) (\<lambda>(b, ls'). Inr (b, to_flt (ema_value e) # ls'))
      else bindE (delta_loop delta es ls exc) (\<lambda>(b, ls'). Inr (b, l # ls')))"

definition fm_deltaExceeded :: "fp \<Rightarrow> farm \<Rightarrow> (bool \<times> farm) result" where
  "fm_deltaExceeded delta f =
     (let last = (if fm_lastReportedRate f = [] then replicate (length (fm_miners f)) (Fin 0) else fm_lastReportedRate f) in
      bindE (delta_loop delta (fm_minerRates f) last False) (\<lambda>(b, ls). Inr (b, f\<lparr>fm_lastReportedRate := ls\<rparr>)))"

section \<open>Work\<close>

definition fm_calcThreshold :: "farm \<Rightarrow> miner \<Rightarrow> miner result" where
  "fm_calcThreshold f m =
     bindE (fm_minerRate f (mn_index m)) (\<lambda>rate.
     mn_calcWorkUnitThreshold rate (fm_workUnitFreq f) (fm_closeHitThreshold f) m)"

text \<open>
  \<open>GenericMiner::setWork\<close> for the miners at the positions \<open>P\<close>; miner 0 also clears the used
  nonces.
\<close>

definition miners_setWork :: "(nat \<Rightarrow> bool) \<Rightarrow> bytes \<Rightarrow> h256 \<Rightarrow> farm \<Rightarrow> farm result" where
  "miners_setWork P challenge target f =
     bindE (mapE (\<lambda>(i, m). if P i then fm_calcThreshold f (mn_setWork challenge target m) else Inr m)
              (enumerate 0 (fm_miners f))) (\<lambda>ms.
     Inr (f\<lparr>fm_miners := ms,
            fm_usedNonces :=
              (if list_ex (\<lambda>(i, m). P i \<and> mn_index m = 0) (enumerate 0 (fm_miners f))
               then snd (storeNonceIndex 0 True (fm_usedNonces f)) else fm_usedNonces f)\<rparr>))"

definition fm_setWork :: "bytes \<Rightarrow> h256 \<Rightarrow> farm \<Rightarrow> farm result" where
  "fm_setWork challenge target f =
     (if challenge = fm_challenge f \<and> target = fm_target f then Inr f
      else miners_setWork (\<lambda>i. True) challenge target (f\<lparr>fm_challenge := challenge, fm_target := target\<rparr>))"

section \<open>Solutions\<close>

text \<open>\<open>GenericFarm::submitProof\<close> called by the miner at position \<open>m\<close>: whether it should stop.\<close>

definition fm_submitProof :: "h256 \<Rightarrow> nat \<Rightarrow> farm \<Rightarrow> (bool \<times> farm) result" where
  "fm_submitProof nonce m f =
     (if fm_solutionMiner f = -1 then
        (let f1 = f\<lparr>fm_solutionMiner := int (mn_index (fm_miners f ! m)), fm_solution := nonce\<rparr> in
         if fm_opMode f = Solo then
           (let f2 = f1\<lparr>fm_challenge := []\<rparr> in
            bindE (miners_setWork (\<lambda>i. i \<noteq> m) (fm_challenge f2) (fm_target f2) f2) (\<lambda>f3. Inr (True, f3)))
         else Inr (False, f1))
      else Inr (fm_opMode f = Solo, f))"

text \<open>\<open>GenericMiner::submitProof\<close>: a miner that should stop forgets its challenge.\<close>

definition mn_submitProof :: "h256 \<Rightarrow> nat \<Rightarrow> farm \<Rightarrow> (bool \<times> farm) result" where
  "mn_submitProof nonce m f =
     bindE (fm_submitProof nonce m f) (\<lambda>(stop, f1).
     if stop then Inr (True, f1\<lparr>fm_miners := (fm_miners f1)[m := (fm_miners f1 ! m)\<lparr>mn_challenge := []\<rparr>]\<rparr>)
     else Inr (False, f1))"

text \<open>\<open>solutionFound\<close>: the solution and its miner, if there is one.\<close>

definition fm_solutionFound :: "farm \<Rightarrow> (h256 \<times> int) option \<times> farm" where
  "fm_solutionFound f =
     (if fm_solutionMiner f \<noteq> -1
      then (Some (fm_solution f, fm_solutionMiner f), f\<lparr>fm_solutionMiner := -1\<rparr>)
      else (None, f))"

section \<open>Statistics and events\<close>

definition fm_suggestBestHash :: "u64 \<Rightarrow> farm \<Rightarrow> farm" where
  "fm_suggestBestHash bh f =
     (if bh < fm_bestHash f then f\<lparr>fm_bestHash := bh, fm_log := BestHash bh # fm_log f\<rparr> else f)"

text \<open>\<open>GenericMiner::setBestHash\<close> of the miner at position \<open>m\<close>.\<close>

definition mn_suggest :: "u64 \<Rightarrow> nat \<Rightarrow> farm \<Rightarrow> farm" where
  "mn_suggest bh m f =
     (let f1 = fm_suggestBestHash bh f in f1\<lparr>fm_miners := (fm_miners f1)[m := mn_setBestHash bh (fm_miners f1 ! m)]\<rparr>)"

definition fm_reportCloseHit :: "u64 \<Rightarrow> u32 \<Rightarrow> int \<Rightarrow> farm \<Rightarrow> farm" where
  "fm_reportCloseHit closeHit work m f =
     (let f1 = f\<lparr>fm_closeHits := fm_closeHits f + 1, fm_lastCloseHit := closeHit\<rparr> in
      if (case fm_onCloseHit f1 of None \<Rightarrow> True | Some handler \<Rightarrow> \<not> handler closeHit work m)
      then f1\<lparr>fm_log := CloseHit closeHit work m # fm_log f1\<rparr> else f1)"

definition fm_getCloseHits :: "farm \<Rightarrow> string" where
  "fm_getCloseHits f =
     ''Work units: '' @ showNat (unat (fm_closeHits f)) @ '', Last: '' @
     (if fm_closeHits f = 0 then ''...'' else showNat (unat (fm_lastCloseHit f)))"

definition fm_reportHashFault :: "nat \<Rightarrow> farm \<Rightarrow> farm result" where
  "fm_reportHashFault m f =
     (if m < length (fm_hashFaults f) then
        (let f1 = f\<lparr>fm_hashFaults := (fm_hashFaults f)[m := fm_hashFaults f ! m + 1]\<rparr> in
         Inr (if (case fm_onHashFault f1 of None \<Rightarrow> True | Some handler \<Rightarrow> \<not> handler (int m))
              then f1\<lparr>fm_log := HashFault (int m) # fm_log f1\<rparr> else f1))
      else Inl UndefinedBehaviour)"

fun join :: "string \<Rightarrow> string list \<Rightarrow> string" where
  "join sep [] = []"
| "join sep [s] = s"
| "join sep (s # t # ss) = s @ sep @ join sep (t # ss)"

definition fm_getHashFaults :: "farm \<Rightarrow> string" where
  "fm_getHashFaults f = join '', '' (map showInt (fm_hashFaults f))"

definition fm_resetBestHash :: "farm \<Rightarrow> farm result" where
  "fm_resetBestHash f =
     bindE (mapE mn_resetBestHash (fm_miners f)) (\<lambda>ms. Inr (f\<lparr>fm_miners := ms, fm_bestHash := -1\<rparr>))"

definition fm_recordSolution :: "solution_state \<Rightarrow> bool \<Rightarrow> int \<Rightarrow> farm \<Rightarrow> farm result" where
  "fm_recordSolution state stale m f =
     (let s = fm_solutionStats f;
          s' = (if state = Accepted then (if stale then ss_acceptedStale s else ss_accepted s)
                else if state = Rejected then (if stale then ss_rejectedStale s else ss_rejected s)
                else ss_failed s)
      in fm_resetBestHash (f\<lparr>fm_solutionStats := s'\<rparr>))"

section \<open>Settings\<close>

definition fm_setCloseHitThresholds ::
    "'t ptree_lib \<Rightarrow> u64 \<Rightarrow> u64 \<Rightarrow> farm \<times> 't progopt \<Rightarrow> (farm \<times> 't progopt) result" where
  "fm_setCloseHitThresholds L threshold freq st =
     (case st of (f, po) \<Rightarrow>
        let f1 = f\<lparr>fm_closeHitThreshold := threshold, fm_workUnitFreq := signed_take_bit 31 (uint freq)\<rparr> in
        bindE (mapE (fm_calcThreshold f1) (fm_miners f1)) (\<lambda>ms.
        bindE (po_PutU L ''CloseHits'' ''CloseHitThreshold'' threshold (po_beginUpdating po)) (\<lambda>po1.
        bindE (po_PutU L ''CloseHits'' ''WorkUnitFrequency'' freq po1) (\<lambda>po2.
        bindE (po_endUpdating L po2) (\<lambda>po3. Inr (f1\<lparr>fm_miners := ms\<rparr>, po3))))))"

definition fm_setGpuThrottle :: "int \<Rightarrow> int \<Rightarrow> farm \<Rightarrow> farm result" where
  "fm_setGpuThrottle gpu percent f =
     (if 0 \<le> gpu \<and> gpu < int (length (fm_miners f)) then
        bindE (mn_setThrottle (fm_isMining f) percent (fm_miners f ! nat gpu)) (\<lambda>m.
        Inr (f\<lparr>fm_miners := (fm_miners f)[nat gpu := m]\<rparr>))
      else Inl (StdException ''out_of_range''))"

definition fm_anyThrottling :: "farm \<Rightarrow> bool" where
  "fm_anyThrottling f = (sum_list (map mn_throttle (fm_miners f)) > 0)"

text \<open>
  \<open>thermalProtection\<close>. The two settings go through the unsigned 64-bit overload of \<open>Put\<close>.
\<close>

definition fm_thermalProtection ::
    "'t ptree_lib \<Rightarrow> int \<Rightarrow> fp \<Rightarrow> farm \<times> 't progopt \<Rightarrow> (farm \<times> 't progopt) result" where
  "fm_thermalProtection L neverExceed safetyShutdown st =
     (case st of (f, po) \<Rightarrow>
        bindE (mapE (mn_thermalProtection neverExceed safetyShutdown) (fm_miners f)) (\<lambda>ms.
        bindE (po_PutU L ''ThermalProtection'' ''ThrottleTemp'' (word_of_int neverExceed) (po_beginUpdating po)) (\<lambda>po1.
        bindE (fp_to_u64 safetyShutdown) (\<lambda>s.
        bindE (po_PutU L ''ThermalProtection'' ''ShutDown'' (word_of_int s) po1) (\<lambda>po2.
        bindE (po_endUpdating L po2) (\<lambda>po3. Inr (f\<lparr>fm_miners := ms\<rparr>, po3)))))))"

definition fm_tunePIDController :: "int \<Rightarrow> fp \<Rightarrow> fp \<Rightarrow> fp \<Rightarrow> farm \<Rightarrow> farm result" where
  "fm_tunePIDController gpu kp ki kd f =
     (if 0 \<le> gpu \<and> gpu < int (length (fm_miners f)) then
        Inr (f\<lparr>fm_miners := (fm_miners f)[nat gpu := mn_tunePIDController kp ki kd (fm_miners f ! nat gpu)]\<rparr>)
      else Inl (StdException ''out_of_range''))"

text \<open>The PID controller of the miner at position \<open>m\<close>, and its effects on miner and farm.\<close>

definition fm_pidUpdate :: "fp \<Rightarrow> fp \<Rightarrow> fp \<Rightarrow> nat \<Rightarrow> farm \<Rightarrow> farm result" where
  "fm_pidUpdate gpuTemp e1 e2 m f =
     bindE (pid_update gpuTemp e1 e2 (mn_pid (fm_miners f ! m))) (\<lambda>(shut, thr, p).
     bindE (case thr of None \<Rightarrow> Inr (fm_miners f ! m)
                      | Some t \<Rightarrow> mn_setThrottle (fm_isMining f) t (fm_miners f ! m)) (\<lambda>mn.
     Inr (f\<lparr>fm_miners := (fm_miners f)[m := mn\<lparr>mn_pid := p\<rparr>],
            fm_shutDown := (fm_shutDown f \<or> shut)\<rparr>)))"

section \<open>Searching\<close>

text \<open>
  \<open>EthashCPUMiner::workLoop\<close> of the miner at position \<open>m\<close>. The environment of an iteration is
  what it observes: whether it should stop, the milliseconds since the last batch, and the
  microseconds of the miner's hash timer. The result says whether the loop has ended; its
  thread then stops by itself.
\<close>

record cpu_loop =
  cl_nonce :: h256
  cl_hashCount :: u32
  cl_batchCount :: u64
  cl_farm :: farm

definition cpu_body :: "(bytes \<Rightarrow> h256) \<Rightarrow> bytes \<Rightarrow> h160 \<Rightarrow> nat \<Rightarrow> u64 \<Rightarrow> u64 \<Rightarrow> cpu_loop \<Rightarrow> (bool \<times> cpu_loop) result" where
  "cpu_body SHA3_256 challenge sender m ms us c =
     (let hash = SHA3_256 (challenge @ sender @ cl_nonce c); f = cl_farm c in
      bindE (if fh_less hash (mn_target (fm_miners f ! m)) then mn_submitProof (cl_nonce c) m f else Inr (False, f))
        (\<lambda>(brk, f1).
        if brk then Inr (True, c\<lparr>cl_farm := f1\<rparr>)
        else
          let c1 = (if ms > 100 then
                      c\<lparr>cl_farm := f1\<lparr>fm_miners := (fm_miners f1)[m :=
                            mn_accumulateHashes (cl_hashCount c) (signed_take_bit 31 (uint (cl_batchCount c))) us (fm_miners f1 ! m)]\<rparr>,
                        cl_batchCount := cl_batchCount c + 1, cl_hashCount := 1\<rparr>
                    else c\<lparr>cl_farm := f1\<rparr>)
          in Inr (False, c1\<lparr>cl_hashCount := cl_hashCount c1 + 1, cl_nonce := fh_inc (cl_nonce c1)\<rparr>)))"

fun cpu_search :: "(bytes \<Rightarrow> h256) \<Rightarrow> bytes \<Rightarrow> h160 \<Rightarrow> nat \<Rightarrow> (bool \<times> u64 \<times> u64) list \<Rightarrow> cpu_loop \<Rightarrow> (bool \<times> cpu_loop) result" where
  "cpu_search H challenge sender m [] c = Inr (False, c)"
| "cpu_search H challenge sender m ((stop, ms, us) # env) c =
     (if stop then Inr (True, c)
      else bindE (cpu_body H challenge sender m ms us c)
             (\<lambda>(brk, c'). if brk then Inr (True, c') else cpu_search H challenge sender m env c'))"

definition cpu_workLoop :: "(bytes \<Rightarrow> h256) \<Rightarrow> nat \<Rightarrow> h256 \<Rightarrow> (bool \<times> u64 \<times> u64) list \<Rightarrow> farm \<Rightarrow> (bool \<times> farm) result" where
  "cpu_workLoop H m nonce env f =
     bindE (fh_of_string 20 (fm_hashingAcct f) FromHex FailIfDifferent) (\<lambda>sender.
     if length (mn_challenge (fm_miners f ! m)) < 32 then Inl UndefinedBehaviour
     else
       bindE (cpu_search H (take 32 (mn_challenge (fm_miners f ! m))) sender m env
                \<lparr>cl_nonce = nonce, cl_hashCount = 1, cl_batchCount = 0, cl_farm = f\<lparr>fm_isMining := True\<rparr>\<rparr>)
         (\<lambda>(ended, c).
            let g = cl_farm c in
            Inr (ended, if ended then g\<lparr>fm_miners := (fm_miners g)[m := (fm_miners g ! m)\<lparr>mn_running := False\<rparr>]\<rparr> else g)))"

text \<open>
  \<open>EthashGPUMiner::report\<close>: the nonce the GPU found is hashed again before it is submitted; and
  \<open>EthashCLHook::found\<close>, which reports the nonces of a batch until one makes the miner stop.
\<close>

definition gpu_report :: "(bytes \<Rightarrow> h256) \<Rightarrow> nat \<Rightarrow> h256 \<Rightarrow> farm \<Rightarrow> (bool \<times> farm) result" where
  "gpu_report H m nonce f =
     bindE (fh_of_string 20 (fm_hashingAcct f) FromHex FailIfDifferent) (\<lambda>sender.
     bindE (keccak256_0xBitcoin H (mn_challenge (fm_miners f ! m)) sender nonce) (\<lambda>hash.
     if fh_less hash (mn_target (fm_miners f ! m)) then mn_submitProof nonce m f
     else Inr (False, f)))"

fun clhook_found :: "(bytes \<Rightarrow> h256) \<Rightarrow> nat \<Rightarrow> bool \<Rightarrow> h256 list \<Rightarrow> farm \<Rightarrow> (bool \<times> farm) result" where
  "clhook_found H m shouldStop [] f = Inr (shouldStop, f)"
| "clhook_found H m shouldStop (n # ns) f =
     bindE (gpu_report H m n f) (\<lambda>(stop, f1).
     if stop then
       Inr (True, f1\<lparr>fm_miners := (fm_miners f1)[m := (fm_miners f1 ! m)\<lparr>mn_hook := (fst (mn_hook (fm_miners f1 ! m)), True)\<rparr>]\<rparr>)
     else clhook_found H m shouldStop ns f1)"

section \<open>Lemmas: distributing work\<close>

lemma mn_setWork_simps [simp]:
  "mn_index (mn_setWork c t m) = mn_index m" "mn_challenge (mn_setWork c t m) = c"
  "mn_target (mn_setWork c t m) = t" "mn_pid (mn_setWork c t m) = mn_pid m"
  "mn_kind (mn_setWork c t m) = mn_kind m" "mn_clBest (mn_setWork c t m) = mn_clBest m"
  by (auto simp: mn_setWork_def Let_def mn_kickOff_def mn_pause_def split: miner_kind.split)

lemma mn_setWork_running:
  "mn_running (mn_setWork c t m) \<longleftrightarrow> c \<noteq> [] \<or> (mn_challenge m = [] \<and> mn_running m)"
  by (auto simp: mn_setWork_def Let_def mn_kickOff_def mn_pause_def split: miner_kind.split)

lemma fm_calcThreshold_Inr:
  "fm_calcThreshold f m = Inr m' \<Longrightarrow> \<exists>h. m' = m\<lparr>mn_closeHit := h\<rparr> \<and> fm_closeHitThreshold f \<le> h"
  by (auto simp: fm_calcThreshold_def mn_calcWorkUnitThreshold_def bindE_Inr_iff)

lemma miners_setWork_Inr:
  assumes "miners_setWork P c t f = Inr f'"
  shows "f' = f\<lparr>fm_miners := fm_miners f', fm_usedNonces := fm_usedNonces f'\<rparr>"
    "length (fm_miners f') = length (fm_miners f)"
    "i < length (fm_miners f) \<Longrightarrow> \<not> P i \<Longrightarrow> fm_miners f' ! i = fm_miners f ! i"
    "i < length (fm_miners f) \<Longrightarrow> P i \<Longrightarrow>
       \<exists>h. fm_miners f' ! i = (mn_setWork c t (fm_miners f ! i))\<lparr>mn_closeHit := h\<rparr> \<and> fm_closeHitThreshold f \<le> h"
proof -
  obtain ms where ms: "mapE (\<lambda>(i, m). if P i then fm_calcThreshold f (mn_setWork c t m) else Inr m)
      (enumerate 0 (fm_miners f)) = Inr ms" and f': "fm_miners f' = ms"
    and rest: "f' = f\<lparr>fm_miners := fm_miners f', fm_usedNonces := fm_usedNonces f'\<rparr>"
    using assms by (auto simp: miners_setWork_def bindE_Inr_iff)
  show "f' = f\<lparr>fm_miners := fm_miners f', fm_usedNonces := fm_usedNonces f'\<rparr>" by (rule rest)
  have all: "list_all2 (\<lambda>(i, m) m'. (if P i then fm_calcThreshold f (mn_setWork c t m) else Inr m) = Inr m')
      (enumerate 0 (fm_miners f)) ms"
    using ms by (simp add: mapE_Inr_iff case_prod_beta')
  then show len: "length (fm_miners f') = length (fm_miners f)"
    by (auto dest: list_all2_lengthD simp: f')
  have nth: "i < length (fm_miners f) \<Longrightarrow>
      (if P i then fm_calcThreshold f (mn_setWork c t (fm_miners f ! i)) else Inr (fm_miners f ! i)) = Inr (ms ! i)"
    using list_all2_nthD [OF all, of i] by (simp add: nth_enumerate_eq)
  show "i < length (fm_miners f) \<Longrightarrow> \<not> P i \<Longrightarrow> fm_miners f' ! i = fm_miners f ! i"
    using nth by (simp add: f')
  show "i < length (fm_miners f) \<Longrightarrow> P i \<Longrightarrow>
      \<exists>h. fm_miners f' ! i = (mn_setWork c t (fm_miners f ! i))\<lparr>mn_closeHit := h\<rparr> \<and> fm_closeHitThreshold f \<le> h"
    using nth fm_calcThreshold_Inr [of f "mn_setWork c t (fm_miners f ! i)" "ms ! i"] by (auto simp: f')
qed

lemma miners_setWork_fields:
  assumes "miners_setWork P c t f = Inr f'"
  shows "fm_challenge f' = fm_challenge f" "fm_target f' = fm_target f" "fm_opMode f' = fm_opMode f"
    "fm_solutionMiner f' = fm_solutionMiner f" "fm_solution f' = fm_solution f"
    "fm_hashFaults f' = fm_hashFaults f" "fm_minerRates f' = fm_minerRates f"
    "fm_closeHitThreshold f' = fm_closeHitThreshold f" "fm_bestHash f' = fm_bestHash f"
    "fm_solutionStats f' = fm_solutionStats f"
  by (subst miners_setWork_Inr(1) [OF assms], simp)+

section \<open>The farm as a state machine\<close>

datatype farm_event =
    EvStart "miner list" u64
  | EvStop
  | EvSetWork bytes h256
  | EvSubmit nat h256
  | EvLoopEnds nat
  | EvPoll
  | EvRecord solution_state bool int
  | EvSuggest u64 nat
  | EvCloseHit u64 u32 int
  | EvHashFault nat
  | EvRates
  | EvPid nat fp fp fp

text \<open>A miner as \<open>createMiners\<close> makes it, for position \<open>i\<close>.\<close>

definition fresh_miner :: "nat \<Rightarrow> miner \<Rightarrow> bool" where
  "fresh_miner i m \<longleftrightarrow> mn_index m = i \<and> mn_challenge m = [] \<and> \<not> mn_running m"

text \<open>
  The calls of the main loop and of the miners' threads, each of which the code serialises by the
  farm's mutexes. A miner submits only while it has work; its loop ends when it has been told to
  stop, or has no work.
\<close>

inductive farm_step :: "farm \<Rightarrow> farm_event \<Rightarrow> farm \<Rightarrow> bool" where
  start: "fm_challenge f = [] \<Longrightarrow> \<forall>i < length ms. fresh_miner i (ms ! i) \<Longrightarrow>
          farm_step f (EvStart ms bh) (fm_start ms bh f)"
| stop: "farm_step f EvStop (fm_stop f)"
| setWork: "fm_setWork c t f = Inr f' \<Longrightarrow> farm_step f (EvSetWork c t) f'"
| submit: "m < length (fm_miners f) \<Longrightarrow> mn_challenge (fm_miners f ! m) \<noteq> [] \<Longrightarrow>
           mn_submitProof n m f = Inr (stop, f') \<Longrightarrow> farm_step f (EvSubmit m n) f'"
| loopEnds: "m < length (fm_miners f) \<Longrightarrow> mn_challenge (fm_miners f ! m) = [] \<Longrightarrow>
             f' = f\<lparr>fm_miners := (fm_miners f)[m := (fm_miners f ! m)\<lparr>mn_running := False\<rparr>]\<rparr> \<Longrightarrow>
             farm_step f (EvLoopEnds m) f'"
| poll: "farm_step f EvPoll (snd (fm_solutionFound f))"
| recorded: "fm_recordSolution st stale m f = Inr f' \<Longrightarrow> farm_step f (EvRecord st stale m) f'"
| suggest: "m < length (fm_miners f) \<Longrightarrow> farm_step f (EvSuggest bh m) (mn_suggest bh m f)"
| closeHit: "farm_step f (EvCloseHit h w m) (fm_reportCloseHit h w m f)"
| hashFault: "fm_reportHashFault m f = Inr f' \<Longrightarrow> farm_step f (EvHashFault m) f'"
| rates: "fm_updateRates f = Inr f' \<Longrightarrow> farm_step f EvRates f'"
| pid: "m < length (fm_miners f) \<Longrightarrow> fm_pidUpdate t e1 e2 m f = Inr f' \<Longrightarrow> farm_step f (EvPid m t e1 e2) f'"

inductive_cases farm_stepE: "farm_step f e f'"
inductive_simps farm_step_simps:
  "farm_step f (EvStart ms bh) f'" "farm_step f (EvSetWork c t) f'" "farm_step f (EvSubmit m n) f'"
  "farm_step f EvPoll f'" "farm_step f (EvRecord st stale m) f'" "farm_step f (EvLoopEnds m) f'"

text \<open>
  The invariant: positions, sizes of the per-miner tables, and agreement of every miner's work
  with the farm's; outside solo mining no miner is ever left behind.
\<close>

definition miner_ok :: "farm \<Rightarrow> miner \<Rightarrow> bool" where
  "miner_ok f m \<longleftrightarrow>
     (mn_challenge m \<noteq> [] \<longrightarrow> mn_challenge m = fm_challenge f \<and> mn_target m = fm_target f) \<and>
     (fm_opMode f \<noteq> Solo \<longrightarrow> mn_challenge m = fm_challenge f)"

definition farm_inv :: "farm \<Rightarrow> bool" where
  "farm_inv f \<longleftrightarrow>
     (\<forall>i < length (fm_miners f). mn_index (fm_miners f ! i) = i \<and> miner_ok f (fm_miners f ! i)) \<and>
     length (fm_miners f) \<le> length (fm_hashFaults f) \<and>
     length (fm_miners f) \<le> length (fm_minerRates f) \<and>
     -1 \<le> fm_solutionMiner f"

lemma farm_invI:
  "(\<And>i. i < length (fm_miners f) \<Longrightarrow> miner_ok f (fm_miners f ! i) \<and> mn_index (fm_miners f ! i) = i) \<Longrightarrow>
   length (fm_miners f) \<le> length (fm_hashFaults f) \<Longrightarrow> length (fm_miners f) \<le> length (fm_minerRates f) \<Longrightarrow>
   -1 \<le> fm_solutionMiner f \<Longrightarrow> farm_inv f"
  by (simp add: farm_inv_def)

lemma farm_invD:
  assumes "farm_inv f"
  shows "i < length (fm_miners f) \<Longrightarrow> miner_ok f (fm_miners f ! i)"
    "i < length (fm_miners f) \<Longrightarrow> mn_index (fm_miners f ! i) = i"
    "length (fm_miners f) \<le> length (fm_hashFaults f)" "length (fm_miners f) \<le> length (fm_minerRates f)"
    "-1 \<le> fm_solutionMiner f"
  using assms unfolding farm_inv_def by blast+

lemma farm_inv_start:
  assumes "farm_inv f" "fm_challenge f = []" "\<forall>i < length ms. fresh_miner i (ms ! i)"
  shows "farm_inv (fm_start ms bh f)"
  using assms by (auto simp: farm_inv_def fm_start_def fresh_miner_def miner_ok_def)

lemma farm_inv_setWork_all:
  assumes "miners_setWork (\<lambda>i. True) c t (f\<lparr>fm_challenge := c, fm_target := t\<rparr>) = Inr f'" and "farm_inv f"
  shows "farm_inv f'"
proof -
  note r = miners_setWork_Inr [OF assms(1)] and fs = miners_setWork_fields [OF assms(1)]
  have "mn_index (fm_miners f' ! i) = i \<and> miner_ok f' (fm_miners f' ! i)" if "i < length (fm_miners f')" for i
    using r(4) [of i] r(2) that assms(2) by (auto simp: farm_inv_def miner_ok_def fs)
  with r(2) assms(2) show ?thesis by (simp add: farm_inv_def fs)
qed

lemma farm_inv_setWork: "fm_setWork c t f = Inr f' \<Longrightarrow> farm_inv f \<Longrightarrow> farm_inv f'"
  by (auto simp: fm_setWork_def split: if_splits intro: farm_inv_setWork_all)

text \<open>What a submission does, by mode and mailbox.\<close>

lemma mn_submitProof_cases:
  assumes "mn_submitProof n m f = Inr (stop, f')"
  obtains
    (full) "fm_solutionMiner f \<noteq> -1" "stop = (fm_opMode f = Solo)"
      "f' = (if stop then f\<lparr>fm_miners := (fm_miners f)[m := (fm_miners f ! m)\<lparr>mn_challenge := []\<rparr>]\<rparr> else f)"
  | (pool) "fm_solutionMiner f = -1" "fm_opMode f \<noteq> Solo" "\<not> stop"
      "f' = f\<lparr>fm_solutionMiner := int (mn_index (fm_miners f ! m)), fm_solution := n\<rparr>"
  | (solo) g where "fm_solutionMiner f = -1" "fm_opMode f = Solo" "stop"
      "miners_setWork (\<lambda>i. i \<noteq> m) [] (fm_target f)
         (f\<lparr>fm_solutionMiner := int (mn_index (fm_miners f ! m)), fm_solution := n, fm_challenge := []\<rparr>) = Inr g"
      "f' = g\<lparr>fm_miners := (fm_miners g)[m := (fm_miners g ! m)\<lparr>mn_challenge := []\<rparr>]\<rparr>"
proof (cases "fm_solutionMiner f = -1")
  case False
  with assms show ?thesis
    by (intro full) (auto simp: mn_submitProof_def fm_submitProof_def split: if_splits)
next
  case True
  show ?thesis
  proof (cases "fm_opMode f = Solo")
    case False
    with True assms show ?thesis
      by (intro pool) (auto simp: mn_submitProof_def fm_submitProof_def split: if_splits)
  next
    case solo_mode: True
    with True assms show ?thesis
      by (auto simp: mn_submitProof_def fm_submitProof_def bindE_Inr_iff Let_def intro: solo)
  qed
qed

lemma miner_ok_idle: "fm_opMode f = Solo \<Longrightarrow> mn_challenge m = [] \<Longrightarrow> miner_ok f m"
  by (simp add: miner_ok_def)

text \<open>In solo mode the first solution takes everyone's work away.\<close>

lemma solo_submit:
  assumes "miners_setWork (\<lambda>i. i \<noteq> m) [] t
             (f\<lparr>fm_solutionMiner := s, fm_solution := n, fm_challenge := []\<rparr>) = Inr g"
    and "f' = g\<lparr>fm_miners := (fm_miners g)[m := (fm_miners g ! m)\<lparr>mn_challenge := []\<rparr>]\<rparr>" and "m < length (fm_miners f)"
  shows "length (fm_miners f') = length (fm_miners f)" "fm_challenge f' = []" "fm_solution f' = n"
    "fm_solutionMiner f' = s" "fm_opMode f' = fm_opMode f"
    "fm_hashFaults f' = fm_hashFaults f" "fm_minerRates f' = fm_minerRates f"
    "i < length (fm_miners f) \<Longrightarrow> mn_challenge (fm_miners f' ! i) = [] \<and>
       mn_index (fm_miners f' ! i) = mn_index (fm_miners f ! i)"
    "i < length (fm_miners f) \<Longrightarrow> i \<noteq> m \<Longrightarrow>
       mn_running (fm_miners f' ! i) \<longrightarrow> mn_challenge (fm_miners f ! i) = [] \<and> mn_running (fm_miners f ! i)"
proof -
  note r = miners_setWork_Inr [OF assms(1)] and fs = miners_setWork_fields [OF assms(1)]
  show "length (fm_miners f') = length (fm_miners f)" "fm_challenge f' = []" "fm_solution f' = n"
    "fm_solutionMiner f' = s" "fm_opMode f' = fm_opMode f"
    "fm_hashFaults f' = fm_hashFaults f" "fm_minerRates f' = fm_minerRates f"
    using r(2) by (simp_all add: assms(2) fs)
  show "i < length (fm_miners f) \<Longrightarrow> mn_challenge (fm_miners f' ! i) = [] \<and>
       mn_index (fm_miners f' ! i) = mn_index (fm_miners f ! i)"
    using r(2) r(3) [of i] r(4) [of i] by (cases "i = m") (auto simp: assms(2))
  show "i < length (fm_miners f) \<Longrightarrow> i \<noteq> m \<Longrightarrow>
       mn_running (fm_miners f' ! i) \<longrightarrow> mn_challenge (fm_miners f ! i) = [] \<and> mn_running (fm_miners f ! i)"
    using r(2) r(4) [of i] by (auto simp: assms(2) mn_setWork_running)
qed

lemma farm_inv_submit:
  assumes "farm_inv f" "m < length (fm_miners f)" "mn_submitProof n m f = Inr (stop, f')"
  shows "farm_inv f'"
  using assms(3)
proof (cases rule: mn_submitProof_cases)
  case full
  have ctx: "miner_ok f' x = miner_ok f x" for x unfolding full(3) miner_ok_def by simp
  have fs: "length (fm_miners f') = length (fm_miners f)" "fm_hashFaults f' = fm_hashFaults f"
    "fm_minerRates f' = fm_minerRates f" "fm_solutionMiner f' = fm_solutionMiner f"
    unfolding full(3) by simp_all
  show ?thesis
  proof (rule farm_invI, unfold fs ctx)
    fix i assume i: "i < length (fm_miners f)"
    show "miner_ok f (fm_miners f' ! i) \<and> mn_index (fm_miners f' ! i) = i"
    proof (cases "stop \<and> i = m")
      case True
      then have "fm_miners f' ! i = (fm_miners f ! i)\<lparr>mn_challenge := []\<rparr>" unfolding full(3) using i by simp
      moreover have "fm_opMode f = Solo" using True full(2) by simp
      ultimately show ?thesis using farm_invD(2) [OF assms(1) i] by (simp add: miner_ok_idle)
    next
      case False
      then have "fm_miners f' ! i = fm_miners f ! i" unfolding full(3) by auto
      with farm_invD(1,2) [OF assms(1) i] show ?thesis by simp
    qed
  qed (rule farm_invD [OF assms(1)])+
next
  case pool
  have ctx: "miner_ok f' x = miner_ok f x" for x unfolding pool(4) miner_ok_def by simp
  have fs: "fm_miners f' = fm_miners f" "fm_hashFaults f' = fm_hashFaults f" "fm_minerRates f' = fm_minerRates f"
    "fm_solutionMiner f' = int (mn_index (fm_miners f ! m))"
    unfolding pool(4) by simp_all
  show ?thesis
    by (rule farm_invI, unfold fs ctx) (simp_all add: farm_invD [OF assms(1)])
next
  case (solo g)
  note s = solo_submit [OF solo(4,5) assms(2)]
  show ?thesis
  proof (rule farm_invI, unfold s(1,4,6,7))
    fix i assume i: "i < length (fm_miners f)"
    show "miner_ok f' (fm_miners f' ! i) \<and> mn_index (fm_miners f' ! i) = i"
      using s(8) [OF i] solo(2) farm_invD(2) [OF assms(1) i] by (simp add: miner_ok_idle s(5))
  qed (simp_all add: farm_invD [OF assms(1)])
qed

text \<open>Steps that leave challenges, targets and positions alone.\<close>

definition same_work :: "farm \<Rightarrow> farm \<Rightarrow> bool" where
  "same_work f f' \<longleftrightarrow>
     fm_challenge f' = fm_challenge f \<and> fm_target f' = fm_target f \<and> fm_opMode f' = fm_opMode f \<and>
     map (\<lambda>m. (mn_index m, mn_challenge m, mn_target m)) (fm_miners f') =
     map (\<lambda>m. (mn_index m, mn_challenge m, mn_target m)) (fm_miners f) \<and>
     length (fm_hashFaults f') = length (fm_hashFaults f) \<and>
     length (fm_minerRates f') = length (fm_minerRates f)"

lemma farm_inv_same_work:
  assumes "farm_inv f" "same_work f f'" "-1 \<le> fm_solutionMiner f'"
  shows "farm_inv f'"
proof -
  have len: "length (fm_miners f') = length (fm_miners f)"
    using assms(2) unfolding same_work_def by (blast dest: map_eq_imp_length_eq)
  have nth: "mn_index (fm_miners f' ! i) = mn_index (fm_miners f ! i) \<and>
      mn_challenge (fm_miners f' ! i) = mn_challenge (fm_miners f ! i) \<and>
      mn_target (fm_miners f' ! i) = mn_target (fm_miners f ! i)" if "i < length (fm_miners f)" for i
  proof -
    have "map (\<lambda>m. (mn_index m, mn_challenge m, mn_target m)) (fm_miners f') ! i =
        map (\<lambda>m. (mn_index m, mn_challenge m, mn_target m)) (fm_miners f) ! i"
      using assms(2) unfolding same_work_def by simp
    moreover have "i < length (fm_miners f')" using that len by simp
    ultimately show ?thesis using that by simp
  qed
  have fs: "fm_challenge f' = fm_challenge f" "fm_target f' = fm_target f" "fm_opMode f' = fm_opMode f"
    "length (fm_hashFaults f') = length (fm_hashFaults f)" "length (fm_minerRates f') = length (fm_minerRates f)"
    using assms(2) unfolding same_work_def by blast+
  show ?thesis
  proof (rule farm_invI, unfold len fs)
    fix i assume i: "i < length (fm_miners f)"
    show "miner_ok f' (fm_miners f' ! i) \<and> mn_index (fm_miners f' ! i) = i"
      using farm_invD(1,2) [OF assms(1) i] nth [OF i] by (simp add: miner_ok_def fs)
  qed (rule farm_invD [OF assms(1)] assms(3))+
qed

lemma same_work_update:
  "m < length (fm_miners f) \<Longrightarrow>
   mn_index x = mn_index (fm_miners f ! m) \<and> mn_challenge x = mn_challenge (fm_miners f ! m) \<and>
   mn_target x = mn_target (fm_miners f ! m) \<Longrightarrow> same_work f (f\<lparr>fm_miners := (fm_miners f)[m := x]\<rparr>)"
  by (auto simp: same_work_def map_update list_update_same_conv)

lemma mn_resetBestHash_Inr:
  "mn_resetBestHash m = Inr m' \<Longrightarrow>
   mn_index m' = mn_index m \<and> mn_challenge m' = mn_challenge m \<and> mn_target m' = mn_target m \<and> mn_bestHash m' = -1"
  by (auto simp: mn_resetBestHash_def Let_def split: miner_kind.splits option.splits)

lemma mn_setThrottle_Inr:
  "mn_setThrottle b t m = Inr m' \<Longrightarrow>
   mn_index m' = mn_index m \<and> mn_challenge m' = mn_challenge m \<and> mn_target m' = mn_target m"
  by (auto simp: mn_setThrottle_def split: miner_kind.splits if_splits)

lemma mapE_resetBestHash:
  "mapE mn_resetBestHash ms = Inr ms' \<Longrightarrow>
   map (\<lambda>m. (mn_index m, mn_challenge m, mn_target m)) ms' = map (\<lambda>m. (mn_index m, mn_challenge m, mn_target m)) ms \<and>
   (\<forall>m \<in> set ms'. mn_bestHash m = -1)"
  by (induction ms arbitrary: ms') (auto simp: bindE_Inr_iff dest: mn_resetBestHash_Inr)

lemma same_work_record: "fm_recordSolution st stale m f = Inr f' \<Longrightarrow> same_work f f' \<and> fm_solutionMiner f' = fm_solutionMiner f"
  unfolding fm_recordSolution_def fm_resetBestHash_def Let_def
  by (auto simp: bindE_Inr_iff same_work_def simp del: map_eq_conv dest: mapE_resetBestHash)

lemma same_work_suggest:
  assumes "m < length (fm_miners f)"
  shows "same_work f (mn_suggest bh m f) \<and> fm_solutionMiner (mn_suggest bh m f) = fm_solutionMiner f"
proof -
  have "same_work f (fm_suggestBestHash bh f)" "fm_miners (fm_suggestBestHash bh f) = fm_miners f"
    "fm_solutionMiner (fm_suggestBestHash bh f) = fm_solutionMiner f"
    by (simp_all add: fm_suggestBestHash_def same_work_def)
  moreover have "same_work g (g\<lparr>fm_miners := (fm_miners g)[m := mn_setBestHash bh (fm_miners g ! m)]\<rparr>)"
    if "fm_miners g = fm_miners f" for g
    using assms that by (intro same_work_update) (simp_all add: mn_setBestHash_def)
  ultimately show ?thesis by (simp add: mn_suggest_def Let_def same_work_def)
qed

lemma update_rates_length: "update_rates ms es t = Inr (es', t') \<Longrightarrow> length es' = length es"
  by (induction ms es t arbitrary: es' rule: update_rates.induct) (auto simp: bindE_Inr_iff Let_def)

lemma same_work_pid:
  assumes "m < length (fm_miners f)" "fm_pidUpdate t e1 e2 m f = Inr f'"
  shows "same_work f f' \<and> fm_solutionMiner f' = fm_solutionMiner f"
proof -
  obtain shut thr p x where x0: "(case thr of None \<Rightarrow> Inr (fm_miners f ! m)
        | Some t \<Rightarrow> mn_setThrottle (fm_isMining f) t (fm_miners f ! m)) = Inr x"
    and f': "f' = f\<lparr>fm_miners := (fm_miners f)[m := x\<lparr>mn_pid := p\<rparr>], fm_shutDown := (fm_shutDown f \<or> shut)\<rparr>"
    using assms(2) by (auto simp: fm_pidUpdate_def bindE_Inr_iff)
  have x: "mn_index (x\<lparr>mn_pid := p\<rparr>) = mn_index (fm_miners f ! m) \<and>
      mn_challenge (x\<lparr>mn_pid := p\<rparr>) = mn_challenge (fm_miners f ! m) \<and>
      mn_target (x\<lparr>mn_pid := p\<rparr>) = mn_target (fm_miners f ! m)"
    using x0 mn_setThrottle_Inr by (cases thr) auto
  from same_work_update [OF assms(1) x] show ?thesis by (simp add: f' same_work_def)
qed

lemma farm_inv_step: "farm_inv f \<Longrightarrow> farm_step f e f' \<Longrightarrow> farm_inv f'"
proof (erule farm_stepE)
  assume inv: "farm_inv f"
  have keep: "farm_inv g" if "same_work f g" "fm_solutionMiner g = fm_solutionMiner f" for g
    using farm_inv_same_work [OF inv that(1)] farm_invD(5) [OF inv] that(2) by simp
  {
    fix ms bh assume "f' = fm_start ms bh f" "fm_challenge f = []" "\<forall>i<length ms. fresh_miner i (ms ! i)"
    then show "farm_inv f'" using farm_inv_start [OF inv] by simp
  next
    assume "f' = fm_stop f"
    then show "farm_inv f'" using farm_invD(5) [OF inv] by (simp add: farm_inv_def fm_stop_def)
  next
    fix c t assume "fm_setWork c t f = Inr f'"
    then show "farm_inv f'" using inv by (rule farm_inv_setWork)
  next
    fix m n stop assume "m < length (fm_miners f)" "mn_submitProof n m f = Inr (stop, f')"
    then show "farm_inv f'" using farm_inv_submit [OF inv] by blast
  next
    fix m assume "m < length (fm_miners f)" "f' = f\<lparr>fm_miners := (fm_miners f)[m := (fm_miners f ! m)\<lparr>mn_running := False\<rparr>]\<rparr>"
    then show "farm_inv f'" by (intro keep) (simp_all add: same_work_update)
  next
    assume "f' = snd (fm_solutionFound f)"
    then show "farm_inv f'"
      using farm_inv_same_work [OF inv, of f'] farm_invD(5) [OF inv] by (simp add: fm_solutionFound_def same_work_def)
  next
    fix st stale m assume "fm_recordSolution st stale m f = Inr f'"
    then show "farm_inv f'" using same_work_record keep by blast
  next
    fix m bh assume "m < length (fm_miners f)" "f' = mn_suggest bh m f"
    then show "farm_inv f'" using same_work_suggest keep by blast
  next
    fix h w m assume "f' = fm_reportCloseHit h w m f"
    then show "farm_inv f'" by (intro keep) (simp_all add: fm_reportCloseHit_def Let_def same_work_def)
  next
    fix m assume "fm_reportHashFault m f = Inr f'"
    then show "farm_inv f'"
      by (intro keep) (auto simp: fm_reportHashFault_def Let_def same_work_def split: if_splits)
  next
    assume "fm_updateRates f = Inr f'"
    then show "farm_inv f'"
      by (intro keep) (auto simp: fm_updateRates_def same_work_def bindE_Inr_iff update_rates_length split: if_splits)
  next
    fix m t e1 e2 assume "m < length (fm_miners f)" "fm_pidUpdate t e1 e2 m f = Inr f'"
    then show "farm_inv f'" using same_work_pid keep by blast
  }
qed

text \<open>A farm as its constructor makes it.\<close>

definition farm_init :: "farm \<Rightarrow> bool" where
  "farm_init f \<longleftrightarrow> (\<exists>mode en th fr bh lc. GenericFarm mode en th fr bh lc = Inr f)"

lemma farm_inv_init: "farm_init f \<Longrightarrow> farm_inv f"
  by (auto simp: farm_init_def GenericFarm_def Let_def bindE_Inr_iff farm_inv_def split: if_splits)

interpretation farm: invariant_machine farm_init farm_step farm_inv
  by unfold_locales (auto intro: farm_inv_init farm_inv_step)

section \<open>The mailbox\<close>

text \<open>
  The specification of \<open>submitProof\<close> and \<open>solutionFound\<close>: a buffer with one place, which keeps the
  first solution submitted since it was last emptied, with the position of its miner.
\<close>

definition mailbox :: "farm \<Rightarrow> (h256 \<times> int) option" where
  "mailbox f = (if fm_solutionMiner f = -1 then None else Some (fm_solution f, fm_solutionMiner f))"

fun mailbox_step :: "farm_event \<Rightarrow> (h256 \<times> int) option \<Rightarrow> (h256 \<times> int) option" where
  "mailbox_step (EvSubmit m n) None = Some (n, int m)"
| "mailbox_step EvPoll b = None"
| "mailbox_step e b = b"

lemma mailbox_submit:
  assumes inv: "farm_inv f" and m: "m < length (fm_miners f)" and sub: "mn_submitProof n m f = Inr (stop, f')"
  shows "mailbox f' = mailbox_step (EvSubmit m n) (mailbox f)"
  using sub
proof (cases rule: mn_submitProof_cases)
  case full
  from full(3) have "mailbox f' = mailbox f" by (simp add: mailbox_def)
  with full(1) show ?thesis by (simp add: mailbox_def)
next
  case pool
  with farm_invD(2) [OF inv m] show ?thesis by (simp add: mailbox_def)
next
  case (solo g)
  with solo_submit(3,4) [OF solo(4,5) m] farm_invD(2) [OF inv m] show ?thesis by (simp add: mailbox_def)
qed

lemma mailbox_same: "same_work f f' \<and> fm_solutionMiner f' = fm_solutionMiner f \<Longrightarrow> fm_solution f' = fm_solution f \<Longrightarrow> mailbox f' = mailbox f"
  by (simp add: mailbox_def)

lemma mailbox_setWork: "fm_setWork c t f = Inr f' \<Longrightarrow> mailbox f' = mailbox f"
  by (auto simp: fm_setWork_def mailbox_def miners_setWork_fields split: if_splits)

lemma mailbox_refines:
  assumes "farm_inv f" "farm_step f e f'"
  shows "mailbox f' = mailbox_step e (mailbox f)"
  using assms(2)
proof cases
  case (submit m n stop)
  then show ?thesis using mailbox_submit [OF assms(1)] by simp
next
  case (setWork c t)
  then show ?thesis by (simp add: mailbox_setWork)
qed (auto simp: mailbox_def fm_start_def fm_stop_def fm_solutionFound_def fm_recordSolution_def
      fm_resetBestHash_def mn_suggest_def fm_suggestBestHash_def fm_reportCloseHit_def
      fm_reportHashFault_def fm_updateRates_def fm_pidUpdate_def Let_def bindE_Inr_iff split: if_splits)

lemma mailbox_runs:
  "farm_inv f \<Longrightarrow> runs farm_step f es f' \<Longrightarrow> mailbox f' = fold mailbox_step es (mailbox f)"
proof (induction es arbitrary: f)
  case (Cons e es)
  then obtain g where g: "farm_step f e g" "runs farm_step g es f'" by auto
  have "farm_inv g" using Cons.prems(1) g(1) by (rule farm_inv_step)
  with Cons.IH [OF this g(2)] mailbox_refines [OF Cons.prems(1) g(1)] show ?case by simp
qed simp

section \<open>Lemmas: searching\<close>

text \<open>A nonce is a solution of miner \<open>m\<close>'s work: its hash is below the target.\<close>

definition solves :: "(bytes \<Rightarrow> h256) \<Rightarrow> bytes \<Rightarrow> h160 \<Rightarrow> h256 \<Rightarrow> h256 \<Rightarrow> bool" where
  "solves H challenge sender target nonce \<longleftrightarrow> be_val (H (challenge @ sender @ nonce)) < be_val target"

lemma mn_submitProof_target:
  assumes sub: "mn_submitProof n m f = Inr (stop, f')" and m: "m < length (fm_miners f)"
  shows "length (fm_miners f') = length (fm_miners f) \<and>
    mn_target (fm_miners f' ! m) = mn_target (fm_miners f ! m) \<and>
    mn_index (fm_miners f' ! m) = mn_index (fm_miners f ! m) \<and>
    mailbox f' = (if mailbox f = None then Some (n, int (mn_index (fm_miners f ! m))) else mailbox f) \<and>
    fm_opMode f' = fm_opMode f \<and> (stop \<longleftrightarrow> fm_opMode f = Solo)"
  using sub
proof (cases rule: mn_submitProof_cases)
  case full
  then show ?thesis using m by (simp add: mailbox_def)
next
  case pool
  then show ?thesis using m by (simp add: mailbox_def)
next
  case (solo g)
  have "mn_target (fm_miners f' ! m) = mn_target (fm_miners f ! m)"
    using miners_setWork_Inr(2) [OF solo(4)] miners_setWork_Inr(3) [OF solo(4), of m] m by (simp add: solo(5))
  with solo_submit(1,3,4,5) [OF solo(4,5) m] solo_submit(8) [OF solo(4,5) m m] solo(1,2,3) show ?thesis by (simp add: mailbox_def)
qed

text \<open>
  The search of a CPU miner: the mailbox is filled, if it was empty, with the first nonce in
  counting order from the start that solves the work; no other nonce is ever submitted.
\<close>

definition nonce_at :: "h256 \<Rightarrow> nat \<Rightarrow> h256" where
  "nonce_at n k = (fh_inc ^^ k) n"

lemma cpu_body_Inr:
  assumes "cpu_body H ch sender m ms us c = Inr (brk, c')" and m: "m < length (fm_miners (cl_farm c))"
  defines "target \<equiv> mn_target (fm_miners (cl_farm c) ! m)"
  defines "hit \<equiv> fh_less (H (ch @ sender @ cl_nonce c)) target"
  shows "length (fm_miners (cl_farm c')) = length (fm_miners (cl_farm c)) \<and>
    mn_target (fm_miners (cl_farm c') ! m) = target \<and>
    mn_index (fm_miners (cl_farm c') ! m) = mn_index (fm_miners (cl_farm c) ! m) \<and> fm_opMode (cl_farm c') = fm_opMode (cl_farm c) \<and>
    mailbox (cl_farm c') =
      (if hit \<and> mailbox (cl_farm c) = None then Some (cl_nonce c, int (mn_index (fm_miners (cl_farm c) ! m))) else mailbox (cl_farm c)) \<and>
    (brk \<longleftrightarrow> hit \<and> fm_opMode (cl_farm c) = Solo) \<and> cl_nonce c' = (if brk then cl_nonce c else fh_inc (cl_nonce c))"
proof -
  obtain b f1 where step: "(if hit then mn_submitProof (cl_nonce c) m (cl_farm c) else Inr (False, cl_farm c)) = Inr (b, f1)"
    and rest: "(if b then Inr (True, c\<lparr>cl_farm := f1\<rparr>)
        else
          let c1 = (if ms > 100 then
                      c\<lparr>cl_farm := f1\<lparr>fm_miners := (fm_miners f1)[m :=
                            mn_accumulateHashes (cl_hashCount c) (signed_take_bit 31 (uint (cl_batchCount c))) us (fm_miners f1 ! m)]\<rparr>,
                        cl_batchCount := cl_batchCount c + 1, cl_hashCount := 1\<rparr>
                    else c\<lparr>cl_farm := f1\<rparr>)
          in Inr (False, c1\<lparr>cl_hashCount := cl_hashCount c1 + 1, cl_nonce := fh_inc (cl_nonce c1)\<rparr>)) = (Inr (brk, c') :: (bool \<times> cpu_loop) result)"
    using assms(1) by (auto simp: cpu_body_def Let_def bindE_Inr_iff hit_def target_def)
  have acc: "mn_target (mn_accumulateHashes n b u x) = mn_target x" "mn_index (mn_accumulateHashes n b u x) = mn_index x" for n b u x
    by (simp_all add: mn_accumulateHashes_def Let_def)
  have f1: "length (fm_miners f1) = length (fm_miners (cl_farm c))" "mn_target (fm_miners f1 ! m) = target"
    "mn_index (fm_miners f1 ! m) = mn_index (fm_miners (cl_farm c) ! m)"
    "fm_opMode f1 = fm_opMode (cl_farm c)"
    "mailbox f1 = (if hit \<and> mailbox (cl_farm c) = None then Some (cl_nonce c, int (mn_index (fm_miners (cl_farm c) ! m))) else mailbox (cl_farm c))"
    "b \<longleftrightarrow> hit \<and> fm_opMode (cl_farm c) = Solo"
    using step mn_submitProof_target [of "cl_nonce c" m "cl_farm c" b f1] m by (auto simp: target_def split: if_splits)
  have brk: "brk = b" using rest by (auto simp: Let_def split: if_splits)
  have mb: "mailbox (f1\<lparr>fm_miners := xs\<rparr>) = mailbox f1" for xs by (simp add: mailbox_def)
  have "length (fm_miners (cl_farm c')) = length (fm_miners f1) \<and>
      mn_target (fm_miners (cl_farm c') ! m) = mn_target (fm_miners f1 ! m) \<and>
      mn_index (fm_miners (cl_farm c') ! m) = mn_index (fm_miners f1 ! m) \<and>
      fm_opMode (cl_farm c') = fm_opMode f1 \<and> mailbox (cl_farm c') = mailbox f1 \<and>
      cl_nonce c' = (if brk then cl_nonce c else fh_inc (cl_nonce c))"
    using rest m f1(1) by (auto simp: Let_def acc mb split: if_splits)
  with f1 brk show ?thesis by simp
qed

text \<open>The first position below \<open>N\<close> at which \<open>P\<close> holds.\<close>

fun first_below :: "nat \<Rightarrow> (nat \<Rightarrow> bool) \<Rightarrow> nat option" where
  "first_below 0 P = None"
| "first_below (Suc N) P = (if P 0 then Some 0 else map_option Suc (first_below N (\<lambda>k. P (Suc k))))"

lemma first_below_iff: "first_below N P = Some k \<longleftrightarrow> k < N \<and> P k \<and> (\<forall>j < k. \<not> P j)"
proof (induction N arbitrary: P k)
  case (Suc N)
  show ?case
    by (cases k) (auto simp: Suc.IH All_less_Suc2)
qed simp

lemma cpu_search_mailbox:
  "cpu_search H ch sender m (map (Pair False) env) c = Inr (ended, c') \<Longrightarrow>
   m < length (fm_miners (cl_farm c)) \<Longrightarrow> mailbox (cl_farm c) = None \<Longrightarrow>
   mailbox (cl_farm c') =
   map_option (\<lambda>k. (nonce_at (cl_nonce c) k, int (mn_index (fm_miners (cl_farm c) ! m))))
     (first_below (length env)
        (\<lambda>k. fh_less (H (ch @ sender @ nonce_at (cl_nonce c) k)) (mn_target (fm_miners (cl_farm c) ! m))))"
proof (induction env arbitrary: c)
  case (Cons e env)
  obtain ms us where e: "e = (ms, us)" by (cases e)
  obtain brk c1 where body: "cpu_body H ch sender m ms us c = Inr (brk, c1)"
    and rest: "(if brk then Inr (True, c1) else
      cpu_search H ch sender m (map (Pair False) env) c1) = Inr (ended, c')"
    using Cons.prems(1) by (auto simp: e bindE_Inr_iff)
  note b = cpu_body_Inr [OF body Cons.prems(2)]
  have zero: "nonce_at n 0 = n" for n by (simp add: nonce_at_def)
  have suc: "nonce_at n (Suc k) = nonce_at (fh_inc n) k" for n k
    by (simp add: nonce_at_def funpow_swap1)
  show ?case
  proof (cases "fh_less (H (ch @ sender @ cl_nonce c)) (mn_target (fm_miners (cl_farm c) ! m))")
    case True
    have keep: "m < length (fm_miners (cl_farm d)) \<Longrightarrow> mailbox (cl_farm d) = Some x \<Longrightarrow>
        cpu_search H ch sender m env' d = Inr (r, d') \<Longrightarrow> mailbox (cl_farm d') = Some x" for env' d x r d'
    proof (induction env' arbitrary: d)
      case (Cons v vs)
      obtain st ms us where v: "v = (st, ms, us)" by (cases v)
      show ?case
      proof (cases st)
        case False
        with Cons.prems obtain b e1 where be: "cpu_body H ch sender m ms us d = Inr (b, e1)"
          and r: "(if b then Inr (True, e1) else cpu_search H ch sender m vs e1) = Inr (r, d')"
          by (auto simp: v bindE_Inr_iff)
        note bb = cpu_body_Inr [OF be Cons.prems(1)]
        show ?thesis
          using Cons.IH [of e1] bb Cons.prems(1,2) r by (cases b) auto
      qed (use Cons.prems in \<open>auto simp: v\<close>)
    qed simp
    have "mailbox (cl_farm c') = mailbox (cl_farm c1)"
      using keep [of c1 "(cl_nonce c, int (mn_index (fm_miners (cl_farm c) ! m)))"] rest b True Cons.prems(2,3)
      by (cases brk) auto
    with b True Cons.prems(3) show ?thesis by (simp add: zero)
  next
    case False
    with b rest have "cpu_search H ch sender m (map (Pair False) env) c1 = Inr (ended, c')" by simp
    from Cons.IH [OF this] b False Cons.prems(2,3) show ?thesis
      by (simp add: zero suc option.map_comp comp_def)
  qed
qed simp

section \<open>Lemmas: best hashes and settings\<close>

lemma fm_bestHash_suggest [simp]: "fm_bestHash (fm_suggestBestHash bh f) = min bh (fm_bestHash f)"
  by (auto simp: fm_suggestBestHash_def min_def)

lemma mailbox_init: "farm_init f \<Longrightarrow> mailbox f = None"
  by (auto simp: farm_init_def GenericFarm_def Let_def bindE_Inr_iff mailbox_def split: if_splits)

section \<open>An example\<close>

text \<open>Two CPU miners on a solo farm; the second finds a solution.\<close>

definition example_miner :: "nat \<Rightarrow> miner" where
  "example_miner i =
     \<lparr>mn_index = i, mn_kind = CPU, mn_challenge = [], mn_target = fh_zero 32, mn_currentHash = 0,
      mn_bestHash = 0, mn_closeHit = 0, mn_throttle = 0, mn_hashCount = 0, mn_hashRate = EMA 4,
      mn_pid = PIDController ''80'' ''20'', mn_running = False, mn_hook = (False, True), mn_clBest = None\<rparr>"

definition example_farm :: farm where
  "example_farm =
     \<lparr>fm_opMode = Solo, fm_challenge = [], fm_target = fh_zero 32, fm_miners = [], fm_isMining = False,
      fm_minerRates = [], fm_lastReportedRate = [], fm_farmRate = Fin 0,
      fm_closeHitThreshold = 0, fm_workUnitFreq = 0, fm_shutDown = False, fm_hashingAcct = [],
      fm_onBestHash = None, fm_onCloseHit = None, fm_onHashFault = None, fm_hashFaults = [],
      fm_bestHash = 9, fm_solutionStats = ss_zero, fm_closeHits = 0, fm_lastCloseHit = 0,
      fm_solution = fh_zero 32, fm_solutionMiner = -1, fm_usedNonces = {}, fm_log = []\<rparr>"

definition example_working :: farm where
  "example_working =
     example_farm\<lparr>fm_challenge := [7], fm_target := [1],
       fm_miners := map (\<lambda>i. (example_miner i)\<lparr>mn_challenge := [7], mn_target := [1], mn_running := True\<rparr>) [0, 1],
       fm_hashFaults := [0, 0], fm_bestHash := 5, fm_minerRates := [EMA 3, EMA 3]\<rparr>"

definition example_solved :: farm where
  "example_solved =
     example_working\<lparr>fm_challenge := [], fm_solutionMiner := 1, fm_solution := [3],
       fm_miners := [(example_miner 0)\<lparr>mn_target := [1]\<rparr>, (example_miner 1)\<lparr>mn_target := [1], mn_running := True\<rparr>]\<rparr>"

lemma example_init: "farm_init example_farm"
  unfolding farm_init_def
  by (rule exI [of _ Solo], rule exI [of _ "''0''"], rule exI, rule exI, rule exI [of _ 9], rule exI [of _ 0])
    (simp add: GenericFarm_def example_farm_def)

lemma flt_0 [simp]: "flt 0 = Fin 0"
  by (simp add: flt_def round_fp_def)

lemma example_threshold: "workUnitFrequency (Fin 0) 0 = Inr 0"
  by (simp add: workUnitFrequency_def dbl_of_int_def feq_def)

lemma example_start:
  "farm_step example_farm (EvStart [example_miner 0, example_miner 1] 5)
     (fm_start [example_miner 0, example_miner 1] 5 example_farm)"
  by (rule farm_step.start) (simp_all add: example_farm_def example_miner_def fresh_miner_def nth_Cons split: nat.split)

lemma example_setWork:
  "fm_setWork [7] [1] (fm_start [example_miner 0, example_miner 1] 5 example_farm) = Inr example_working"
  by (simp add: fm_setWork_def fm_start_def miners_setWork_def example_farm_def example_working_def example_miner_def
      fm_calcThreshold_def fm_minerRate_def EMA_def to_flt_def mn_calcWorkUnitThreshold_def
      example_threshold mn_setWork_def mn_pause_def mn_kickOff_def storeNonceIndex_def numeral_2_eq_2)

lemma example_submit: "mn_submitProof [3] 1 example_working = Inr (True, example_solved)"
  by (simp add: mn_submitProof_def fm_submitProof_def miners_setWork_def example_working_def example_solved_def
      example_farm_def example_miner_def fm_calcThreshold_def fm_minerRate_def EMA_def to_flt_def
      mn_calcWorkUnitThreshold_def example_threshold mn_setWork_def mn_pause_def mn_kickOff_def storeNonceIndex_def
      fh_zero_def numeral_2_eq_2)

lemma example_runs:
  "runs farm_step example_farm [EvStart [example_miner 0, example_miner 1] 5, EvSetWork [7] [1]] example_working"
  "farm_step example_working (EvSubmit 1 [3]) example_solved"
proof -
  show "farm_step example_working (EvSubmit 1 [3]) example_solved"
    by (rule farm_step.submit [OF _ _ example_submit]) (simp_all add: example_working_def)
  show "runs farm_step example_farm [EvStart [example_miner 0, example_miner 1] 5, EvSetWork [7] [1]] example_working"
    using example_start farm_step.setWork [OF example_setWork] by auto
qed

section \<open>Claims\<close>

text \<open>C1: The solution mailbox refines a one-place buffer: after any interleaving of the calls of
  the main loop and of the miners, \<open>solutionFound\<close> finds exactly the first nonce that was
  submitted since it was last asked, with the position of the miner that submitted it.\<close>

theorem farm_mailbox:
  assumes "farm_init f0" and "runs farm_step f0 es f"
  shows "fst (fm_solutionFound f) = fold mailbox_step es None"
  using mailbox_runs [OF farm_inv_init [OF assms(1)] assms(2)] mailbox_init [OF assms(1)]
  by (simp add: mailbox_def fm_solutionFound_def split: if_splits)

theorem farm_mailbox_witness:
  "fst (fm_solutionFound example_solved) = Some ([3], 1)"
proof -
  have "runs farm_step example_farm
      ([EvStart [example_miner 0, example_miner 1] 5, EvSetWork [7] [1]] @ [EvSubmit 1 [3]]) example_solved"
    using example_runs unfolding runs_append by auto
  from farm_mailbox [OF example_init this] show ?thesis by simp
qed

text \<open>C2: No miner works on anything but the farm's current work: in every reachable state, a miner
  with a challenge has the farm's challenge and target, its index is its position, and outside
  solo mining it always has the farm's challenge.\<close>

theorem farm_work_agrees:
  assumes "farm_init f0" and "runs farm_step f0 es f" and "i < length (fm_miners f)"
  shows "mn_index (fm_miners f ! i) = i \<and>
         (mn_challenge (fm_miners f ! i) \<noteq> [] \<longrightarrow>
            mn_challenge (fm_miners f ! i) = fm_challenge f \<and> mn_target (fm_miners f ! i) = fm_target f) \<and>
         (fm_opMode f \<noteq> Solo \<longrightarrow> mn_challenge (fm_miners f ! i) = fm_challenge f)"
proof -
  have inv: "farm_inv f" using farm.inv_reachable assms(1,2) by blast
  show ?thesis using farm_invD(1,2) [OF inv assms(3)] by (simp add: miner_ok_def)
qed

theorem farm_work_agrees_witness: "mn_index (fm_miners example_working ! 1) = 1"
proof -
  have "1 < length (fm_miners example_working)" by (simp add: example_working_def)
  from farm_work_agrees [OF example_init example_runs(1) this] show ?thesis by simp
qed

text \<open>C3: In solo mining a solution stops the whole farm: when a miner submits and no solution is
  waiting, its nonce is put in the mailbox, the farm and every miner lose their challenge, and
  every other miner that had work is stopped.\<close>

theorem solo_solution_stops_farm:
  assumes "farm_init f0" and "runs farm_step f0 es f" and "fm_opMode f = Solo" and "mailbox f = None"
    and "farm_step f (EvSubmit m n) f'"
  shows "mailbox f' = Some (n, int m) \<and> fm_challenge f' = [] \<and>
         (\<forall>i < length (fm_miners f). mn_challenge (fm_miners f' ! i) = [] \<and>
            (i \<noteq> m \<and> mn_challenge (fm_miners f ! i) \<noteq> [] \<longrightarrow> \<not> mn_running (fm_miners f' ! i)))"
proof -
  have inv: "farm_inv f" using farm.inv_reachable assms(1,2) by blast
  obtain stop where m: "m < length (fm_miners f)" and sub: "mn_submitProof n m f = Inr (stop, f')"
    using assms(5) by (auto simp: farm_step_simps)
  from sub show ?thesis
  proof (cases rule: mn_submitProof_cases)
    case (solo g)
    note s = solo_submit [OF solo(4,5) m]
    have "mailbox f' = Some (n, int m)" using mailbox_submit [OF inv m sub] assms(4) by simp
    moreover have "\<not> mn_running (fm_miners f' ! i)"
      if "i < length (fm_miners f)" "i \<noteq> m" "mn_challenge (fm_miners f ! i) \<noteq> []" for i
      using s(9) [OF that(1,2)] that(3) by blast
    ultimately show ?thesis using s(2,8) by blast
  qed (use assms(3,4) in \<open>auto simp: mailbox_def\<close>)
qed

theorem solo_solution_stops_farm_witness:
  "mailbox example_solved = Some ([3], 1) \<and> \<not> mn_running (fm_miners example_solved ! 0)"
proof -
  have "fm_opMode example_working = Solo" "mailbox example_working = None"
    "mn_challenge (fm_miners example_working ! 0) \<noteq> []" "0 < length (fm_miners example_working)"
    by (simp_all add: example_working_def example_farm_def mailbox_def)
  with solo_solution_stops_farm [OF example_init example_runs(1) _ _ example_runs(2)] show ?thesis by simp
qed

text \<open>New work reaches everyone: \<open>setWork\<close> with a challenge or target that differs from the
  farm's gives every miner that challenge and target, has its worker running exactly when there is
  a challenge, and keeps its close-hit threshold at least the farm's.\<close>

theorem setWork_reaches_all:
  assumes "fm_setWork c t f = Inr f'" and "(c, t) \<noteq> (fm_challenge f, fm_target f)" and "c \<noteq> []"
    and "i < length (fm_miners f)"
  shows "fm_challenge f' = c \<and> fm_target f' = t \<and> mn_challenge (fm_miners f' ! i) = c \<and>
         mn_target (fm_miners f' ! i) = t \<and> mn_running (fm_miners f' ! i) \<and>
         fm_closeHitThreshold f \<le> mn_closeHit (fm_miners f' ! i)"
proof -
  have set: "miners_setWork (\<lambda>i. True) c t (f\<lparr>fm_challenge := c, fm_target := t\<rparr>) = Inr f'"
    using assms(1,2) by (auto simp: fm_setWork_def split: if_splits)
  note r = miners_setWork_Inr(4) [OF set, of i] and fs = miners_setWork_fields [OF set]
  show ?thesis using r assms(3,4) by (auto simp: fs mn_setWork_running)
qed

theorem setWork_reaches_all_witness: "mn_running (fm_miners example_working ! 1)"
  using setWork_reaches_all [OF example_setWork, of 1] by (simp add: fm_start_def example_farm_def)

text \<open>The farm's best hash is the smallest value any miner has suggested since it was last
  set.\<close>

theorem bestHash_is_minimum:
  "fm_bestHash (fold fm_suggestBestHash bs f) = Min (insert (fm_bestHash f) (set bs))"
proof (induction bs arbitrary: f)
  case (Cons b bs)
  have "insert (min b (fm_bestHash f)) (set bs) = insert (min b (fm_bestHash f)) (set bs)" by simp
  have "Min (insert (min b x) S) = Min (insert x (insert b S))" if "finite S" for x and S :: "u64 set"
    using that by (cases "S = {}") (simp_all add: min.commute min.left_commute min.assoc)
  with Cons show ?case by simp
qed simp

text \<open>C4: A CPU miner submits only solutions, and the first one: over an uninterrupted search of
  \<open>N\<close> nonces from a start nonce, counting modulo \<open>2 ^ 256\<close>, the empty mailbox receives the first
  nonce whose hash is below the target, and stays empty when there is none.\<close>

theorem cpu_search_first_solution:
  assumes "cpu_search H ch sender m (map (Pair False) env) c = Inr (ended, c')"
    and "m < length (fm_miners (cl_farm c))" and "mailbox (cl_farm c) = None"
    and "\<forall>x. length (H x) = length (mn_target (fm_miners (cl_farm c) ! m))"
  shows "mailbox (cl_farm c') =
         map_option (\<lambda>k. (nonce_at (cl_nonce c) k, int (mn_index (fm_miners (cl_farm c) ! m))))
           (first_below (length env)
              (\<lambda>k. solves H ch sender (mn_target (fm_miners (cl_farm c) ! m)) (nonce_at (cl_nonce c) k))) \<and>
         be_val (nonce_at (cl_nonce c) k) = (be_val (cl_nonce c) + k) mod 256 ^ length (cl_nonce c)"
  using cpu_search_mailbox [OF assms(1-3)] assms(4) be_val_fh_inc_iter [of k "cl_nonce c"]
  by (simp add: solves_def fh_less_iff nonce_at_def)

theorem cpu_search_first_solution_witness:
  "\<exists>c'. cpu_search (\<lambda>x. [last x]) [7] [9] 0 (map (Pair False) [(0, 0), (0, 0)])
          \<lparr>cl_nonce = [3], cl_hashCount = 1, cl_batchCount = 0, cl_farm = example_working\<rparr> = Inr (False, c') \<and>
        mailbox (cl_farm c') = None"
proof -
  let ?c = "\<lparr>cl_nonce = [3], cl_hashCount = 1, cl_batchCount = 0, cl_farm = example_working\<rparr>"
  let ?H = "\<lambda>x::bytes. [last x]"
  obtain c' where run: "cpu_search ?H [7] [9] 0 (map (Pair False) [(0, 0), (0, 0)]) ?c = Inr (False, c')"
    by (simp add: cpu_body_def Let_def example_working_def example_miner_def fh_inc_def)
  have target: "mn_target (fm_miners example_working ! 0) = [1]" "length (fm_miners example_working) = 2"
    "mailbox example_working = None"
    by (simp_all add: example_working_def example_farm_def mailbox_def)
  have inc: "nonce_at [3] 0 = [3]" "nonce_at [3] 1 = [4]" by (simp_all add: nonce_at_def fh_inc_def)
  have two: "first_below 2 P = (if P 0 then Some 0 else if P 1 then Some 1 else None)" for P
    by (simp add: numeral_2_eq_2)
  have "mailbox (cl_farm c') = None"
    using cpu_search_first_solution [OF run, of 0] inc by (simp add: target solves_def two be_val_def)
  with run show ?thesis by blast
qed

text \<open>Every processed solution is counted once: \<open>recordSolution\<close> adds one to exactly the
  counter of its state and staleness, and resets the best hash of the farm and of every miner.\<close>

theorem recordSolution_counts:
  assumes "fm_recordSolution st stale m f = Inr f'"
  shows "fm_solutionStats f' =
           (let s = fm_solutionStats f in
            case (st, stale) of
              (Accepted, False) \<Rightarrow> s\<lparr>ss_accepts := ss_accepts s + 1\<rparr>
            | (Accepted, True) \<Rightarrow> s\<lparr>ss_acceptedStales := ss_acceptedStales s + 1\<rparr>
            | (Rejected, False) \<Rightarrow> s\<lparr>ss_rejects := ss_rejects s + 1\<rparr>
            | (Rejected, True) \<Rightarrow> s\<lparr>ss_rejectedStales := ss_rejectedStales s + 1\<rparr>
            | (Failed, _) \<Rightarrow> s\<lparr>ss_failures := ss_failures s + 1\<rparr>) \<and>
         fm_bestHash f' = -1 \<and> (\<forall>x \<in> set (fm_miners f'). mn_bestHash x = -1)"
  using assms
  by (cases st; cases stale)
    (auto simp: fm_recordSolution_def fm_resetBestHash_def Let_def bindE_Inr_iff ss_accepted_def ss_rejected_def
      ss_failed_def ss_acceptedStale_def ss_rejectedStale_def dest: mapE_resetBestHash)

theorem recordSolution_counts_witness:
  "\<exists>f'. fm_recordSolution Accepted False 0 example_solved = Inr f' \<and> ss_accepts (fm_solutionStats f') = 1"
proof -
  obtain f' where "fm_recordSolution Accepted False 0 example_solved = Inr f'"
    by (simp add: fm_recordSolution_def fm_resetBestHash_def Let_def example_solved_def example_miner_def
        mn_resetBestHash_def)
  with recordSolution_counts [OF this] show ?thesis
    by (simp add: example_solved_def example_working_def example_farm_def ss_zero_def)
qed

text \<open>Disabling the thermal limit is not persisted: a negative limit, which switches the PID
  controller off, is written to the settings as an unsigned number that the next start reads as
  the default of 80 degrees.\<close>

theorem disabled_limit_not_persisted:
  assumes "neverExceed < 0" and "- (2 ^ 31) \<le> neverExceed"
    and "fm_thermalProtection ini_lib neverExceed shut (f, po) = Inr (f', po')"
  shows "strToInt (po_GetD ini_lib po' ''ThermalProtection'' ''ThrottleTemp'' ''80'') 80 = 80"
proof -
  let ?v = "unat (word_of_int neverExceed :: u64)"
  have "uint (word_of_int neverExceed :: u64) = neverExceed mod 2 ^ 64"
    by (simp add: uint_word_of_int)
  also have "\<dots> = (neverExceed + 2 ^ 64) mod 2 ^ 64" by simp
  also have "\<dots> = neverExceed + 2 ^ 64" using assms(1,2) by (intro mod_pos_pos_trivial) simp_all
  finally have v: "2 ^ 31 \<le> ?v" using assms(2) by (simp add: unat_eq_nat_uint)
  have p: "plain ''ThermalProtection''" "plain ''ThrottleTemp''" "plain ''ShutDown''"
    by (simp_all add: plain_def)
  have ne: "\<not> key_eq ''ShutDown'' ''ThrottleTemp''" by (simp add: key_eq_def)
  obtain s where "po_tree po' = pt_put ini_lib (pt_put ini_lib (po_tree po)
      (po_key ''ThermalProtection'' ''ThrottleTemp'') (showNat ?v)) (po_key ''ThermalProtection'' ''ShutDown'') s"
    using assms(3)
    by (auto simp: fm_thermalProtection_def bindE_Inr_iff po_PutU_def po_Put_def Let_def po_beginUpdating_def
        po_endUpdating_def po_SaveToDisk_def)
  then have "po_GetD ini_lib po' ''ThermalProtection'' ''ThrottleTemp'' ''80'' = showNat ?v"
    by (simp add: po_GetD_def ini.tree_get_put p ne)
  with v show ?thesis by (simp add: strToInt_showNat)
qed

theorem disabled_limit_not_persisted_witness:
  "\<exists>f' po'. fm_thermalProtection ini_lib (-1) (Fin 20)
       (example_farm, \<lparr>po_tree = PTree [] [], po_defaults = Map.empty, po_updating = False, po_path = ''x'', po_files = Map.empty\<rparr>)
       = Inr (f', po') \<and> strToInt (po_GetD ini_lib po' ''ThermalProtection'' ''ThrottleTemp'' ''80'') 80 = 80"
proof -
  let ?po = "\<lparr>po_tree = PTree [] [], po_defaults = Map.empty, po_updating = False, po_path = ''x'', po_files = Map.empty\<rparr>"
  have p: "plain ''ThermalProtection''" "plain ''ThrottleTemp''" "plain ''ShutDown''"
    by (simp_all add: plain_def)
  have ne: "\<not> key_eq ''ThrottleTemp'' ''ShutDown''" "\<not> key_eq ''ShutDown'' ''ThrottleTemp''" by (simp_all add: key_eq_def)
  have tree: "pt_put ini_lib (pt_put ini_lib (PTree [] []) (po_key ''ThermalProtection'' ''ThrottleTemp'') v)
      (po_key ''ThermalProtection'' ''ShutDown'') w =
      PTree [] [(''ThermalProtection'', PTree [] [(''ThrottleTemp'', PTree v []), (''ShutDown'', PTree w [])])]" for v w
    by (simp add: ini_lib_def po_key_parts p ne)
  have wr: "\<exists>out. write_ini (PTree [] [(''ThermalProtection'', PTree [] [(''ThrottleTemp'', PTree v []), (''ShutDown'', PTree w [])])]) = Inr out" for v w
    by (simp add: write_ini_def check_dupes_def ne)
  have save: "\<exists>po'. po_SaveToDisk ini_lib
      (po\<lparr>po_tree := PTree [] [(''ThermalProtection'', PTree [] [(''ThrottleTemp'', PTree v []), (''ShutDown'', PTree w [])])]\<rparr>)
      = Inr po'" for po v w
  proof -
    obtain out where "write_ini (PTree [] [(''ThermalProtection'', PTree [] [(''ThrottleTemp'', PTree v []), (''ShutDown'', PTree w [])])]) = Inr out"
      using wr by blast
    then show ?thesis by (simp add: po_SaveToDisk_def ini_lib_def)
  qed
  have "\<exists>r. fm_thermalProtection ini_lib (-1) (Fin 20) (example_farm, ?po) = Inr r"
    using save [where po = ?po and v = "showNat (unat (-1 :: u64))" and w = "showNat 20"]
    by (auto simp: fm_thermalProtection_def example_farm_def po_PutU_def po_Put_def po_beginUpdating_def Let_def
        fp_to_u64_def fp_to_int_def trunc_rat_def po_endUpdating_def tree)
  then obtain f' po' where run: "fm_thermalProtection ini_lib (-1) (Fin 20) (example_farm, ?po) = Inr (f', po')"
    by auto
  from disabled_limit_not_persisted [OF _ _ run] run show ?thesis by auto
qed

end
