(* ===== verification/Json.thy ===== *)
theory Json
  imports CStdlib
begin

text \<open>
  JSON values, and the functions of the libraries around them that the network code relies on
  (JsonCpp, Boost's multiprecision integers): the fields of an argument. \<open>json_laws\<close> states
  their documented behaviour where the claims need it, and \<open>std_json\<close> is a record of functions
  that has it.
\<close>

datatype json =
    JNull
  | JBool bool
  | JInt int
  | JString string
  | JArray "json list"
  | JObject "(string \<times> json) list"

text \<open>
  \<open>asString\<close>, \<open>asInt\<close>, \<open>asBool\<close>, \<open>isMember\<close> and the two \<open>operator[]\<close> of \<open>Json::Value\<close>;
  \<open>u256(string)\<close>, \<open>u256(double)\<close> and the conversion of a \<open>u256\<close> to \<open>uint64_t\<close> of Boost.
\<close>

record json_lib =
  j_asString :: "json \<Rightarrow> string result"
  j_asInt :: "json \<Rightarrow> int result"
  j_asBool :: "json \<Rightarrow> bool result"
  j_isMember :: "json \<Rightarrow> string \<Rightarrow> bool result"
  j_member :: "json \<Rightarrow> string \<Rightarrow> json result"
  j_item :: "json \<Rightarrow> nat \<Rightarrow> json result"
  u256_of_string :: "string \<Rightarrow> u256 result"
  u256_of_double :: "fp \<Rightarrow> u256 result"
  u64_of_u256 :: "u256 \<Rightarrow> u64"

fun isString :: "json \<Rightarrow> bool" where
  "isString (JString s) = True"
| "isString _ = False"

fun isBool :: "json \<Rightarrow> bool" where
  "isBool (JBool b) = True"
| "isBool _ = False"

definition json_laws :: "json_lib \<Rightarrow> bool" where
  "json_laws J \<longleftrightarrow>
     (\<forall>s. j_asString J (JString s) = Inr s) \<and> j_asString J JNull = Inr '''' \<and>
     (\<forall>n. - (2 ^ 31) \<le> n \<and> n < 2 ^ 31 \<longrightarrow> j_asInt J (JInt n) = Inr n) \<and> j_asInt J JNull = Inr 0 \<and>
     (\<forall>b. j_asBool J (JBool b) = Inr b) \<and> j_asBool J JNull = Inr False \<and>
     (\<forall>m k. j_isMember J (JObject m) k = Inr (k \<in> fst ` set m)) \<and>
     (\<forall>m k. j_member J (JObject m) k = Inr (case map_of m k of Some v \<Rightarrow> v | None \<Rightarrow> JNull)) \<and>
     (\<forall>k. j_member J JNull k = Inr JNull) \<and>
     (\<forall>xs i. j_item J (JArray xs) i = Inr (if i < length xs then xs ! i else JNull)) \<and>
     (\<forall>i. j_item J JNull i = Inr JNull)"

definition std_json :: json_lib where
  "std_json =
     \<lparr>j_asString = (\<lambda>j. case j of JNull \<Rightarrow> Inr '''' | JString s \<Rightarrow> Inr s | JBool b \<Rightarrow> Inr (if b then ''true'' else ''false'')
                       | JInt n \<Rightarrow> Inr (showInt n) | _ \<Rightarrow> Inl (StdException ''LogicError'')),
      j_asInt = (\<lambda>j. case j of JNull \<Rightarrow> Inr 0 | JInt n \<Rightarrow> if - (2 ^ 31) \<le> n \<and> n < 2 ^ 31 then Inr n else Inl (StdException ''LogicError'')
                    | JBool b \<Rightarrow> Inr (if b then 1 else 0) | _ \<Rightarrow> Inl (StdException ''LogicError'')),
      j_asBool = (\<lambda>j. case j of JNull \<Rightarrow> Inr False | JBool b \<Rightarrow> Inr b | JInt n \<Rightarrow> Inr (n \<noteq> 0) | _ \<Rightarrow> Inl (StdException ''LogicError'')),
      j_isMember = (\<lambda>j k. case j of JObject m \<Rightarrow> Inr (k \<in> fst ` set m) | JNull \<Rightarrow> Inr False | _ \<Rightarrow> Inl (StdException ''LogicError'')),
      j_member = (\<lambda>j k. case j of JObject m \<Rightarrow> Inr (case map_of m k of Some v \<Rightarrow> v | None \<Rightarrow> JNull) | JNull \<Rightarrow> Inr JNull
                     | _ \<Rightarrow> Inl (StdException ''LogicError'')),
      j_item = (\<lambda>j i. case j of JArray xs \<Rightarrow> Inr (if i < length xs then xs ! i else JNull) | JNull \<Rightarrow> Inr JNull
                   | _ \<Rightarrow> Inl (StdException ''LogicError'')),
      u256_of_string = (\<lambda>s. case strtol_parse 0 s of Some (v, []) \<Rightarrow> Inr (word_of_int v) | _ \<Rightarrow> Inl (StdException ''runtime_error'')),
      u256_of_double = (\<lambda>x. case x of Fin q \<Rightarrow> Inr (word_of_int (trunc_rat q)) | _ \<Rightarrow> Inl (StdException ''runtime_error'')),
      u64_of_u256 = (\<lambda>w. ucast w)\<rparr>"

lemma std_json_laws: "json_laws std_json"
  by (simp add: json_laws_def std_json_def)

end
