(* ===== verification/FarmClient.thy ===== *)
theory FarmClient
  imports Transaction Farm Json
begin

text \<open>
  \<open>ethminer/FarmClient.h\<close>: the client that gets work from a pool or from the token contract
  through an Ethereum node, submits solutions, and follows its transactions.

  The JSON-RPC server is a function of the request and of a world that it may change; the other
  library functions are those of \<open>Json\<close>, the property tree of \<open>ProgOpt\<close> and the signature of
  secp256k1. Readings of the clock are arguments. The lines written to the log are not kept.
\<close>

section \<open>Environment and state\<close>

text \<open>
  \<open>e_call\<close> is \<open>CallMethod\<close>, \<open>e_batch\<close> is \<open>CallProcedures\<close>: a result per call, in the order in which
  the calls were added. \<open>e_path\<close> joins a folder and a file name, \<open>e_writable\<close> tells whether a
  file can be opened for writing.
\<close>

record ('w, 't) client_env =
  e_json :: json_lib
  e_ini :: "'t ptree_lib"
  e_exec_ini :: string
  e_app_ini :: string
  e_call :: "string \<Rightarrow> json \<Rightarrow> 'w \<Rightarrow> json result \<times> 'w"
  e_batch :: "(string \<times> json) list \<Rightarrow> 'w \<Rightarrow> json result list result \<times> 'w"
  e_sign :: "h256 \<Rightarrow> bytes \<Rightarrow> (bytes \<times> int) option"
  e_path :: "string \<Rightarrow> string \<Rightarrow> string"
  e_writable :: "string \<Rightarrow> bool"

record ('w, 't) farm_client =
  fc_devFeeMining :: bool
  fc_opMode :: operation_mode
  fc_userAcctPK :: string
  fc_tokenContract :: string
  fc_txNonce :: int
  fc_pendingTxs :: "transaction list"
  fc_userAcct :: string
  fc_hashingAcct :: string
  fc_difficulty :: u64
  fc_target :: h256
  fc_chainId :: int
  fc_errorReported :: bool
  fc_world :: 'w
  fc_opt :: "'t progopt"

datatype tx_status = Succeeded | TxFailed | Waiting | NotFound

definition DonationAddress :: string where
  "DonationAddress = ''0xA804e933301AA2C919D3a9834082Cddda877C205''"

definition CallMethod :: "('w, 't) client_env \<Rightarrow> string \<Rightarrow> json \<Rightarrow> (('w, 't) farm_client, json) op" where
  "CallMethod E name params s =
     (case e_call E name params (fc_world s) of (r, w) \<Rightarrow> (r, s\<lparr>fc_world := w\<rparr>))"

definition optGet :: "('w, 't) client_env \<Rightarrow> string \<Rightarrow> string \<Rightarrow> (('w, 't) farm_client, string) op" where
  "optGet E section key = getS (\<lambda>s. po_Get (e_ini E) (fc_opt s) section key)"

definition optGetD :: "('w, 't) client_env \<Rightarrow> string \<Rightarrow> string \<Rightarrow> string \<Rightarrow> (('w, 't) farm_client, string) op" where
  "optGetD E section key dflt = getS (\<lambda>s. po_GetD (e_ini E) (fc_opt s) section key dflt)"

text \<open>A \<open>uint64_t\<close> returned as an \<open>int\<close>, and an \<open>int\<close> converted to \<open>u256\<close>.\<close>

definition to_int32 :: "u64 \<Rightarrow> int" where
  "to_int32 w = signed_take_bit 31 (uint w)"

section \<open>Getting work\<close>

definition methodId :: "string \<Rightarrow> string" where
  "methodId signature = substr (toHex (sha3_string signature) 2 Add) 0 10"

definition getWorkPool :: "('w, 't) client_env \<Rightarrow> (('w, 't) farm_client, bytes \<times> h256 \<times> u64 \<times> string) op" where
  "getWorkPool E =
     bindS (getS (\<lambda>s. JArray [JString (fc_userAcct s)])) (\<lambda>data.
     bindS (\<lambda>s. case e_batch E [(''getChallengeNumber'', data), (''getPoolEthAddress'', data),
                               (''getMinimumShareTarget'', data), (''getMinimumShareDifficulty'', data)] (fc_world s)
                of (r, w) \<Rightarrow> (r, s\<lparr>fc_world := w\<rparr>)) (\<lambda>response.
     let result = (\<lambda>i. if i < length response then bindE (response ! i) (j_asString (e_json E))
                       else Inl (JsonRpcException ''response'')) in
     bindS (liftS (result 0)) (\<lambda>c.
     bindS (liftS (bindE (result 2) (u256_of_string (e_json E)))) (\<lambda>target.
     thenS (modS (\<lambda>s. s\<lparr>fc_target := fh_of_arith 32 (unat target)\<rparr>))
     (bindS (liftS (result 1)) (\<lambda>acct.
     thenS (modS (\<lambda>s. s\<lparr>fc_hashingAcct := acct\<rparr>))
     (bindS (liftS (result 3)) (\<lambda>difficulty.
     thenS (modS (\<lambda>s. s\<lparr>fc_difficulty := word_of_int (atoll difficulty)\<rparr>))
     (getS (\<lambda>s. (fromHexD c, fc_target s, fc_difficulty s, fc_hashingAcct s)))))))))))"

definition ethCall :: "string \<Rightarrow> ('w, 't) client_env \<Rightarrow> (('w, 't) farm_client, string) op" where
  "ethCall signature E =
     bindS (getS (\<lambda>s. JArray [JObject [(''data'', JString (methodId signature)), (''from'', JString (fc_userAcct s)),
                                       (''to'', JString (fc_tokenContract s))], JString ''latest''])) (\<lambda>data.
     bindS (CallMethod E ''eth_call'' data) (\<lambda>result.
     if isString result then liftS (j_asString (e_json E) result)
     else liftS (Inl (JsonRpcException ''invalid response''))))"

definition getWorkSolo :: "('w, 't) client_env \<Rightarrow> (('w, 't) farm_client, bytes \<times> h256) op" where
  "getWorkSolo E =
     bindS (ethCall ''getChallengeNumber()'' E) (\<lambda>challenge.
     bindS (ethCall ''getMiningTarget()'' E) (\<lambda>target.
     bindS (liftS (fh_of_string 32 target FromHex FailIfDifferent)) (\<lambda>t.
     unitS (fromHexD challenge, t))))"

section \<open>Queries to the node\<close>

definition getNextNonce :: "('w, 't) client_env \<Rightarrow> (('w, 't) farm_client, int) op" where
  "getNextNonce E =
     bindS (getS (\<lambda>s. JArray [JString (fc_userAcct s), JString ''latest''])) (\<lambda>p.
     bindS (CallMethod E ''eth_getTransactionCount'' p) (\<lambda>result.
     bindS (liftS (j_asString (e_json E) result)) (\<lambda>t.
     bindS (liftS (HexToInt t)) (\<lambda>n. unitS (to_int32 n)))))"

text \<open>When the call fails, \<open>getChainId\<close> reports it and flows off its end.\<close>

definition getChainId :: "('w, 't) client_env \<Rightarrow> (('w, 't) farm_client, int) op" where
  "getChainId E =
     catchS
       (bindS (CallMethod E ''eth_chainId'' JNull) (\<lambda>result.
        bindS (liftS (j_asString (e_json E) result)) (\<lambda>t.
        bindS (liftS (HexToInt t)) (\<lambda>n. unitS (to_int32 n)))))
       (\<lambda>e. liftS (Inl UndefinedBehaviour))"

definition tokenBalance :: "('w, 't) client_env \<Rightarrow> (('w, 't) farm_client, u64) op" where
  "tokenBalance E =
     bindS (getS fc_userAcct) (\<lambda>acct.
     if length acct < 2 then liftS (Inl (StdException ''out_of_range''))
     else
       let data = methodId ''balanceOf(address)'' @ setw0 64 (drop 2 acct) in
       bindS (getS (\<lambda>s. JArray [JObject [(''data'', JString data), (''from'', JString (fc_userAcct s)),
                                         (''to'', JString (fc_tokenContract s))], JString ''latest''])) (\<lambda>p.
       catchS
         (bindS (CallMethod E ''eth_call'' p) (\<lambda>result.
          bindS (liftS (j_asString (e_json E) result)) (\<lambda>t.
          bindS (liftS (u256_of_string (e_json E) t)) (\<lambda>b.
          thenS (modS (\<lambda>s. s\<lparr>fc_errorReported := False\<rparr>))
          (unitS (u64_of_u256 (e_json E) (b div 100000000)))))))
         (\<lambda>e. thenS (modS (\<lambda>s. s\<lparr>fc_errorReported := True\<rparr>)) (unitS 0))))"

definition getTxStatus :: "('w, 't) client_env \<Rightarrow> string \<Rightarrow> (('w, 't) farm_client, tx_status) op" where
  "getTxStatus E txHash =
     catchS
       (bindS (CallMethod E ''eth_getTransactionByHash'' (JArray [JString txHash])) (\<lambda>result.
        if result = JNull then unitS NotFound
        else
          bindS (CallMethod E ''eth_getTransactionReceipt'' (JArray [JString txHash])) (\<lambda>receipt.
          bindS (liftS (bindE (j_member (e_json E) receipt ''status'') (j_asString (e_json E)))) (\<lambda>status.
          if status = ''0x1'' then unitS Succeeded
          else if status = ''0x0'' then unitS TxFailed
          else unitS Waiting))))
       (\<lambda>e. unitS Waiting)"

definition getBlockNumber :: "('w, 't) client_env \<Rightarrow> (('w, 't) farm_client, u32) op" where
  "getBlockNumber E =
     catchS
       (bindS (CallMethod E ''eth_blockNumber'' JNull) (\<lambda>result.
        bindS (liftS (bindE (j_asString (e_json E) result) (stoi 0))) (\<lambda>n. unitS (word_of_int n))))
       (\<lambda>e. unitS 0)"

text \<open>The constructor; the members without initialiser get their values from \<open>s0\<close>.\<close>

definition FarmClient :: "('w, 't) client_env \<Rightarrow> operation_mode \<Rightarrow> string \<Rightarrow> (('w, 't) farm_client, unit) op" where
  "FarmClient E opMode userAcct s0 =
     thenS (modS (\<lambda>s. s\<lparr>fc_devFeeMining := False, fc_txNonce := -1, fc_pendingTxs := [], fc_hashingAcct := [],
                        fc_opMode := opMode, fc_userAcct := userAcct\<rparr>))
     (bindS (optGet E ''0xBitcoin'' ''TokenContract'') (\<lambda>c.
     thenS (modS (\<lambda>s. s\<lparr>fc_tokenContract := c\<rparr>))
     (if opMode = Solo then
        bindS (optGet E ''0xBitcoin'' ''AcctPK'') (\<lambda>k.
        thenS (modS (\<lambda>s. s\<lparr>fc_userAcctPK := k\<rparr>))
        (bindS (getChainId E) (\<lambda>n. modS (\<lambda>s. s\<lparr>fc_chainId := n\<rparr>))))
      else unitS ()))) s0"

section \<open>Submitting to a pool\<close>

definition submitWorkPool ::
    "('w, 't) client_env \<Rightarrow> h256 \<Rightarrow> bytes \<Rightarrow> bytes \<Rightarrow> u64 \<Rightarrow> (('w, 't) farm_client, unit) op" where
  "submitWorkPool E nonce hash challenge difficulty =
     bindS (getS (\<lambda>s. JArray [JString (''0x'' @ fh_hex nonce),
                              JString (if fc_devFeeMining s then DonationAddress else fc_userAcct s),
                              JString (''0x'' @ hexOf hash), JInt (uint difficulty),
                              JString (''0x'' @ hexOf challenge)])) (\<lambda>data.
     bindS (CallMethod E ''submitShare'' data) (\<lambda>result.
     if isBool result then bindS (liftS (j_asBool (e_json E) result)) (\<lambda>b. unitS ()) else unitS ()))"

section \<open>Submitting to the contract\<close>

text \<open>
  The file in the shared folder that holds the last challenge any miner of the local farm has
  solved: whether this one has been submitted already.
\<close>

definition checkChallengeFolder :: "('w, 't) client_env \<Rightarrow> bytes \<Rightarrow> (('w, 't) farm_client, bool) op" where
  "checkChallengeFolder E challenge =
     bindS (optGet E ''0xBitcoin'' ''ChallengeFolder'') (\<lambda>folder.
     if folder = [] then unitS False
     else
       let file = e_path E folder ''challenge.txt'' in
       bindS (getS (\<lambda>s. po_files (fc_opt s) file)) (\<lambda>old.
       if (case old of None \<Rightarrow> False | Some content \<Rightarrow> fst (snd (getlineEx content False)) = hexOf challenge)
       then unitS True
       else thenS (modS (\<lambda>s. if e_writable E file
                            then s\<lparr>fc_opt := (fc_opt s)\<lparr>po_files := (po_files (fc_opt s))(file \<mapsto> hexOf challenge)\<rparr>\<rparr>
                            else s))
              (unitS False)))"

text \<open>The call data: the method's id, the nonce padded on the left, the hash padded on the right.\<close>

definition mintData :: "h256 \<Rightarrow> bytes \<Rightarrow> bytes" where
  "mintData nonce hash =
     fromHexD (methodId ''mint(uint256,bytes32)'' @ setw0 64 (fh_hex nonce) @ setw0_left 64 (hexOf hash))"

definition gwei :: "('w, 't) client_env \<Rightarrow> string \<Rightarrow> u256 result" where
  "gwei E t = u256_of_double (e_json E) (fmul dbl (atof t) (Fin 1000000000))"

text \<open>\<open>s.find("oracle") != npos\<close>\<close>

fun has_sub :: "string \<Rightarrow> string \<Rightarrow> bool" where
  "has_sub p [] = (p = [])"
| "has_sub p (c # s) = (take (length p) (c # s) = p \<or> has_sub p s)"

text \<open>The legacy gas price: from the node's oracle, or a number of Gwei.\<close>

definition setGasPrice :: "('w, 't) client_env \<Rightarrow> string \<Rightarrow> transaction \<Rightarrow> (('w, 't) farm_client, transaction) op" where
  "setGasPrice E gp t =
     (if has_sub ''oracle'' gp then
        catchS
          (bindS (CallMethod E ''eth_gasPrice'' JNull) (\<lambda>result.
           bindS (liftS (bindE (j_asString (e_json E) result) HexToInt)) (\<lambda>p.
           unitS (t\<lparr>tx_gasPrice := ucast p\<rparr>))))
          (\<lambda>e. unitS t)
      else bindS (liftS (gwei E gp)) (\<lambda>p. unitS (t\<lparr>tx_gasPrice := p\<rparr>)))"

definition setFees :: "('w, 't) client_env \<Rightarrow> transaction \<Rightarrow> (('w, 't) farm_client, transaction) op" where
  "setFees E t0 =
     bindS (optGet E ''Gas'' ''MaxFee'') (\<lambda>maxFee.
     bindS (liftS (gwei E maxFee)) (\<lambda>mf.
     let t = t0\<lparr>tx_maxFee := mf\<rparr> in
     if tx_eip1559 t then
       bindS (optGet E ''Gas'' ''MaxPriorityFee'') (\<lambda>prio.
       bindS (liftS (gwei E prio)) (\<lambda>pf. unitS (t\<lparr>tx_priorityFee := pf\<rparr>)))
     else
       bindS (optGet E ''Gas'' ''GasPrice'') (\<lambda>gp.
       bindS (setGasPrice E (LowerCase gp) t) (\<lambda>t1.
       unitS (t1\<lparr>tx_gasPrice := min (tx_gasPrice t1) (tx_maxFee t1)\<rparr>)))))"

definition txSignSend :: "('w, 't) client_env \<Rightarrow> transaction \<Rightarrow> (('w, 't) farm_client, transaction) op" where
  "txSignSend E t =
     bindS (getS fc_userAcctPK) (\<lambda>k.
     bindS (liftS (fh_of_string 32 k FromHex FailIfDifferent)) (\<lambda>pk.
     bindS (liftS (tx_sign (e_sign E) pk t)) (\<lambda>t1.
     bindS (liftS (tx_rlp t1 GeneratePayload)) (\<lambda>rlp.
     bindS (CallMethod E ''eth_sendRawTransaction'' (JArray [JString (''0x'' @ hexOf rlp)])) (\<lambda>result.
     bindS (liftS (j_asString (e_json E) result)) (\<lambda>h. unitS (t1\<lparr>tx_txHash := h\<rparr>)))))))"

text \<open>
  The next transaction nonce: counted locally, and asked from the node for the first transaction
  and after five quiet minutes.
\<close>

definition nextTxNonce :: "('w, 't) client_env \<Rightarrow> fp \<Rightarrow> (('w, 't) farm_client, unit) op" where
  "nextTxNonce E elapsed =
     bindS (getS fc_txNonce) (\<lambda>n.
     if fless (Fin 300) elapsed \<or> n = -1
     then bindS (getNextNonce E) (\<lambda>k. modS (\<lambda>s. s\<lparr>fc_txNonce := k\<rparr>))
     else bindS (liftS (int32 (n + 1))) (\<lambda>k. modS (\<lambda>s. s\<lparr>fc_txNonce := k\<rparr>)))"

text \<open>The transaction from its nonce on: filled in, signed and sent.\<close>

definition sendSolution ::
    "('w, 't) client_env \<Rightarrow> transaction \<Rightarrow> h256 \<Rightarrow> bytes \<Rightarrow> bytes \<Rightarrow> (('w, 't) farm_client, transaction) op" where
  "sendSolution E t0 nonce hash challenge =
     bindS (getS fc_txNonce) (\<lambda>n.
     bindS (getS fc_tokenContract) (\<lambda>contract.
     bindS (liftS (toAddress contract)) (\<lambda>addr.
     bindS (optGetD E ''0xBitcoin'' ''GasLimit'' ''200000'') (\<lambda>gas.
     bindS (setFees E (t0\<lparr>tx_nonce := word_of_int n, tx_receiveAddress := addr, tx_gas := word_of_int (atoi gas)\<rparr>)) (\<lambda>t.
     txSignSend E (t\<lparr>tx_data := mintData nonce hash, tx_value := 0, tx_challenge := challenge\<rparr>))))))"

definition submitWorkSolo ::
    "('w, 't) client_env \<Rightarrow> u32 \<Rightarrow> fp \<Rightarrow> h256 \<Rightarrow> bytes \<Rightarrow> bytes \<Rightarrow> (('w, 't) farm_client, unit) op" where
  "submitWorkSolo E chainId0 elapsed nonce hash challenge =
     bindS (catchS (checkChallengeFolder E challenge) (\<lambda>e. unitS False)) (\<lambda>already.
     if already then unitS ()
     else
       thenS (modS (\<lambda>s. s\<lparr>fc_opt := po_Reload (e_ini E) (e_exec_ini E) (e_app_ini E) (fc_opt s)\<rparr>))
       (bindS (optGetD E ''Gas'' ''EIP1559'' ''true'') (\<lambda>eip.
       bindS (getS fc_chainId) (\<lambda>chain.
       thenS (nextTxNonce E elapsed)
       (bindS (sendSolution E ((Transaction chainId0 eip)\<lparr>tx_chainId := word_of_int chain\<rparr>) nonce hash challenge) (\<lambda>t.
       modS (\<lambda>s. s\<lparr>fc_pendingTxs := fc_pendingTxs s @ [t]\<rparr>)))))))"

section \<open>Following transactions\<close>

text \<open>
  The status of the pending transactions from the last to the first: the challenges whose
  transactions are done, in that order.
\<close>

fun done_challenges :: "('w, 't) client_env \<Rightarrow> transaction list \<Rightarrow> (('w, 't) farm_client, bytes list) op" where
  "done_challenges E [] = unitS []"
| "done_challenges E (t # ts) =
     bindS (getTxStatus E (tx_txHash t)) (\<lambda>st.
     bindS (if st = Succeeded \<or> st = TxFailed
            then unitS [tx_challenge t]
            else unitS []) (\<lambda>cs.
     bindS (done_challenges E ts) (\<lambda>rest. unitS (cs @ rest))))"

text \<open>The erasing loop from index \<open>i - 1\<close> down to 0.\<close>

fun erase_loop :: "bytes \<Rightarrow> nat \<Rightarrow> transaction list \<Rightarrow> transaction list" where
  "erase_loop challenge 0 ts = ts"
| "erase_loop challenge (Suc i) ts =
     erase_loop challenge i (if tx_challenge (ts ! i) = challenge then take i ts @ drop (Suc i) ts else ts)"

definition checkPendingTransactions :: "('w, 't) client_env \<Rightarrow> (('w, 't) farm_client, unit) op" where
  "checkPendingTransactions E =
     bindS (getS fc_pendingTxs) (\<lambda>ts.
     bindS (done_challenges E (rev ts)) (\<lambda>needsDeleting.
     modS (\<lambda>s. s\<lparr>fc_pendingTxs := fold (\<lambda>c ts. erase_loop c (length ts) ts) needsDeleting (fc_pendingTxs s)\<rparr>)))"

section \<open>Lemmas: call data\<close>

lemma hexOf_append: "hexOf (a @ b) = hexOf a @ hexOf b"
  by (simp add: hexOf_eq)

lemma take_hexOf: "take (2 * n) (hexOf b) = hexOf (take n b)"
proof (cases "n \<le> length b")
  case True
  have "take (2 * n) (hexOf (take n b) @ hexOf (drop n b)) = hexOf (take n b)"
    using True by simp
  then show ?thesis by (simp only: hexOf_append [symmetric] append_take_drop_id)
qed simp

lemma methodId_eq: "methodId signature = ''0x'' @ hexOf (take 4 (sha3_string signature))"
  using take_hexOf [of 4 "sha3_string signature"] by (simp add: methodId_def substr_def toHex_def)

lemma fromHexD_prefixed: "fromHexD (''0x'' @ hexOf b) = b"
  using fromHex_toHex [of b Add DontThrow] by (simp add: fromHexD_def toHex_def)

lemma mintData_eq:
  "length nonce = 32 \<Longrightarrow> length hash = 32 \<Longrightarrow>
   mintData nonce hash = take 4 (sha3_string ''mint(uint256,bytes32)'') @ nonce @ hash"
  using fromHexD_prefixed [of "take 4 (sha3_string ''mint(uint256,bytes32)'') @ nonce @ hash"]
  by (simp add: mintData_def methodId_eq setw0_def setw0_left_def fh_hex_def hexOf_append)

section \<open>Lemmas: pending transactions\<close>

lemma erase_loop_filter:
  "i \<le> length ts \<Longrightarrow> erase_loop c i ts = filter (\<lambda>t. tx_challenge t \<noteq> c) (take i ts) @ drop i ts"
proof (induction i arbitrary: ts)
  case (Suc i)
  have t: "take (Suc i) ts = take i ts @ [ts ! i]" using Suc.prems by (simp add: take_Suc_conv_app_nth)
  have d: "drop i ts = ts ! i # drop (Suc i) ts" using Suc.prems by (simp add: Cons_nth_drop_Suc)
  show ?case
  proof (cases "tx_challenge (ts ! i) = c")
    case True
    then show ?thesis using Suc.IH [of "take i ts @ drop (Suc i) ts"] Suc.prems by (simp add: t)
  next
    case False
    then show ?thesis using Suc.IH [of ts] Suc.prems by (simp add: t d)
  qed
qed simp

lemma erase_all_filter:
  "fold (\<lambda>c ts. erase_loop c (length ts) ts) cs ts = filter (\<lambda>t. tx_challenge t \<notin> set cs) ts"
  by (induction cs arbitrary: ts) (simp_all add: erase_loop_filter conj_commute)

section \<open>Lemmas: what the operations leave alone\<close>

text \<open>The parts of the client that talking to the node does not touch.\<close>

lemma keeps_CallMethod [keep_rules]:
  "keeps fc_pendingTxs (CallMethod E n p)" "keeps fc_txNonce (CallMethod E n p)"
  "keeps fc_tokenContract (CallMethod E n p)" "keeps fc_opt (CallMethod E n p)"
  "keeps fc_userAcctPK (CallMethod E n p)"
  by (auto simp: keeps_def CallMethod_def split: prod.split)

lemma keeps_optGet [keep_rules]: "keeps f (optGet E a b)" "keeps f (optGetD E a b c)"
  by (simp_all add: optGet_def optGetD_def keeps_getS)

lemma keeps_setFees [keep_rules]:
  "keeps fc_pendingTxs (setFees E t)" "keeps fc_txNonce (setFees E t)" "keeps fc_tokenContract (setFees E t)"
  unfolding setFees_def setGasPrice_def by (intro keep_rules)+

lemma keeps_txSignSend [keep_rules]:
  "keeps fc_pendingTxs (txSignSend E t)" "keeps fc_txNonce (txSignSend E t)"
  unfolding txSignSend_def by (intro keep_rules)+

lemma keeps_nextTxNonce [keep_rules]:
  "keeps fc_pendingTxs (nextTxNonce E e)" "keeps fc_tokenContract (nextTxNonce E e)"
  unfolding nextTxNonce_def getNextNonce_def by (intro keep_rules keeps_modS; simp)+

lemma keeps_checkFolder [keep_rules]:
  "keeps fc_pendingTxs (checkChallengeFolder E c)" "keeps fc_txNonce (checkChallengeFolder E c)"
  "keeps fc_tokenContract (checkChallengeFolder E c)"
  unfolding checkChallengeFolder_def by (intro keep_rules keeps_modS; simp)+

section \<open>Lemmas: the submitted transaction\<close>

definition same_call :: "transaction \<Rightarrow> transaction \<Rightarrow> bool" where
  "same_call t u \<longleftrightarrow>
     tx_chainId u = tx_chainId t \<and> tx_nonce u = tx_nonce t \<and> tx_receiveAddress u = tx_receiveAddress t \<and>
     tx_gas u = tx_gas t \<and> tx_data u = tx_data t \<and> tx_value u = tx_value t \<and> tx_challenge u = tx_challenge t \<and>
     tx_eip1559 u = tx_eip1559 t"

lemma setGasPrice_fields:
  assumes "setGasPrice E gp u s = (Inr t, s')"
  shows "same_call u t"
proof (cases "has_sub ''oracle'' gp")
  case True
  with assms show ?thesis
    by (auto simp: setGasPrice_def catchS_def same_call_def bindS_def liftS_def unitS_def
        split: prod.splits sum.splits if_splits)
next
  case False
  with assms show ?thesis by (auto simp: setGasPrice_def op_Inr_iffs same_call_def)
qed

lemma setFees_fields:
  assumes "setFees E t0 s = (Inr t, s')"
  shows "same_call t0 t" "\<not> tx_eip1559 t0 \<Longrightarrow> tx_gasPrice t \<le> tx_maxFee t"
proof -
  have "same_call t0 t \<and> (\<not> tx_eip1559 t0 \<longrightarrow> tx_gasPrice t \<le> tx_maxFee t)"
  proof (cases "tx_eip1559 t0")
    case True
    with assms show ?thesis by (auto simp: setFees_def op_Inr_iffs Let_def same_call_def)
  next
    case False
    with assms obtain mf gp s1 s2 t1 where "setGasPrice E gp (t0\<lparr>tx_maxFee := mf\<rparr>) s1 = (Inr t1, s2)"
      and t: "t = t1\<lparr>tx_gasPrice := min (tx_gasPrice t1) (tx_maxFee t1)\<rparr>"
      by (auto simp: setFees_def op_Inr_iffs Let_def)
    from setGasPrice_fields [OF this(1)] show ?thesis by (simp add: t same_call_def)
  qed
  then show "same_call t0 t" "\<not> tx_eip1559 t0 \<Longrightarrow> tx_gasPrice t \<le> tx_maxFee t" by blast+
qed

lemma txSignSend_fields:
  assumes "txSignSend E t s = (Inr u, s')"
  shows "same_call t u" "tx_gasPrice u = tx_gasPrice t" "tx_maxFee u = tx_maxFee t" "tx_priorityFee u = tx_priorityFee t"
    "\<exists>rlp result. tx_rlp u GeneratePayload = Inr rlp \<and>
       e_call E ''eth_sendRawTransaction'' (JArray [JString (''0x'' @ hexOf rlp)]) (fc_world s) = (Inr result, fc_world s') \<and>
       j_asString (e_json E) result = Inr (tx_txHash u)"
proof -
  obtain pk t1 rlp result h where signed: "tx_sign (e_sign E) pk t = Inr t1" "tx_rlp t1 GeneratePayload = Inr rlp"
    and call: "CallMethod E ''eth_sendRawTransaction'' (JArray [JString (''0x'' @ hexOf rlp)]) s = (Inr result, s')"
    and h: "j_asString (e_json E) result = Inr h" "u = t1\<lparr>tx_txHash := h\<rparr>"
    using assms by (auto simp: txSignSend_def op_Inr_iffs)
  have t1: "same_call t t1 \<and> tx_gasPrice t1 = tx_gasPrice t \<and> tx_maxFee t1 = tx_maxFee t \<and> tx_priorityFee t1 = tx_priorityFee t"
    using signed(1) by (auto simp: tx_sign_def bindE_Inr_iff Let_def same_call_def split: if_splits)
  then show "same_call t u" "tx_gasPrice u = tx_gasPrice t" "tx_maxFee u = tx_maxFee t" "tx_priorityFee u = tx_priorityFee t"
    by (simp_all add: h(2) same_call_def)
  have "tx_rlp u m = tx_rlp t1 m" for m
    by (cases m) (simp_all add: h(2) tx_rlp_def tx_streamRLP_def)
  with signed(2) call h show "\<exists>rlp result. tx_rlp u GeneratePayload = Inr rlp \<and>
       e_call E ''eth_sendRawTransaction'' (JArray [JString (''0x'' @ hexOf rlp)]) (fc_world s) = (Inr result, fc_world s') \<and>
       j_asString (e_json E) result = Inr (tx_txHash u)"
    by (auto simp: CallMethod_def split: prod.splits)
qed

lemma sendSolution_fields:
  assumes "sendSolution E t0 nonce hash challenge s = (Inr t, s')"
  shows "tx_chainId t = tx_chainId t0" "tx_nonce t = word_of_int (fc_txNonce s)"
    "toAddress (fc_tokenContract s) = Inr (tx_receiveAddress t)" "tx_data t = mintData nonce hash" "tx_value t = 0"
    "tx_challenge t = challenge" "tx_eip1559 t = tx_eip1559 t0" "\<not> tx_eip1559 t \<Longrightarrow> tx_gasPrice t \<le> tx_maxFee t"
    "\<exists>rlp result w. tx_rlp t GeneratePayload = Inr rlp \<and>
       e_call E ''eth_sendRawTransaction'' (JArray [JString (''0x'' @ hexOf rlp)]) w = (Inr result, fc_world s') \<and>
       j_asString (e_json E) result = Inr (tx_txHash t)"
proof -
  obtain addr gas t1 s1 where addr: "toAddress (fc_tokenContract s) = Inr addr"
    and fees: "setFees E (t0\<lparr>tx_nonce := word_of_int (fc_txNonce s), tx_receiveAddress := addr, tx_gas := gas\<rparr>) s = (Inr t1, s1)"
    and send: "txSignSend E (t1\<lparr>tx_data := mintData nonce hash, tx_value := 0, tx_challenge := challenge\<rparr>) s1 = (Inr t, s')"
    using assms by (auto simp: sendSolution_def op_Inr_iffs optGetD_def)
  note f = setFees_fields [OF fees] and g = txSignSend_fields [OF send]
  show "tx_chainId t = tx_chainId t0" "tx_nonce t = word_of_int (fc_txNonce s)"
    "toAddress (fc_tokenContract s) = Inr (tx_receiveAddress t)" "tx_data t = mintData nonce hash" "tx_value t = 0"
    "tx_challenge t = challenge" "tx_eip1559 t = tx_eip1559 t0" "\<not> tx_eip1559 t \<Longrightarrow> tx_gasPrice t \<le> tx_maxFee t"
    using f g(1-3) addr by (simp_all add: same_call_def)
  show "\<exists>rlp result w. tx_rlp t GeneratePayload = Inr rlp \<and>
       e_call E ''eth_sendRawTransaction'' (JArray [JString (''0x'' @ hexOf rlp)]) w = (Inr result, fc_world s') \<and>
       j_asString (e_json E) result = Inr (tx_txHash t)"
    using g(5) by blast
qed

lemma keeps_sendSolution [keep_rules]:
  "keeps fc_pendingTxs (sendSolution E t0 nonce hash c)" "keeps fc_txNonce (sendSolution E t0 nonce hash c)"
  unfolding sendSolution_def by (intro keep_rules)+

lemma nextTxNonce_counts:
  assumes "\<not> fless (Fin 300) elapsed" "fc_txNonce s \<noteq> -1" "int32 (fc_txNonce s + 1) = Inr k"
  shows "nextTxNonce E elapsed s = (Inr (), s\<lparr>fc_txNonce := k\<rparr>)"
  using assms by (simp add: nextTxNonce_def modS_def)

text \<open>A submission that does not stop at the shared folder.\<close>

lemma checkFolder_keeps:
  assumes "catchS (checkChallengeFolder E challenge) (\<lambda>e. unitS False) s = (r, s1)"
  shows "fc_pendingTxs s1 = fc_pendingTxs s" "fc_txNonce s1 = fc_txNonce s" "fc_tokenContract s1 = fc_tokenContract s"
proof -
  have k: "keeps fc_pendingTxs (catchS (checkChallengeFolder E challenge) (\<lambda>e. unitS False))"
    "keeps fc_txNonce (catchS (checkChallengeFolder E challenge) (\<lambda>e. unitS False))"
    "keeps fc_tokenContract (catchS (checkChallengeFolder E challenge) (\<lambda>e. unitS False))"
    by (intro keep_rules)+
  show "fc_pendingTxs s1 = fc_pendingTxs s" "fc_txNonce s1 = fc_txNonce s" "fc_tokenContract s1 = fc_tokenContract s"
    using keepsD [OF k(1) assms] keepsD [OF k(2) assms] keepsD [OF k(3) assms] .
qed

lemma submitWorkSolo_run:
  assumes "catchS (checkChallengeFolder E challenge) (\<lambda>e. unitS False) s = (Inr False, s1)"
  shows "submitWorkSolo E c0 elapsed nonce hash challenge s =
    (let opt = po_Reload (e_ini E) (e_exec_ini E) (e_app_ini E) (fc_opt s1);
         t0 = (Transaction c0 (po_GetD (e_ini E) opt ''Gas'' ''EIP1559'' ''true''))\<lparr>tx_chainId := word_of_int (fc_chainId s1)\<rparr>
     in thenS (nextTxNonce E elapsed) (bindS (sendSolution E t0 nonce hash challenge) (\<lambda>t.
          modS (\<lambda>s. s\<lparr>fc_pendingTxs := fc_pendingTxs s @ [t]\<rparr>))) (s1\<lparr>fc_opt := opt\<rparr>))"
  unfolding submitWorkSolo_def by (subst bindS_apply(1), rule assms) (simp add: optGetD_def Let_def)

lemma submitWorkSolo_step:
  assumes "catchS (checkChallengeFolder E challenge) (\<lambda>e. unitS False) s = (Inr False, s1)"
  obtains s2 t0 where
    "submitWorkSolo E c0 elapsed nonce hash challenge s =
       thenS (nextTxNonce E elapsed) (bindS (sendSolution E t0 nonce hash challenge) (\<lambda>t.
         modS (\<lambda>s. s\<lparr>fc_pendingTxs := fc_pendingTxs s @ [t]\<rparr>))) s2"
    "fc_pendingTxs s2 = fc_pendingTxs s" "fc_txNonce s2 = fc_txNonce s" "fc_tokenContract s2 = fc_tokenContract s"
    "tx_chainId t0 = word_of_int (fc_chainId s2)"
  by (rule that, subst submitWorkSolo_run [OF assms], subst Let_def, subst Let_def, rule refl)
     (simp_all add: checkFolder_keeps [OF assms])

section \<open>Lemmas: a submission returns\<close>

lemma bindS_CallMethod:
  "e_call E n p (fc_world s) = (Inr j, w) \<Longrightarrow> bindS (CallMethod E n p) f s = f j (s\<lparr>fc_world := w\<rparr>)"
  by (simp add: bindS_def CallMethod_def)

lemma toAddress_length: "toAddress s = Inr a \<Longrightarrow> length a = 20"
  by (auto simp: toAddress_def split: sum.splits exn.splits if_splits)

text \<open>
  The circumstances in which nothing throws: the node takes the transaction, the fees are numbers, the
  contract's address is well formed, and so is the account's key, with which secp256k1 can sign
  every hash (it cannot with a key outside the range of the group order, such as 0).
\<close>

definition ready_to_send :: "('w, 't) client_env \<Rightarrow> ('w, 't) farm_client \<Rightarrow> bool" where
  "ready_to_send E s \<longleftrightarrow>
     json_laws (e_json E) \<and>
     (\<forall>p w. \<exists>h w'. e_call E ''eth_sendRawTransaction'' p w = (Inr (JString h), w')) \<and>
     (\<exists>v. gwei E (po_Get (e_ini E) (fc_opt s) ''Gas'' ''MaxFee'') = Inr v) \<and>
     (\<exists>v. gwei E (po_Get (e_ini E) (fc_opt s) ''Gas'' ''MaxPriorityFee'') = Inr v) \<and>
     (\<exists>a. toAddress (fc_tokenContract s) = Inr a) \<and>
     (\<exists>k. fh_of_string 32 (fc_userAcctPK s) FromHex FailIfDifferent = Inr k \<and>
          (\<forall>h. length h = 32 \<longrightarrow> good_signature (e_sign E h k)))"

lemma txSignSend_returns:
  assumes "ready_to_send E s" "tx_ok t"
  shows "\<exists>u s'. txSignSend E t s = (Inr u, s')"
proof -
  obtain k where k: "fh_of_string 32 (fc_userAcctPK s) FromHex FailIfDifferent = Inr k"
    and sig: "good_signature (e_sign E (sha3 (tx_encode t GenerateSigHash)) k)"
    and call: "\<And>p w. \<exists>h w'. e_call E ''eth_sendRawTransaction'' p w = (Inr (JString h), w')"
    and str: "\<And>h. j_asString (e_json E) (JString h) = Inr h"
    using assms(1) length_sha3 by (auto simp: ready_to_send_def json_laws_def)
  obtain ss v where "low_s ss" "tx_sign (e_sign E) k t = Inr (t\<lparr>tx_vrs := ss\<lparr>sig_v := v\<rparr>\<rparr>)"
    by (rule tx_sign_low_s [where t = t and k = k and sign_compact = "e_sign E"]) (use assms(2) sig in blast)+
  moreover from this assms(2) have "tx_ok (t\<lparr>tx_vrs := ss\<lparr>sig_v := v\<rparr>\<rparr>)"
    by (simp add: tx_ok_def low_s_def)
  moreover obtain h w' where
    "e_call E ''eth_sendRawTransaction''
       (JArray [JString (''0x'' @ hexOf (tx_encode (t\<lparr>tx_vrs := ss\<lparr>sig_v := v\<rparr>\<rparr>) GeneratePayload))]) (fc_world s) =
     (Inr (JString h), w')"
    using call by blast
  ultimately show ?thesis
    using k str by (simp add: txSignSend_def tx_rlp_encode bindS_CallMethod unitS_def)
qed

lemma sendSolution_returns:
  assumes "ready_to_send E s" "tx_eip1559 t0" "tx_vrs t0 = sig_empty" "length nonce = 32" "length hash = 32"
  shows "\<exists>t s'. sendSolution E t0 nonce hash challenge s = (Inr t, s')"
proof -
  obtain a mf pf where a: "toAddress (fc_tokenContract s) = Inr a"
    and num: "gwei E (po_Get (e_ini E) (fc_opt s) ''Gas'' ''MaxFee'') = Inr mf"
      "gwei E (po_Get (e_ini E) (fc_opt s) ''Gas'' ''MaxPriorityFee'') = Inr pf"
    using assms(1) by (auto simp: ready_to_send_def)
  define t1 where "t1 = t0\<lparr>tx_nonce := word_of_int (fc_txNonce s), tx_receiveAddress := a,
    tx_gas := word_of_int (atoi (po_GetD (e_ini E) (fc_opt s) ''0xBitcoin'' ''GasLimit'' ''200000''))\<rparr>"
  have "tx_eip1559 t1" using assms(2) by (simp add: t1_def)
  then have fees: "setFees E t1 s = (Inr (t1\<lparr>tx_maxFee := mf, tx_priorityFee := pf\<rparr>), s)"
    by (simp add: setFees_def optGet_def unitS_def Let_def num)
  have "tx_ok (t1\<lparr>tx_maxFee := mf, tx_priorityFee := pf, tx_data := mintData nonce hash, tx_value := 0, tx_challenge := challenge\<rparr>)"
    using assms(3-5) toAddress_length [OF a]
    by (simp add: tx_ok_def t1_def sig_empty_def fh_zero_def mintData_eq)
  from txSignSend_returns [OF assms(1) this] show ?thesis
    by (simp add: sendSolution_def optGetD_def a bindS_apply(1) [where m = "setFees E t1", OF fees] flip: t1_def)
qed

lemma ready_to_send_cong:
  "fc_tokenContract s' = fc_tokenContract s \<Longrightarrow> fc_userAcctPK s' = fc_userAcctPK s \<Longrightarrow> fc_opt s' = fc_opt s \<Longrightarrow>
   ready_to_send E s' = ready_to_send E s"
  by (simp add: ready_to_send_def)

lemma keeps_userAcctPK [keep_rules]:
  "keeps fc_userAcctPK (checkChallengeFolder E c)" "keeps fc_userAcctPK (nextTxNonce E e)"
  unfolding checkChallengeFolder_def nextTxNonce_def getNextNonce_def by (intro keep_rules keeps_modS; simp)+

lemma toAddress_toHex: "length b = 20 \<Longrightarrow> toAddress (toHex b 2 Add) = Inr b"
proof -
  assume "length b = 20"
  moreover have "toHex b 2 Add = ''0x'' @ hexOf b" by (simp add: toHex_def)
  ultimately show ?thesis using fromHex_toHex [of b DontAdd Throw] by (simp add: toAddress_def substr_def)
qed

section \<open>A submission, from end to end\<close>

lemma submitWorkSolo_returns:
  assumes "catchS (checkChallengeFolder E challenge) (\<lambda>e. unitS False) s = (Inr False, s1)"
    and "ready_to_send E (s1\<lparr>fc_opt := po_Reload (e_ini E) (e_exec_ini E) (e_app_ini E) (fc_opt s1)\<rparr>)"
    and "po_GetD (e_ini E) (po_Reload (e_ini E) (e_exec_ini E) (e_app_ini E) (fc_opt s1)) ''Gas'' ''EIP1559'' ''true'' = ''true''"
    and "\<not> fless (Fin 300) elapsed" and "fc_txNonce s \<noteq> -1" and "int32 (fc_txNonce s + 1) = Inr k"
    and "length nonce = 32" and "length hash = 32"
  shows "\<exists>t s'. submitWorkSolo E c0 elapsed nonce hash challenge s = (Inr (), s') \<and>
    fc_pendingTxs s' = fc_pendingTxs s @ [t] \<and> fc_txNonce s' = fc_txNonce s + 1"
proof -
  let ?s2 = "s1\<lparr>fc_opt := po_Reload (e_ini E) (e_exec_ini E) (e_app_ini E) (fc_opt s1)\<rparr>"
  let ?s3 = "?s2\<lparr>fc_txNonce := k\<rparr>"
  let ?t0 = "(Transaction c0 ''true'')\<lparr>tx_chainId := word_of_int (fc_chainId s1)\<rparr>"
  note run = submitWorkSolo_run [OF assms(1)]
  have same: "fc_txNonce s1 = fc_txNonce s" "fc_pendingTxs s1 = fc_pendingTxs s"
    using checkFolder_keeps [OF assms(1)] by simp_all
  have n: "nextTxNonce E elapsed ?s2 = (Inr (), ?s3)"
    using assms(4-6) same by (intro nextTxNonce_counts [THEN trans]) simp_all
  have "ready_to_send E ?s3" using assms(2) by (subst ready_to_send_cong) simp_all
  moreover have "tx_eip1559 ?t0" "tx_vrs ?t0 = sig_empty" by (simp_all add: Transaction_def Let_def LowerCase_def tolower_def char_code_def)
  ultimately obtain t s4 where send: "sendSolution E ?t0 nonce hash challenge ?s3 = (Inr t, s4)"
    using sendSolution_returns assms(7,8) by blast
  then have "submitWorkSolo E c0 elapsed nonce hash challenge s = (Inr (), s4\<lparr>fc_pendingTxs := fc_pendingTxs s4 @ [t]\<rparr>)"
    using n assms(3) by (simp add: run thenS_def bindS_apply unitS_def modS_def)
  moreover have "fc_pendingTxs s4 = fc_pendingTxs s" "fc_txNonce s4 = fc_txNonce s + 1"
    using keepsD [OF keeps_sendSolution(1) send] keepsD [OF keeps_sendSolution(2) send] same assms(6) by (simp_all add: int32_Inr)
  ultimately show ?thesis by (intro exI [of _ t] exI [of _ "s4\<lparr>fc_pendingTxs := fc_pendingTxs s4 @ [t]\<rparr>"]) simp
qed

lemma submitWorkSolo_mints:
  assumes "submitWorkSolo E c0 elapsed nonce hash challenge s = (Inr (), s')"
    and "catchS (checkChallengeFolder E challenge) (\<lambda>e. unitS False) s = (Inr False, s1)"
    and "length nonce = 32" and "length hash = 32"
  shows "\<exists>t. fc_pendingTxs s' = fc_pendingTxs s @ [t] \<and>
    tx_data t = take 4 (sha3_string ''mint(uint256,bytes32)'') @ nonce @ hash \<and> tx_value t = 0 \<and>
    tx_challenge t = challenge \<and> tx_nonce t = word_of_int (fc_txNonce s') \<and>
    toAddress (fc_tokenContract s) = Inr (tx_receiveAddress t) \<and>
    (\<not> tx_eip1559 t \<longrightarrow> tx_gasPrice t \<le> tx_maxFee t) \<and>
    (\<exists>rlp result w. tx_rlp t GeneratePayload = Inr rlp \<and>
       e_call E ''eth_sendRawTransaction'' (JArray [JString (''0x'' @ hexOf rlp)]) w = (Inr result, fc_world s') \<and>
       j_asString (e_json E) result = Inr (tx_txHash t))"
proof -
  obtain s2 t0 where run: "submitWorkSolo E c0 elapsed nonce hash challenge s =
       thenS (nextTxNonce E elapsed) (bindS (sendSolution E t0 nonce hash challenge) (\<lambda>t.
         modS (\<lambda>s. s\<lparr>fc_pendingTxs := fc_pendingTxs s @ [t]\<rparr>))) s2"
    and s2: "fc_pendingTxs s2 = fc_pendingTxs s" "fc_txNonce s2 = fc_txNonce s" "fc_tokenContract s2 = fc_tokenContract s"
    by (rule submitWorkSolo_step [OF assms(2)]) blast
  from assms(1) [unfolded run] obtain u s3 t s4 where nonce: "nextTxNonce E elapsed s2 = (Inr u, s3)"
    and send: "sendSolution E t0 nonce hash challenge s3 = (Inr t, s4)"
    and s': "s' = s4\<lparr>fc_pendingTxs := fc_pendingTxs s4 @ [t]\<rparr>"
    by (auto simp: op_Inr_iffs)
  note f = sendSolution_fields [OF send]
  have "fc_pendingTxs s4 = fc_pendingTxs s" "fc_txNonce s4 = fc_txNonce s3" "fc_tokenContract s3 = fc_tokenContract s"
    using keepsD [OF keeps_sendSolution(1) send] keepsD [OF keeps_sendSolution(2) send]
      keepsD [OF keeps_nextTxNonce(1) nonce] keepsD [OF keeps_nextTxNonce(2) nonce] s2 by simp_all
  with f show ?thesis by (auto simp: s' mintData_eq [OF assms(3,4)])
qed

text \<open>C36: A failed submission uses up its transaction nonce: within five minutes of the last solution,
  an exception anywhere after the shared-folder check leaves the client's nonce one higher although
  no transaction is pending, so that the next transaction has a gap before it.\<close>

theorem failed_submission_skips_nonce:
  assumes "submitWorkSolo E c0 elapsed nonce hash challenge s = (Inl e, s')"
    and "catchS (checkChallengeFolder E challenge) (\<lambda>e. unitS False) s = (Inr False, s1)"
    and "\<not> fless (Fin 300) elapsed" and "fc_txNonce s \<noteq> -1" and "int32 (fc_txNonce s + 1) = Inr k"
  shows "fc_txNonce s' = fc_txNonce s + 1 \<and> fc_pendingTxs s' = fc_pendingTxs s"
proof -
  obtain s2 t0 where run: "submitWorkSolo E c0 elapsed nonce hash challenge s =
       thenS (nextTxNonce E elapsed) (bindS (sendSolution E t0 nonce hash challenge) (\<lambda>t.
         modS (\<lambda>s. s\<lparr>fc_pendingTxs := fc_pendingTxs s @ [t]\<rparr>))) s2"
    and s2: "fc_pendingTxs s2 = fc_pendingTxs s" "fc_txNonce s2 = fc_txNonce s"
    by (rule submitWorkSolo_step [OF assms(2)]) blast
  let ?s3 = "s2\<lparr>fc_txNonce := k\<rparr>"
  have "nextTxNonce E elapsed s2 = (Inr (), ?s3)"
    using assms(3-5) s2(2) by (intro nextTxNonce_counts) simp_all
  with run assms(1) have fail: "bindS (sendSolution E t0 nonce hash challenge) (\<lambda>t.
         modS (\<lambda>s. s\<lparr>fc_pendingTxs := fc_pendingTxs s @ [t]\<rparr>)) ?s3 = (Inl e, s')"
    by (simp add: thenS_def bindS_apply)
  obtain r s4 where send: "sendSolution E t0 nonce hash challenge ?s3 = (r, s4)" by (cases "sendSolution E t0 nonce hash challenge ?s3")
  with fail have "s' = s4" by (cases r) (simp_all add: bindS_apply modS_def)
  moreover have "k = fc_txNonce s + 1" using assms(5) by (simp add: int32_Inr)
  ultimately show ?thesis
    using keepsD [OF keeps_sendSolution(1) send] keepsD [OF keeps_sendSolution(2) send] s2 by simp
qed

lemma submitWorkSolo_pending:
  assumes "submitWorkSolo E c0 elapsed nonce hash challenge s = (r, s')" and "fc_pendingTxs s' \<noteq> fc_pendingTxs s"
  shows "r = Inr () \<and> (\<exists>s1. catchS (checkChallengeFolder E challenge) (\<lambda>e. unitS False) s = (Inr False, s1))"
proof -
  obtain a s1 where folder: "catchS (checkChallengeFolder E challenge) (\<lambda>e. unitS False) s = (a, s1)"
    by (cases "catchS (checkChallengeFolder E challenge) (\<lambda>e. unitS False) s")
  show ?thesis
  proof (cases a)
    case (Inl e)
    then have "s' = s1" using assms(1) folder by (simp add: submitWorkSolo_def bindS_def)
    then show ?thesis using assms(2) checkFolder_keeps [OF folder] by simp
  next
    case (Inr already)
    show ?thesis
    proof (cases already)
      case True
      then have "s' = s1" using assms(1) folder Inr by (simp add: submitWorkSolo_def bindS_def unitS_def)
      then show ?thesis using assms(2) checkFolder_keeps [OF folder] by simp
    next
      case False
      then have folder: "catchS (checkChallengeFolder E challenge) (\<lambda>e. unitS False) s = (Inr False, s1)"
        using folder Inr by simp
      obtain s2 t0 where run: "submitWorkSolo E c0 elapsed nonce hash challenge s =
         thenS (nextTxNonce E elapsed) (bindS (sendSolution E t0 nonce hash challenge) (\<lambda>t.
           modS (\<lambda>s. s\<lparr>fc_pendingTxs := fc_pendingTxs s @ [t]\<rparr>))) s2" and s2: "fc_pendingTxs s2 = fc_pendingTxs s"
        by (rule submitWorkSolo_step [OF folder]) blast
      show ?thesis
      proof (cases r)
        case (Inl e)
        have k: "keeps fc_pendingTxs (thenS (nextTxNonce E elapsed) (sendSolution E t0 nonce hash challenge))"
          by (intro keep_rules)
        have "thenS (nextTxNonce E elapsed) (sendSolution E t0 nonce hash challenge) s2 = (Inl e, s')"
          using assms(1) [unfolded run] Inl
          by (auto simp: thenS_def bindS_def modS_def split: prod.splits sum.splits)
        from keepsD [OF k this] s2 assms(2) show ?thesis by simp
      qed (use folder in auto)
    qed
  qed
qed

text \<open>
  A node that answers from a fixed history, and throws only what \<open>getTxStatus\<close> can catch; which of
  its transactions are mined.
\<close>

definition polite :: "json_lib \<Rightarrow> (string \<Rightarrow> json \<Rightarrow> json result) \<Rightarrow> bool" where
  "polite J server \<longleftrightarrow>
     (\<forall>n p e. server n p = Inl e \<longrightarrow> catchable e) \<and> (\<forall>j e. j_asString J j = Inl e \<longrightarrow> catchable e) \<and>
     (\<forall>j k e. j_member J j k = Inl e \<longrightarrow> catchable e)"

definition mined :: "json_lib \<Rightarrow> (string \<Rightarrow> json \<Rightarrow> json result) \<Rightarrow> string \<Rightarrow> bool" where
  "mined J server h \<longleftrightarrow>
     (\<exists>tx. server ''eth_getTransactionByHash'' (JArray [JString h]) = Inr tx \<and> tx \<noteq> JNull) \<and>
     (\<exists>st. bindE (server ''eth_getTransactionReceipt'' (JArray [JString h])) (\<lambda>r. bindE (j_member J r ''status'') (j_asString J)) = Inr st \<and>
           (st = ''0x1'' \<or> st = ''0x0''))"

lemma set_map_filter: "x \<in> set (map f (filter P xs)) \<longleftrightarrow> (\<exists>u\<in>set xs. f u = x \<and> P u)"
  by auto

lemma CallMethod_fixed: "\<forall>n p w. e_call E n p w = (server n p, w) \<Longrightarrow> CallMethod E n p = liftS (server n p)"
  by (rule ext) (simp add: CallMethod_def liftS_def)

lemma getTxStatus_mined:
  assumes "\<forall>n p w. e_call E n p w = (server n p, w)" "polite (e_json E) server"
  shows "\<exists>st. getTxStatus E h s = (Inr st, s) \<and> ((st = Succeeded \<or> st = TxFailed) = mined (e_json E) server h)"
  using assms(2)
  by (auto simp: getTxStatus_def CallMethod_fixed [OF assms(1)] catchS_def liftS_def bindS_def unitS_def mined_def polite_def
      bindE_def split: sum.splits)

lemma done_challenges_mined:
  assumes "\<forall>n p w. e_call E n p w = (server n p, w)" "polite (e_json E) server"
  shows "done_challenges E ts s =
    (Inr (map tx_challenge (filter (\<lambda>t. mined (e_json E) server (tx_txHash t)) ts)), s)"
proof (induction ts)
  case (Cons t ts)
  obtain st where st: "getTxStatus E (tx_txHash t) s = (Inr st, s)"
    "(st = Succeeded \<or> st = TxFailed) = mined (e_json E) server (tx_txHash t)"
    using getTxStatus_mined [OF assms] by blast
  then show ?case
    by (cases "mined (e_json E) server (tx_txHash t)") (simp_all add: bindS_apply Cons.IH unitS_def)
qed (simp add: unitS_def)

lemma getlineEx_loop_plain:
  "list_all (\<lambda>c. c \<noteq> CHR 0x0A \<and> c \<noteq> CHR 0x0D) s \<Longrightarrow> getlineEx_loop s acc = (acc @ s, [], True)"
  by (induction s arbitrary: acc) auto

lemma isHex_no_newline: "isHex c \<Longrightarrow> c \<noteq> CHR 0x0A \<and> c \<noteq> CHR 0x0D"
  by (auto simp: isHex_def hexVal_def fromHexChar_def char_code_def)

lemma getlineEx_hex: "fst (snd (getlineEx (hexOf c) False)) = hexOf c"
proof -
  have "list_all (\<lambda>c. c \<noteq> CHR 0x0A \<and> c \<noteq> CHR 0x0D) (hexOf c)"
    using list_all_hexOf [of c] by (rule list.pred_mono_strong) (rule isHex_no_newline)
  then show ?thesis by (simp add: getlineEx_def getlineEx_loop_plain)
qed

section \<open>A client for the witnesses\<close>

definition unit_ptree :: "unit ptree_lib" where
  "unit_ptree = \<lparr>pt_empty = (), pt_get = (\<lambda>_ _. None), pt_put = (\<lambda>_ _ _. ()), pt_read = (\<lambda>_. Inr ()), pt_write = (\<lambda>_. Inr [])\<rparr>"

definition demo_half :: bytes where
  "demo_half = replicate 31 0 @ [1]"

lemma demo_half: "length demo_half = 32" "be_val demo_half = 1"
  by (simp_all only: demo_half_def be_val_snoc be_val_replicate_0) simp_all

definition demo_env :: "(string \<Rightarrow> json \<Rightarrow> json result) \<Rightarrow> (unit, unit) client_env" where
  "demo_env server =
     \<lparr>e_json = std_json\<lparr>u256_of_double := (\<lambda>_. Inr 7)\<rparr>, e_ini = unit_ptree, e_exec_ini = ''exec'', e_app_ini = ''app'',
      e_call = (\<lambda>n p w. (server n p, w)), e_batch = (\<lambda>_ w. (Inr [], w)),
      e_sign = (\<lambda>_ k. if be_val k \<in> {0<..<secp256k1n} then Some (demo_half @ demo_half, 0) else None),
      e_path = (\<lambda>d f. d @ ''/'' @ f), e_writable = (\<lambda>_. True)\<rparr>"

definition demo_client :: "string \<Rightarrow> transaction list \<Rightarrow> (unit, unit) farm_client" where
  "demo_client contract ts =
     \<lparr>fc_devFeeMining = False, fc_opMode = Solo, fc_userAcctPK = toHex (replicate 32 1) 2 Add, fc_tokenContract = contract,
      fc_txNonce = 5, fc_pendingTxs = ts, fc_userAcct = [], fc_hashingAcct = [], fc_difficulty = 0,
      fc_target = fh_zero 32, fc_chainId = 1, fc_errorReported = False, fc_world = (),
      fc_opt = \<lparr>po_tree = (), po_defaults = po_default_settings, po_updating = False, po_path = ''app'',
        po_files = [''app'' \<mapsto> []]\<rparr>\<rparr>"

definition accepting :: "string \<Rightarrow> json \<Rightarrow> json result" where
  "accepting n p = (if n = ''eth_sendRawTransaction'' then Inr (JString ''0xab'') else Inl (JsonRpcException n))"

abbreviation demo_contract :: string where
  "demo_contract \<equiv> toHex (replicate 20 1) 2 Add"

lemma demo_json: "json_laws (std_json\<lparr>u256_of_double := f\<rparr>)"
  by (simp add: json_laws_def std_json_def)

lemma demo_folder:
  "catchS (checkChallengeFolder (demo_env srv) c) (\<lambda>e. unitS False) (demo_client a ts) = (Inr False, demo_client a ts)"
proof -
  have "po_default_settings (po_key ''0xBitcoin'' ''ChallengeFolder'') = None"
    by (simp add: po_default_settings_def po_key_def)
  then have "po_Get (e_ini (demo_env srv)) (fc_opt (demo_client a ts)) ''0xBitcoin'' ''ChallengeFolder'' = []"
    by (simp add: po_Get_def tree_get_def demo_env_def demo_client_def unit_ptree_def)
  then show ?thesis by (simp add: catchS_def checkChallengeFolder_def optGet_def unitS_def)
qed

lemma demo_ini [simp]:
  "e_ini (demo_env srv) = unit_ptree" "e_exec_ini (demo_env srv) = ''exec''" "e_app_ini (demo_env srv) = ''app''"
  by (simp_all add: demo_env_def)

lemma demo_reload [simp]:
  "po_Reload unit_ptree ''exec'' ''app'' (fc_opt (demo_client a ts)) = fc_opt (demo_client a ts)"
  "po_GetD unit_ptree (fc_opt (demo_client a ts)) sec key d = d"
  "(demo_client a ts)\<lparr>fc_opt := fc_opt (demo_client a ts)\<rparr> = demo_client a ts"
  by (simp_all add: po_Reload_def po_Load_def demo_client_def unit_ptree_def Let_def po_GetD_def tree_get_def po_read_def)

lemma demo_fields [simp]:
  "fc_txNonce (demo_client a ts) = 5" "fc_pendingTxs (demo_client a ts) = ts" "fc_tokenContract (demo_client a ts) = a"
  by (simp_all add: demo_client_def)

lemma demo_key: "be_val (replicate 32 1) \<in> {0<..<secp256k1n}"
proof -
  have "replicate 32 (1 :: byte) = [1, 1, 1, 1, 1, 1, 1, 1, 1, 1, 1, 1, 1, 1, 1, 1, 1, 1, 1, 1, 1, 1, 1, 1, 1, 1, 1, 1, 1, 1, 1, 1]"
    by (simp add: numeral_eq_Suc)
  then show ?thesis by (simp add: be_val_def secp256k1n_def)
qed

lemma one_in_range: "Suc 0 < secp256k1n"
  by (simp add: secp256k1n_def)

lemma demo_ready: "ready_to_send (demo_env accepting) (demo_client demo_contract ts)"
  by (auto simp: ready_to_send_def demo_env_def demo_client_def demo_json accepting_def gwei_def good_signature_def
      toAddress_toHex fh_of_string_toHex demo_key [simplified] one_in_range demo_half intro!: exI [of _ demo_half])

lemma demo_submission:
  "\<exists>t s'. submitWorkSolo (demo_env accepting) 0 (Fin 0) (replicate 32 3) (replicate 32 4) [9] (demo_client demo_contract []) = (Inr (), s') \<and>
     fc_pendingTxs s' = [t] \<and> fc_txNonce s' = 6"
  using submitWorkSolo_returns [OF demo_folder, of accepting demo_contract "[]" "Fin 0" 6 "replicate 32 3" "replicate 32 4" 0] demo_ready [of "[]"]
  by (simp add: int32_def)

text \<open>A node at which the transaction \<open>a\<close> is mined, \<open>b\<close> is waiting and all others are unknown.\<close>

definition demo_chain :: "string \<Rightarrow> json \<Rightarrow> json result" where
  "demo_chain n p =
     (if p = JArray [JString ''a''] then Inr (JObject [(''status'', JString ''0x1'')])
      else if p = JArray [JString ''b''] then Inr (JObject [])
      else Inr JNull)"

definition demo_tx :: "string \<Rightarrow> bytes \<Rightarrow> transaction" where
  "demo_tx h c = (Transaction 0 [])\<lparr>tx_txHash := h, tx_challenge := c\<rparr>"

lemma std_json_catchable:
  "j_asString std_json j = Inl e \<Longrightarrow> catchable e" "j_member std_json j k = Inl e \<Longrightarrow> catchable e"
  by (cases j; auto simp: std_json_def)+

lemma demo_chain_polite: "polite (e_json (demo_env demo_chain)) demo_chain"
  by (auto simp: polite_def demo_env_def demo_chain_def dest: std_json_catchable)

lemma demo_chain_mined: "mined (e_json (demo_env demo_chain)) demo_chain h \<longleftrightarrow> h = ''a''"
  by (auto simp: mined_def demo_env_def demo_chain_def std_json_def bindE_def)

lemma demo_tx [simp]: "tx_challenge (demo_tx h c) = c" "tx_txHash (demo_tx h c) = h"
  by (simp_all add: demo_tx_def)

lemma demo_client_pending [simp]: "(demo_client a ts)\<lparr>fc_pendingTxs := us\<rparr> = demo_client a us"
  by (simp add: demo_client_def)

section \<open>Claims\<close>


text \<open>C8: What a solo submission sends: unless the shared folder shows that the challenge is already
  taken, a submission that returns adds exactly one pending transaction. It calls the token
  contract with the \<open>mint\<close> selector, the nonce and the digest, transfers nothing, has the client's
  transaction nonce, never offers a legacy gas price above the maximum fee, and its hash is what
  the node answered to the hexadecimal text of its serialisation.\<close>

theorem solo_submission_sends_mint:
  assumes "submitWorkSolo E c0 elapsed nonce hash challenge s = (Inr (), s')"
    and "catchS (checkChallengeFolder E challenge) (\<lambda>e. unitS False) s = (Inr False, s1)"
    and "length nonce = 32" and "length hash = 32"
  shows "\<exists>t. fc_pendingTxs s' = fc_pendingTxs s @ [t] \<and>
    tx_data t = take 4 (sha3_string ''mint(uint256,bytes32)'') @ nonce @ hash \<and> tx_value t = 0 \<and>
    tx_challenge t = challenge \<and> tx_nonce t = word_of_int (fc_txNonce s') \<and>
    toAddress (fc_tokenContract s) = Inr (tx_receiveAddress t) \<and>
    (\<not> tx_eip1559 t \<longrightarrow> tx_gasPrice t \<le> tx_maxFee t) \<and>
    (\<exists>rlp result w. tx_rlp t GeneratePayload = Inr rlp \<and>
       e_call E ''eth_sendRawTransaction'' (JArray [JString (''0x'' @ hexOf rlp)]) w = (Inr result, fc_world s') \<and>
       j_asString (e_json E) result = Inr (tx_txHash t))"
  using assms by (rule submitWorkSolo_mints)


theorem solo_submission_sends_mint_witness:
  "\<exists>t s'. submitWorkSolo (demo_env accepting) 0 (Fin 0) (replicate 32 3) (replicate 32 4) [9] (demo_client demo_contract []) = (Inr (), s') \<and>
     fc_pendingTxs s' = [t] \<and> tx_receiveAddress t = replicate 20 1 \<and>
     tx_data t = take 4 (sha3_string ''mint(uint256,bytes32)'') @ replicate 32 3 @ replicate 32 4"
proof -
  obtain s' where run: "submitWorkSolo (demo_env accepting) 0 (Fin 0) (replicate 32 3) (replicate 32 4) [9] (demo_client demo_contract []) = (Inr (), s')"
    using demo_submission by blast
  from solo_submission_sends_mint [OF run demo_folder] show ?thesis
    by (auto simp: run toAddress_toHex)
qed

theorem failed_submission_skips_nonce_witness:
  "fc_txNonce (snd (submitWorkSolo (demo_env accepting) 0 (Fin 0) [] [] [9] (demo_client [] []))) = 6"
proof -
  have bad: "toAddress [] = Inl InvalidAddress"
    using fromHex_toHex [of "[]" DontAdd Throw] by (simp add: toAddress_def substr_def toHex_def)
  have "nextTxNonce (demo_env accepting) (Fin 0) (demo_client [] []) = (Inr (), (demo_client [] [])\<lparr>fc_txNonce := 6\<rparr>)"
    by (rule nextTxNonce_counts) (simp_all add: int32_def)
  then have run: "submitWorkSolo (demo_env accepting) 0 (Fin 0) [] [] [9] (demo_client [] []) =
      (Inl InvalidAddress, (demo_client [] [])\<lparr>fc_txNonce := 6\<rparr>)"
    by (simp add: submitWorkSolo_run [OF demo_folder] thenS_def bindS_apply sendSolution_def bad)
  from failed_submission_skips_nonce [OF run demo_folder, of 6] show ?thesis by (simp add: run int32_def)
qed

text \<open>\<open>checkPendingTransactions\<close> against a node that answers from a fixed history: whatever the
  order of the list, it keeps exactly the transactions whose challenge has no mined transaction in
  the list, in their order, and changes nothing else. An unknown transaction is kept forever.\<close>

theorem pending_transactions_filter:
  assumes "\<forall>n p w. e_call E n p w = (server n p, w)" and "polite (e_json E) server"
  shows "checkPendingTransactions E s =
    (Inr (), s\<lparr>fc_pendingTxs := filter (\<lambda>t. \<not> (\<exists>u\<in>set (fc_pendingTxs s). tx_challenge u = tx_challenge t \<and>
                                                   mined (e_json E) server (tx_txHash u))) (fc_pendingTxs s)\<rparr>)"
proof -
  let ?done = "map tx_challenge (filter (\<lambda>t. mined (e_json E) server (tx_txHash t)) (rev (fc_pendingTxs s)))"
  have "checkPendingTransactions E s = (Inr (), s\<lparr>fc_pendingTxs := filter (\<lambda>t. tx_challenge t \<notin> set ?done) (fc_pendingTxs s)\<rparr>)"
    using done_challenges_mined [OF assms, of "rev (fc_pendingTxs s)" s]
    by (simp add: checkPendingTransactions_def bindS_apply erase_all_filter modS_def del: set_map)
  moreover have "filter (\<lambda>t. tx_challenge t \<notin> set ?done) (fc_pendingTxs s) =
      filter (\<lambda>t. \<not> (\<exists>u\<in>set (fc_pendingTxs s). tx_challenge u = tx_challenge t \<and> mined (e_json E) server (tx_txHash u)))
        (fc_pendingTxs s)"
    by (rule filter_cong) (simp_all only: set_map_filter set_rev)
  ultimately show ?thesis by (rule back_subst)
qed

theorem pending_transactions_filter_witness:
  "checkPendingTransactions (demo_env demo_chain)
      (demo_client [] [demo_tx ''a'' [1], demo_tx ''b'' [1], demo_tx ''c'' [2]]) =
   (Inr (), (demo_client [] [demo_tx ''c'' [2]]))"
proof -
  have "\<forall>n p w. e_call (demo_env demo_chain) n p w = (demo_chain n p, w)" by (simp add: demo_env_def)
  from pending_transactions_filter [OF this demo_chain_polite]
  show ?thesis by (simp add: demo_chain_mined)
qed

text \<open>Miners that share a folder submit a challenge once: when one of them has passed the check of
  the folder's file for a challenge, another with the same files stops, and its files stay as they
  are.\<close>

theorem challenge_folder_excludes:
  assumes "checkChallengeFolder E c s = (Inr False, s')"
    and "po_Get (e_ini E) (fc_opt s) ''0xBitcoin'' ''ChallengeFolder'' \<noteq> []"
    and "e_writable E (e_path E (po_Get (e_ini E) (fc_opt s) ''0xBitcoin'' ''ChallengeFolder'') ''challenge.txt'')"
    and "po_files (fc_opt t) = po_files (fc_opt s')"
    and "po_Get (e_ini E) (fc_opt t) ''0xBitcoin'' ''ChallengeFolder'' = po_Get (e_ini E) (fc_opt s) ''0xBitcoin'' ''ChallengeFolder''"
  shows "checkChallengeFolder E c t = (Inr True, t)"
  using assms by (auto simp: checkChallengeFolder_def optGet_def op_Inr_iffs Let_def getlineEx_hex unitS_def split: if_splits)

theorem challenge_folder_excludes_witness:
  "let E = (demo_env accepting)\<lparr>e_ini := unit_ptree\<lparr>pt_get := \<lambda>_ _. Some ''dir''\<rparr>\<rparr>;
       s = snd (checkChallengeFolder E [9] (demo_client [] []))
   in checkChallengeFolder E [9] s = (Inr True, s)"
proof -
  let ?E = "(demo_env accepting)\<lparr>e_ini := unit_ptree\<lparr>pt_get := \<lambda>_ _. Some ''dir''\<rparr>\<rparr>"
  have get: "po_Get (e_ini ?E) opt ''0xBitcoin'' ''ChallengeFolder'' = ''dir''" for opt
    by (simp add: po_Get_def tree_get_def split: option.split)
  then have first: "fst (checkChallengeFolder ?E [9] (demo_client [] [])) = Inr False"
    by (simp add: checkChallengeFolder_def optGet_def demo_client_def demo_env_def unitS_def Let_def)
  then have "checkChallengeFolder ?E [9] (demo_client [] []) = (Inr False, snd (checkChallengeFolder ?E [9] (demo_client [] [])))"
    by (metis prod.collapse)
  from challenge_folder_excludes [OF this] have "checkChallengeFolder ?E [9] s = (Inr True, s)"
    if "po_files (fc_opt s) = po_files (fc_opt (snd (checkChallengeFolder ?E [9] (demo_client [] []))))" for s
    using that by (simp only: get) (simp add: demo_env_def)
  then show ?thesis unfolding Let_def by blast
qed

end
