(* ===== verification/Stratum.thy ===== *)
theory Stratum
  imports Farm Json
begin

text \<open>
  \<open>libstratum/EthStratumClient.cpp\<close>: the connection to a mining pool. A thread runs the handlers
  of an \<open>io_service\<close>: the end of an asynchronous read, and the timer that connects again. Each
  handler and each call of the miner's thread is one step; what the network does in a step (the
  outcome of resolving and connecting, whether a write succeeds) is an argument of it.
\<close>

section \<open>State\<close>

text \<open>
  The asynchronous read: none, waiting for a line, or already failed because its socket was closed,
  with the completion of its handler queued.
\<close>

datatype read_state = NoRead | Reading | Aborted

record stratum =
  st_url :: string
  st_userAcct :: string
  st_shareAcct :: string
  st_authorized :: bool
  st_connected :: bool
  st_running :: bool
  st_failoverAvailable :: bool
  st_maxRetries :: int
  st_retries :: int
  st_worktimeout :: int
  st_challenge :: bytes
  st_target :: h256
  st_difficulty :: u64
  st_hashingAcct :: string
  st_open :: bool
  st_read :: read_state
  st_timers :: nat
  st_sent :: "json list"

text \<open>The JSON library, its reader, and the program's version.\<close>

record stratum_env =
  se_json :: json_lib
  se_parse :: "string \<Rightarrow> json option"
  se_version :: string

datatype connect_outcome = ResolveThrows | ConnectFails | Connects

record network =
  net_connect :: connect_outcome
  net_write :: bool

section \<open>Losing a connection\<close>

definition closeSocket :: "stratum \<Rightarrow> stratum" where
  "closeSocket s = s\<lparr>st_open := False, st_read := (if st_read s = Reading then Aborted else st_read s)\<rparr>"

text \<open>\<open>m_io_service.stop()\<close> ends the thread: no handler runs while \<open>m_running\<close> is false.\<close>

definition disconnect :: "stratum \<Rightarrow> stratum" where
  "disconnect s = closeSocket (s\<lparr>st_connected := False, st_authorized := False, st_running := False\<rparr>)"

definition reconnect :: "stratum \<Rightarrow> stratum" where
  "reconnect s =
     (let s1 = s\<lparr>st_retries := st_retries s + 1\<rparr> in
      if st_retries s1 = st_maxRetries s1 \<and> st_failoverAvailable s1 then disconnect s1
      else closeSocket (s1\<lparr>st_timers := st_timers s1 + 1, st_connected := False\<rparr>))"

definition writeStratum :: "bool \<Rightarrow> json \<Rightarrow> stratum \<Rightarrow> stratum" where
  "writeStratum ok msg s =
     (if ok \<and> st_open s then s\<lparr>st_sent := st_sent s @ [msg]\<rparr> else reconnect s)"

text \<open>A read on a closed socket fails at once.\<close>

definition readline :: "stratum \<Rightarrow> stratum" where
  "readline s = s\<lparr>st_read := (if st_open s then Reading else Aborted)\<rparr>"

section \<open>Connecting\<close>

text \<open>\<open>s.find("://")\<close> and what follows; \<open>s.find_last_of(":")\<close>, before and after.\<close>

fun after_scheme :: "string \<Rightarrow> string option" where
  "after_scheme [] = None"
| "after_scheme (c # s) = (if take 3 (c # s) = ''://'' then Some (drop 3 (c # s)) else after_scheme s)"

definition split_last :: "char \<Rightarrow> string \<Rightarrow> (string \<times> string) option" where
  "split_last c s =
     (if c \<in> set s
      then Some (rev (tl (dropWhile (\<lambda>d. d \<noteq> c) (rev s))), rev (takeWhile (\<lambda>d. d \<noteq> c) (rev s)))
      else None)"

definition hostPort :: "string \<Rightarrow> string \<times> string" where
  "hostPort url =
     (let s = (case after_scheme url of None \<Rightarrow> url | Some r \<Rightarrow> r) in
      case split_last (CHR '':'') s of None \<Rightarrow> ([], []) | Some hp \<Rightarrow> hp)"

definition subscribe_msg :: "stratum_env \<Rightarrow> stratum \<Rightarrow> json" where
  "subscribe_msg E s =
     JObject [(''id'', JInt 1), (''method'', JString ''mining.subscribe''),
              (''params'', JArray [JString (st_userAcct s), JString (''MVis Tokenminer v'' @ se_version E)])]"

text \<open>
  An exception of the resolver is logged, and leaves the error code that the next test reads at
  success.
\<close>

definition connectStratum :: "stratum_env \<Rightarrow> network \<Rightarrow> stratum \<Rightarrow> stratum" where
  "connectStratum E net s =
     (if snd (hostPort (st_url s)) = [] then s
      else
        case net_connect net of
          ConnectFails \<Rightarrow> reconnect s
        | out \<Rightarrow>
            let s1 = s\<lparr>st_open := (out = Connects), st_connected := True, st_retries := 0\<rparr> in
            readline (writeStratum (net_write net) (subscribe_msg E s1) s1))"

definition launchIOS :: "stratum_env \<Rightarrow> network \<Rightarrow> stratum \<Rightarrow> stratum" where
  "launchIOS E net s = connectStratum E net (s\<lparr>st_running := True\<rparr>)"

definition c_StopWorkAt :: int where "c_StopWorkAt = 4"

text \<open>The constructor; members without initialiser take their values from \<open>s0\<close>.\<close>

definition EthStratumClient :: "stratum_env \<Rightarrow> network \<Rightarrow> string \<Rightarrow> int \<Rightarrow> int \<Rightarrow> string \<Rightarrow> stratum \<Rightarrow> stratum" where
  "EthStratumClient E net url retries worktimeout userAcct s0 =
     launchIOS E net
       (s0\<lparr>st_url := url, st_userAcct := userAcct, st_shareAcct := userAcct, st_authorized := False,
           st_connected := False, st_failoverAvailable := (retries \<noteq> 0),
           st_maxRetries := (if retries \<noteq> 0 then retries else c_StopWorkAt), st_retries := 0,
           st_worktimeout := worktimeout, st_target := fh_zero 32, st_challenge := [], st_hashingAcct := [],
           st_open := False, st_read := NoRead, st_timers := 0, st_sent := []\<rparr>)"

section \<open>Messages of the pool\<close>

definition validInput :: "json_lib \<Rightarrow> json \<Rightarrow> bool result" where
  "validInput J r =
     bindE (j_isMember J r ''result'') (\<lambda>a. bindE (if a then j_isMember J r ''error'' else Inr False) (\<lambda>b. Inr (\<not> (a \<and> b))))"

definition getStr :: "json_lib \<Rightarrow> json \<Rightarrow> string \<Rightarrow> nat \<Rightarrow> string result" where
  "getStr J r k i = bindE (j_member J r k) (\<lambda>v. bindE (j_item J v i) (j_asString J))"

text \<open>The reason the pool gives, \<open>error[1]\<close>, is read before the message that shows it is logged.\<close>

definition processReponse :: "stratum_env \<Rightarrow> json \<Rightarrow> (stratum, unit) op" where
  "processReponse E r =
     (let J = se_json E in
      bindS (liftS (validInput J r)) (\<lambda>valid.
      if \<not> valid then unitS ()
      else
        bindS (liftS (bindE (j_member J r ''id'') (j_asInt J))) (\<lambda>i.
        if i = 1 then
          bindS (liftS (bindE (j_member J r ''result'') (j_asBool J))) (\<lambda>b.
          if b then modS (\<lambda>s. s\<lparr>st_authorized := True\<rparr>)
          else bindS (liftS (getStr J r ''error'' 1)) (\<lambda>reason. modS reconnect))
        else if i = 4 then
          bindS (liftS (bindE (j_member J r ''result'') (j_asBool J))) (\<lambda>b.
          if b then unitS () else bindS (liftS (getStr J r ''error'' 1)) (\<lambda>reason. unitS ()))
        else
          bindS (liftS (bindE (j_member J r ''method'') (j_asString J))) (\<lambda>m.
          if m = ''mining.notify'' then
            bindS (liftS (getStr J r ''params'' 0)) (\<lambda>c.
            thenS (modS (\<lambda>s. s\<lparr>st_challenge := fromHexD c\<rparr>))
            (bindS (liftS (bindE (getStr J r ''params'' 1) (u256_of_string J))) (\<lambda>t.
            thenS (modS (\<lambda>s. s\<lparr>st_target := fh_of_arith 32 (unat t)\<rparr>))
            (bindS (liftS (getStr J r ''params'' 2)) (\<lambda>d.
            thenS (modS (\<lambda>s. s\<lparr>st_difficulty := word_of_int (atoll d)\<rparr>))
            (bindS (liftS (getStr J r ''params'' 3)) (\<lambda>a.
            modS (\<lambda>s. s\<lparr>st_hashingAcct := a\<rparr>))))))))
          else unitS ()))))"

text \<open>
  The handler of a read: a line, or an error (\<open>None\<close>). The read is over when the handler runs; the
  handler starts the next one. A line is taken for JSON when it begins and ends with braces.
\<close>

definition braces :: "string \<Rightarrow> bool" where
  "braces r \<longleftrightarrow> r \<noteq> [] \<and> hd r = CHR ''{'' \<and> last r = CHR ''}''"

definition readResponse :: "stratum_env \<Rightarrow> string option \<Rightarrow> (stratum, unit) op" where
  "readResponse E line =
     thenS (modS (\<lambda>s. s\<lparr>st_read := NoRead\<rparr>))
     (case line of
        Some response \<Rightarrow>
          thenS
            (if braces response then
               (case se_parse E response of
                  Some obj \<Rightarrow> processReponse E obj
                | None \<Rightarrow> unitS ())
             else unitS ())
            (modS (\<lambda>s. if st_connected s then readline s else s))
      | None \<Rightarrow> modS (\<lambda>s. if st_running s \<and> st_connected s then reconnect s else s))"

text \<open>The thread of \<open>launchIOS\<close> catches what a handler throws, logs it and goes on.\<close>

definition io_run :: "(stratum, unit) op \<Rightarrow> stratum \<Rightarrow> stratum" where
  "io_run handler s = snd (catchS handler (\<lambda>e. unitS ()) s)"

section \<open>Calls of the miner\<close>

definition work_timeout_handler :: "bool \<Rightarrow> stratum \<Rightarrow> stratum" where
  "work_timeout_handler ec s = (if \<not> ec then reconnect s else s)"

definition isRunning :: "stratum \<Rightarrow> bool" where
  "isRunning s = st_running s"

definition isConnected :: "stratum \<Rightarrow> bool" where
  "isConnected s = (st_connected s \<and> st_authorized s)"

definition submit_msg :: "stratum \<Rightarrow> h256 \<Rightarrow> bytes \<Rightarrow> bytes \<Rightarrow> u64 \<Rightarrow> json" where
  "submit_msg s nonce hash challenge difficulty =
     JObject [(''id'', JInt 4), (''method'', JString ''mining.submit''),
              (''params'', JArray [JString (''0x'' @ fh_hex nonce), JString (st_shareAcct s), JString (''0x'' @ hexOf hash),
                                   JInt (uint difficulty), JString (''0x'' @ hexOf challenge)])]"

definition submitWork :: "bool \<Rightarrow> h256 \<Rightarrow> bytes \<Rightarrow> bytes \<Rightarrow> u64 \<Rightarrow> stratum \<Rightarrow> stratum" where
  "submitWork write_ok nonce hash challenge difficulty s =
     (if \<not> isConnected s then s
      else writeStratum write_ok (submit_msg s nonce hash challenge difficulty) s)"

definition getWork :: "stratum \<Rightarrow> bytes \<times> h256 \<times> u64 \<times> string" where
  "getWork s = (st_challenge s, st_target s, st_difficulty s, st_hashingAcct s)"

definition switchAcct :: "string \<Rightarrow> stratum \<Rightarrow> stratum" where
  "switchAcct newAcct s = s\<lparr>st_shareAcct := newAcct\<rparr>"

section \<open>The interleaving\<close>

datatype stratum_event =
    Timer network
  | Line string
  | ReadError
  | Submit bool h256 bytes bytes u64
  | Switch string

text \<open>
  A read that was aborted by closing the socket is completed before the timer that was started in
  the same step: the timer runs five seconds.
\<close>

inductive stratum_step :: "stratum_env \<Rightarrow> stratum \<Rightarrow> stratum_event \<Rightarrow> stratum \<Rightarrow> bool" for E where
  timer: "st_running s \<Longrightarrow> 0 < st_timers s \<Longrightarrow> st_read s \<noteq> Aborted \<Longrightarrow>
    stratum_step E s (Timer net) (connectStratum E net (s\<lparr>st_timers := st_timers s - 1\<rparr>))"
| line: "st_running s \<Longrightarrow> st_read s = Reading \<Longrightarrow>
    stratum_step E s (Line l) (io_run (readResponse E (Some l)) s)"
| read_error: "st_running s \<Longrightarrow> st_read s \<noteq> NoRead \<Longrightarrow>
    stratum_step E s ReadError (io_run (readResponse E None) s)"
| submit: "stratum_step E s (Submit ok n h c d) (submitWork ok n h c d s)"
| switch: "stratum_step E s (Switch a) (switchAcct a s)"

code_pred stratum_step .

inductive_cases stratum_stepE: "stratum_step E s e s'"

text \<open>A line the client can digest: its handler returns, whatever the state.\<close>

definition harmless :: "stratum_env \<Rightarrow> string \<Rightarrow> bool" where
  "harmless E l \<longleftrightarrow> (\<forall>s. \<exists>s'. readResponse E (Some l) s = (Inr (), s'))"

definition polite_event :: "stratum_env \<Rightarrow> stratum_event \<Rightarrow> bool" where
  "polite_event E e \<longleftrightarrow> (\<forall>l. e = Line l \<longrightarrow> harmless E l)"

section \<open>The invariant\<close>

text \<open>
  A running client is connected, with its socket open and no timer, or has exactly one timer to
  connect again. It listens when it is connected, unless (\<open>\<not> q\<close>) the handler of a line has thrown.
  While it runs, the failed attempts have not reached the limit at which it gives up.
\<close>

definition stratum_inv :: "bool \<Rightarrow> stratum \<Rightarrow> bool" where
  "stratum_inv q s \<longleftrightarrow>
     snd (hostPort (st_url s)) \<noteq> [] \<and> 0 \<le> st_retries s \<and>
     (st_running s \<longrightarrow>
        (if st_connected s
         then st_open s \<and> st_timers s = 0 \<and> st_read s \<noteq> Aborted \<and> (q \<longrightarrow> st_read s = Reading)
         else \<not> st_open s \<and> st_timers s = 1 \<and> st_read s \<noteq> Reading) \<and>
        (st_failoverAvailable s \<longrightarrow> st_retries s < st_maxRetries s)) \<and>
     (\<not> st_running s \<longrightarrow> \<not> st_connected s) \<and>
     (st_failoverAvailable s \<longrightarrow> 1 \<le> st_maxRetries s)"

lemmas stratum_defs = reconnect_def disconnect_def closeSocket_def writeStratum_def readline_def Let_def

lemma reconnect_inv:
  assumes "snd (hostPort (st_url s)) \<noteq> []" "0 \<le> st_retries s" "st_running s" "st_timers s = 0"
    "st_failoverAvailable s \<longrightarrow> st_retries s < st_maxRetries s"
  shows "stratum_inv q (reconnect s)"
  using assms by (auto simp: stratum_inv_def stratum_defs)

lemma reconnect_kept: "st_url (reconnect s) = st_url s" "st_timers (reconnect s) \<le> st_timers s + 1"
  by (simp_all add: stratum_defs)

lemma readline_closed: "stratum_inv q s \<Longrightarrow> \<not> st_connected s \<Longrightarrow> \<not> st_open s \<Longrightarrow> stratum_inv q (readline s)"
  by (auto simp: stratum_inv_def readline_def)

lemma reconnect_closed: "\<not> st_connected (reconnect s) \<and> \<not> st_open (reconnect s)"
  by (simp add: stratum_defs)

lemma writeStratum_inv:
  assumes "snd (hostPort (st_url s)) \<noteq> []" "0 \<le> st_retries s" "st_running s" "st_timers s = 0"
    "st_failoverAvailable s \<longrightarrow> st_retries s < st_maxRetries s" "st_failoverAvailable s \<longrightarrow> 1 \<le> st_maxRetries s"
    "st_connected s"
  shows "stratum_inv q (readline (writeStratum ok msg s))"
proof (cases "ok \<and> st_open s")
  case True
  with assms show ?thesis by (simp add: writeStratum_def readline_def stratum_inv_def)
next
  case False
  have "stratum_inv q (readline (reconnect s))"
    by (rule readline_closed) (use reconnect_inv [OF assms(1-5)] reconnect_closed in auto)
  with False show ?thesis by (auto simp: writeStratum_def)
qed

lemma connectStratum_inv:
  assumes "snd (hostPort (st_url s)) \<noteq> []" "0 \<le> st_retries s" "st_running s" "st_timers s = 0"
    "st_failoverAvailable s \<longrightarrow> st_retries s < st_maxRetries s" "st_failoverAvailable s \<longrightarrow> 1 \<le> st_maxRetries s"
  shows "stratum_inv q (connectStratum E net s)"
proof (cases "net_connect net = ConnectFails")
  case True
  with reconnect_inv [OF assms(1-5)] assms(1) show ?thesis by (simp add: connectStratum_def)
next
  case False
  then have "connectStratum E net s =
      (let s1 = s\<lparr>st_open := (net_connect net = Connects), st_connected := True, st_retries := 0\<rparr>
       in readline (writeStratum (net_write net) (subscribe_msg E s1) s1))"
    using assms(1) by (cases "net_connect net") (simp_all add: connectStratum_def)
  then show ?thesis using assms by (simp only: Let_def) (rule writeStratum_inv; auto)
qed

text \<open>What processing a message may do to the connection: nothing, authorise it, or lose it.\<close>

definition connection :: "stratum \<Rightarrow> bool \<times> bool \<times> bool \<times> read_state \<times> nat \<times> int \<times> int \<times> bool \<times> string" where
  "connection s = (st_connected s, st_running s, st_open s, st_read s, st_timers s, st_retries s, st_maxRetries s,
     st_failoverAvailable s, st_url s)"

lemma stratum_inv_connection: "connection s = connection t \<Longrightarrow> stratum_inv q s = stratum_inv q t"
  by (simp add: stratum_inv_def connection_def)

lemma processReponse_connection:
  "connection (snd (processReponse E r s)) = connection s \<or> connection (snd (processReponse E r s)) = connection (reconnect s)"
  by (auto simp: processReponse_def Let_def bindS_def thenS_def liftS_def unitS_def modS_def connection_def split: sum.split)

lemma processReponse_throws:
  "fst (processReponse E r s) = Inl e \<Longrightarrow> connection (snd (processReponse E r s)) = connection s"
  by (auto simp: processReponse_def Let_def bindS_def thenS_def liftS_def unitS_def modS_def connection_def split: sum.splits if_splits)


text \<open>What a line does to the state before the next read is started.\<close>

lemma read_message:
  obtains r :: "unit result" and s2 where
    "readResponse E (Some l) s = (case r of Inl e \<Rightarrow> (Inl e, s2) | Inr u \<Rightarrow> (Inr (), if st_connected s2 then readline s2 else s2))"
    "connection s2 = connection (s\<lparr>st_read := NoRead\<rparr>) \<or> connection s2 = connection (reconnect (s\<lparr>st_read := NoRead\<rparr>))"
    "\<And>e. r = Inl e \<Longrightarrow> connection s2 = connection (s\<lparr>st_read := NoRead\<rparr>)"
proof -
  let ?s1 = "s\<lparr>st_read := NoRead\<rparr>"
  define m where "m = (if braces l then (case se_parse E l of Some obj \<Rightarrow> processReponse E obj | None \<Rightarrow> unitS ()) else unitS ())"
  obtain r s2 where run: "m ?s1 = (r, s2)" by (cases "m ?s1")
  show ?thesis
  proof (rule that [of s2 r])
    show "readResponse E (Some l) s = (case r of Inl e \<Rightarrow> (Inl e, s2) | Inr u \<Rightarrow> (Inr (), if st_connected s2 then readline s2 else s2))"
      unfolding readResponse_def using run
      by (simp add: thenS_def bindS_def modS_def flip: m_def split: sum.split)
    show "connection s2 = connection ?s1 \<or> connection s2 = connection (reconnect ?s1)"
    proof (cases "braces l \<and> se_parse E l \<noteq> None")
      case True
      then obtain obj where "m = processReponse E obj" by (auto simp: m_def)
      then show ?thesis using run processReponse_connection [of E obj ?s1] by simp
    next
      case False
      then show ?thesis using run by (auto simp: m_def unitS_def split: if_splits option.splits)
    qed
    show "connection s2 = connection ?s1" if e: "r = Inl e" for e
    proof (cases "braces l \<and> se_parse E l \<noteq> None")
      case True
      then obtain obj where "m = processReponse E obj" by (auto simp: m_def)
      then show ?thesis using run e processReponse_throws [of E obj ?s1 e] by simp
    next
      case False
      then show ?thesis using run e by (auto simp: m_def unitS_def split: if_splits option.splits)
    qed
  qed
qed

lemma connection_simps:
  "connection s = connection t \<longleftrightarrow>
     st_connected s = st_connected t \<and> st_running s = st_running t \<and> st_open s = st_open t \<and> st_read s = st_read t \<and>
     st_timers s = st_timers t \<and> st_retries s = st_retries t \<and> st_maxRetries s = st_maxRetries t \<and>
     st_failoverAvailable s = st_failoverAvailable t \<and> st_url s = st_url t"
  by (simp add: connection_def)

lemma connected_inv:
  "stratum_inv q s \<Longrightarrow> st_running s \<Longrightarrow> st_read s = Reading \<Longrightarrow> st_connected s"
  by (auto simp: stratum_inv_def split: if_splits)

lemma line_inv:
  assumes inv: "stratum_inv q s" and run: "st_running s" "st_read s = Reading" and q: "q \<longrightarrow> harmless E l"
  shows "stratum_inv q (io_run (readResponse E (Some l)) s)"
proof -
  let ?s1 = "s\<lparr>st_read := NoRead\<rparr>"
  obtain r :: "unit result" and s2 where rr:
    "readResponse E (Some l) s = (case r of Inl e \<Rightarrow> (Inl e, s2) | Inr u \<Rightarrow> (Inr (), if st_connected s2 then readline s2 else s2))"
    and conn: "connection s2 = connection ?s1 \<or> connection s2 = connection (reconnect ?s1)"
    and thrown: "\<And>e. r = Inl e \<Longrightarrow> connection s2 = connection ?s1"
    by (rule read_message [of E l s]) blast
  have s1: "st_connected s" "st_open s" "st_timers s = 0" "0 \<le> st_retries s" "snd (hostPort (st_url s)) \<noteq> []"
    "st_failoverAvailable s \<longrightarrow> st_retries s < st_maxRetries s" "st_failoverAvailable s \<longrightarrow> 1 \<le> st_maxRetries s"
    using inv run by (auto simp: stratum_inv_def split: if_splits)
  have lost: "stratum_inv q (reconnect ?s1)" using s1 run by (intro reconnect_inv) simp_all
  show ?thesis
  proof (cases r)
    case (Inl e)
    then have "\<not> q" using q rr by (auto simp: harmless_def) (metis Inl_Inr_False prod.inject)
    moreover have "snd (catchS (readResponse E (Some l)) (\<lambda>e. unitS ()) s) = s2"
      by (simp add: catchS_def rr Inl unitS_def)
    ultimately show ?thesis using thrown [OF Inl] s1 run by (simp add: io_run_def stratum_inv_def connection_simps)
  next
    case (Inr u)
    have res: "io_run (readResponse E (Some l)) s = (if st_connected s2 then readline s2 else s2)"
      by (simp add: io_run_def catchS_def rr Inr)
    from conn show ?thesis
    proof
      assume "connection s2 = connection ?s1"
      with s1 run show ?thesis by (simp add: res stratum_inv_def connection_simps readline_def)
    next
      assume c: "connection s2 = connection (reconnect ?s1)"
      then have "\<not> st_connected s2" using reconnect_closed by (simp add: connection_simps)
      then show ?thesis using lost stratum_inv_connection [OF c, of q] by (simp add: res)
    qed
  qed
qed

lemma error_inv:
  assumes inv: "stratum_inv q s" and run: "st_running s" "st_read s \<noteq> NoRead"
  shows "stratum_inv q (io_run (readResponse E None) s)"
proof -
  let ?s1 = "s\<lparr>st_read := NoRead\<rparr>"
  have res: "io_run (readResponse E None) s = (if st_connected s then reconnect ?s1 else ?s1)"
    using run by (simp add: io_run_def catchS_def readResponse_def modS_def)
  show ?thesis
  proof (cases "st_connected s")
    case True
    have "stratum_inv q (reconnect ?s1)" using inv run True by (intro reconnect_inv) (auto simp: stratum_inv_def)
    then show ?thesis using True by (simp add: res)
  next
    case False
    then show ?thesis using inv run by (simp add: res stratum_inv_def)
  qed
qed

lemma submit_inv:
  assumes inv: "stratum_inv q s"
  shows "stratum_inv q (submitWork ok n h c d s)"
proof (cases "isConnected s")
  case True
  then have c: "st_connected s" "st_running s" using inv by (auto simp: isConnected_def stratum_inv_def split: if_splits)
  then have o: "st_open s" "st_timers s = 0" using inv by (auto simp: stratum_inv_def split: if_splits)
  show ?thesis
  proof (cases ok)
    case True
    then show ?thesis using inv o by (auto simp: submitWork_def writeStratum_def stratum_inv_def)
  next
    case False
    have "stratum_inv q (reconnect s)" using inv c o by (intro reconnect_inv) (auto simp: stratum_inv_def split: if_splits)
    then show ?thesis using False inv by (simp add: submitWork_def writeStratum_def)
  qed
qed (simp add: submitWork_def inv)

lemma timer_inv:
  assumes "stratum_inv q s" "st_running s" "0 < st_timers s" "st_read s \<noteq> Aborted"
  shows "stratum_inv q (connectStratum E net (s\<lparr>st_timers := st_timers s - 1\<rparr>))"
  using assms by (intro connectStratum_inv) (auto simp: stratum_inv_def split: if_splits)

lemma stratum_inv_step:
  assumes "stratum_step E s e t" "stratum_inv q s" "q \<longrightarrow> polite_event E e"
  shows "stratum_inv q t"
  using assms
proof (cases rule: stratum_step.cases)
  case (switch a)
  then show ?thesis
    using assms(2) stratum_inv_connection [of "switchAcct a s" s q] by (simp add: connection_simps switchAcct_def)
qed (use assms in \<open>simp_all add: timer_inv line_inv error_inv submit_inv polite_event_def del: One_nat_def\<close>)

definition started :: "stratum_env \<Rightarrow> stratum \<Rightarrow> bool" where
  "started E s \<longleftrightarrow> (\<exists>net url retries worktimeout acct s0. snd (hostPort url) \<noteq> [] \<and> 0 \<le> retries \<and>
     s = EthStratumClient E net url retries worktimeout acct s0)"

lemma started_inv: "started E s \<Longrightarrow> stratum_inv q s"
  unfolding started_def EthStratumClient_def launchIOS_def c_StopWorkAt_def by (auto intro!: connectStratum_inv)

interpretation stratum: invariant_machine "started E" "\<lambda>s e t. stratum_step E s e t \<and> (q \<longrightarrow> polite_event E e)" "stratum_inv q"
  for E q
  by unfold_locales (auto intro: started_inv stratum_inv_step)


section \<open>Lemmas: attempts to connect\<close>

lemma connect_fails:
  "snd (hostPort (st_url s)) \<noteq> [] \<Longrightarrow> net_connect net = ConnectFails \<Longrightarrow> connectStratum E net s = reconnect s"
  by (simp add: connectStratum_def)

lemma resolve_throws:
  "snd (hostPort (st_url s)) \<noteq> [] \<Longrightarrow> net_connect net = ResolveThrows \<Longrightarrow>
   connectStratum E net s = readline (reconnect (s\<lparr>st_open := False, st_connected := True, st_retries := 0\<rparr>))"
  by (simp add: connectStratum_def writeStratum_def Let_def)

text \<open>A client with a failover, waiting for its next attempt after \<open>n\<close> failed ones.\<close>

definition waiting :: "int \<Rightarrow> int \<Rightarrow> stratum \<Rightarrow> bool" where
  "waiting N n s \<longleftrightarrow> snd (hostPort (st_url s)) \<noteq> [] \<and> st_running s \<and> \<not> st_connected s \<and> st_timers s = 1 \<and> \<not> st_open s \<and>
     st_retries s = n \<and> st_maxRetries s = N \<and> st_failoverAvailable s \<and> st_read s \<noteq> Reading"

lemma waiting_again:
  "waiting N n s \<Longrightarrow> n + 1 < N \<Longrightarrow> st_read s = NoRead \<Longrightarrow>
   waiting N (n + 1) (reconnect (s\<lparr>st_timers := 0\<rparr>)) \<and> st_read (reconnect (s\<lparr>st_timers := 0\<rparr>)) = NoRead"
  by (simp add: waiting_def stratum_defs)

lemma waiting_gives_up: "waiting N n s \<Longrightarrow> n + 1 = N \<Longrightarrow> \<not> st_running (reconnect (s\<lparr>st_timers := 0\<rparr>))"
  by (simp add: waiting_def stratum_defs)

lemma timer_fails:
  "waiting N n s \<Longrightarrow> st_read s = NoRead \<Longrightarrow> net_connect net = ConnectFails \<Longrightarrow>
   stratum_step E s (Timer net) (reconnect (s\<lparr>st_timers := 0\<rparr>))"
  using stratum_step.timer [of s E net] by (simp add: waiting_def connect_fails)

lemma new_client_fails:
  assumes "snd (hostPort url) \<noteq> []" "net_connect net = ConnectFails" "1 \<le> N"
  shows "let s = EthStratumClient E net url N wt acct s0 in
    st_retries s = 1 \<and> (if 1 < N then waiting N 1 s \<and> st_read s = NoRead else \<not> st_running s)"
  using assms by (simp add: EthStratumClient_def launchIOS_def connect_fails stratum_defs waiting_def)

lemma failing_attempts:
  assumes "snd (hostPort url) \<noteq> []" "net_connect net = ConnectFails" "int n + 1 < N"
  shows "\<exists>s. runs (stratum_step E) (EthStratumClient E net url N wt acct s0) (replicate n (Timer net)) s \<and>
    waiting N (int n + 1) s \<and> st_read s = NoRead"
  using assms(3)
proof (induction n)
  case 0
  then show ?case using new_client_fails [OF assms(1,2), of N E wt acct s0] by (simp add: Let_def)
next
  case (Suc n)
  then obtain s where s: "runs (stratum_step E) (EthStratumClient E net url N wt acct s0) (replicate n (Timer net)) s"
    "waiting N (int n + 1) s" "st_read s = NoRead" by auto
  have "replicate (Suc n) (Timer net) = replicate n (Timer net) @ [Timer net]" by (simp add: replicate_append_same)
  then show ?case
    using s timer_fails [OF s(2,3) assms(2), of E] waiting_again [OF s(2) _ s(3)] Suc.prems
    by (intro exI [of _ "reconnect (s\<lparr>st_timers := 0\<rparr>)"]) (auto simp: runs_append add.commute)
qed

text \<open>The first attempt with an unresolvable host, and every later one, end in the same way.\<close>

lemma resolve_cycle:
  assumes "waiting N 1 s" "st_read s = Aborted" "2 \<le> N" "net_connect net = ResolveThrows"
  shows "\<exists>t. runs (stratum_step E) s [ReadError, Timer net] t \<and> waiting N 1 t \<and> st_read t = Aborted"
proof -
  let ?u = "s\<lparr>st_read := NoRead\<rparr>"
  have r: "io_run (readResponse E None) s = ?u"
    using assms(1) by (simp add: io_run_def catchS_def readResponse_def modS_def waiting_def)
  have "stratum_step E s ReadError ?u"
    using stratum_step.read_error [of s E] assms(1,2) by (simp add: r waiting_def)
  moreover let ?t = "readline (reconnect (?u\<lparr>st_timers := 0, st_open := False, st_connected := True, st_retries := 0\<rparr>))"
  have "stratum_step E ?u (Timer net) ?t"
    using stratum_step.timer [of ?u E net] assms(1,4) by (simp add: waiting_def resolve_throws)
  moreover have "waiting N 1 ?t \<and> st_read ?t = Aborted" using assms(1,3) by (simp add: waiting_def stratum_defs)
  ultimately show ?thesis by auto
qed

lemma resolve_cycles:
  assumes "waiting N 1 s" "st_read s = Aborted" "2 \<le> N" "net_connect net = ResolveThrows"
  shows "\<exists>t. runs (stratum_step E) s (concat (replicate n [ReadError, Timer net])) t \<and> waiting N 1 t \<and> st_read t = Aborted"
  using assms(1,2)
proof (induction n arbitrary: s)
  case (Suc n)
  obtain u where u: "runs (stratum_step E) s [ReadError, Timer net] u" "waiting N 1 u" "st_read u = Aborted"
    using resolve_cycle [OF Suc.prems assms(3,4)] by blast
  obtain t where t: "runs (stratum_step E) u (concat (replicate n [ReadError, Timer net])) t" "waiting N 1 t" "st_read t = Aborted"
    using Suc.IH [OF u(2,3)] by blast
  have "runs (stratum_step E) s ([ReadError, Timer net] @ concat (replicate n [ReadError, Timer net])) t"
    unfolding runs_append using u(1) t(1) by blast
  then show ?case using t(2,3) by auto
qed auto

section \<open>A client for the witnesses\<close>

definition demo_env_st :: "json \<Rightarrow> stratum_env" where
  "demo_env_st answer = \<lparr>se_json = std_json, se_parse = (\<lambda>l. Some answer), se_version = ''1''\<rparr>"

definition demo_stratum :: stratum where
  "demo_stratum = \<lparr>st_url = ''p:1'', st_userAcct = ''u'', st_shareAcct = ''u'', st_authorized = True, st_connected = True,
     st_running = True, st_failoverAvailable = False, st_maxRetries = 4, st_retries = 0, st_worktimeout = 180,
     st_challenge = [], st_target = fh_zero 32, st_difficulty = 0, st_hashingAcct = [], st_open = True, st_read = Reading,
     st_timers = 0, st_sent = []\<rparr>"

lemma demo_port: "snd (hostPort ''p:1'') \<noteq> []"
  by (simp add: hostPort_def split_last_def)

lemma demo_stratum_fields [simp]:
  "st_running demo_stratum" "st_connected demo_stratum" "st_authorized demo_stratum" "st_read demo_stratum = Reading"
  "st_timers demo_stratum = 0" "\<not> st_failoverAvailable demo_stratum" "st_url demo_stratum = ''p:1''" "st_sent demo_stratum = []"
  by (simp_all add: demo_stratum_def)

lemma demo_stratum_inv: "stratum_inv q demo_stratum"
  using demo_port by (simp add: stratum_inv_def) (simp add: demo_stratum_def)

section \<open>Claims\<close>

text \<open>C13: The stratum client keeps itself alive: started with a URL that has a port and a limit of retries that
  is not negative, after any interleaving of network events, lines from the pool and calls of the miner, a client that is running is connected on an open socket with no
  timer pending, or is disconnected with exactly one attempt to connect scheduled; and as long as
  the handlers of the lines received have returned, a connected client is waiting for the next
  line.\<close>

theorem stratum_alive:
  assumes "snd (hostPort url) \<noteq> []" and "0 \<le> retries"
    and "runs (stratum_step E) (EthStratumClient E net url retries wt acct s0) es s"
  shows "(isRunning s \<longrightarrow> (if st_connected s then st_open s \<and> st_timers s = 0 else \<not> st_open s \<and> st_timers s = 1)) \<and>
    ((\<forall>e \<in> set es. polite_event E e) \<longrightarrow> isRunning s \<longrightarrow> st_connected s \<longrightarrow> st_read s = Reading) \<and>
    (isRunning s \<longrightarrow> st_failoverAvailable s \<longrightarrow> st_retries s < st_maxRetries s)"
proof -
  have "started E (EthStratumClient E net url retries wt acct s0)" unfolding started_def using assms(1,2) by blast
  then have inv: "stratum_inv q s" if "q \<longrightarrow> (\<forall>e \<in> set es. polite_event E e)" for q
    using stratum.inv_reachable [where E = E and q = q] assms(3) that by (simp add: runs_restrict)
  from inv [of False] inv [of True] show ?thesis by (auto simp: stratum_inv_def isRunning_def split: if_splits)
qed

theorem stratum_alive_witness:
  "st_timers (EthStratumClient (demo_env_st JNull) \<lparr>net_connect = ConnectFails, net_write = True\<rparr> ''p:1'' 3 180 ''u'' demo_stratum) = 1"
  using stratum_alive [OF demo_port, of 3 "demo_env_st JNull" "\<lparr>net_connect = ConnectFails, net_write = True\<rparr>" 180 "''u''" demo_stratum "[]"]
    new_client_fails [OF demo_port, of "\<lparr>net_connect = ConnectFails, net_write = True\<rparr>" 3 "demo_env_st JNull" 180 "''u''" demo_stratum]
  by (simp add: waiting_def isRunning_def Let_def)

text \<open>C14: Failover: against a pool that refuses every connection, a client that was given \<open>N\<close> retries
  makes exactly \<open>N\<close> attempts; it is running after each of the first \<open>N - 1\<close>, and stopped after the
  last, which is how the miner learns to switch to the next node.\<close>

theorem stratum_fails_over:
  assumes "snd (hostPort url) \<noteq> []" and "net_connect net = ConnectFails" and "int n < N"
  shows "\<exists>s. runs (stratum_step E) (EthStratumClient E net url N wt acct s0) (replicate n (Timer net)) s \<and>
    (isRunning s \<longleftrightarrow> int n + 1 < N)"
proof (cases "int n + 1 < N")
  case True
  then show ?thesis
    using failing_attempts [OF assms(1,2), of n N E wt acct s0] by (auto simp: waiting_def isRunning_def)
next
  case False
  then have N: "N = int n + 1" using assms(3) by simp
  show ?thesis
  proof (cases n)
    case 0
    then show ?thesis using new_client_fails [OF assms(1,2), of N E wt acct s0] N by (simp add: Let_def isRunning_def)
  next
    case (Suc m)
    obtain s where s: "runs (stratum_step E) (EthStratumClient E net url N wt acct s0) (replicate m (Timer net)) s"
      "waiting N (int m + 1) s" "st_read s = NoRead"
      using failing_attempts [OF assms(1,2), of m N E wt acct s0] N Suc by auto
    have "replicate n (Timer net) = replicate m (Timer net) @ [Timer net]" by (simp add: Suc replicate_append_same)
    then show ?thesis
      using s timer_fails [OF s(2,3) assms(2), of E] waiting_gives_up [OF s(2)] N Suc
      by (intro exI [of _ "reconnect (s\<lparr>st_timers := 0\<rparr>)"]) (auto simp: runs_append isRunning_def)
  qed
qed

theorem stratum_fails_over_witness:
  "\<exists>s. runs (stratum_step (demo_env_st JNull))
      (EthStratumClient (demo_env_st JNull) \<lparr>net_connect = ConnectFails, net_write = True\<rparr> ''p:1'' 3 180 ''u'' demo_stratum)
      (replicate 2 (Timer \<lparr>net_connect = ConnectFails, net_write = True\<rparr>)) s \<and> \<not> isRunning s"
  using stratum_fails_over [OF demo_port, of "\<lparr>net_connect = ConnectFails, net_write = True\<rparr>" 2 3 "demo_env_st JNull" 180 "''u''" demo_stratum]
  by simp

text \<open>An unresolvable host defeats the failover: the resolver's exception leaves the error code at
  success, the client takes itself for connected and resets its count of retries before the write
  fails. So with at least two retries, however many attempts are made, the client is still running
  with one retry counted.\<close>

theorem stratum_unresolvable_never_fails_over:
  assumes "snd (hostPort url) \<noteq> []" and "net_connect net = ResolveThrows" and "2 \<le> N"
  shows "\<exists>s. runs (stratum_step E) (EthStratumClient E net url N wt acct s0) (concat (replicate n [ReadError, Timer net])) s \<and>
    isRunning s \<and> st_retries s = 1"
proof -
  have "waiting N 1 (EthStratumClient E net url N wt acct s0) \<and> st_read (EthStratumClient E net url N wt acct s0) = Aborted"
    using assms by (simp add: EthStratumClient_def launchIOS_def resolve_throws waiting_def stratum_defs)
  then show ?thesis
    using resolve_cycles [of N "EthStratumClient E net url N wt acct s0" net E n] assms(2,3)
    by (auto simp: waiting_def isRunning_def)
qed

theorem stratum_unresolvable_never_fails_over_witness:
  "\<exists>s. runs (stratum_step (demo_env_st JNull))
      (EthStratumClient (demo_env_st JNull) \<lparr>net_connect = ResolveThrows, net_write = True\<rparr> ''p:1'' 2 180 ''u'' demo_stratum)
      (concat (replicate 9 [ReadError, Timer \<lparr>net_connect = ResolveThrows, net_write = True\<rparr>])) s \<and> isRunning s"
  using stratum_unresolvable_never_fails_over [OF demo_port, of "\<lparr>net_connect = ResolveThrows, net_write = True\<rparr>" 2 "demo_env_st JNull" 180 "''u''" demo_stratum 9]
  by (metis order_refl network.select_convs(1))

text \<open>C15: Work from the pool: a \<open>mining.notify\<close> message with a challenge, a target, a difficulty and the
  pool's account replaces the work the miner gets by exactly these, and leaves the connection
  alone.\<close>

theorem notify_sets_work:
  assumes "json_laws (se_json E)" and "map_of m ''method'' = Some (JString ''mining.notify'')"
    and "map_of m ''params'' = Some (JArray [JString c, JString t, JString d, JString a])"
    and "map_of m ''id'' = None" and "''error'' \<notin> fst ` set m" and "u256_of_string (se_json E) t = Inr T"
  shows "\<exists>s'. processReponse E (JObject m) s = (Inr (), s') \<and>
    getWork s' = (fromHexD c, fh_of_arith 32 (unat T), word_of_int (atoll d), a) \<and> connection s' = connection s"
proof -
  have J: "j_isMember (se_json E) (JObject m) k = Inr (k \<in> fst ` set m)"
    "j_member (se_json E) (JObject m) k = Inr (case map_of m k of Some v \<Rightarrow> v | None \<Rightarrow> JNull)"
    "j_asInt (se_json E) JNull = Inr 0" "j_asString (se_json E) (JString u) = Inr u"
    "j_item (se_json E) (JArray xs) i = Inr (if i < length xs then xs ! i else JNull)" for k u xs i
    using assms(1) by (simp_all add: json_laws_def)
  have "validInput (se_json E) (JObject m) = Inr True" using assms(5) by (simp add: validInput_def J)
  then show ?thesis
    using assms(2-6) by (simp add: processReponse_def Let_def J getStr_def unitS_def modS_def getWork_def connection_def)
qed

theorem notify_sets_work_witness:
  "\<exists>s'. processReponse (demo_env_st JNull)
      (JObject [(''method'', JString ''mining.notify''), (''params'', JArray [JString ''0x0a'', JString ''5'', JString ''7'', JString ''a''])])
      demo_stratum = (Inr (), s') \<and> fst (snd (getWork s')) = fh_of_arith 32 5"
proof -
  have t: "u256_of_string (se_json (demo_env_st JNull)) ''5'' = Inr 5"
    by (simp add: demo_env_st_def std_json_def strtol_parse_def isDigitOf_def digitVal_def digitsVal_def char_code_def isspace_def hasHexPrefix_def char_at_def tolower_def hexVal_def fromHexChar_def)
  show ?thesis
    using notify_sets_work [OF _ _ _ _ _ t, of
      "[(''method'', JString ''mining.notify''), (''params'', JArray [JString ''0x0a'', JString ''5'', JString ''7'', JString ''a''])]"
      "''0x0a''" "''7''" "''a''" demo_stratum] std_json_laws
    by (auto simp: demo_env_st_def)
qed

text \<open>A reconnected client is taken for authorised: \<open>reconnect\<close> keeps \<open>m_authorized\<close>, so after a lost
  connection is re-established the client reports itself connected, and a share is sent right
  behind the subscription that the pool has not accepted yet.\<close>

theorem stale_authorization:
  assumes "isConnected s" and "isRunning s" and "snd (hostPort (st_url s)) \<noteq> []"
    and "\<not> st_failoverAvailable s" and "st_timers s = 0"
  shows "let s1 = io_run (readResponse E None) s;
      s2 = connectStratum E \<lparr>net_connect = Connects, net_write = True\<rparr> (s1\<lparr>st_timers := st_timers s1 - 1\<rparr>)
    in isConnected s2 \<and>
       st_sent (submitWork True n h c d s2) = st_sent s @ [subscribe_msg E s, submit_msg s n h c d]"
  using assms
  by (simp add: Let_def io_run_def catchS_def readResponse_def modS_def reconnect_def closeSocket_def connectStratum_def
      writeStratum_def readline_def isConnected_def isRunning_def submitWork_def subscribe_msg_def submit_msg_def)

theorem stale_authorization_witness:
  "let E = demo_env_st JNull; s1 = io_run (readResponse E None) demo_stratum in
   isConnected (connectStratum E \<lparr>net_connect = Connects, net_write = True\<rparr> (s1\<lparr>st_timers := st_timers s1 - 1\<rparr>))"
  using stale_authorization [of demo_stratum "demo_env_st JNull"] demo_port
  by (simp add: isConnected_def isRunning_def Let_def)

text \<open>C40: A malformed message makes the client deaf: when the handler of a line throws, no further read is
  started; as long as its writes succeed, nothing that can happen afterwards changes the work
  again, although the client goes on reporting a connection.\<close>

theorem malformed_message_deafens:
  assumes "stratum_inv False s" and "st_running s" and "st_read s = Reading"
    and "readResponse E (Some l) s = (Inl e, s1)" and "catchable e"
    and "runs (stratum_step E) (io_run (readResponse E (Some l)) s) es t"
    and "\<forall>n h c d. Submit False n h c d \<notin> set es"
  shows "st_connected t \<and> st_read t = NoRead \<and> getWork t = getWork s1"
proof -
  obtain r :: "unit result" and s2 where
    rr: "readResponse E (Some l) s = (case r of Inl e \<Rightarrow> (Inl e, s2) | Inr u \<Rightarrow> (Inr (), if st_connected s2 then readline s2 else s2))"
    and thrown: "\<And>e. r = Inl e \<Longrightarrow> connection s2 = connection (s\<lparr>st_read := NoRead\<rparr>)"
    by (rule read_message [of E l s]) blast
  then have "s2 = s1" "connection s1 = connection (s\<lparr>st_read := NoRead\<rparr>)"
    using assms(4) by (cases r; auto)+
  moreover have "io_run (readResponse E (Some l)) s = s1"
    using assms(4,5) by (simp add: io_run_def catchS_def unitS_def)
  moreover have "st_open s" "st_timers s = 0" "st_connected s"
    using assms(1-3) by (auto simp: stratum_inv_def split: if_splits)
  ultimately have s1: "st_read s1 = NoRead" "st_open s1" "st_timers s1 = 0" "st_connected s1"
    and run: "runs (stratum_step E) s1 es t" using assms(6) by (simp_all add: connection_simps)
  have "st_read t = NoRead \<and> st_open t \<and> st_timers t = 0 \<and> st_connected t \<and> getWork t = getWork s1"
    using run s1 assms(7)
  proof (induction es arbitrary: s1)
    case (Cons e es)
    then obtain u where u: "stratum_step E s1 e u" "runs (stratum_step E) u es t" by auto
    have "st_read u = NoRead \<and> st_open u \<and> st_timers u = 0 \<and> st_connected u \<and> getWork u = getWork s1"
      using u(1) Cons.prems by cases (auto simp: submitWork_def writeStratum_def switchAcct_def getWork_def)
    with Cons.IH [OF u(2)] Cons.prems show ?case by auto
  qed simp
  then show ?thesis by blast
qed


theorem malformed_message_deafens_witness:
  "st_read (switchAcct ''x'' (io_run (readResponse (demo_env_st (JArray [])) (Some ''{}'')) demo_stratum)) = NoRead"
proof -
  let ?E = "demo_env_st (JArray [])" and ?s1 = "demo_stratum\<lparr>st_read := NoRead\<rparr>"
  have r: "readResponse ?E (Some ''{}'') demo_stratum = (Inl (StdException ''LogicError''), ?s1)"
  proof -
    have "validInput (se_json ?E) (JArray []) = Inl (StdException ''LogicError'')"
      by (simp add: validInput_def demo_env_st_def std_json_def)
    then have "processReponse ?E (JArray []) ?s1 = (Inl (StdException ''LogicError''), ?s1)"
      by (simp add: processReponse_def Let_def)
    then show ?thesis by (simp add: readResponse_def braces_def thenS_def bindS_def modS_def) (simp add: demo_env_st_def)
  qed
  have "runs (stratum_step ?E) (io_run (readResponse ?E (Some ''{}'')) demo_stratum) [Switch ''x'']
      (switchAcct ''x'' (io_run (readResponse ?E (Some ''{}'')) demo_stratum))"
    by (simp add: stratum_step.switch)
  from malformed_message_deafens [OF demo_stratum_inv _ _ r _ this] show ?thesis by simp
qed

end
