(* ===== verification/Cli.thy ===== *)
theory Cli
  imports Farm Json
begin

text \<open>
  The command line: \<open>MinerCLI\<close> of \<open>ethminer/MinerAux.h\<close> and \<open>main\<close>. The position \<open>i\<close> in
  \<open>argv\<close> is the list of the arguments after it, \<open>i + 1 < argc\<close> says that it is not empty. The
  options of a build with OpenCL and without CUDA are modelled, the default. \<open>exit(n)\<close> is the
  exception \<open>Exit n\<close>.
\<close>

section \<open>The settings\<close>

datatype miner_type = Undefined | CPU | CL | CUDA | Mixed

record node =
  nd_url :: string
  nd_isStratum :: bool

text \<open>\<open>m_openclDevices\<close> holds the first \<open>m_openclDeviceCount\<close> entries of the array of 16.\<close>

record cli =
  m_minerType :: miner_type
  m_opMode :: operation_mode
  m_minutesPerShare :: int
  m_difficulty :: int
  m_openclPlatform :: u32
  m_openclDevice :: u32
  m_miningThreads :: u32
  m_shouldListDevices :: bool
  m_exportDAG :: bool
  m_exportDAG_blockNum :: u32
  m_clAllowCPU :: bool
  m_openclDevices :: "u32 list"
  m_workSizeMultiplier :: u32
  m_localWorkSize :: u32
  m_extraGPUMemory :: u32
  m_dagLoadMode :: u32
  m_dagCreateDevice :: u32
  m_doBenchmark :: bool
  m_benchmarkWarmup :: u32
  m_benchmarkTrial :: u32
  m_benchmarkTrials :: u32
  m_benchmarkBlock :: u32
  m_nodes :: "node list"
  m_maxFarmRetries :: u32
  m_pollingInterval :: u32
  m_worktimeout :: u32
  m_shutdown :: bool
  m_userAcct :: string
  m_web3Url :: string

definition MinerCLI :: "u32 \<Rightarrow> cli" where
  "MinerCLI blockNum0 =
     \<lparr>m_minerType = Undefined, m_opMode = NoMode, m_minutesPerShare = 2, m_difficulty = -1, m_openclPlatform = 0,
      m_openclDevice = 0, m_miningThreads = 0xFFFFFFFF, m_shouldListDevices = False, m_exportDAG = False,
      m_exportDAG_blockNum = blockNum0, m_clAllowCPU = False, m_openclDevices = [], m_workSizeMultiplier = 196608,
      m_localWorkSize = 128, m_extraGPUMemory = 0, m_dagLoadMode = 0, m_dagCreateDevice = 0, m_doBenchmark = False,
      m_benchmarkWarmup = 8, m_benchmarkTrial = 3, m_benchmarkTrials = 5, m_benchmarkBlock = 0, m_nodes = [],
      m_maxFarmRetries = 4, m_pollingInterval = 2000, m_worktimeout = 180, m_shutdown = False, m_userAcct = [], m_web3Url = []\<rparr>"

definition isTrue :: "string \<Rightarrow> bool" where
  "isTrue t = (let s = LowerCase t in s = ''true'' \<or> s = ''yes'' \<or> s = ''1'')"

definition loadIniSettings :: "'t ptree_lib \<Rightarrow> 't progopt \<Rightarrow> cli \<Rightarrow> cli" where
  "loadIniSettings L opt c =
     c\<lparr>m_nodes :=
         [\<lparr>nd_url = po_Get L opt ''Node'' ''Host'', nd_isStratum = isTrue (po_GetD L opt ''Node'' ''Stratum'' ''false'')\<rparr>,
          \<lparr>nd_url = po_Get L opt ''Node2'' ''Host'', nd_isStratum = isTrue (po_GetD L opt ''Node2'' ''Stratum'' ''false'')\<rparr>],
       m_web3Url := po_Get L opt ''General'' ''Web3Url''\<rparr>"

definition failOverAvailable :: "cli \<Rightarrow> bool" where
  "failOverAvailable c = (nd_url (m_nodes c ! 1) \<noteq> [])"

section \<open>The options\<close>

type_synonym option_result = "(bool \<times> string list \<times> cli) result"

text \<open>\<open>try { f = stol(argv[++i]); } catch (...) { exit(-1); }\<close>\<close>

definition num_option :: "(u32 \<Rightarrow> cli \<Rightarrow> cli) \<Rightarrow> string list \<Rightarrow> cli \<Rightarrow> option_result" where
  "num_option upd rest c =
     (case stol (hd rest) of
        Inl e \<Rightarrow> Inl (Exit (-1))
      | Inr v \<Rightarrow> Inr (True, tl rest, upd (word_of_int v) c))"

text \<open>The loop over the device numbers: it stops at the first argument that is no number.\<close>

fun device_loop :: "string list \<Rightarrow> cli \<Rightarrow> string list \<times> cli" where
  "device_loop [] c = ([], c)"
| "device_loop (a # rest) c =
     (if length (m_openclDevices c) < 16 then
        (case stol a of
           Inl e \<Rightarrow> (a # rest, c)
         | Inr v \<Rightarrow> device_loop rest (c\<lparr>m_openclDevices := m_openclDevices c @ [word_of_int v]\<rparr>))
      else (a # rest, c))"

text \<open>\<open>--dag-load-mode single\<close> takes one more argument without looking whether there is one.\<close>

definition dag_option :: "string list \<Rightarrow> cli \<Rightarrow> option_result" where
  "dag_option rest c =
     (let mode = hd rest in
      if mode = ''parallel'' then Inr (True, tl rest, c\<lparr>m_dagLoadMode := 0\<rparr>)
      else if mode = ''sequential'' then Inr (True, tl rest, c\<lparr>m_dagLoadMode := 1\<rparr>)
      else if mode = ''single'' then
        (if tl rest = [] then Inl UndefinedBehaviour
         else bindE (stol (hd (tl rest))) (\<lambda>v.
              Inr (True, tl (tl rest), c\<lparr>m_dagLoadMode := 2, m_dagCreateDevice := word_of_int v\<rparr>)))
      else Inl (Exit (-1)))"

text \<open>An argument that is no number is left for the next option when it begins with a dash.\<close>

definition benchmark_option :: "string list \<Rightarrow> cli \<Rightarrow> option_result" where
  "benchmark_option rest c0 =
     (let c = c0\<lparr>m_doBenchmark := True\<rparr> in
      case rest of
        [] \<Rightarrow> Inr (True, rest, c)
      | a # rest' \<Rightarrow>
          (case stol (LowerCase a) of
             Inr v \<Rightarrow> Inr (True, rest', c\<lparr>m_benchmarkBlock := word_of_int v\<rparr>)
           | Inl e \<Rightarrow> if char_at a 0 = CHR ''-'' then Inr (True, rest, c) else Inl (Exit (-1))))"

text \<open>\<open>1000000 * stol(\<dots>)\<close> in \<open>long\<close>, stored in an \<open>unsigned\<close>; nothing catches the exception of \<open>stol\<close>.\<close>

definition extramem_option :: "string list \<Rightarrow> cli \<Rightarrow> option_result" where
  "extramem_option rest c =
     bindE (stol (hd rest)) (\<lambda>v.
       let m = 1000000 * v in
       if - (2 ^ 63) \<le> m \<and> m < 2 ^ 63
       then Inr (True, tl rest, c\<lparr>m_extraGPUMemory := word_of_int m\<rparr>)
       else Inl UndefinedBehaviour)"

definition set_node :: "nat \<Rightarrow> string \<Rightarrow> cli \<Rightarrow> cli" where
  "set_node i url c = c\<lparr>m_nodes := (m_nodes c)[i := (m_nodes c ! i)\<lparr>nd_url := url\<rparr>]\<rparr>"

definition interpretOption :: "string \<Rightarrow> string list \<Rightarrow> cli \<Rightarrow> option_result" where
  "interpretOption arg rest c =
     (if (arg = ''-N'' \<or> arg = ''--node'') \<and> rest \<noteq> [] then Inr (True, tl rest, set_node 0 (hd rest) c)
      else if (arg = ''-N2'' \<or> arg = ''--node2'') \<and> rest \<noteq> [] then Inr (True, tl rest, set_node 1 (hd rest) c)
      else if (arg = ''-I'' \<or> arg = ''--polling-interval'') \<and> rest \<noteq> [] then
        num_option (\<lambda>v c. c\<lparr>m_pollingInterval := v\<rparr>) rest c
      else if (arg = ''-R'' \<or> arg = ''--farm-retries'') \<and> rest \<noteq> [] then
        num_option (\<lambda>v c. c\<lparr>m_maxFarmRetries := v\<rparr>) rest c
      else if arg = ''--work-timeout'' \<and> rest \<noteq> [] then
        Inr (True, tl rest, c\<lparr>m_worktimeout := word_of_int (atoi (hd rest))\<rparr>)
      else if arg = ''--opencl-platform'' \<and> rest \<noteq> [] then
        num_option (\<lambda>v c. c\<lparr>m_openclPlatform := v\<rparr>) rest c
      else if arg = ''--opencl-devices'' \<or> arg = ''--opencl-device'' then
        (case device_loop rest c of (rest', c') \<Rightarrow> Inr (True, rest', c'))
      else if (arg = ''--cl-work-multiplier'' \<or> arg = ''--cuda-grid-size'') \<and> rest \<noteq> [] then
        num_option (\<lambda>v c. c\<lparr>m_workSizeMultiplier := v\<rparr>) rest c
      else if (arg = ''--cl-local-work'' \<or> arg = ''--cuda-block-size'') \<and> rest \<noteq> [] then
        num_option (\<lambda>v c. c\<lparr>m_localWorkSize := v\<rparr>) rest c
      else if arg = ''--list-devices'' then Inr (True, rest, c\<lparr>m_shouldListDevices := True\<rparr>)
      else if arg = ''--export-dag'' \<and> rest \<noteq> [] then
        Inr (True, tl rest, c\<lparr>m_exportDAG := True, m_exportDAG_blockNum := word_of_int (atoi (hd rest))\<rparr>)
      else if (arg = ''--cl-extragpu-mem'' \<or> arg = ''--cuda-extragpu-mem'') \<and> rest \<noteq> [] then extramem_option rest c
      else if arg = ''--allow-opencl-cpu'' then Inr (True, rest, c\<lparr>m_clAllowCPU := True\<rparr>)
      else if (arg = ''-L'' \<or> arg = ''--dag-load-mode'') \<and> rest \<noteq> [] then dag_option rest c
      else if arg = ''--benchmark-warmup'' \<and> rest \<noteq> [] then num_option (\<lambda>v c. c\<lparr>m_benchmarkWarmup := v\<rparr>) rest c
      else if arg = ''--benchmark-trial'' \<and> rest \<noteq> [] then num_option (\<lambda>v c. c\<lparr>m_benchmarkTrial := v\<rparr>) rest c
      else if arg = ''--benchmark-trials'' \<and> rest \<noteq> [] then num_option (\<lambda>v c. c\<lparr>m_benchmarkTrials := v\<rparr>) rest c
      else if arg = ''-C'' \<or> arg = ''--cpu'' then Inr (True, rest, c\<lparr>m_minerType := CPU\<rparr>)
      else if arg = ''-G'' \<or> arg = ''--opencl'' then Inr (True, rest, c\<lparr>m_minerType := CL\<rparr>)
      else if arg = ''-P'' \<or> arg = ''--opencl'' then Inr (True, rest, c\<lparr>m_opMode := Pool\<rparr>)
      else if arg = ''-S'' \<or> arg = ''--opencl'' then Inr (True, rest, c\<lparr>m_opMode := Solo\<rparr>)
      else if arg = ''-U'' \<or> arg = ''--cuda'' then Inr (True, rest, c\<lparr>m_minerType := CUDA\<rparr>)
      else if arg = ''-X'' \<or> arg = ''--cuda-opencl'' then Inr (True, rest, c\<lparr>m_minerType := Mixed\<rparr>)
      else if arg = ''-M'' \<or> arg = ''--benchmark'' then benchmark_option rest c
      else if (arg = ''-t'' \<or> arg = ''--mining-threads'') \<and> rest \<noteq> [] then
        num_option (\<lambda>v c. c\<lparr>m_miningThreads := v\<rparr>) rest c
      else if arg = ''--config'' then Inl (Exit (-1))
      else Inr (False, rest, c))"

lemma device_loop_shorter: "length (fst (device_loop rest c)) \<le> length rest"
  by (induction rest c rule: device_loop.induct) (auto split: sum.split intro: le_SucI)

definition shorter :: "string list \<Rightarrow> option_result \<Rightarrow> bool" where
  "shorter rest r \<longleftrightarrow> (\<forall>ok rest' c'. r = Inr (ok, rest', c') \<longrightarrow> length rest' \<le> length rest)"

lemma shorter_options:
  "shorter rest (Inr (b, rest, c))" "shorter rest (Inr (b, tl rest, c))" "shorter rest (Inl e)"
  "shorter rest (num_option upd rest c)" "shorter rest (dag_option rest c)" "shorter rest (benchmark_option rest c)"
  "shorter rest (extramem_option rest c)" "shorter rest (case device_loop rest c of (rest', c') \<Rightarrow> Inr (True, rest', c'))"
  using device_loop_shorter [of rest c]
  by (auto simp: shorter_def num_option_def dag_option_def benchmark_option_def extramem_option_def Let_def
      bindE_Inr_iff split: if_splits sum.splits list.splits prod.splits)

lemma shorter_if: "shorter rest r \<Longrightarrow> shorter rest r' \<Longrightarrow> shorter rest (if b then r else r')"
  by simp

lemma interpretOption_shorter: "interpretOption arg rest c = Inr (ok, rest', c') \<Longrightarrow> length rest' \<le> length rest"
proof -
  have "shorter rest (interpretOption arg rest c)"
    unfolding interpretOption_def by (intro shorter_if shorter_options)
  then show "interpretOption arg rest c = Inr (ok, rest', c') \<Longrightarrow> length rest' \<le> length rest"
    unfolding shorter_def by blast
qed

text \<open>The loop of \<open>main\<close> over the arguments.\<close>

function parse_args :: "string list \<Rightarrow> cli \<Rightarrow> cli result" where
  "parse_args [] c = Inr c"
| "parse_args (arg # rest) c =
     bindE (interpretOption arg rest c) (\<lambda>(ok, rest', c').
       if ok then parse_args rest' c' else Inl (Exit (-1)))"
  by pat_completeness auto
termination
  by (relation "measure (\<lambda>(args, c). length args)") (auto dest: interpretOption_shorter)

declare parse_args.simps(2) [simp del]

definition main_cli :: "'t ptree_lib \<Rightarrow> string \<Rightarrow> string \<Rightarrow> string list \<Rightarrow> 't progopt \<Rightarrow> cli \<Rightarrow> (cli \<times> 't progopt) result" where
  "main_cli L exec_ini app_ini args opt c =
     (let arg = (case args of [] \<Rightarrow> [] | a # _ \<Rightarrow> a) in
      if arg = ''-h'' \<or> arg = ''--help'' \<or> arg = ''-V'' \<or> arg = ''--version'' then Inl (Exit 0)
      else
        let (config, rest) = (if arg = ''--config'' \<and> 2 \<le> length args then (args ! 1, drop 2 args) else ([], args));
            (loaded, opt') = po_Load L exec_ini app_ini config opt
        in if \<not> loaded then Inl (Exit (-1))
           else bindE (parse_args rest (loadIniSettings L opt' c)) (\<lambda>c'. Inr (c', opt')))"

section \<open>Checking the settings\<close>

text \<open>
  The first part of \<open>execute\<close>, up to the configuration of the devices. \<open>listDevices\<close> prints and
  has no effect on the state. An account text without any element is indexed out of range.
\<close>

definition check_account :: "json_lib \<Rightarrow> string \<Rightarrow> unit result" where
  "check_account J userAcct =
     (case split userAcct (CHR '','') of
        [] \<Rightarrow> Inl UndefinedBehaviour
      | acct # _ \<Rightarrow>
          if substr acct 0 2 \<noteq> ''0x'' then Inl (Exit 0)
          else (case u256_of_string J acct of
                  Inl e \<Rightarrow> Inl (Exit 0)
                | Inr n \<Rightarrow> if n = 0 \<or> length acct \<noteq> 42 then Inl (Exit 0) else Inr ()))"

definition minutes_per_share :: "string \<Rightarrow> int" where
  "minutes_per_share ini =
     (let mps = LowerCase ini in
      if mps = ''pool'' then -1 else if atoi mps < 1 then -1 else atoi mps)"

definition execute_settings :: "json_lib \<Rightarrow> 't ptree_lib \<Rightarrow> 't progopt \<Rightarrow> cli \<Rightarrow> cli result" where
  "execute_settings J L opt c =
     (if m_minerType c = Undefined then Inl (Exit (-1))
      else if m_shouldListDevices c then Inl (Exit 0)
      else
        let c1 = c\<lparr>m_userAcct := po_Get L opt ''0xBitcoin'' ''MinerAcct''\<rparr> in
        bindE (check_account J (m_userAcct c1)) (\<lambda>_.
        let c2 = c1\<lparr>m_minutesPerShare := minutes_per_share (po_GetD L opt ''0xBitcoin'' ''MinutesPerShare'' ''Pool''),
                    m_difficulty := strToInt (po_GetD L opt ''0xBitcoin'' ''_Difficulty_'' ''-1'') (-1)\<rparr>
        in if m_opMode c2 = NoMode then Inl (Exit (-1)) else Inr c2))"

text \<open>
  The miners' instances: \<open>hw\<close> is the number of hardware threads, \<open>devices\<close> the number of OpenCL
  devices found, \<open>configured\<close> the outcome of \<open>configureGPU\<close>. For CUDA and mixed mining
  \<open>instances\<close> stays uninitialised.
\<close>

definition configure :: "u32 \<Rightarrow> u32 \<Rightarrow> bool \<Rightarrow> cli \<Rightarrow> (cli \<times> u32 \<times> u32) result" where
  "configure hw devices configured c =
     (if m_minerType c = CPU then Inr (c, min (m_miningThreads c) hw, 0)
      else if m_minerType c = CL \<or> m_minerType c = Mixed then
        let c1 = (if m_openclDevices c \<noteq> [] then c\<lparr>m_miningThreads := of_nat (length (m_openclDevices c))\<rparr> else c) in
        if \<not> configured then Inl (Exit 1) else Inr (c1, 0, min (m_miningThreads c1) devices)
      else Inl (Exit 1))"

definition createMiners :: "miner_type \<Rightarrow> u32 \<Rightarrow> u32 \<Rightarrow> u32 \<Rightarrow> nat result" where
  "createMiners mt hw cpuInstances gpuInstances =
     (case mt of
        CPU \<Rightarrow> Inr (unat (if cpuInstances > 0 then cpuInstances else hw))
      | CL \<Rightarrow> Inr (unat (if gpuInstances > 0 then gpuInstances else 1))
      | _ \<Rightarrow> Inl UndefinedBehaviour)"

text \<open>The loop over the nodes: a session is a function of its node and the state it works on.\<close>

partial_function (option) node_loop :: "(node \<Rightarrow> 's \<Rightarrow> 's) \<Rightarrow> ('s \<Rightarrow> bool) \<Rightarrow> node list \<Rightarrow> nat \<Rightarrow> 's \<Rightarrow> 's option" where
  "node_loop session shutDown nodes i s =
     (let s' = (if nd_url (nodes ! i) \<noteq> [] then session (nodes ! i) s else s) in
      if shutDown s' then Some s' else node_loop session shutDown nodes ((i + 1) mod 2) s')"

section \<open>Lemmas: command lines\<close>

text \<open>The command line that describes settings.\<close>

definition type_flag :: "miner_type \<Rightarrow> string" where
  "type_flag t = (case t of Undefined \<Rightarrow> [] | CPU \<Rightarrow> ''-C'' | CL \<Rightarrow> ''-G'' | CUDA \<Rightarrow> ''-U'' | Mixed \<Rightarrow> ''-X'')"

definition mode_flag :: "operation_mode \<Rightarrow> string" where
  "mode_flag m = (if m = Pool then ''-P'' else ''-S'')"

definition command_line :: "cli \<Rightarrow> string list" where
  "command_line c =
     [''-N'', nd_url (m_nodes c ! 0), ''-N2'', nd_url (m_nodes c ! 1), ''-I'', showNat (unat (m_pollingInterval c)),
      ''-R'', showNat (unat (m_maxFarmRetries c)), ''--opencl-platform'', showNat (unat (m_openclPlatform c)),
      ''--cl-work-multiplier'', showNat (unat (m_workSizeMultiplier c)), ''--cl-local-work'', showNat (unat (m_localWorkSize c)),
      ''--benchmark-warmup'', showNat (unat (m_benchmarkWarmup c)), ''--benchmark-trial'', showNat (unat (m_benchmarkTrial c)),
      ''--benchmark-trials'', showNat (unat (m_benchmarkTrials c)), ''-t'', showNat (unat (m_miningThreads c)),
      ''--opencl-devices''] @ map (\<lambda>d. showNat (unat d)) (m_openclDevices c) @ [type_flag (m_minerType c), mode_flag (m_opMode c)]"

lemma stol_showNat: "n < 2 ^ 63 \<Longrightarrow> stol (showNat n) = Inr (int n)"
  by (simp add: stol_def ston_def strtol_showNat)

lemma stol_u32 [simp]: "stol (showNat (unat (w :: u32))) = Inr (uint w)"
proof -
  have "unat w < 2 ^ 32" using unsigned_less [of w, where 'a = nat] by simp
  then have "unat w < 2 ^ 63" by (rule less_trans) simp
  then show ?thesis by (simp add: stol_showNat)
qed

lemma num_option_u32: "num_option upd (showNat (unat (w :: u32)) # rest) c = Inr (True, rest, upd w c)"
  by (simp add: num_option_def)

lemma device_loop_numbers:
  "length (m_openclDevices c) + length ds \<le> 16 \<Longrightarrow> (length (m_openclDevices c) + length ds < 16 \<Longrightarrow> \<exists>e. stol a = Inl e) \<Longrightarrow>
   device_loop (map (\<lambda>d. showNat (unat d)) ds @ a # rest) c = (a # rest, c\<lparr>m_openclDevices := m_openclDevices c @ ds\<rparr>)"
proof (induction ds arbitrary: c)
  case Nil
  then show ?case by (cases "stol a") auto
next
  case (Cons d ds)
  then show ?case using Cons.IH [of "c\<lparr>m_openclDevices := m_openclDevices c @ [d]\<rparr>"] by simp
qed

lemma stol_flags: "\<exists>e. stol (type_flag t) = Inl e"
  by (cases t) (simp_all add: type_flag_def stol_def ston_def strtol_parse_def isDigitOf_def digitVal_def char_code_def isspace_def
      hasHexPrefix_def char_at_def tolower_def hexVal_def fromHexChar_def)

lemma interpret_numbers:
  "interpretOption ''-I'' (v # rest) = num_option (\<lambda>v c. c\<lparr>m_pollingInterval := v\<rparr>) (v # rest)"
  "interpretOption ''-R'' (v # rest) = num_option (\<lambda>v c. c\<lparr>m_maxFarmRetries := v\<rparr>) (v # rest)"
  "interpretOption ''--opencl-platform'' (v # rest) = num_option (\<lambda>v c. c\<lparr>m_openclPlatform := v\<rparr>) (v # rest)"
  "interpretOption ''--cl-work-multiplier'' (v # rest) = num_option (\<lambda>v c. c\<lparr>m_workSizeMultiplier := v\<rparr>) (v # rest)"
  "interpretOption ''--cl-local-work'' (v # rest) = num_option (\<lambda>v c. c\<lparr>m_localWorkSize := v\<rparr>) (v # rest)"
  "interpretOption ''--benchmark-warmup'' (v # rest) = num_option (\<lambda>v c. c\<lparr>m_benchmarkWarmup := v\<rparr>) (v # rest)"
  "interpretOption ''--benchmark-trial'' (v # rest) = num_option (\<lambda>v c. c\<lparr>m_benchmarkTrial := v\<rparr>) (v # rest)"
  "interpretOption ''--benchmark-trials'' (v # rest) = num_option (\<lambda>v c. c\<lparr>m_benchmarkTrials := v\<rparr>) (v # rest)"
  "interpretOption ''-t'' (v # rest) = num_option (\<lambda>v c. c\<lparr>m_miningThreads := v\<rparr>) (v # rest)"
  by (rule ext, simp add: interpretOption_def)+

lemma interpret_others:
  "interpretOption ''-N'' (v # rest) c = Inr (True, rest, set_node 0 v c)"
  "interpretOption ''-N2'' (v # rest) c = Inr (True, rest, set_node 1 v c)"
  "interpretOption ''--opencl-devices'' rest c = (case device_loop rest c of (rest', c') \<Rightarrow> Inr (True, rest', c'))"
  by (simp_all add: interpretOption_def)

lemma interpret_type: "t \<noteq> Undefined \<Longrightarrow> interpretOption (type_flag t) rest c = Inr (True, rest, c\<lparr>m_minerType := t\<rparr>)"
  by (cases t) (simp_all add: type_flag_def interpretOption_def)

lemma interpret_mode: "m = Pool \<or> m = Solo \<Longrightarrow> interpretOption (mode_flag m) rest c = Inr (True, rest, c\<lparr>m_opMode := m\<rparr>)"
  by (cases m) (simp_all add: mode_flag_def interpretOption_def)

lemma parse_number:
  "interpretOption arg (showNat (unat (w :: u32)) # rest) = num_option upd (showNat (unat w) # rest) \<Longrightarrow>
   parse_args (arg # showNat (unat w) # rest) c = parse_args rest (upd w c)"
  by (simp add: parse_args.simps(2) num_option_u32)

lemma parse_step: "interpretOption arg rest c = Inr (True, rest', c') \<Longrightarrow> parse_args (arg # rest) c = parse_args rest' c'"
  by (simp add: parse_args.simps(2))

section \<open>Claims\<close>

text \<open>C16: The command line says everything: parsing the options that describe some settings, on top of
  whatever the ini file or the defaults gave for them, yields exactly these settings; in
  particular the greedy list of device numbers ends at the next option.\<close>

theorem command_line_roundtrip:
  assumes "m_nodes c = [a, b]" and "m_minerType c \<noteq> Undefined" and "m_opMode c = Pool \<or> m_opMode c = Solo"
    and "length (m_openclDevices c) \<le> 16"
    and "nd_isStratum a0 = nd_isStratum a" and "nd_isStratum b0 = nd_isStratum b"
  shows "parse_args (command_line c)
      (c\<lparr>m_nodes := [a0, b0], m_pollingInterval := v1, m_maxFarmRetries := v2, m_openclPlatform := v3, m_workSizeMultiplier := v4,
         m_localWorkSize := v5, m_benchmarkWarmup := v6, m_benchmarkTrial := v7, m_benchmarkTrials := v8, m_miningThreads := v9,
         m_openclDevices := [], m_minerType := t0, m_opMode := o0\<rparr>) = Inr c"
proof -
  have devices: "device_loop (map (\<lambda>d. showNat (unat d)) (m_openclDevices c) @ type_flag (m_minerType c) # rest) d =
      (type_flag (m_minerType c) # rest, d\<lparr>m_openclDevices := m_openclDevices c\<rparr>)" if "m_openclDevices d = []" for d rest
    using that assms(4) stol_flags [of "m_minerType c"] by (subst device_loop_numbers) simp_all
  have nodes: "set_node 1 (nd_url b) (set_node 0 (nd_url a) d) = d\<lparr>m_nodes := [a, b]\<rparr>" if "m_nodes d = [a0, b0]" for d
    using that assms(5,6) by (cases a; cases b; cases a0; cases b0) (simp add: set_node_def)
  have finish: "parse_args (''--opencl-devices'' # map (\<lambda>d. showNat (unat d)) (m_openclDevices c) @
        [type_flag (m_minerType c), mode_flag (m_opMode c)]) d =
      Inr (d\<lparr>m_openclDevices := m_openclDevices c, m_minerType := m_minerType c, m_opMode := m_opMode c\<rparr>)"
    if "m_openclDevices d = []" for d
    using assms(2,3) by (simp add: parse_args.simps(2) interpret_others(3) devices [OF that] interpret_type interpret_mode)
  show ?thesis
    unfolding command_line_def assms(1)
    by (simp add: parse_step [OF interpret_others(1)] parse_step [OF interpret_others(2)] parse_number [OF interpret_numbers(1)]
        parse_number [OF interpret_numbers(2)] parse_number [OF interpret_numbers(3)] parse_number [OF interpret_numbers(4)]
        parse_number [OF interpret_numbers(5)] parse_number [OF interpret_numbers(6)] parse_number [OF interpret_numbers(7)]
        parse_number [OF interpret_numbers(8)] parse_number [OF interpret_numbers(9)] nodes [simplified] finish)
      (cases c; simp add: assms(1) [symmetric])
qed


definition demo_cli :: cli where
  "demo_cli = (MinerCLI 0)\<lparr>m_nodes := [\<lparr>nd_url = ''a:1'', nd_isStratum = True\<rparr>, \<lparr>nd_url = [], nd_isStratum = False\<rparr>],
     m_minerType := CL, m_opMode := Pool, m_openclDevices := [0, 2]\<rparr>"

theorem command_line_roundtrip_witness:
  "parse_args (command_line demo_cli)
     (demo_cli\<lparr>m_nodes := [\<lparr>nd_url = ''x'', nd_isStratum = True\<rparr>, \<lparr>nd_url = ''y'', nd_isStratum = False\<rparr>],
        m_pollingInterval := 1, m_maxFarmRetries := 1, m_openclPlatform := 1, m_workSizeMultiplier := 1, m_localWorkSize := 1,
        m_benchmarkWarmup := 1, m_benchmarkTrial := 1, m_benchmarkTrials := 1, m_miningThreads := 1, m_openclDevices := [],
        m_minerType := CPU, m_opMode := Solo\<rparr>) = Inr demo_cli"
  by (rule command_line_roundtrip [of demo_cli "\<lparr>nd_url = ''a:1'', nd_isStratum = True\<rparr>" "\<lparr>nd_url = [], nd_isStratum = False\<rparr>"])
    (simp_all add: demo_cli_def MinerCLI_def)


end
