(* ===== verification/Mining.thy ===== *)
theory Mining
  imports Stratum Cli FarmClient
begin

text \<open>
  The mining sessions of \<open>ethminer/MinerAux.h\<close>: the target for a difficulty or a share time, the
  schedule of the developer's fee, and the loops \<open>doGetWork\<close> and \<open>doStratum\<close> that bring work to
  the farm and its solutions to the node or the pool. One step is one evaluation of the inner
  loop's condition with what follows it; what the timers have measured by then is an argument.
\<close>

section \<open>Targets\<close>

text \<open>\<open>2^234\<close>. Boost's division by zero throws.\<close>

definition pow_2_234 :: nat where
  "pow_2_234 = 2 ^ 234"

definition targetFromDiff :: "u64 \<Rightarrow> h256 result" where
  "targetFromDiff d =
     (if d = 0 then Inl (StdException ''overflow_error'') else Inr (fh_of_arith 32 (pow_2_234 div unat d)))"

definition diffFromTarget :: "json_lib \<Rightarrow> h256 \<Rightarrow> u64 result" where
  "diffFromTarget J target =
     (if fh_to_arith target = 0 then Inl (StdException ''overflow_error'')
      else Inr (u64_of_u256 J (of_nat (pow_2_234 div fh_to_arith target))))"

text \<open>
  \<open>calcFinalTarget\<close>: the settings, the farm's rate and number of miners, the last rate (a static
  variable) and what the pool asked for. The results are the new last rate, the new difficulty and
  the target, if no exception leaves the first two behind.
\<close>

definition new_rate :: "fp \<Rightarrow> nat \<Rightarrow> fp \<Rightarrow> fp" where
  "new_rate farmRate minerCount lastRate =
     (let cur = (if feq lastRate (Fin 0) \<or> feq farmRate (Fin 0) then flt (of_nat (minerCount * 400)) else farmRate) in
      if feq lastRate (Fin 0) \<or> fless (dbl (1 / 10)) (fdiv flt (fabs (fsub flt lastRate cur)) lastRate) then cur
      else lastRate)"

definition calcFinalTarget ::
    "json_lib \<Rightarrow> cli \<Rightarrow> farm \<Rightarrow> fp \<Rightarrow> u64 \<Rightarrow> h256 \<Rightarrow> fp \<times> u64 \<times> h256 result" where
  "calcFinalTarget J c f lastRate difficulty target =
     (if m_difficulty c \<noteq> -1 then
        (let d = word_of_int (m_difficulty c) in (lastRate, d, targetFromDiff d))
      else if m_minutesPerShare c = -1 then (lastRate, difficulty, Inr target)
      else
        let rate = new_rate (fm_farmRate f) (length (fm_miners f)) lastRate;
            divisor = fmul dbl (fmul dbl (fmul dbl rate (Fin 1000000)) (dbl_of_int (m_minutesPerShare c))) (Fin 60)
        in case (if feq divisor (Fin 0) then Inr 0 else fp_to_u64 (fdiv dbl (dbl_of_int (2 ^ 64 - 1)) divisor)) of
             Inl e \<Rightarrow> (rate, difficulty, Inl e)
           | Inr t64 \<Rightarrow>
               let t = fh_of_arith 32 (nat t64 * 2 ^ 192) in
               (case diffFromTarget J t of
                  Inl e \<Rightarrow> (rate, difficulty, Inl e)
                | Inr d \<Rightarrow> (rate, d, Inr t)))"

section \<open>The developer's fee\<close>

text \<open>
  \<open>FEEBLOCKTIME\<close> is four hours. The results are the time of the next switch, and the times to
  mine for the user and for the developer.
\<close>

definition FEEBLOCKTIME :: int where "FEEBLOCKTIME = 14400"

definition calcDevFeeTimes :: "'t ptree_lib \<Rightarrow> 't progopt \<Rightarrow> operation_mode \<Rightarrow> (int \<times> int \<times> int) result" where
  "calcDevFeeTimes L opt mode =
     bindE
       (if mode \<noteq> Pool then Inr (Fin 0)
        else
          let s = po_GetD L opt ''General'' ''DevFee'' ''1.0'' in
          if \<not> isNumeric s then Inr (Fin 1)
          else bindE (stod s) (\<lambda>p. let n = to_flt p in Inr (if fless n (Fin 1) then Fin 1 else n)))
       (\<lambda>percent.
     bindE (fp_to_int32 (fmul dbl (fmul dbl (fmul dbl (fdiv dbl percent (Fin 100)) (Fin 4)) (Fin 60)) (Fin 60))) (\<lambda>dev.
     bindE (int32 (FEEBLOCKTIME - dev)) (\<lambda>user.
     Inr (if dev = 0 then 0 else FEEBLOCKTIME div 2, user, dev))))"

text \<open>
  The switch, when the time has come: the new time until the next switch, and whether the
  developer is mined for from now on.
\<close>

definition devFeeSwitch :: "fp \<Rightarrow> int \<Rightarrow> int \<Rightarrow> int \<Rightarrow> (int \<times> bool) option" where
  "devFeeSwitch elapsed next_switch userFeeTime devFeeTime =
     (if next_switch \<noteq> 0 \<and> fless (dbl_of_int \<bar>next_switch\<bar>) elapsed
      then Some (if next_switch < 0 then (userFeeTime, False) else (-1 * devFeeTime, True))
      else None)"

section \<open>Mining with getwork\<close>

record ('w, 't) mining =
  mi_cli :: cli
  mi_farm :: farm
  mi_work :: "('w, 't) farm_client"
  mi_node :: "('w, 't) farm_client"
  mi_challenge :: bytes
  mi_target :: h256
  mi_difficulty :: u64
  mi_recent :: "bytes list"
  mi_connected :: bool
  mi_retries :: u32
  mi_nextFee :: int
  mi_userFee :: int
  mi_devFee :: int
  mi_lastRate :: fp
  mi_balance :: int
  mi_inner :: bool

text \<open>What the timers say in one step; \<open>tk_lastSolution\<close> is the client's own timer.\<close>

record tick =
  tk_display :: bool
  tk_balance :: bool
  tk_poll :: bool
  tk_checkTx :: bool
  tk_fee :: fp
  tk_lastSolution :: fp

datatype flow = Continue | Break

text \<open>In solo mode \<open>nodeRPC\<close> points to \<open>workRPC\<close>.\<close>

definition onWork :: "(('w, 't) farm_client, 'a) op \<Rightarrow> (('w, 't) mining, 'a) op" where
  "onWork m s = (case m (mi_work s) of (r, c) \<Rightarrow> (r, s\<lparr>mi_work := c\<rparr>))"

definition onNode :: "(('w, 't) farm_client, 'a) op \<Rightarrow> (('w, 't) mining, 'a) op" where
  "onNode m s =
     (if m_opMode (mi_cli s) = Pool then (case m (mi_node s) of (r, c) \<Rightarrow> (r, s\<lparr>mi_node := c\<rparr>)) else onWork m s)"

definition onFarm :: "(farm \<Rightarrow> farm result) \<Rightarrow> (('w, 't) mining, unit) op" where
  "onFarm g s = (case g (mi_farm s) of Inl e \<Rightarrow> (Inl e, s) | Inr f \<Rightarrow> (Inr (), s\<lparr>mi_farm := f\<rparr>))"

definition setWorkS :: "(('w, 't) mining, unit) op" where
  "setWorkS = bindS (getS (\<lambda>s. (mi_challenge s, mi_target s))) (\<lambda>(c, t). onFarm (fm_setWork c t))"

definition refreshBalance :: "('w, 't) client_env \<Rightarrow> (('w, 't) mining, unit) op" where
  "refreshBalance E = bindS (onNode (tokenBalance E)) (\<lambda>b. modS (\<lambda>s. s\<lparr>mi_balance := to_int32 b\<rparr>))"

text \<open>The work the pool or the node offers, as a challenge and a target.\<close>

definition pollPool :: "('w, 't) client_env \<Rightarrow> (('w, 't) mining, bytes \<times> h256) op" where
  "pollPool E =
     bindS (onWork (getWorkPool E)) (\<lambda>(c, t, d, acct).
     thenS (modS (\<lambda>s. s\<lparr>mi_difficulty := d, mi_farm := (mi_farm s)\<lparr>fm_hashingAcct := acct\<rparr>\<rparr>))
     (bindS (\<lambda>s. case calcFinalTarget (e_json E) (mi_cli s) (mi_farm s) (mi_lastRate s) (mi_difficulty s) t of
                   (rate, d', r) \<Rightarrow> (r, s\<lparr>mi_difficulty := d', mi_lastRate := rate\<rparr>)) (\<lambda>t'.
      unitS (c, t'))))"

definition pollSolo :: "('w, 't) client_env \<Rightarrow> (('w, 't) mining, bytes \<times> h256) op" where
  "pollSolo E =
     bindS (onWork (getWorkSolo E)) (\<lambda>(c, t).
     bindS (getS (\<lambda>s. (if length c \<noteq> 32 then mi_challenge s else c, if fh_to_arith t = 0 then mi_target s else t))) (\<lambda>(c', t').
     bindS (liftS (diffFromTarget (e_json E) t')) (\<lambda>d.
     thenS (modS (\<lambda>s. s\<lparr>mi_difficulty := d\<rparr>)) (unitS (c', t')))))"

text \<open>Taking over new work; \<open>recentChallenges\<close> holds the last five challenges.\<close>

definition newWork :: "bytes \<Rightarrow> h256 \<Rightarrow> (('w, 't) mining, unit) op" where
  "newWork c t =
     thenS
       (bindS (getS (\<lambda>s. c \<noteq> mi_challenge s \<and> (c \<notin> set (mi_recent s) \<or> m_opMode (mi_cli s) = Pool))) (\<lambda>fresh.
        if fresh
        then thenS (modS (\<lambda>s. s\<lparr>mi_recent := take 5 (c # mi_recent s), mi_challenge := c, mi_target := t\<rparr>)) setWorkS
        else unitS ()))
       (bindS (getS mi_target) (\<lambda>target.
        if t \<noteq> target then thenS (modS (\<lambda>s. s\<lparr>mi_target := t\<rparr>)) setWorkS else unitS ()))"

definition pollWork :: "('w, 't) client_env \<Rightarrow> (('w, 't) mining, unit) op" where
  "pollWork E =
     bindS (getS (\<lambda>s. m_opMode (mi_cli s) = Pool)) (\<lambda>pool.
     bindS (if pool then pollPool E else pollSolo E) (\<lambda>(c, t).
     thenS (modS (\<lambda>s. s\<lparr>mi_connected := True, mi_retries := 0\<rparr>)) (newWork c t)))"

text \<open>The status line updates the hash rates; its block number is asked for in solo mode only.\<close>

definition showStatus :: "('w, 't) client_env \<Rightarrow> (('w, 't) mining, unit) op" where
  "showStatus E =
     thenS
       (bindS (getS (\<lambda>s. m_opMode (mi_cli s) = Solo)) (\<lambda>solo.
        if solo then catchS (bindS (onNode (getBlockNumber E)) (\<lambda>n. unitS ())) (\<lambda>e. unitS ()) else unitS ()))
       (onFarm fm_updateRates)"

definition feeStep :: "fp \<Rightarrow> (('w, 't) mining, unit) op" where
  "feeStep elapsed =
     modS (\<lambda>s. case devFeeSwitch elapsed (mi_nextFee s) (mi_userFee s) (mi_devFee s) of
        None \<Rightarrow> s
      | Some (n, dev) \<Rightarrow> s\<lparr>mi_nextFee := n, mi_work := (mi_work s)\<lparr>fc_devFeeMining := dev\<rparr>\<rparr>)"

definition doWhen :: "('s \<Rightarrow> bool) \<Rightarrow> ('s, unit) op \<Rightarrow> ('s, unit) op" where
  "doWhen P m = bindS (getS P) (\<lambda>b. if b then m else unitS ())"

definition getwork_body :: "('w, 't) client_env \<Rightarrow> tick \<Rightarrow> (('w, 't) mining, unit) op" where
  "getwork_body E k =
     thenS (doWhen (\<lambda>s. mi_challenge s \<noteq> [] \<and> tk_display k \<and> fm_isMining (mi_farm s)) (showStatus E))
     (thenS (doWhen (\<lambda>s. tk_balance k) (refreshBalance E))
     (thenS (doWhen (\<lambda>s. tk_poll k \<or> \<not> mi_connected s) (pollWork E))
     (thenS (doWhen (\<lambda>s. tk_checkTx k \<and> m_opMode (mi_cli s) = Solo) (onNode (checkPendingTransactions E)))
     (feeStep (tk_fee k)))))"

text \<open>
  A solution from the farm: it is hashed again, with the current challenge, and submitted when it
  meets the current target.
\<close>

definition solution_hash :: "(bytes \<Rightarrow> h256) \<Rightarrow> bytes \<Rightarrow> farm \<Rightarrow> h256 \<Rightarrow> h256 result" where
  "solution_hash H challenge f nonce =
     bindE (fh_of_string 20 (fm_hashingAcct f) FromHex FailIfDifferent) (\<lambda>sender.
     keccak256_0xBitcoin H challenge sender nonce)"

definition getwork_submit ::
    "(bytes \<Rightarrow> h256) \<Rightarrow> ('w, 't) client_env \<Rightarrow> u32 \<Rightarrow> tick \<Rightarrow> h256 \<Rightarrow> int \<Rightarrow> (('w, 't) mining, unit) op" where
  "getwork_submit H E chainId0 k nonce m =
     bindS (getS (\<lambda>s. s)) (\<lambda>s.
     bindS (liftS (solution_hash H (mi_challenge s) (mi_farm s) nonce)) (\<lambda>h.
     if fh_less h (mi_target s) then
       thenS (if m_opMode (mi_cli s) = Pool
              then onWork (submitWorkPool E nonce h (mi_challenge s) (mi_difficulty s))
              else onWork (submitWorkSolo E chainId0 (tk_lastSolution k) nonce h (mi_challenge s)))
             (onFarm (fm_recordSolution Accepted False m))
     else onFarm (fm_recordSolution Accepted True m)))"

text \<open>
  One step of the loops: in the inner loop, \<open>m_shutdown\<close> is not looked at. Leaving it with a
  solution or an exception leads back to the outer loop's condition.
\<close>

definition getwork_try ::
    "(bytes \<Rightarrow> h256) \<Rightarrow> ('w, 't) client_env \<Rightarrow> u32 \<Rightarrow> tick \<Rightarrow> (('w, 't) mining, flow) op" where
  "getwork_try H E chainId0 k =
     bindS (getS (\<lambda>s. \<not> mi_inner s \<and> m_shutdown (mi_cli s))) (\<lambda>stop.
     if stop then unitS Break
     else
       bindS (\<lambda>s. case fm_solutionFound (mi_farm s) of (r, f) \<Rightarrow> (Inr r, s\<lparr>mi_farm := f, mi_inner := True\<rparr>)) (\<lambda>sol.
       bindS (getS (\<lambda>s. fm_shutDown (mi_farm s))) (\<lambda>down.
       case sol of
         None \<Rightarrow> if down then unitS Break else thenS (getwork_body E k) (unitS Continue)
       | Some (nonce, m) \<Rightarrow>
           if down then unitS Break
           else thenS (modS (\<lambda>s. s\<lparr>mi_inner := False\<rparr>))
                  (thenS (getwork_submit H E chainId0 k nonce m) (unitS Continue)))))"

definition maxRetries :: "cli \<Rightarrow> u32" where
  "maxRetries c = (if failOverAvailable c then m_maxFarmRetries c else 4)"

definition getwork_lost :: "(('w, 't) mining, flow) op" where
  "getwork_lost =
     thenS (modS (\<lambda>s. s\<lparr>mi_connected := False, mi_retries := mi_retries s + 1, mi_inner := False\<rparr>))
     (bindS (getS (\<lambda>s. mi_retries s = maxRetries (mi_cli s))) (\<lambda>full.
      if full then
        thenS (modS (\<lambda>s. s\<lparr>mi_challenge := []\<rparr>))
        (thenS setWorkS (bindS (getS (\<lambda>s. failOverAvailable (mi_cli s))) (\<lambda>fo. unitS (if fo then Break else Continue))))
      else unitS Continue))"

definition getwork_step ::
    "(bytes \<Rightarrow> h256) \<Rightarrow> ('w, 't) client_env \<Rightarrow> u32 \<Rightarrow> tick \<Rightarrow> (('w, 't) mining, flow) op" where
  "getwork_step H E chainId0 k s =
     (case getwork_try H E chainId0 k s of
        (Inl e, s') \<Rightarrow>
          (case e of
             JsonRpcException msg \<Rightarrow> getwork_lost s'
           | _ \<Rightarrow> if catchable e then (Inr Continue, s'\<lparr>mi_inner := False\<rparr>) else (Inl e, s'))
      | (Inr fl, s') \<Rightarrow> (Inr fl, s'))"

text \<open>The loop itself, for as many steps as there are readings of the timers.\<close>

fun getwork_run ::
    "(bytes \<Rightarrow> h256) \<Rightarrow> ('w, 't) client_env \<Rightarrow> u32 \<Rightarrow> tick list \<Rightarrow> (('w, 't) mining, flow) op" where
  "getwork_run H E chainId0 [] = unitS Continue"
| "getwork_run H E chainId0 (k # ks) =
     bindS (getwork_step H E chainId0 k) (\<lambda>fl. if fl = Break then unitS Break else getwork_run H E chainId0 ks)"

text \<open>
  The beginning of \<open>doGetWork\<close>; the clients' memory before their constructors, and the uninitialised
  values in it, come with \<open>work0\<close> and \<open>node0\<close>.
\<close>

definition getwork_start ::
    "('w, 't) client_env \<Rightarrow> cli \<Rightarrow> farm \<Rightarrow> fp \<Rightarrow> ('w, 't) farm_client \<Rightarrow> ('w, 't) farm_client \<Rightarrow> unit result \<times> ('w, 't) mining" where
  "getwork_start E c f lastRate work0 node0 =
     (let s = \<lparr>mi_cli = c, mi_farm = f, mi_work = work0, mi_node = node0, mi_challenge = [], mi_target = fh_zero 32,
               mi_difficulty = 4, mi_recent = [], mi_connected = False, mi_retries = 0, mi_nextFee = 0, mi_userFee = 0,
               mi_devFee = 0, mi_lastRate = lastRate, mi_balance = 0, mi_inner = False\<rparr>
      in bindS (liftS (calcDevFeeTimes (e_ini E) (fc_opt work0) (m_opMode c))) (\<lambda>(n, user, dev).
         thenS (modS (\<lambda>s. s\<lparr>mi_nextFee := n, mi_userFee := user, mi_devFee := dev\<rparr>))
         (thenS (onWork (FarmClient E (m_opMode c) (m_userAcct c)))
         (thenS (if m_opMode c = Pool then onNode (FarmClient E (m_opMode c) (m_userAcct c))
                 else modS (\<lambda>s. s\<lparr>mi_farm := (mi_farm s)\<lparr>fm_hashingAcct := m_userAcct c\<rparr>\<rparr>))
         (refreshBalance E)))) s)"

section \<open>Mining with stratum\<close>

text \<open>
  \<open>doStratum\<close>: the client runs on its own thread, so that \<open>sm_client\<close> may have made steps of
  \<open>stratum_step\<close> between two steps of the loop. Nothing in this loop catches an exception.
\<close>

record ('w, 't) smining =
  sm_cli :: cli
  sm_farm :: farm
  sm_client :: stratum
  sm_node :: "('w, 't) farm_client"
  sm_challenge :: bytes
  sm_target :: h256
  sm_difficulty :: u64
  sm_nextFee :: int
  sm_userFee :: int
  sm_devFee :: int
  sm_lastRate :: fp
  sm_balance :: int
  sm_solution :: h256
  sm_solutionMiner :: int
  sm_inner :: bool

definition sm_onFarm :: "(farm \<Rightarrow> farm result) \<Rightarrow> (('w, 't) smining, unit) op" where
  "sm_onFarm g s = (case g (sm_farm s) of Inl e \<Rightarrow> (Inl e, s) | Inr f \<Rightarrow> (Inr (), s\<lparr>sm_farm := f\<rparr>))"

definition sm_setWork :: "(('w, 't) smining, unit) op" where
  "sm_setWork = bindS (getS (\<lambda>s. (sm_challenge s, sm_target s))) (\<lambda>(c, t). sm_onFarm (fm_setWork c t))"

definition sm_refreshBalance :: "('w, 't) client_env \<Rightarrow> (('w, 't) smining, unit) op" where
  "sm_refreshBalance E =
     bindS (\<lambda>s. case tokenBalance E (sm_node s) of (r, c) \<Rightarrow> (r, s\<lparr>sm_node := c\<rparr>)) (\<lambda>b.
     modS (\<lambda>s. s\<lparr>sm_balance := to_int32 b\<rparr>))"

definition sm_newWork :: "bytes \<Rightarrow> h256 \<Rightarrow> (('w, 't) smining, unit) op" where
  "sm_newWork c t =
     thenS (doWhen (\<lambda>s. c \<noteq> sm_challenge s) (thenS (modS (\<lambda>s. s\<lparr>sm_challenge := c, sm_target := t\<rparr>)) sm_setWork))
           (doWhen (\<lambda>s. t \<noteq> sm_target s) (thenS (modS (\<lambda>s. s\<lparr>sm_target := t\<rparr>)) sm_setWork))"

definition sm_poll :: "json_lib \<Rightarrow> (('w, 't) smining, unit) op" where
  "sm_poll J =
     bindS (getS (\<lambda>s. Stratum.getWork (sm_client s))) (\<lambda>(c, t, d, acct).
     thenS (modS (\<lambda>s. s\<lparr>sm_difficulty := d, sm_farm := (sm_farm s)\<lparr>fm_hashingAcct := acct\<rparr>\<rparr>))
     (bindS (\<lambda>s. case calcFinalTarget J (sm_cli s) (sm_farm s) (sm_lastRate s) (sm_difficulty s) t of
                   (rate, d', r) \<Rightarrow> (r, s\<lparr>sm_difficulty := d', sm_lastRate := rate\<rparr>)) (\<lambda>t'.
      sm_newWork c t')))"

definition sm_feeStep :: "fp \<Rightarrow> (('w, 't) smining, unit) op" where
  "sm_feeStep elapsed =
     modS (\<lambda>s. case devFeeSwitch elapsed (sm_nextFee s) (sm_userFee s) (sm_devFee s) of
        None \<Rightarrow> s
      | Some (n, dev) \<Rightarrow>
          s\<lparr>sm_nextFee := n,
            sm_client := switchAcct (if dev then DonationAddress else m_userAcct (sm_cli s)) (sm_client s)\<rparr>)"

definition sm_body :: "('w, 't) client_env \<Rightarrow> tick \<Rightarrow> (('w, 't) smining, unit) op" where
  "sm_body E k =
     thenS (doWhen (\<lambda>s. tk_display k \<and> isConnected (sm_client s) \<and> fm_isMining (sm_farm s)) (sm_onFarm fm_updateRates))
     (thenS (sm_poll (e_json E))
     (thenS (doWhen (\<lambda>s. tk_balance k) (sm_refreshBalance E))
     (sm_feeStep (tk_fee k))))"

definition sm_submit :: "(bytes \<Rightarrow> h256) \<Rightarrow> bool \<Rightarrow> (('w, 't) smining, unit) op" where
  "sm_submit H write_ok =
     bindS (getS (\<lambda>s. s)) (\<lambda>s.
     bindS (liftS (solution_hash H (sm_challenge s) (sm_farm s) (sm_solution s))) (\<lambda>h.
     if fh_less h (sm_target s) then
       thenS (modS (\<lambda>s. s\<lparr>sm_client := submitWork write_ok (sm_solution s) h (sm_challenge s) (sm_difficulty s) (sm_client s)\<rparr>))
             (sm_onFarm (fm_recordSolution Accepted False (sm_solutionMiner s)))
     else sm_onFarm (fm_recordSolution Accepted True (sm_solutionMiner s))))"

definition stratum_session_step ::
    "(bytes \<Rightarrow> h256) \<Rightarrow> ('w, 't) client_env \<Rightarrow> bool \<Rightarrow> tick \<Rightarrow> (('w, 't) smining, flow) op" where
  "stratum_session_step H E write_ok k =
     bindS (getS (\<lambda>s. \<not> sm_inner s \<and> \<not> isRunning (sm_client s))) (\<lambda>stop.
     if stop then unitS Break
     else
       bindS (\<lambda>s. case fm_solutionFound (sm_farm s) of (r, f) \<Rightarrow>
                  (Inr (r \<noteq> None), (case r of None \<Rightarrow> s | Some (n, m) \<Rightarrow> s\<lparr>sm_solution := n, sm_solutionMiner := m\<rparr>)
                                    \<lparr>sm_farm := f, sm_inner := True\<rparr>)) (\<lambda>found.
       bindS (getS (\<lambda>s. (fm_shutDown (sm_farm s), isRunning (sm_client s)))) (\<lambda>(down, running).
       if \<not> found \<and> \<not> down \<and> running then thenS (sm_body E k) (unitS Continue)
       else if down then unitS Break
       else
         thenS (modS (\<lambda>s. s\<lparr>sm_inner := False\<rparr>))
         (thenS (doWhen (\<lambda>s. sm_solutionMiner s \<noteq> -1)
                   (thenS (sm_submit H write_ok) (modS (\<lambda>s. s\<lparr>sm_solutionMiner := -1\<rparr>))))
                (unitS Continue)))))"

definition stratum_start ::
    "('w, 't) client_env \<Rightarrow> stratum_env \<Rightarrow> network \<Rightarrow> cli \<Rightarrow> string \<Rightarrow> farm \<Rightarrow> fp \<Rightarrow> stratum \<Rightarrow> ('w, 't) farm_client \<Rightarrow>
     unit result \<times> ('w, 't) smining" where
  "stratum_start E SE net c url f lastRate client0 node0 =
     (let s = \<lparr>sm_cli = c, sm_farm = f, sm_client = client0, sm_node = node0, sm_challenge = [], sm_target = fh_zero 32,
               sm_difficulty = 0, sm_nextFee = 0, sm_userFee = 0, sm_devFee = 0, sm_lastRate = lastRate, sm_balance = 0,
               sm_solution = fh_zero 32, sm_solutionMiner = -1, sm_inner = False\<rparr>
      in bindS (liftS (calcDevFeeTimes (e_ini E) (fc_opt node0) (m_opMode c))) (\<lambda>(n, user, dev).
         thenS (modS (\<lambda>s. s\<lparr>sm_nextFee := n, sm_userFee := user, sm_devFee := dev,
                  sm_client := EthStratumClient SE net url (if failOverAvailable c then uint (m_maxFarmRetries c) else 0)
                                 (uint (m_worktimeout c)) (m_userAcct c) client0\<rparr>))
         (thenS (\<lambda>s. case FarmClient E Pool (m_userAcct c) (sm_node s) of (r, n) \<Rightarrow> (r, s\<lparr>sm_node := n\<rparr>))
         (sm_refreshBalance E))) s)"

section \<open>The benchmark\<close>

text \<open>
  The statistics of \<open>doBenchmark\<close> on the rates of the trials: minimum, mean, maximum, and the mean of
  all but the first and the last in order. The number of trials is an \<open>unsigned\<close>, and so is two
  less than it.
\<close>

fun fsort_insert :: "fp \<Rightarrow> fp list \<Rightarrow> fp list" where
  "fsort_insert x [] = [x]"
| "fsort_insert x (y # ys) = (if fless y x then y # fsort_insert x ys else x # y # ys)"

definition fsort :: "fp list \<Rightarrow> fp list" where
  "fsort xs = foldr fsort_insert xs []"

definition benchmark_stats :: "u32 \<Rightarrow> fp list \<Rightarrow> (fp \<times> fp \<times> fp \<times> fp) result" where
  "benchmark_stats trials results =
     (if results = [] then Inl UndefinedBehaviour
      else
        let mean = foldl (fadd dbl) (Fin 0) results;
            sorted_results = fsort results;
            inner = foldl (fadd dbl) (Fin 0) (take (unat trials - 2) (tl sorted_results))
        in Inr (hd sorted_results, fdiv dbl mean (dbl_of_int (uint trials)), last sorted_results,
                fdiv dbl inner (dbl_of_int (uint (trials - 2)))))"

text \<open>\<open>elapsedSeconds\<close>: minutes and two digits of seconds.\<close>

definition elapsedSeconds :: "u32 \<Rightarrow> string" where
  "elapsedSeconds seconds =
     (let s = CHR ''0'' # showNat (unat seconds mod 60) in
      showNat (unat seconds div 60) @ '':'' @ drop (length s - 2) s)"


section \<open>Lemmas: targets\<close>

lemma div_div_exact:
  fixes M d :: nat
  assumes "0 < d" "d * d \<le> M"
  shows "M div (M div d) = d"
proof -
  let ?t = "M div d"
  have t: "d \<le> ?t" using assms by (simp add: less_eq_div_iff_mult_less_eq)
  have "?t * d \<le> M" by simp
  moreover have "M < ?t * (d + 1)"
  proof -
    have "M < ?t * d + d" using assms(1) by (metis add.commute dividend_less_times_div mult.commute)
    then show ?thesis using t by (simp add: algebra_simps)
  qed
  ultimately show ?thesis
    by (metis Suc_eq_plus1 div_nat_eqI mult.commute)
qed

lemma be_val_arith32: "v < 2 ^ 256 \<Longrightarrow> be_val (fh_of_arith 32 v) = v"
  by (simp add: fh_of_arith_def be_val_toBigEndian pow256)

section \<open>Lemmas: what a step can do to the work client\<close>

text \<open>Operations that talk to the node without submitting leave the pending transactions alone.\<close>

lemma mining_pending_onFarm [keep_rules]: "keeps (\<lambda>s. fc_pendingTxs (mi_work s)) (onFarm g)"
  by (auto simp: keeps_def onFarm_def split: sum.split)

lemma mining_target_keeps [keep_rules]:
  "keeps mi_target (onFarm g)" "keeps mi_challenge (onFarm g)" "keeps mi_cli (onFarm g)"
  by (auto simp: keeps_def onFarm_def split: sum.split)

lemma keeps_onWork: "keeps fc_pendingTxs m \<Longrightarrow> keeps (\<lambda>s. fc_pendingTxs (mi_work s)) (onWork m)"
  by (auto simp: keeps_def onWork_def split: prod.split) (metis snd_conv)

lemma setWorkS_keeps [keep_rules]: "keeps (\<lambda>s. fc_pendingTxs (mi_work s)) setWorkS"
  unfolding setWorkS_def by (intro keep_rules) (simp add: mining_pending_onFarm split: prod.split)

lemma getwork_lost_keeps: "keeps (\<lambda>s. fc_pendingTxs (mi_work s)) getwork_lost"
  unfolding getwork_lost_def by (intro keep_rules keeps_modS) simp_all

text \<open>A step that finds a solution in the farm's mailbox.\<close>

lemma getwork_try_solution:
  assumes "fm_solutionMiner (mi_farm s) \<noteq> -1" "\<not> fm_shutDown (mi_farm s)" "mi_inner s \<or> \<not> m_shutdown (mi_cli s)"
  shows "getwork_try H E c0 k s =
    thenS (getwork_submit H E c0 k (fm_solution (mi_farm s)) (fm_solutionMiner (mi_farm s))) (unitS Continue)
      (s\<lparr>mi_farm := (mi_farm s)\<lparr>fm_solutionMiner := -1\<rparr>, mi_inner := False\<rparr>)"
proof -
  have "\<not> (\<not> mi_inner s \<and> m_shutdown (mi_cli s))" using assms(3) by blast
  moreover have "fm_solutionFound (mi_farm s) =
      (Some (fm_solution (mi_farm s), fm_solutionMiner (mi_farm s)), (mi_farm s)\<lparr>fm_solutionMiner := -1\<rparr>)"
    using assms(1) by (simp add: fm_solutionFound_def)
  ultimately show ?thesis
    using assms(2) by (cases "mi_inner s") (simp_all add: getwork_try_def bindS_def [of "\<lambda>s. case fm_solutionFound (mi_farm s) of (r, f) \<Rightarrow> (Inr r, s\<lparr>mi_farm := f, mi_inner := True\<rparr>)"])
qed

lemma getwork_step_work:
  "getwork_step H E c0 k s = (r, s') \<Longrightarrow>
   fc_pendingTxs (mi_work s') = fc_pendingTxs (mi_work (snd (getwork_try H E c0 k s)))"
  using keepsD [OF getwork_lost_keeps]
  by (auto simp: getwork_step_def split: prod.splits sum.splits exn.splits if_splits)

lemma getwork_submit_run:
  assumes "solution_hash H (mi_challenge s) (mi_farm s) n = Inr h" and "fh_less h (mi_target s)"
    and "m_opMode (mi_cli s) \<noteq> Pool"
    and "submitWorkSolo E c0 (tk_lastSolution k) n h (mi_challenge s) (mi_work s) = (Inr (), w)"
    and "fm_recordSolution Accepted False m (mi_farm s) = Inr f'"
  shows "getwork_submit H E c0 k n m s = (Inr (), s\<lparr>mi_work := w, mi_farm := f'\<rparr>)"
  using assms by (simp add: getwork_submit_def) (simp add: thenS_def bindS_def onWork_def onFarm_def)

lemma getwork_submit_solo:
  assumes "getwork_submit H E c0 k nonce m s = (r, s')" "m_opMode (mi_cli s) = Solo"
    and "fc_pendingTxs (mi_work s') \<noteq> fc_pendingTxs (mi_work s)"
  shows "\<exists>h w. solution_hash H (mi_challenge s) (mi_farm s) nonce = Inr h \<and> fh_less h (mi_target s) \<and>
    submitWorkSolo E c0 (tk_lastSolution k) nonce h (mi_challenge s) (mi_work s) = (Inr (), w) \<and>
    fc_pendingTxs (mi_work s') = fc_pendingTxs w"
proof (cases "solution_hash H (mi_challenge s) (mi_farm s) nonce")
  case (Inl e)
  then have "s' = s" using assms(1) by (simp add: getwork_submit_def)
  with assms(3) show ?thesis by simp
next
  case (Inr h)
  show ?thesis
  proof (cases "fh_less h (mi_target s)")
    case False
    then have "onFarm (fm_recordSolution Accepted True m) s = (r, s')" using assms(1) Inr by (simp add: getwork_submit_def)
    from keepsD [OF mining_pending_onFarm this] assms(3) show ?thesis by simp
  next
    case True
    obtain a w where sub: "submitWorkSolo E c0 (tk_lastSolution k) nonce h (mi_challenge s) (mi_work s) = (a, w)"
      by (cases "submitWorkSolo E c0 (tk_lastSolution k) nonce h (mi_challenge s) (mi_work s)")
    then have run: "thenS (onWork (submitWorkSolo E c0 (tk_lastSolution k) nonce h (mi_challenge s)))
        (onFarm (fm_recordSolution Accepted False m)) s = (r, s')"
      using assms(1,2) Inr True by (simp add: getwork_submit_def)
    have work: "onWork (submitWorkSolo E c0 (tk_lastSolution k) nonce h (mi_challenge s)) s = (a, s\<lparr>mi_work := w\<rparr>)"
      by (simp add: onWork_def sub)
    have pend: "fc_pendingTxs (mi_work s') = fc_pendingTxs w"
    proof (cases a)
      case (Inl e)
      then show ?thesis using run work by (auto simp: thenS_def bindS_def)
    next
      case (Inr u)
      then have "onFarm (fm_recordSolution Accepted False m) (s\<lparr>mi_work := w\<rparr>) = (r, s')"
        using run work by (simp add: thenS_def bindS_def)
      from keepsD [OF mining_pending_onFarm this] show ?thesis by simp
    qed
    moreover from pend assms(3) submitWorkSolo_pending [OF sub] have "a = Inr ()" by auto
    ultimately show ?thesis using Inr True sub by auto
  qed
qed

section \<open>Lemmas: an outage\<close>

text \<open>What a session works on; the operations that only talk to the node or read the farm keep it.\<close>

definition session_view :: "('w, 't) mining \<Rightarrow> bytes \<times> h256 \<times> bytes list \<times> cli \<times> bytes \<times> int" where
  "session_view s = (mi_challenge s, mi_target s, mi_recent s, mi_cli s, fm_challenge (mi_farm s), fm_solutionMiner (mi_farm s))"

lemma session_view_work [simp]:
  "session_view (s\<lparr>mi_work := w\<rparr>) = session_view s" "session_view (s\<lparr>mi_node := w\<rparr>) = session_view s"
  "session_view (s\<lparr>mi_connected := b\<rparr>) = session_view s" "session_view (s\<lparr>mi_retries := n\<rparr>) = session_view s"
  "session_view (s\<lparr>mi_inner := b\<rparr>) = session_view s" "session_view (s\<lparr>mi_balance := i\<rparr>) = session_view s"
  "session_view (s\<lparr>mi_difficulty := d\<rparr>) = session_view s" "session_view (s\<lparr>mi_nextFee := i\<rparr>) = session_view s"
  by (simp_all add: session_view_def)

lemma session_view_onWork [keep_rules]: "keeps session_view (onWork m)"
  by (auto simp: keeps_def onWork_def split: prod.split)

lemma session_view_onNode [keep_rules]: "keeps session_view (onNode m)"
  using session_view_onWork [of m] by (auto simp: keeps_def onNode_def split: prod.split)

lemma updateRates_keeps: "fm_updateRates f = Inr f' \<Longrightarrow> fm_challenge f' = fm_challenge f \<and> fm_solutionMiner f' = fm_solutionMiner f"
  by (auto simp: fm_updateRates_def bindE_Inr_iff split: if_splits)

lemma session_view_rates [keep_rules]: "keeps session_view (onFarm fm_updateRates)"
  by (auto simp: keeps_def onFarm_def session_view_def updateRates_keeps split: sum.split)

lemma session_view_balance [keep_rules]: "keeps session_view (refreshBalance E)"
  unfolding refreshBalance_def by (intro keep_rules keeps_modS) simp

lemma session_view_status [keep_rules]: "keeps session_view (showStatus E)"
  unfolding showStatus_def by (intro keep_rules)

lemma session_view_fee [keep_rules]: "keeps session_view (feeStep t)"
  unfolding feeStep_def by (intro keeps_modS) (simp split: option.split prod.split)

lemma keeps_doWhen [keep_rules]: "keeps f m \<Longrightarrow> keeps f (doWhen P m)"
  unfolding doWhen_def by (intro keep_rules)

text \<open>A step while the node cannot be reached, and no solution is waiting.\<close>

definition quiet :: "tick \<Rightarrow> bool" where
  "quiet k \<longleftrightarrow> tk_poll k \<and> \<not> tk_display k \<and> \<not> tk_balance k"

definition node_down :: "('w, 't) client_env \<Rightarrow> bool" where
  "node_down E \<longleftrightarrow> (\<forall>w. \<exists>m w'. getWorkSolo E w = (Inl (JsonRpcException m), w'))"

lemma getwork_step_down:
  assumes "node_down E" "quiet k" "m_opMode (mi_cli s) = Solo" "\<not> m_shutdown (mi_cli s)"
    and "fm_solutionMiner (mi_farm s) = -1" "\<not> fm_shutDown (mi_farm s)"
  shows "\<exists>w. getwork_step H E c0 k s = getwork_lost (s\<lparr>mi_inner := True, mi_work := w\<rparr>)"
proof -
  from assms(1) obtain m w where down: "getWorkSolo E (mi_work s) = (Inl (JsonRpcException m), w)"
    unfolding node_down_def by blast
  have "pollWork E (s\<lparr>mi_inner := True\<rparr>) = (Inl (JsonRpcException m), s\<lparr>mi_inner := True, mi_work := w\<rparr>)"
    using assms(3) by (simp add: pollWork_def pollSolo_def onWork_def bindS_def getS_def down)
  then have "getwork_body E k (s\<lparr>mi_inner := True\<rparr>) = (Inl (JsonRpcException m), s\<lparr>mi_inner := True, mi_work := w\<rparr>)"
    using assms(2) by (simp add: getwork_body_def doWhen_def quiet_def thenS_def bindS_def getS_def unitS_def)
  moreover have "fm_solutionFound (mi_farm s) = (None, mi_farm s)" using assms(5) by (simp add: fm_solutionFound_def)
  ultimately have "getwork_try H E c0 k s = (Inl (JsonRpcException m), s\<lparr>mi_inner := True, mi_work := w\<rparr>)"
    using assms(4,6) by (simp add: getwork_try_def bindS_def getS_def thenS_def)
  then show ?thesis by (intro exI [of _ w]) (simp add: getwork_step_def)
qed

text \<open>The session during an outage: it works on \<open>c\<close>, or has given it up.\<close>

definition solo_idle :: "('w, 't) mining \<Rightarrow> bool" where
  "solo_idle s \<longleftrightarrow> m_opMode (mi_cli s) = Solo \<and> \<not> m_shutdown (mi_cli s) \<and> \<not> failOverAvailable (mi_cli s) \<and>
     fm_solutionMiner (mi_farm s) = -1 \<and> \<not> fm_shutDown (mi_farm s)"

definition paused :: "bytes \<Rightarrow> h256 \<Rightarrow> ('w, 't) mining \<Rightarrow> bool" where
  "paused c t s \<longleftrightarrow> mi_challenge s = [] \<and> fm_challenge (mi_farm s) = [] \<and> c \<in> set (mi_recent s) \<and> mi_target s = t \<and>
     m_opMode (mi_cli s) = Solo \<and> fm_solutionMiner (mi_farm s) = -1"

lemma getwork_lost_early:
  assumes "mi_retries s + 1 \<noteq> maxRetries (mi_cli s)"
  shows "getwork_lost s = (Inr Continue, s\<lparr>mi_connected := False, mi_retries := mi_retries s + 1, mi_inner := False\<rparr>)"
  using assms by (simp add: getwork_lost_def unitS_def)

lemma outage_early:
  assumes "node_down E" "\<forall>k \<in> set ks. quiet k" "solo_idle s" "unat (mi_retries s) + length ks < 4"
  shows "\<exists>w cn ri inn. getwork_run H E c0 ks s =
    (Inr Continue, s\<lparr>mi_work := w, mi_connected := cn, mi_retries := mi_retries s + of_nat (length ks), mi_inner := inn\<rparr>)"
  using assms(2-4)
proof (induction ks arbitrary: s)
  case Nil
  show ?case by (rule exI [of _ "mi_work s"], rule exI [of _ "mi_connected s"], rule exI, rule exI [of _ "mi_inner s"]) (simp add: unitS_def)
next
  case (Cons k ks)
  from Cons.prems obtain w where w: "getwork_step H E c0 k s = getwork_lost (s\<lparr>mi_inner := True, mi_work := w\<rparr>)"
    using getwork_step_down [OF assms(1), of k s H c0] by (auto simp: solo_idle_def)
  have less: "unat (mi_retries s) + 1 < 4" using Cons.prems(3) by simp
  then have u: "unat (mi_retries s + 1) = unat (mi_retries s) + 1" by (simp add: unat_word_ariths)
  have "mi_retries s + 1 \<noteq> 4"
  proof
    assume "mi_retries s + 1 = 4"
    with u have "unat (4 :: u32) = unat (mi_retries s) + 1" by simp
    with less show False by simp
  qed
  then have max: "mi_retries s + 1 \<noteq> maxRetries (mi_cli s)" using Cons.prems(2) by (simp add: maxRetries_def solo_idle_def)
  let ?s' = "s\<lparr>mi_work := w, mi_connected := False, mi_retries := mi_retries s + 1, mi_inner := False\<rparr>"
  have step: "getwork_step H E c0 k s = (Inr Continue, ?s')"
    unfolding w using max by (subst getwork_lost_early) simp_all
  have "solo_idle ?s'" using Cons.prems(2) by (simp add: solo_idle_def)
  moreover have "unat (mi_retries ?s') + length ks < 4" using Cons.prems(3) u by simp
  ultimately obtain w2 cn ri inn where "getwork_run H E c0 ks ?s' =
    (Inr Continue, ?s'\<lparr>mi_work := w2, mi_connected := cn, mi_retries := mi_retries ?s' + of_nat (length ks), mi_inner := inn\<rparr>)"
    using Cons.IH [of ?s'] Cons.prems(1) by auto
  moreover have "getwork_run H E c0 (k # ks) s = getwork_run H E c0 ks ?s'" by (simp add: bindS_def step)
  ultimately have "getwork_run H E c0 (k # ks) s = (Inr Continue,
      s\<lparr>mi_work := w2, mi_connected := cn, mi_retries := mi_retries s + of_nat (length (k # ks)), mi_inner := inn\<rparr>)"
    by (simp add: algebra_simps)
  then show ?case by blast
qed

lemma getwork_run_append:
  assumes "getwork_run H E c0 ks s = (Inr Continue, s')"
  shows "getwork_run H E c0 (ks @ js) s = getwork_run H E c0 js s'"
  using assms
  by (induction ks arbitrary: s) (auto simp: unitS_def bindS_def split: prod.splits sum.splits if_splits)

lemma getwork_lost_pauses:
  assumes "solo_idle s" "mi_retries s = 3" "mi_challenge s \<in> set (mi_recent s)" "getwork_lost s = (Inr fl, s')"
  shows "paused (mi_challenge s) (mi_target s) s' \<and> fl = Continue"
  using assms
  by (auto simp: getwork_lost_def maxRetries_def solo_idle_def setWorkS_def onFarm_def paused_def unitS_def op_Inr_iffs
      fm_setWork_def miners_setWork_def bindE_Inr_iff split: sum.splits if_splits)

text \<open>Once paused, a session stays so while the node offers what it had offered before.\<close>

definition preserves :: "('s \<Rightarrow> bool) \<Rightarrow> ('s, 'a) op \<Rightarrow> bool" where
  "preserves P m \<longleftrightarrow> (\<forall>s. P s \<longrightarrow> P (snd (m s)))"

lemma preservesD: "preserves P m \<Longrightarrow> m s = (r, s') \<Longrightarrow> P s \<Longrightarrow> P s'"
  by (metis preserves_def snd_conv)

lemma preserves_thenS: "preserves P m \<Longrightarrow> preserves P k \<Longrightarrow> preserves P (thenS m k)"
  by (auto simp: preserves_def thenS_def bindS_def split: prod.split sum.split)

lemma preserves_doWhen: "(\<And>s. P s \<Longrightarrow> Q s \<Longrightarrow> P (snd (m s))) \<Longrightarrow> preserves P (doWhen Q m)"
  by (simp add: preserves_def doWhen_def unitS_def)

lemma paused_view: "keeps session_view m \<Longrightarrow> preserves (paused c t) m"
  by (auto simp: keeps_def preserves_def session_view_def paused_def)

definition node_offers :: "('w, 't) client_env \<Rightarrow> bytes \<Rightarrow> h256 \<Rightarrow> bool" where
  "node_offers E c t \<longleftrightarrow> length c = 32 \<and> fh_to_arith t \<noteq> 0 \<and> (\<forall>w. \<exists>w'. getWorkSolo E w = (Inr (c, t), w'))"

lemma pollWork_paused:
  assumes "node_offers E c t" shows "preserves (paused c t) (pollWork E)"
  unfolding preserves_def
proof (intro allI impI)
  fix s :: "('a, 'b) mining"
  assume p: "paused c t s"
  from assms obtain w where w: "getWorkSolo E (mi_work s) = (Inr (c, t), w)" unfolding node_offers_def by blast
  have "length c = 32" "fh_to_arith t \<noteq> 0" using assms by (simp_all add: node_offers_def)
  then show "paused c t (snd (pollWork E s))"
    using p by (simp add: pollWork_def pollSolo_def onWork_def bindS_def getS_def w liftS_def diffFromTarget_def modS_def
        thenS_def unitS_def newWork_def paused_def)
qed

lemma getwork_lost_paused: "preserves (paused c t) getwork_lost"
  by (auto simp: preserves_def getwork_lost_def setWorkS_def onFarm_def paused_def unitS_def thenS_def bindS_def getS_def modS_def
      fm_setWork_def miners_setWork_def bindE_Inr_iff split: sum.splits prod.splits)

lemma getwork_body_paused:
  assumes "node_offers E c t" shows "preserves (paused c t) (getwork_body E k)"
  unfolding getwork_body_def
  by (intro preserves_thenS preserves_doWhen paused_view keep_rules)
    (simp_all add: pollWork_paused [OF assms, unfolded preserves_def])

lemma getwork_try_paused:
  assumes "node_offers E c t" shows "preserves (paused c t) (getwork_try H E c0 k)"
  unfolding preserves_def
proof (intro allI impI)
  fix s :: "('a, 'b) mining"
  assume p: "paused c t s"
  then have found: "fm_solutionFound (mi_farm s) = (None, mi_farm s)" by (simp add: paused_def fm_solutionFound_def)
  have "paused c t (s\<lparr>mi_inner := True\<rparr>)" using p by (simp add: paused_def)
  with getwork_body_paused [OF assms, of k] have "paused c t (snd (getwork_body E k (s\<lparr>mi_inner := True\<rparr>)))"
    by (simp add: preserves_def)
  then show "paused c t (snd (getwork_try H E c0 k s))"
    using p found
    by (auto simp: getwork_try_def bindS_def getS_def thenS_def unitS_def paused_def split: prod.split sum.split)
qed

lemma getwork_run_paused:
  assumes "node_offers E c t" shows "preserves (paused c t) (getwork_run H E c0 ks)"
proof (induction ks)
  case Nil
  show ?case by (simp add: preserves_def unitS_def)
next
  case (Cons k ks)
  have step: "preserves (paused c t) (getwork_step H E c0 k)"
    unfolding preserves_def
  proof (intro allI impI)
    fix s :: "('a, 'b) mining"
    assume "paused c t s"
    with getwork_try_paused [OF assms, of H c0 k] have "paused c t (snd (getwork_try H E c0 k s))" by (simp add: preserves_def)
    moreover from this have "paused c t (snd (getwork_lost (snd (getwork_try H E c0 k s))))"
      using getwork_lost_paused [of c t, unfolded preserves_def] by blast
    moreover from calculation(1) have "paused c t ((snd (getwork_try H E c0 k s))\<lparr>mi_inner := False\<rparr>)" by (simp add: paused_def)
    ultimately show "paused c t (snd (getwork_step H E c0 k s))"
      by (auto simp: getwork_step_def split: prod.split sum.split exn.split)
  qed
  show ?case
    using Cons.IH step by (auto simp: preserves_def bindS_def unitS_def split: prod.split sum.split)
qed

lemma outage_paused:
  assumes "node_down E" and "\<forall>k \<in> set ks. quiet k" and "length ks = 4"
    and "solo_idle s" and "mi_retries s = 0" and "mi_challenge s \<in> set (mi_recent s)"
    and "getwork_run H E c0 ks s = (Inr fl, s1)"
  shows "paused (mi_challenge s) (mi_target s) s1"
proof -
  from assms(3) obtain ks3 k4 where ks: "ks = ks3 @ [k4]" "length ks3 = 3"
    by (cases ks rule: rev_cases) simp_all
  obtain w cn inn where run3: "getwork_run H E c0 ks3 s =
      (Inr Continue, s\<lparr>mi_work := w, mi_connected := cn, mi_retries := 3, mi_inner := inn\<rparr>)" (is "_ = (_, ?s3)")
    using outage_early [OF assms(1), of ks3 s H c0] assms(2,4,5) ks by auto
  have "solo_idle ?s3" using assms(4) by (simp add: solo_idle_def)
  then obtain w4 where "getwork_step H E c0 k4 ?s3 = getwork_lost (?s3\<lparr>mi_inner := True, mi_work := w4\<rparr>)"
    using getwork_step_down [OF assms(1), of k4 ?s3 H c0] assms(2) ks(1) by (auto simp: solo_idle_def)
  moreover have "getwork_run H E c0 [k4] ?s3 = (Inr fl, s1)"
    using getwork_run_append [OF run3, of "[k4]"] assms(7) ks(1) by simp
  ultimately obtain fl4 where "getwork_lost (?s3\<lparr>mi_inner := True, mi_work := w4\<rparr>) = (Inr fl4, s1)"
    by (auto simp: op_Inr_iffs unitS_def split: if_splits)
  then show ?thesis
    using getwork_lost_pauses [of "?s3\<lparr>mi_inner := True, mi_work := w4\<rparr>"] assms(4,6) by (simp add: solo_idle_def)
qed

lemma paused_step_returns:
  assumes "paused c t s" "node_offers E c t" "quiet k" "\<not> tk_checkTx k" "mi_nextFee s = 0"
    and "\<not> m_shutdown (mi_cli s)" "\<not> fm_shutDown (mi_farm s)"
  shows "\<exists>s'. getwork_step H E c0 k s = (Inr Continue, s')"
proof -
  let ?s = "s\<lparr>mi_inner := True\<rparr>"
  from assms(2) obtain w where w: "getWorkSolo E (mi_work s) = (Inr (c, t), w)" unfolding node_offers_def by blast
  have "length c = 32" "fh_to_arith t \<noteq> 0" using assms(2) by (simp_all add: node_offers_def)
  then obtain s1 where "pollWork E ?s = (Inr (), s1)" "mi_nextFee s1 = 0"
    using assms(1,5) by (simp add: pollWork_def pollSolo_def onWork_def bindS_def getS_def w liftS_def diffFromTarget_def modS_def
        thenS_def unitS_def newWork_def paused_def)
  then have "getwork_body E k ?s = (Inr (), s1)"
    using assms(3,4) by (simp add: getwork_body_def doWhen_def quiet_def thenS_def bindS_def getS_def unitS_def feeStep_def
        devFeeSwitch_def modS_def)
  moreover have "fm_solutionFound (mi_farm s) = (None, mi_farm s)" using assms(1) by (simp add: fm_solutionFound_def paused_def)
  ultimately have "getwork_try H E c0 k s = (Inr Continue, s1)"
    using assms(6,7) by (simp add: getwork_try_def bindS_def getS_def thenS_def unitS_def)
  then show ?thesis by (simp add: getwork_step_def)
qed

section \<open>Lemmas: the schedule of the fee\<close>

text \<open>The timer's readings one after another; each switch restarts the timer.\<close>

definition fee_run :: "fp list \<Rightarrow> ('w, 't) mining \<Rightarrow> ('w, 't) mining" where
  "fee_run es s = fold (\<lambda>e s. snd (feeStep e s)) es s"

text \<open>
  The periods of the schedule when the developer has \<open>d\<close> seconds of each block: how long the period is and
  whether it is the developer's. A period of length zero never ends. The readings are seconds since the
  last switch, so the number of periods that have ended is the number of readings beyond the length of the
  period they fall into.
\<close>

definition fee_period :: "int \<Rightarrow> nat \<Rightarrow> int \<times> bool" where
  "fee_period d k = (if k = 0 then (7200, False) else if odd k then (d, True) else (14400 - d, False))"

definition periods_over :: "int \<Rightarrow> fp list \<Rightarrow> nat" where
  "periods_over d es =
     fold (\<lambda>e k. if fst (fee_period d k) \<noteq> 0 \<and> fless (Fin (of_int (fst (fee_period d k)))) e then k + 1 else k) es 0"

definition fee_view :: "('w, 't) mining \<Rightarrow> int \<times> bool \<times> int \<times> int" where
  "fee_view s = (mi_nextFee s, fc_devFeeMining (mi_work s), mi_userFee s, mi_devFee s)"

text \<open>What the switch has to see: period \<open>k\<close>, with the developer's time counted negative.\<close>

definition in_period :: "int \<Rightarrow> nat \<Rightarrow> ('w, 't) mining \<Rightarrow> bool" where
  "in_period d k s \<longleftrightarrow> (case fee_period d k of (len, dev) \<Rightarrow> fee_view s = (if dev then - len else len, dev, 14400 - d, d))"

lemma fee_period_range: "0 < d \<Longrightarrow> d \<le> 14400 \<Longrightarrow> 0 \<le> fst (fee_period d k) \<and> fst (fee_period d k) \<le> 14400"
  by (simp add: fee_period_def)

lemma feeStep_period:
  assumes "in_period d k s" "0 < d" "d \<le> 14400"
  shows "in_period d (if fst (fee_period d k) \<noteq> 0 \<and> fless (Fin (of_int (fst (fee_period d k)))) e then k + 1 else k) (snd (feeStep e s))"
proof -
  have "\<bar>mi_nextFee s\<bar> = fst (fee_period d k)"
    using assms fee_period_range [OF assms(2,3), of k] by (auto simp: in_period_def fee_view_def split: prod.splits)
  moreover from this have "dbl_of_int \<bar>mi_nextFee s\<bar> = Fin (of_int (fst (fee_period d k)))"
    using fee_period_range [OF assms(2,3), of k] by (simp add: dbl_of_int_exact)
  ultimately show ?thesis
    using assms by (auto simp: in_period_def fee_period_def fee_view_def feeStep_def devFeeSwitch_def modS_def split: if_splits)
qed

lemma fee_run_snoc: "fee_run (es @ [e]) s = snd (feeStep e (fee_run es s))"
  by (simp add: fee_run_def)

lemma periods_over_snoc:
  "periods_over d (es @ [e]) = (let k = periods_over d es in
     if fst (fee_period d k) \<noteq> 0 \<and> fless (Fin (of_int (fst (fee_period d k)))) e then k + 1 else k)"
  by (simp add: periods_over_def Let_def)

lemma fee_run_period:
  assumes "in_period d 0 s" "0 < d" "d \<le> 14400"
  shows "in_period d (periods_over d es) (fee_run es s)"
proof (induction es rule: rev_induct)
  case Nil
  show ?case using assms(1) by (simp add: periods_over_def fee_run_def)
next
  case (snoc e es)
  from feeStep_period [OF this assms(2,3)] show ?case by (simp only: fee_run_snoc periods_over_snoc Let_def)
qed

lemma periods_full: "periods_over 14400 es \<le> 2"
proof (induction es rule: rev_induct)
  case (snoc e es)
  then show ?case by (auto simp: periods_over_snoc Let_def fee_period_def le_Suc_eq numeral_2_eq_2)
qed (simp add: periods_over_def)

lemma calcDevFeeTimes_Inr:
  assumes "calcDevFeeTimes L opt mode = Inr (n, u, d)"
  shows "u = 14400 - d" "n = (if d = 0 then 0 else 7200)"
  using assms by (auto simp: calcDevFeeTimes_def bindE_Inr_iff int32_def FEEBLOCKTIME_def split: if_splits)

section \<open>Claims\<close>

text \<open>C12: A solo session mints only what it may: when a step of \<open>doGetWork\<close> adds a pending transaction
  after a miner has put its solution in the farm's mailbox, it adds one, which calls \<open>mint\<close> with
  that nonce and the digest of the current challenge, the account and the nonce, and as a number
  this digest is below the current target.\<close>

theorem solo_session_mints_valid:
  assumes "getwork_step H E c0 k s = (r, s')" and "\<forall>bs. length (H bs) = 32"
    and "m_opMode (mi_cli s) = Solo" and "mi_inner s \<or> \<not> m_shutdown (mi_cli s)"
    and "fm_solutionMiner (mi_farm s) \<noteq> -1" and "\<not> fm_shutDown (mi_farm s)"
    and "length (fm_solution (mi_farm s)) = 32" and "length (mi_target s) = 32"
    and "fc_pendingTxs (mi_work s') \<noteq> fc_pendingTxs (mi_work s)"
  shows "\<exists>t h sender. fc_pendingTxs (mi_work s') = fc_pendingTxs (mi_work s) @ [t] \<and>
    tx_data t = take 4 (sha3_string ''mint(uint256,bytes32)'') @ fm_solution (mi_farm s) @ h \<and>
    tx_challenge t = mi_challenge s \<and>
    fh_of_string 20 (fm_hashingAcct (mi_farm s)) FromHex FailIfDifferent = Inr sender \<and>
    h = H (take 32 (mi_challenge s) @ sender @ fm_solution (mi_farm s)) \<and> be_val h < be_val (mi_target s)"
proof -
  let ?s1 = "s\<lparr>mi_farm := (mi_farm s)\<lparr>fm_solutionMiner := -1\<rparr>, mi_inner := False\<rparr>"
  let ?n = "fm_solution (mi_farm s)"
  obtain a s2 where sub: "getwork_submit H E c0 k ?n (fm_solutionMiner (mi_farm s)) ?s1 = (a, s2)"
    by (cases "getwork_submit H E c0 k ?n (fm_solutionMiner (mi_farm s)) ?s1")
  have "snd (getwork_try H E c0 k s) = s2"
    using getwork_try_solution [OF assms(5,6,4), of H E c0 k] sub
    by (cases a) (simp_all add: thenS_def bindS_def unitS_def)
  then have pend: "fc_pendingTxs (mi_work s') = fc_pendingTxs (mi_work s2)" using getwork_step_work [OF assms(1)] by simp
  with assms(3,9) getwork_submit_solo [OF sub] obtain h w where
    h: "solution_hash H (mi_challenge s) (mi_farm ?s1) ?n = Inr h" "fh_less h (mi_target s)"
    and w: "submitWorkSolo E c0 (tk_lastSolution k) ?n h (mi_challenge s) (mi_work s) = (Inr (), w)"
      "fc_pendingTxs (mi_work s2) = fc_pendingTxs w"
    by auto
  obtain sender where sender: "fh_of_string 20 (fm_hashingAcct (mi_farm s)) FromHex FailIfDifferent = Inr sender"
    and hash: "h = H (take 32 (mi_challenge s) @ sender @ ?n)"
    using h(1) by (auto simp: solution_hash_def keccak256_0xBitcoin_def mix84_def bindE_Inr_iff split: if_splits)
  have len: "length h = 32" by (simp add: hash assms(2))
  have "fc_pendingTxs w \<noteq> fc_pendingTxs (mi_work s)" using assms(9) pend w(2) by simp
  then obtain s1 where "catchS (checkChallengeFolder E (mi_challenge s)) (\<lambda>e. unitS False) (mi_work s) = (Inr False, s1)"
    using submitWorkSolo_pending [OF w(1)] by auto
  from submitWorkSolo_mints [OF w(1) this assms(7) len] obtain t where
    "fc_pendingTxs w = fc_pendingTxs (mi_work s) @ [t]" "tx_challenge t = mi_challenge s"
    "tx_data t = take 4 (sha3_string ''mint(uint256,bytes32)'') @ ?n @ h"
    by auto
  moreover have "be_val h < be_val (mi_target s)" using h(2) len assms(8) by (simp add: fh_less_iff)
  ultimately show ?thesis using pend w(2) sender hash by auto
qed

text \<open>Difficulty and target are inverse: the target computed for any non-zero 64-bit difficulty has
  that difficulty; a difficulty of zero throws.\<close>

theorem difficulty_roundtrip:
  assumes "\<forall>n < 2 ^ 64. u64_of_u256 J (of_nat n) = of_nat n"
  shows "if d = 0 then targetFromDiff d = Inl (StdException ''overflow_error'')
    else \<exists>t. targetFromDiff d = Inr t \<and> length t = 32 \<and> diffFromTarget J t = Inr d"
proof (cases "d = 0")
  case False
  then have d: "0 < unat d" "unat d < 2 ^ 64"
    using unsigned_less [of d, where 'a = nat] by (simp_all add: unat_gt_0)
  have sq: "unat d * unat d \<le> pow_2_234"
  proof -
    have "unat d * unat d \<le> 2 ^ 64 * 2 ^ 64" using d(2) by (intro mult_le_mono) simp_all
    also have "\<dots> \<le> pow_2_234" by (simp add: pow_2_234_def)
    finally show ?thesis .
  qed
  have "pow_2_234 div unat d \<le> pow_2_234" by simp
  also have "pow_2_234 < 2 ^ 256" by (simp add: pow_2_234_def)
  finally have v: "be_val (fh_of_arith 32 (pow_2_234 div unat d)) = pow_2_234 div unat d" by (rule be_val_arith32)
  have "unat d \<le> pow_2_234" using sq d(1) by (metis le_trans mult_le_mono1 mult_1 Suc_leI One_nat_def)
  then have "pow_2_234 div unat d \<noteq> 0" using d(1) by (simp add: div_eq_0_iff)
  then have "diffFromTarget J (fh_of_arith 32 (pow_2_234 div unat d)) = Inr (u64_of_u256 J (of_nat (unat d)))"
    by (simp add: diffFromTarget_def v div_div_exact [OF d(1) sq])
  moreover have "u64_of_u256 J (of_nat (unat d)) = of_nat (unat d)" using assms d(2) by blast
  moreover have "of_nat (unat d) = d" by simp
  ultimately show ?thesis using False by (simp add: targetFromDiff_def)
qed (simp add: targetFromDiff_def)



text \<open>C39: A solo session that has lost its node, and has none to fail over to, does not resume by itself: when four steps in a row cannot
  reach the node, the farm is paused; when the node then answers again, with the challenge and the
  target as before the outage, the session does not take that work up again, however long it runs,
  because the challenge is among the recent ones and so is taken for an old one.\<close>

theorem solo_outage_pauses:
  assumes "node_down E" and "\<forall>k \<in> set ks. quiet k" and "length ks = 4"
    and "solo_idle s" and "mi_retries s = 0" and "mi_challenge s \<in> set (mi_recent s)"
    and "getwork_run H E c0 ks s = (Inr fl, s1)"
    and "node_offers E' (mi_challenge s) (mi_target s)"
    and "getwork_run H E' c0 js s1 = (Inr fl', s2)"
  shows "mi_challenge s2 = [] \<and> fm_challenge (mi_farm s2) = []"
  using preservesD [OF getwork_run_paused [OF assms(8)] assms(9) outage_paused [OF assms(1-7)]] by (simp add: paused_def)

text \<open>C38: The schedule of the developer's fee: user and developer share the block of four hours; mining starts
  with half a block for the user, and then periods of the developer and of the user alternate. Whatever the
  timer reads, from one switch to the next, a period ends exactly at the first reading beyond its length,
  and not before. This is for a fee that gives the developer some of the block and at most all of it. With
  100 percent the user's period of length zero switches the schedule off, and everything after the first
  developer's period is mined for the user.\<close>

theorem dev_fee_schedule:
  assumes "calcDevFeeTimes L opt mode = Inr (n, u, d)" and "0 < d" and "d \<le> 14400"
    and "mi_nextFee s = n" and "mi_userFee s = u" and "mi_devFee s = d" and "\<not> fc_devFeeMining (mi_work s)"
  shows "u + d = 14400 \<and>
    (case fee_period d (periods_over d es) of (len, dev) \<Rightarrow>
       mi_nextFee (fee_run es s) = (if dev then - len else len) \<and> fc_devFeeMining (mi_work (fee_run es s)) = dev) \<and>
    (d = 14400 \<longrightarrow> periods_over d es \<le> 2)"
proof -
  have u: "u = 14400 - d" "n = 7200" using calcDevFeeTimes_Inr [OF assms(1)] assms(2) by auto
  have "in_period d 0 s" using assms(4-7) u by (simp add: in_period_def fee_period_def fee_view_def)
  then have "in_period d (periods_over d es) (fee_run es s)"
    by (rule fee_run_period) (rule assms(2,3))+
  then show ?thesis using u(1) periods_full [of es] by (auto simp: in_period_def fee_view_def split: prod.splits)
qed


section \<open>Examples\<close>

text \<open>A session in solo mode with the two miners of \<open>example_working\<close>, and no failover.\<close>

definition demo_challenge :: bytes where
  "demo_challenge = demo_half"

lemma demo_challenge: "length demo_challenge = 32" "be_val demo_challenge = 1" "demo_challenge \<noteq> []"
  using demo_half by (auto simp: demo_challenge_def)

definition demo_mining :: "farm \<Rightarrow> h256 \<Rightarrow> (unit, unit) mining" where
  "demo_mining f t =
     \<lparr>mi_cli = (MinerCLI 0)\<lparr>m_opMode := Solo, m_nodes := [\<lparr>nd_url = ''a:1'', nd_isStratum = False\<rparr>, \<lparr>nd_url = [], nd_isStratum = False\<rparr>]\<rparr>,
      mi_farm = f\<lparr>fm_challenge := demo_challenge, fm_target := t, fm_hashingAcct := toHex (replicate 20 2) 2 Add\<rparr>,
      mi_work = demo_client demo_contract [], mi_node = demo_client [] [], mi_challenge = demo_challenge, mi_target = t,
      mi_difficulty = 4, mi_recent = [demo_challenge], mi_connected = True, mi_retries = 0, mi_nextFee = 0, mi_userFee = 0,
      mi_devFee = 0, mi_lastRate = Fin 0, mi_balance = 0, mi_inner = False\<rparr>"

definition demo_tick :: tick where
  "demo_tick = \<lparr>tk_display = False, tk_balance = False, tk_poll = True, tk_checkTx = False, tk_fee = Fin 0, tk_lastSolution = Fin 0\<rparr>"

theorem solo_session_mints_valid_witness:
  "\<exists>t s'. getwork_step (\<lambda>bs. replicate 32 (of_nat (length bs))) (demo_env accepting) 0 demo_tick
       (demo_mining (example_solved\<lparr>fm_solution := replicate 32 3\<rparr>) (replicate 32 255)) = (Inr Continue, s') \<and>
     fc_pendingTxs (mi_work s') = [t] \<and>
     tx_data t = take 4 (sha3_string ''mint(uint256,bytes32)'') @ replicate 32 3 @ replicate 32 84"
proof -
  let ?H = "\<lambda>bs :: bytes. replicate 32 (of_nat (length bs)) :: bytes"
  let ?s = "demo_mining (example_solved\<lparr>fm_solution := replicate 32 3\<rparr>) (replicate 32 255)"
  let ?s1 = "?s\<lparr>mi_farm := (mi_farm ?s)\<lparr>fm_solutionMiner := -1\<rparr>, mi_inner := False\<rparr>"
  obtain t w where sub: "submitWorkSolo (demo_env accepting) 0 (Fin 0) (replicate 32 3) (replicate 32 84) demo_challenge (demo_client demo_contract []) = (Inr (), w)"
    and w: "fc_pendingTxs w = [t]"
    using submitWorkSolo_returns [OF demo_folder, of accepting demo_contract "[]" "Fin 0" 6 "replicate 32 3" "replicate 32 84" 0] demo_ready [of "[]"]
    by (force simp: int32_def)
  have sol: "fm_solutionMiner (mi_farm ?s) = 1" "fm_solution (mi_farm ?s) = replicate 32 3" "\<not> fm_shutDown (mi_farm ?s)"
    by (simp_all add: demo_mining_def example_solved_def example_working_def example_farm_def)
  have hash: "solution_hash ?H (mi_challenge ?s1) (mi_farm ?s1) (replicate 32 3) = Inr (replicate 32 84)"
    by (simp add: solution_hash_def demo_mining_def fh_of_string_toHex keccak256_0xBitcoin_def mix84_def demo_challenge)
  have less: "fh_less (replicate 32 84) (replicate 32 255)"
    by code_simp
  obtain f' where f': "fm_recordSolution Accepted False 1 (mi_farm ?s1) = Inr f'"
    by (simp add: fm_recordSolution_def fm_resetBestHash_def demo_mining_def example_solved_def example_working_def
        example_farm_def mn_resetBestHash_def example_miner_def)
  have "getwork_submit ?H (demo_env accepting) 0 demo_tick (replicate 32 3) 1 ?s1 = (Inr (), ?s1\<lparr>mi_work := w, mi_farm := f'\<rparr>)"
    by (rule getwork_submit_run [OF hash _ _ _ f']) (use less sub in \<open>simp_all add: demo_mining_def demo_tick_def\<close>)
  moreover have "mi_inner ?s \<or> \<not> m_shutdown (mi_cli ?s)" by (simp add: demo_mining_def MinerCLI_def)
  moreover have "fm_solutionMiner (mi_farm ?s) \<noteq> -1" using sol(1) by simp
  ultimately have "getwork_try ?H (demo_env accepting) 0 demo_tick ?s = (Inr Continue, ?s1\<lparr>mi_work := w, mi_farm := f'\<rparr>)"
    using getwork_try_solution [of ?s ?H "demo_env accepting" 0 demo_tick] sol
    by (simp only: thenS_def bindS_def unitS_def) simp
  then have step: "getwork_step ?H (demo_env accepting) 0 demo_tick ?s = (Inr Continue, ?s1\<lparr>mi_work := w, mi_farm := f'\<rparr>)"
    by (simp only: getwork_step_def prod.case sum.case)
  from solo_session_mints_valid [OF step] sol w show ?thesis
    by (simp add: step) (auto simp: demo_mining_def demo_challenge fh_of_string_toHex MinerCLI_def)
qed

theorem difficulty_roundtrip_witness:
  "\<exists>t. targetFromDiff 1000 = Inr t \<and> length t = 32 \<and> diffFromTarget std_json t = Inr 1000"
proof -
  have "u64_of_u256 std_json (of_nat n) = of_nat n" if "n < 2 ^ 64" for n
  proof -
    have "unat (of_nat n :: 256 word) = n" using that by (simp add: unat_of_nat)
    then show ?thesis by (simp add: std_json_def unsigned_ucast_eq [symmetric]) (metis of_nat_unat)
  qed
  then show ?thesis using difficulty_roundtrip [of std_json 1000] by simp
qed

definition quarter_ptree :: "unit ptree_lib" where
  "quarter_ptree = unit_ptree\<lparr>pt_get := (\<lambda>_ _. Some ''25'')\<rparr>"

lemma quarter_fee: "calcDevFeeTimes quarter_ptree (fc_opt (demo_client [] [])) Pool = Inr (7200, 10800, 3600)"
proof -
  have exact: "strtod_exact ''25'' = Some (Fin 25, [])" by code_simp
  have num: "isNumeric ''25''" by (simp add: isNumeric_def strtod_def exact char_at_def)
  have val: "stod ''25'' = Inr (Fin 25)" by (simp add: stod_def exact)
  have "flt 25 = Fin 25"
    unfolding flt_def by (rule round_fp_exact [where m = 25 and k = 0]) (simp_all add: power_int_def)
  then have flt: "to_flt (Fin 25) = Fin 25" by (simp add: to_flt_def)
  have "dbl (25 / 100) = Fin (1 / 4)" using dbl_quarter [of 1] by simp
  then show ?thesis
    using num val flt
    by (simp add: calcDevFeeTimes_def po_GetD_def tree_get_def quarter_ptree_def unit_ptree_def demo_client_def
        fp_to_int32_def fp_to_int_def trunc_rat_def int32_def FEEBLOCKTIME_def Let_def)
qed

theorem dev_fee_schedule_witness:
  "mi_nextFee (fee_run [Fin 7000, Fin 7201, Fin 3600, Fin 3601, Inf False]
     ((demo_mining example_working [1])\<lparr>mi_nextFee := 7200, mi_userFee := 10800, mi_devFee := 3600\<rparr>)) = -3600"
proof -
  have "periods_over 3600 [Fin 7000, Fin 7201, Fin 3600, Fin 3601, Inf False] = 3"
    by (simp add: periods_over_def fee_period_def)
  then show ?thesis
    using dev_fee_schedule [OF quarter_fee, of "(demo_mining example_working [1])\<lparr>mi_nextFee := 7200, mi_userFee := 10800, mi_devFee := 3600\<rparr>"
      "[Fin 7000, Fin 7201, Fin 3600, Fin 3601, Inf False]"]
    by (simp add: fee_period_def) (simp add: demo_mining_def demo_client_def)
qed

text \<open>Two nodes: one that is down, and one that answers every call with \<open>demo_challenge\<close>.\<close>

abbreviation node_gone :: "string \<Rightarrow> json \<Rightarrow> json result" where
  "node_gone n p \<equiv> Inl (JsonRpcException n)"

abbreviation node_back :: "string \<Rightarrow> json \<Rightarrow> json result" where
  "node_back n p \<equiv> Inr (JString (toHex demo_challenge 2 Add))"

lemma demo_down: "node_down (demo_env node_gone)"
  by (auto simp: node_down_def getWorkSolo_def ethCall_def CallMethod_def demo_env_def bindS_def getS_def)

lemma demo_offers: "node_offers (demo_env node_back) demo_challenge demo_challenge"
proof -
  have "length demo_challenge = 32" by (rule demo_challenge)
  moreover have "fromHexD (toHex demo_challenge 2 Add) = demo_challenge" by (simp add: fromHexD_def fromHex_toHex)
  moreover have "fh_to_arith demo_challenge \<noteq> 0" by (simp add: demo_challenge)
  ultimately show ?thesis
    by (auto simp: node_offers_def getWorkSolo_def ethCall_def CallMethod_def demo_env_def bindS_def getS_def liftS_def unitS_def
        std_json_def fh_of_string_toHex)
qed

lemma demo_setWork_pauses:
  "\<exists>f'. fm_setWork [] demo_challenge (mi_farm (demo_mining example_working demo_challenge)) = Inr f' \<and> \<not> fm_shutDown f'"
proof -
  show ?thesis
    by (simp add: demo_challenge fm_setWork_def miners_setWork_def demo_mining_def example_working_def example_farm_def
        example_miner_def fm_calcThreshold_def fm_minerRate_def EMA_def to_flt_def mn_calcWorkUnitThreshold_def
        example_threshold mn_setWork_def mn_pause_def mn_kickOff_def storeNonceIndex_def numeral_2_eq_2)
qed

lemma demo_pause:
  "\<exists>s1. getwork_run H (demo_env node_gone) 0 (replicate 4 demo_tick) (demo_mining example_working demo_challenge) = (Inr Continue, s1) \<and>
     \<not> m_shutdown (mi_cli s1) \<and> \<not> fm_shutDown (mi_farm s1) \<and> mi_nextFee s1 = 0"
proof -
  let ?s = "demo_mining example_working demo_challenge"
  let ?k = demo_tick
  have quiet: "quiet ?k" by (simp add: quiet_def demo_tick_def)
  have idle: "solo_idle ?s"
    by (simp add: solo_idle_def demo_mining_def MinerCLI_def failOverAvailable_def example_working_def example_farm_def)
  obtain w cn inn where run3: "getwork_run H (demo_env node_gone) 0 (replicate 3 ?k) ?s =
      (Inr Continue, ?s\<lparr>mi_work := w, mi_connected := cn, mi_retries := 3, mi_inner := inn\<rparr>)" (is "_ = (_, ?s3)")
    using outage_early [OF demo_down, of "replicate 3 ?k" ?s H 0] quiet idle by (auto simp: demo_mining_def)
  have "solo_idle ?s3" using idle by (simp add: solo_idle_def)
  then obtain w4 where step: "getwork_step H (demo_env node_gone) 0 ?k ?s3 = getwork_lost (?s3\<lparr>mi_inner := True, mi_work := w4\<rparr>)"
    using getwork_step_down [OF demo_down quiet, of ?s3 H 0] by (auto simp: solo_idle_def)
  obtain f' where f': "fm_setWork [] demo_challenge (mi_farm ?s) = Inr f'" "\<not> fm_shutDown f'"
    using demo_setWork_pauses by blast
  have "getwork_lost (?s3\<lparr>mi_inner := True, mi_work := w4\<rparr>) =
      (Inr Continue, ?s3\<lparr>mi_work := w4, mi_connected := False, mi_retries := 4, mi_inner := False, mi_challenge := [], mi_farm := f'\<rparr>)"
    using idle f'
    by (simp add: getwork_lost_def maxRetries_def solo_idle_def setWorkS_def onFarm_def unitS_def thenS_def bindS_def getS_def modS_def)
      (simp add: demo_mining_def)
  then have "getwork_run H (demo_env node_gone) 0 (replicate 3 ?k @ [?k]) ?s =
      (Inr Continue, ?s3\<lparr>mi_work := w4, mi_connected := False, mi_retries := 4, mi_inner := False, mi_challenge := [], mi_farm := f'\<rparr>)"
    unfolding getwork_run_append [OF run3] by (simp add: bindS_def step unitS_def)
  moreover have "replicate 3 ?k @ [?k] = replicate 4 ?k" by (simp add: numeral_eq_Suc)
  ultimately show ?thesis using f'(2) by (auto simp: demo_mining_def MinerCLI_def)
qed


theorem solo_outage_pauses_witness:
  "\<exists>s1 s2. getwork_run sha3 (demo_env node_gone) 0 (replicate 4 demo_tick) (demo_mining example_working demo_challenge) = (Inr Continue, s1) \<and>
     getwork_run sha3 (demo_env node_back) 0 [demo_tick] s1 = (Inr Continue, s2) \<and> mi_challenge s2 = []"
proof -
  let ?s = "demo_mining example_working demo_challenge"
  have quiet: "\<forall>k \<in> set (replicate 4 demo_tick). quiet k" by (simp add: quiet_def demo_tick_def)
  have idle: "solo_idle ?s"
    by (simp add: solo_idle_def demo_mining_def MinerCLI_def failOverAvailable_def example_working_def example_farm_def)
  obtain s1 where run: "getwork_run sha3 (demo_env node_gone) 0 (replicate 4 demo_tick) ?s = (Inr Continue, s1)"
    and s1: "\<not> m_shutdown (mi_cli s1)" "\<not> fm_shutDown (mi_farm s1)" "mi_nextFee s1 = 0"
    using demo_pause [of sha3] by blast
  have start: "mi_challenge ?s = demo_challenge" "mi_target ?s = demo_challenge" "mi_recent ?s = [demo_challenge]" "mi_retries ?s = 0"
    by (simp_all add: demo_mining_def)
  then have "paused demo_challenge demo_challenge s1"
    using outage_paused [OF demo_down quiet _ idle _ _ run] by simp
  then obtain s2 where "getwork_step sha3 (demo_env node_back) 0 demo_tick s1 = (Inr Continue, s2)"
    using paused_step_returns [OF _ demo_offers _ _ s1(3,1,2), of demo_tick sha3 0] by (auto simp: quiet_def demo_tick_def)
  then have again: "getwork_run sha3 (demo_env node_back) 0 [demo_tick] s1 = (Inr Continue, s2)"
    by (simp add: bindS_def unitS_def)
  from start solo_outage_pauses [OF demo_down quiet _ idle _ _ run _ again] demo_offers run again show ?thesis
    by simp
qed

end
