(* ===== verification/Ethash.thy ===== *)
theory Ethash
  imports Keccak CStdlib
begin

text \<open>
  \<open>libethash/internal.c\<close> (with \<open>internal.h\<close>, \<open>fnv.h\<close>, \<open>endian.h\<close>): the Ethash proof of work, which the
  program links and its seal engine uses. A node is the union's view as 16 words; the platforms are
  little-endian, so that the conversions of \<open>endian.h\<close> do nothing. What is read past the end of the
  cache or the DAG, and a division by zero, is \<open>UndefinedBehaviour\<close>.
\<close>

unbundle bit_operations_syntax

section \<open>Nodes\<close>

type_synonym dag_node = "u32 list"

definition node_bytes :: "u32 list \<Rightarrow> bytes" where
  "node_bytes ws = concat (map (\<lambda>w. rev (toBigEndian (unat w) 4)) ws)"

definition word_at :: "bytes \<Rightarrow> nat \<Rightarrow> u32" where
  "word_at b i = word_of_nat (be_val (rev (take 4 (drop (4 * i) b))))"

definition words_of :: "bytes \<Rightarrow> u32 list" where
  "words_of b = map (word_at b) [0..<length b div 4]"

definition SHA3_256 :: "bytes \<Rightarrow> bytes" where
  "SHA3_256 data = (case sha3_bits 256 32 data of Some h \<Rightarrow> h | None \<Rightarrow> [])"

definition SHA3_512 :: "bytes \<Rightarrow> bytes" where
  "SHA3_512 data = (case sha3_bits 512 64 data of Some h \<Rightarrow> h | None \<Rightarrow> [])"

definition sha_node :: "dag_node \<Rightarrow> dag_node" where
  "sha_node n = words_of (SHA3_512 (node_bytes n))"

definition FNV_PRIME :: u32 where "FNV_PRIME = 0x01000193"

definition fnv_hash :: "u32 \<Rightarrow> u32 \<Rightarrow> u32" where
  "fnv_hash x y = (x * FNV_PRIME) XOR y"

definition nth_node :: "dag_node list \<Rightarrow> u32 \<Rightarrow> dag_node result" where
  "nth_node ns i = (if unat i < length ns then Inr (ns ! unat i) else Inl UndefinedBehaviour)"

section \<open>The cache\<close>

text \<open>
  \<open>ethash_compute_cache_nodes\<close> on the memory that \<open>malloc\<close> returned; \<open>None\<close> is the return value
  \<open>false\<close>. The loops count in 32 bits.
\<close>

definition cache_fill :: "u32 \<Rightarrow> bytes \<Rightarrow> dag_node list \<Rightarrow> dag_node list" where
  "cache_fill nn seed nodes =
     fold (\<lambda>i nodes. nodes[i := sha_node (nodes ! (i - 1))]) [1..<1 + unat (nn - 1)]
       (nodes[0 := words_of (SHA3_512 seed)])"

definition cache_mix :: "u32 \<Rightarrow> nat \<Rightarrow> dag_node list \<Rightarrow> dag_node list" where
  "cache_mix nn i nodes =
     (let idx = hd (nodes ! i) mod nn;
          data = nodes ! unat ((nn - 1 + of_nat i) mod nn);
          data = map2 (XOR) data (nodes ! unat idx)
      in nodes[i := sha_node data])"

definition ethash_compute_cache_nodes :: "dag_node list \<Rightarrow> u64 \<Rightarrow> bytes \<Rightarrow> dag_node list option result" where
  "ethash_compute_cache_nodes nodes cache_size seed =
     (if cache_size mod 64 \<noteq> 0 then Inr None
      else if cache_size = 0 then Inl UndefinedBehaviour
      else
        let num_nodes = ucast (cache_size div 64) :: u32 in
        Inr (Some (fold (\<lambda>j. fold (cache_mix num_nodes) [0..<unat num_nodes]) [0..<3] (cache_fill num_nodes seed nodes))))"

record light =
  l_cache :: "dag_node list"
  l_cache_size :: u64
  l_block_number :: u64

section \<open>The DAG\<close>

definition ethash_calculate_dag_item :: "u32 \<Rightarrow> light \<Rightarrow> dag_node result" where
  "ethash_calculate_dag_item node_index l =
     (let num_parent_nodes = ucast (l_cache_size l div 64) :: u32 in
      if num_parent_nodes = 0 then Inl UndefinedBehaviour
      else
        bindE (nth_node (l_cache l) (node_index mod num_parent_nodes)) (\<lambda>init.
        bindE (foldE (\<lambda>i ret.
                 bindE (nth_node (l_cache l)
                          (fnv_hash (node_index XOR of_nat i) (ret ! (i mod 16)) mod num_parent_nodes)) (\<lambda>parent.
                 Inr (map2 fnv_hash ret parent)))
               [0..<256] (sha_node (init[0 := init ! 0 XOR node_index]))) (\<lambda>ret.
        Inr (sha_node ret))))"

text \<open>
  \<open>ethash_compute_full_data\<close> fills the memory \<open>mem\<close>; the callback is told the progress in percent and
  may stop it, which leaves the memory filled so far. With a callback, \<open>max_n / 100\<close> must not be 0.
\<close>

definition fceil :: "fp \<Rightarrow> fp" where
  "fceil x = (case x of Fin q \<Rightarrow> Fin (of_int \<lceil>q\<rceil>) | _ \<Rightarrow> x)"

fun full_loop ::
    "light \<Rightarrow> (int \<Rightarrow> bool) option \<Rightarrow> u32 \<Rightarrow> fp \<Rightarrow> nat list \<Rightarrow> fp \<Rightarrow> dag_node list \<Rightarrow> (bool \<times> dag_node list) result" where
  "full_loop l callback max_n change [] progress mem = Inr (True, mem)"
| "full_loop l callback max_n change (n # ns) progress mem =
     bindE
       (case callback of
          None \<Rightarrow> Inr False
        | Some stop \<Rightarrow>
            if max_n div 100 = 0 then Inl UndefinedBehaviour
            else if of_nat n mod (max_n div 100) = 0
            then bindE (fp_to_int 0 (2 ^ 32 - 1) (fceil (fmul dbl progress (Fin 100)))) (\<lambda>p. Inr (stop p))
            else Inr False)
       (\<lambda>stopped.
        if stopped then Inr (False, mem)
        else
          bindE (ethash_calculate_dag_item (of_nat n) l) (\<lambda>item.
          if n < length mem then full_loop l callback max_n change ns (fadd dbl progress change) (mem[n := item])
          else Inl UndefinedBehaviour))"

definition ethash_compute_full_data ::
    "dag_node list \<Rightarrow> u64 \<Rightarrow> light \<Rightarrow> (int \<Rightarrow> bool) option \<Rightarrow> (bool \<times> dag_node list) result" where
  "ethash_compute_full_data mem full_size l callback =
     (if full_size mod 128 \<noteq> 0 \<or> full_size mod 64 \<noteq> 0 then Inr (False, mem)
      else
        let max_n = ucast (full_size div 64) :: u32;
            change = fdiv flt (Fin 1) (flt_of_int (uint max_n))
        in full_loop l callback max_n change [0..<unat max_n] (Fin 0) mem)"

section \<open>The hash\<close>

text \<open>The node from the full DAG when there is one, and computed from the cache otherwise.\<close>

definition dag_lookup :: "dag_node list option \<Rightarrow> light \<Rightarrow> u32 \<Rightarrow> dag_node result" where
  "dag_lookup full_nodes l i =
     (case full_nodes of Some ns \<Rightarrow> nth_node ns i | None \<Rightarrow> ethash_calculate_dag_item i l)"

definition mix_node :: "nat \<Rightarrow> dag_node \<Rightarrow> u32 list \<Rightarrow> u32 list" where
  "mix_node n d mix =
     take (16 * n) mix @ map2 fnv_hash (take 16 (drop (16 * n) mix)) d @ drop (16 * n + 16) mix"

definition dag_access :: "(u32 \<Rightarrow> dag_node result) \<Rightarrow> u32 \<Rightarrow> u32 \<Rightarrow> nat \<Rightarrow> u32 list \<Rightarrow> u32 list result" where
  "dag_access lookup seed_word num_full_pages i mix =
     (if num_full_pages = 0 then Inl UndefinedBehaviour
      else
        let index = fnv_hash (seed_word XOR of_nat i) (mix ! (i mod 32)) mod num_full_pages in
        foldE (\<lambda>n mix. bindE (lookup (2 * index + of_nat n)) (\<lambda>d. Inr (mix_node n d mix))) [0, 1] mix)"

text \<open>The compression writes into the array it reads from.\<close>

definition compress_mix :: "u32 list \<Rightarrow> u32 list" where
  "compress_mix mix =
     fold (\<lambda>w mix.
         let reduction = mix ! (w + 0);
             reduction = (reduction * FNV_PRIME) XOR mix ! (w + 1);
             reduction = (reduction * FNV_PRIME) XOR mix ! (w + 2);
             reduction = (reduction * FNV_PRIME) XOR mix ! (w + 3)
         in mix[w div 4 := reduction])
       [0, 4, 8, 12, 16, 20, 24, 28] mix"

record ethash_return =
  r_result :: bytes
  r_mix_hash :: bytes
  r_success :: bool

text \<open>The 40 bytes of header hash and nonce.\<close>

definition seed_bytes :: "bytes \<Rightarrow> u64 \<Rightarrow> bytes" where
  "seed_bytes header_hash nonce = header_hash @ rev (toBigEndian (unat nonce) 8)"

definition ethash_hash ::
    "ethash_return \<Rightarrow> dag_node list option \<Rightarrow> light \<Rightarrow> u64 \<Rightarrow> bytes \<Rightarrow> u64 \<Rightarrow> (bool \<times> ethash_return) result" where
  "ethash_hash ret full_nodes l full_size header_hash nonce =
     (if full_size mod 32 \<noteq> 0 then Inr (False, ret)
      else
        let s_mix = words_of (SHA3_512 (seed_bytes header_hash nonce));
            mix = map (\<lambda>w. s_mix ! (w mod 16)) [0..<32];
            num_full_pages = ucast (full_size div 128) :: u32
        in bindE (foldE (dag_access (dag_lookup full_nodes l) (s_mix ! 0) num_full_pages) [0..<64] mix) (\<lambda>mix.
           let cmix = node_bytes (take 8 (compress_mix mix)) in
           Inr (True, ret\<lparr>r_mix_hash := cmix, r_result := SHA3_256 (node_bytes s_mix @ cmix)\<rparr>)))"

definition ethash_light_compute_internal :: "ethash_return \<Rightarrow> light \<Rightarrow> u64 \<Rightarrow> bytes \<Rightarrow> u64 \<Rightarrow> ethash_return result" where
  "ethash_light_compute_internal ret0 l full_size header_hash nonce =
     bindE (ethash_hash (ret0\<lparr>r_success := True\<rparr>) None l full_size header_hash nonce) (\<lambda>(ok, ret).
     Inr (if \<not> ok then ret\<lparr>r_success := False\<rparr> else ret))"

record full =
  f_data :: "dag_node list"
  f_file_size :: u64

definition ethash_full_compute :: "ethash_return \<Rightarrow> full \<Rightarrow> bytes \<Rightarrow> u64 \<Rightarrow> light \<Rightarrow> ethash_return result" where
  "ethash_full_compute ret0 f header_hash nonce null_light =
     bindE (ethash_hash (ret0\<lparr>r_success := True\<rparr>) (Some (f_data f)) null_light (f_file_size f) header_hash nonce) (\<lambda>(ok, ret).
     Inr (if \<not> ok then ret\<lparr>r_success := False\<rparr> else ret))"

section \<open>Checking a nonce\<close>

definition ethash_quick_hash :: "bytes \<Rightarrow> u64 \<Rightarrow> bytes \<Rightarrow> bytes" where
  "ethash_quick_hash header_hash nonce mix_hash =
     SHA3_256 (SHA3_512 (seed_bytes header_hash nonce) @ mix_hash)"

fun ethash_check_difficulty :: "bytes \<Rightarrow> bytes \<Rightarrow> bool" where
  "ethash_check_difficulty (h # hs) (b # bs) = (if h = b then ethash_check_difficulty hs bs else h < b)"
| "ethash_check_difficulty _ _ = True"

definition ethash_quick_check_difficulty :: "bytes \<Rightarrow> u64 \<Rightarrow> bytes \<Rightarrow> bytes \<Rightarrow> bool" where
  "ethash_quick_check_difficulty header_hash nonce mix_hash boundary =
     ethash_check_difficulty (ethash_quick_hash header_hash nonce mix_hash) boundary"

section \<open>Seed hashes\<close>

text \<open>
  \<open>ethash_get_seedhash\<close>: the counter has 32 bits and the number of epochs 64, so that the loop need
  not end.
\<close>

partial_function (option) seed_loop :: "u32 \<Rightarrow> u64 \<Rightarrow> bytes \<Rightarrow> bytes option" where
  "seed_loop i epochs ret = (if ucast i < epochs then seed_loop (i + 1) epochs (SHA3_256 ret) else Some ret)"

definition ethash_get_seedhash :: "u64 \<Rightarrow> bytes option" where
  "ethash_get_seedhash block_number = seed_loop 0 (block_number div 30000) (replicate 32 0)"

section \<open>Lemmas: words, bytes and digests\<close>

lemma be_bytes4: "length b = 4 \<Longrightarrow> toBigEndian (be_val b) 4 = b"
  by (metis be_val_inj be_val_lt be_val_toBigEndian length_toBigEndian mod_less)

lemma word_bytes: "length b = 4 \<Longrightarrow> rev (toBigEndian (unat (word_of_nat (be_val (rev b)) :: u32)) 4) = b"
proof -
  assume b: "length b = 4"
  then have "be_val (rev b) < 2 ^ 32" using be_val_lt [of "rev b"] by simp
  then have "unat (word_of_nat (be_val (rev b)) :: u32) = be_val (rev b)" by (simp add: unat_of_nat)
  then show ?thesis using be_bytes4 [of "rev b"] b by simp
qed

interpretation dag_word: fixed_codec "\<lambda>w :: u32. rev (toBigEndian (unat w) 4)" "\<lambda>b. word_of_nat (be_val (rev b))" 4 "\<lambda>w. True"
proof
  fix w :: u32
  have "unat w < 2 ^ 32" using unsigned_less [of w, where 'a = nat] by simp
  then show "word_of_nat (be_val (rev (rev (toBigEndian (unat w) 4)))) = w"
    by (simp add: be_val_toBigEndian)
qed simp

lemma node_bytes_Cons: "node_bytes (w # ws) = rev (toBigEndian (unat w) 4) @ node_bytes ws"
  by (simp add: node_bytes_def)

lemma length_node_bytes [simp]: "length (node_bytes ws) = 4 * length ws"
  by (induction ws) (simp_all add: node_bytes_Cons, simp add: node_bytes_def)

lemma length_words_of [simp]: "length (words_of b) = length b div 4"
  by (simp add: words_of_def)

lemma words_of_append: "length a = 4 \<Longrightarrow> words_of (a @ b) = word_of_nat (be_val (rev a)) # words_of b"
proof -
  assume a: "length a = 4"
  then have "length (a @ b) div 4 = Suc (length b div 4)" by simp
  moreover have "word_at (a @ b) (Suc i) = word_at b i" for i using a by (simp add: word_at_def)
  moreover have "word_at (a @ b) 0 = word_of_nat (be_val (rev a))" using a by (simp add: word_at_def)
  ultimately show ?thesis by (simp only: words_of_def map_upt_Suc list.map)
qed

lemma words_of_node_bytes [simp]: "words_of (node_bytes ws) = ws"
  by (induction ws) (simp_all add: node_bytes_Cons words_of_append dag_word.dec_enc_fixed [simplified], simp add: node_bytes_def words_of_def)

lemma node_bytes_words_of: "length b = 4 * n \<Longrightarrow> node_bytes (words_of b) = b"
proof (induction n arbitrary: b)
  case 0
  then show ?case by (simp add: words_of_def node_bytes_def)
next
  case (Suc n)
  define a where "a = take 4 b"
  have "b = a @ drop 4 b" "length a = 4" "length (drop 4 b) = 4 * n" using Suc.prems by (simp_all add: a_def)
  then show ?case using Suc.IH [of "drop 4 b"] by (metis word_bytes words_of_append node_bytes_Cons)
qed

lemma SHA3_256_sha3: "SHA3_256 b = sha3 b"
  by (simp add: SHA3_256_def sha3_def sha3_into_def sha3_bits_def keccak_hash_spec)

lemma length_SHA3_256 [simp]: "length (SHA3_256 b) = 32"
  by (simp add: SHA3_256_sha3)

lemma length_SHA3_512 [simp]: "length (SHA3_512 b) = 64"
  by (simp add: SHA3_512_def sha3_bits_def keccak_hash_spec length_squeeze length_fold_absorb)

lemma length_sha_node [simp]: "length (sha_node n) = 16"
  by (simp add: sha_node_def)

section \<open>Lemmas: the full DAG and the light computation\<close>

lemma full_loop_items:
  assumes "full_loop l cb mx ch [k..<m] p mem = Inr (True, nodes)" and "k \<le> m"
    and "\<And>j. j < k \<Longrightarrow> ethash_calculate_dag_item (of_nat j) l = Inr (mem ! j)"
  shows "length nodes = length mem \<and> (\<forall>j < m. ethash_calculate_dag_item (of_nat j) l = Inr (nodes ! j)) \<and> (k < m \<longrightarrow> m \<le> length mem)"
  using assms
proof (induction "m - k" arbitrary: k p mem)
  case 0
  then show ?case by simp
next
  case (Suc d)
  then have km: "k < m" by simp
  then have upt: "[k..<m] = k # [Suc k..<m]" by (rule upt_conv_Cons)
  from Suc.prems(1) obtain item where item: "ethash_calculate_dag_item (of_nat k) l = Inr item"
    and len: "k < length mem"
    and rest: "full_loop l cb mx ch [Suc k..<m] (fadd dbl p ch) (mem[k := item]) = Inr (True, nodes)"
    unfolding upt full_loop.simps by (auto simp: bindE_Inr_iff split: if_splits)
  have "ethash_calculate_dag_item (of_nat j) l = Inr (mem[k := item] ! j)" if "j < Suc k" for j
    using that item len Suc.prems(3) by (cases "j = k") simp_all
  moreover have "d = m - Suc k" using Suc.hyps(2) by simp
  ultimately have "length nodes = length (mem[k := item]) \<and>
      (\<forall>j < m. ethash_calculate_dag_item (of_nat j) l = Inr (nodes ! j)) \<and> (Suc k < m \<longrightarrow> m \<le> length (mem[k := item]))"
    using Suc.hyps(1) [OF _ rest] km by simp
  then show ?case using len km by (cases "Suc k < m") auto
qed

text \<open>A complete DAG: its nodes are the items.\<close>

definition dag_complete :: "light \<Rightarrow> u64 \<Rightarrow> dag_node list \<Rightarrow> bool" where
  "dag_complete l full_size nodes \<longleftrightarrow> length nodes = unat (full_size div 64) \<and>
     (\<forall>j < length nodes. ethash_calculate_dag_item (of_nat j) l = Inr (nodes ! j))"

lemma full_data_complete:
  assumes "ethash_compute_full_data mem full_size l cb = Inr (True, nodes)"
    and "length mem = unat (full_size div 64)" and "full_size < 2 ^ 38"
  shows "dag_complete l full_size nodes \<and> full_size mod 128 = 0"
proof -
  have n: "unat (ucast (full_size div 64) :: u32) = unat (full_size div 64)"
  proof -
    have "unat full_size < 2 ^ 38" using assms(3) by (simp add: word_less_nat_alt)
    then have "unat (full_size div 64) < 2 ^ 32" by (simp add: unat_div)
    then show ?thesis by (simp add: unsigned_ucast_eq take_bit_nat_eq_self)
  qed
  from assms(1) have loop: "full_loop l cb (ucast (full_size div 64)) (fdiv flt (Fin 1) (flt_of_int (uint (ucast (full_size div 64) :: u32))))
      [0..<unat (full_size div 64)] (Fin 0) mem = Inr (True, nodes)" and "full_size mod 128 = 0"
    by (auto simp: ethash_compute_full_data_def Let_def n split: if_splits)
  from full_loop_items [OF loop] assms(2) this(2) show ?thesis by (auto simp: dag_complete_def)
qed

lemma dag_lookup_same:
  assumes "dag_complete l full_size nodes" and "full_size < 2 ^ 38" and "index < ucast (full_size div 128)" and "n < 2"
  shows "dag_lookup (Some nodes) null_l (2 * index + of_nat n) = dag_lookup None l (2 * index + of_nat n)"
proof -
  have size: "unat full_size < 2 ^ 38" using assms(2) by (simp add: word_less_nat_alt)
  then have pages: "unat (ucast (full_size div 128) :: u32) = unat full_size div 128"
    by (simp add: unsigned_ucast_eq take_bit_nat_eq_self unat_div)
  have idx: "unat index < unat full_size div 128" using assms(3) by (simp add: word_less_nat_alt pages)
  then have "2 * unat index + n < unat full_size div 64" using assms(4) by linarith
  moreover have "unat (2 * index + of_nat n) = 2 * unat index + n"
  proof -
    have "unat full_size div 64 < 2 ^ 32" using size by simp
    with calculation have "2 * unat index + n < 2 ^ 32" by (rule less_trans)
    then show ?thesis using assms(4) by (simp add: unat_word_ariths unat_of_nat)
  qed
  ultimately have k: "unat (2 * index + of_nat n) < length nodes"
    using assms(1) by (simp only: dag_complete_def unat_div) simp
  define k where "k = 2 * index + (of_nat n :: u32)"
  have "ethash_calculate_dag_item (of_nat (unat k)) l = Inr (nodes ! unat k)"
    using assms(1) k unfolding dag_complete_def k_def [symmetric] by blast
  then show ?thesis
    using k unfolding k_def [symmetric] by (simp add: dag_lookup_def nth_node_def)
qed

lemma dag_access_same:
  assumes "dag_complete l full_size nodes" and "full_size < 2 ^ 38"
  shows "dag_access (dag_lookup (Some nodes) null_l) w (ucast (full_size div 128)) i mix =
    dag_access (dag_lookup None l) w (ucast (full_size div 128)) i mix"
proof (cases "(ucast (full_size div 128) :: u32) = 0")
  case False
  have "x mod (ucast (full_size div 128) :: u32) < ucast (full_size div 128)" for x
    using False by (simp add: word_mod_less_divisor word_gt_0)
  then have same: "dag_lookup (Some nodes) null_l (2 * (x mod ucast (full_size div 128)) + of_nat n) =
      dag_lookup None l (2 * (x mod ucast (full_size div 128)) + of_nat n)" if "n \<in> set [0, 1]" for x n
    using that by (intro dag_lookup_same [OF assms]) auto
  show ?thesis
    unfolding dag_access_def Let_def by (intro if_cong refl foldE_cong) (simp only: same)
qed (simp add: dag_access_def)

lemma full_compute_is_light:
  assumes "dag_complete l full_size nodes" and "full_size < 2 ^ 38"
  shows "ethash_full_compute ret \<lparr>f_data = nodes, f_file_size = full_size\<rparr> header nonce null_l =
    ethash_light_compute_internal ret l full_size header nonce"
  by (simp add: ethash_full_compute_def ethash_light_compute_internal_def ethash_hash_def Let_def
      dag_access_same [OF assms, abs_def])

section \<open>Lemmas: checking a nonce\<close>

lemma check_difficulty_iff: "length h = length b \<Longrightarrow> ethash_check_difficulty h b \<longleftrightarrow> be_val h \<le> be_val b"
proof (induction h b rule: ethash_check_difficulty.induct)
  case (1 h hs b bs)
  then have len: "length hs = length bs" by simp
  show ?case
  proof (cases "h = b")
    case True
    with 1 show ?thesis by (simp add: be_val_Cons)
  next
    case False
    have lt: "be_val hs < 256 ^ length bs" "be_val bs < 256 ^ length bs" using be_val_lt [of hs] be_val_lt [of bs] len by simp_all
    from False consider "unat h < unat b" | "unat b < unat h" by (meson linorder_neqE_nat word_unat_eq_iff)
    then show ?thesis
    proof cases
      case 1
      then have "(unat h + 1) * 256 ^ length bs \<le> unat b * 256 ^ length bs" by (intro mult_le_mono1) simp
      with 1 lt len False show ?thesis by (simp add: be_val_Cons word_less_nat_alt)
    next
      case 2
      then have "(unat b + 1) * 256 ^ length bs \<le> unat h * 256 ^ length bs" by (intro mult_le_mono1) simp
      with 2 lt len False show ?thesis by (simp add: be_val_Cons word_less_nat_alt)
    qed
  qed
qed simp_all

lemma light_quick_hash:
  assumes "ethash_light_compute_internal ret0 l full_size header nonce = Inr r" and "r_success r"
  shows "ethash_quick_hash header nonce (r_mix_hash r) = r_result r"
proof -
  have "node_bytes (words_of (SHA3_512 b)) = SHA3_512 b" for b by (rule node_bytes_words_of [where n = 16]) simp
  then show ?thesis
    using assms by (auto simp: ethash_light_compute_internal_def ethash_hash_def ethash_quick_hash_def bindE_Inr_iff Let_def
        split: if_splits)
qed

section \<open>Lemmas: the cache\<close>

text \<open>
  The cache as the papers give it, on numbers: a chain of digests from the seed, and rounds in which
  each node is replaced by the digest of its predecessor mixed with the node its first word selects.
\<close>

definition memo_chain :: "nat \<Rightarrow> bytes \<Rightarrow> dag_node list" where
  "memo_chain n seed = map (\<lambda>i. (sha_node ^^ i) (words_of (SHA3_512 seed))) [0..<n]"

definition memo_round :: "nat \<Rightarrow> dag_node list \<Rightarrow> dag_node list" where
  "memo_round n nodes =
     fold (\<lambda>i nodes. nodes[i := sha_node (map2 (XOR) (nodes ! ((i + n - 1) mod n)) (nodes ! (unat (hd (nodes ! i)) mod n)))])
       [0..<n] nodes"

lemma cache_fill_chain:
  assumes "length nodes = n" "0 < n" "unat nn = n"
  shows "cache_fill nn seed nodes = memo_chain n seed"
proof -
  have "unat (nn - 1) = n - 1" using assms(2,3) by (metis unat_minus_one unsigned_0 less_irrefl)
  then have count: "1 + unat (nn - 1) = n" using assms(2) by simp
  let ?s = "words_of (SHA3_512 seed)"
  let ?f = "\<lambda>i nodes. nodes[i := sha_node (nodes ! (i - 1))]"
  have "fold ?f [1..<1 + k] (nodes[0 := ?s]) = map (\<lambda>i. (sha_node ^^ i) ?s) [0..<1 + k] @ drop (1 + k) nodes" if "k < n" for k
    using that
  proof (induction k)
    case 0
    then show ?case using assms(1) by (cases nodes) simp_all
  next
    case (Suc k)
    then have "fold ?f [1..<1 + Suc k] (nodes[0 := ?s]) = ?f (Suc k) (map (\<lambda>i. (sha_node ^^ i) ?s) [0..<1 + k] @ drop (1 + k) nodes)"
      by simp
    also have "\<dots> = map (\<lambda>i. (sha_node ^^ i) ?s) [0..<1 + k] @ sha_node ((sha_node ^^ k) ?s) # drop (2 + k) nodes"
      using Suc.prems assms(1) by (simp add: list_update_append nth_append Cons_nth_drop_Suc [symmetric] del: funpow.simps)
    finally show ?case by simp
  qed
  from this [of "n - 1"] assms(1,2) show ?thesis
    unfolding cache_fill_def count memo_chain_def by simp
qed

lemma cache_mix_spec:
  assumes "unat nn = n" "i < n" "n \<le> 2 ^ 31"
  shows "cache_mix nn i nodes =
    nodes[i := sha_node (map2 (XOR) (nodes ! ((i + n - 1) mod n)) (nodes ! (unat (hd (nodes ! i)) mod n)))]"
proof -
  have "unat (nn - 1) = n - 1" using assms by (metis unat_minus_one unsigned_0 not_less_zero)
  moreover have "unat (of_nat i :: u32) = i" using assms by (simp add: unat_of_nat)
  ultimately have "unat (nn - 1 + of_nat i) = i + n - 1"
    using assms by (simp add: unat_word_ariths)
  then show ?thesis using assms(1) by (simp add: cache_mix_def unat_mod)
qed

lemma fold_same: "fold (\<lambda>j. f) xs a = (f ^^ length xs) a"
  by (induction xs arbitrary: a) (simp_all add: funpow_swap1)

lemma cache_nodes_spec:
  assumes "cache_size mod 64 = 0" "0 < cache_size" "cache_size \<le> 2 ^ 37" "length nodes = unat (cache_size div 64)"
  shows "ethash_compute_cache_nodes nodes cache_size seed =
    Inr (Some ((memo_round (unat (cache_size div 64)) ^^ 3) (memo_chain (unat (cache_size div 64)) seed)))"
proof -
  let ?n = "unat (cache_size div 64)"
  have c: "unat cache_size \<le> 2 ^ 37" using assms(3) by (simp add: word_le_nat_alt)
  then have n: "?n \<le> 2 ^ 31" by (simp add: unat_div)
  then have nn: "unat (ucast (cache_size div 64) :: u32) = ?n" by (simp add: unsigned_ucast_eq take_bit_nat_eq_self)
  have "unat (cache_size mod 64) = 0" using assms(1) by simp
  then have "unat cache_size mod 64 = 0" by (simp add: unat_mod)
  moreover have "0 < unat cache_size" using assms(2) by (simp add: word_less_nat_alt)
  ultimately have pos: "0 < ?n" by (auto simp: unat_div)
  have round: "fold (cache_mix (ucast (cache_size div 64))) [0..<?n] = memo_round ?n"
    unfolding memo_round_def [abs_def] by (intro ext fold_cong) (simp_all add: cache_mix_spec [OF nn _ n] fun_eq_iff)
  then show ?thesis
    using assms(1,2) cache_fill_chain [OF assms(4) pos nn]
    by (auto simp: ethash_compute_cache_nodes_def Let_def fold_same nn round)
qed

section \<open>Lemmas: seed hashes\<close>

lemma seed_loop_iterates:
  assumes "unat epochs < 2 ^ 32" "unat i \<le> unat epochs"
  shows "seed_loop i epochs ret = Some ((SHA3_256 ^^ (unat epochs - unat i)) ret)"
  using assms(2)
proof (induction "unat epochs - unat i" arbitrary: i ret)
  case 0
  then have "\<not> ucast i < epochs" by (simp add: word_less_nat_alt unat_ucast_u64)
  then show ?case using 0 by (simp add: seed_loop.simps)
next
  case (Suc d)
  then have "unat i < unat epochs" by simp
  then have less: "ucast i < epochs" and "unat (i + 1) = unat i + 1"
    using assms(1) by (simp_all add: word_less_nat_alt unat_ucast_u64 unat_word_ariths)
  then have "seed_loop (i + 1) epochs (SHA3_256 ret) = Some ((SHA3_256 ^^ (unat epochs - unat (i + 1))) (SHA3_256 ret))"
    using Suc by simp
  moreover have "unat epochs - unat i = Suc (unat epochs - unat (i + 1))" using \<open>unat (i + 1) = unat i + 1\<close> Suc.hyps(2) by simp
  ultimately show ?case using less by (simp add: seed_loop.simps [of i] funpow_swap1)
qed

lemma seed_loop_Some: "seed_loop i epochs ret = Some r \<Longrightarrow> unat epochs < 2 ^ 32"
proof (rule seed_loop.raw_induct [where P = "\<lambda>i epochs ret r. unat epochs < 2 ^ 32"])
  fix loop and i :: u32 and epochs :: u64 and ret r :: bytes
  assume IH: "\<And>i epochs ret r. loop i epochs ret = Some r \<Longrightarrow> unat epochs < 2 ^ 32"
    and step: "(if ucast i < epochs then loop (i + 1) epochs (SHA3_256 ret) else Some ret) = Some r"
  have "unat i < 2 ^ 32" using unsigned_less [of i, where 'a = nat] by simp
  then show "unat epochs < 2 ^ 32"
    using IH [of "i + 1" epochs "SHA3_256 ret" r] step
    by (cases "ucast i < epochs") (simp_all add: word_less_nat_alt unat_ucast_u64)
qed

end
