(* ===== verification/EthashDag.thy ===== *)
theory EthashDag
  imports EthashSizes
begin

text \<open>
  Allocation of the light cache, and the full DAG in its file: the rest of \<open>libethash/internal.c\<close>, and
  \<open>io.c\<close>, \<open>io.h\<close>, \<open>io_posix.c\<close>. The file system is a map from paths to contents; what the system
  calls report is an argument, so that every failure is a branch. The file is mapped shared: what is
  written to the DAG in memory is in the file.
\<close>

section \<open>The light cache\<close>

text \<open>
  The outcomes of \<open>calloc\<close> and of \<open>malloc\<close>, whose memory has arbitrary contents; \<open>None\<close> is the null
  pointer. \<open>ethash_light_new\<close> dereferences it; it does not return when the seed hash does not.
\<close>

definition ethash_light_new_internal :: "bool \<Rightarrow> dag_node list option \<Rightarrow> u64 \<Rightarrow> bytes \<Rightarrow> light option result" where
  "ethash_light_new_internal calloc_ok memory cache_size seed =
     (if \<not> calloc_ok then Inr None
      else case memory of
        None \<Rightarrow> Inr None
      | Some nodes \<Rightarrow>
          bindE (ethash_compute_cache_nodes nodes cache_size seed) (\<lambda>r.
          case r of
            None \<Rightarrow> Inr None
          | Some ns \<Rightarrow> Inr (Some \<lparr>l_cache = ns, l_cache_size = cache_size, l_block_number = 0\<rparr>)))"

definition ethash_light_new :: "bool \<Rightarrow> dag_node list option \<Rightarrow> u64 \<Rightarrow> light result option" where
  "ethash_light_new calloc_ok memory block_number =
     (case ethash_get_seedhash block_number of
        None \<Rightarrow> None
      | Some seedhash \<Rightarrow>
          Some (bindE (ethash_get_cachesize block_number) (\<lambda>cache_size.
                bindE (ethash_light_new_internal calloc_ok memory cache_size seedhash) (\<lambda>ret.
                case ret of
                  None \<Rightarrow> Inl UndefinedBehaviour
                | Some l \<Rightarrow> Inr (l\<lparr>l_block_number := block_number\<rparr>)))))"

definition ethash_light_compute :: "ethash_return \<Rightarrow> light \<Rightarrow> bytes \<Rightarrow> u64 \<Rightarrow> ethash_return result" where
  "ethash_light_compute ret0 l header_hash nonce =
     bindE (ethash_get_datasize (l_block_number l)) (\<lambda>full_size.
     ethash_light_compute_internal ret0 l full_size header_hash nonce)"

section \<open>File names\<close>

text \<open>\<open>ethash_strncat\<close>, with the return value ignored: too long a text is not appended.\<close>

definition ethash_strncat :: "string \<Rightarrow> nat \<Rightarrow> string \<Rightarrow> nat \<Rightarrow> string" where
  "ethash_strncat dest dest_size src count =
     (if length dest + count + 1 \<le> dest_size then dest @ take count src else dest)"

text \<open>\<open>dirname[dirlen]\<close> is the terminating NUL.\<close>

definition ethash_io_create_filename :: "string \<Rightarrow> string \<Rightarrow> nat \<Rightarrow> string" where
  "ethash_io_create_filename dirname filename filename_length =
     (let dirlen = length dirname;
          slash = (char_at dirname dirlen \<noteq> CHR ''/'');
          dest_size = dirlen + filename_length + 1 + (if slash then 1 else 0);
          name = ethash_strncat [] dest_size dirname dirlen;
          name = (if slash then ethash_strncat name dest_size ''/'' 1 else name)
      in ethash_strncat name dest_size filename filename_length)"

text \<open>The first eight bytes of the seed hash, read as a big-endian number, in 16 digits.\<close>

definition ethash_io_mutable_name :: "u32 \<Rightarrow> bytes \<Rightarrow> string" where
  "ethash_io_mutable_name revision seed_hash =
     take 33 (''full-R'' @ showNat (unat revision) @ ''-'' @ setw0 16 (hexOf (take 8 seed_hash)))"

definition ETHASH_REVISION :: u32 where "ETHASH_REVISION = 23"

definition dag_path :: "string \<Rightarrow> bytes \<Rightarrow> string" where
  "dag_path dirname seedhash =
     (let name = ethash_io_mutable_name ETHASH_REVISION seedhash in ethash_io_create_filename dirname name (length name))"

section \<open>Preparing the file\<close>

type_synonym files = "string \<Rightarrow> bytes option"

datatype io_rc = IO_FAIL | IO_MEMO_SIZE_MISMATCH | IO_MEMO_MISMATCH | IO_MEMO_MATCH

text \<open>\<open>io_late\<close>: whether closing the file after a failed \<open>fflush\<close> writes what was buffered.\<close>

record io_outcome =
  io_mkdir :: bool
  io_malloc :: bool
  io_open :: bool
  io_file_size :: bool
  io_read :: bool
  io_create :: bool
  io_seek :: bool
  io_putc :: bool
  io_flush :: bool
  io_late :: bool

definition dag_magic :: bytes where
  "dag_magic = rev (toBigEndian 0xFEE1DEADBADDCAFE 8)"

definition blank_dag :: "u64 \<Rightarrow> bytes" where
  "blank_dag file_size = replicate (unat (file_size + 8 - 1)) 0 @ [0x0a]"

text \<open>
  An existing file is opened, unless \<open>force_create\<close>; its size and the magic number are looked at. Otherwise
  the file is created (truncated), and extended by writing its last byte.
\<close>

definition ethash_io_prepare :: "io_outcome \<Rightarrow> string \<Rightarrow> bytes \<Rightarrow> u64 \<Rightarrow> bool \<Rightarrow> files \<Rightarrow> io_rc \<times> files" where
  "ethash_io_prepare io dirname seedhash file_size force_create fs =
     (if \<not> io_mkdir io \<or> \<not> io_malloc io then (IO_FAIL, fs)
      else
        let tmpfile = dag_path dirname seedhash in
        case (if force_create \<or> \<not> io_open io then None else fs tmpfile) of
          Some content \<Rightarrow>
            let found_size = of_nat (length content) :: u64 in
            if \<not> io_file_size io then (IO_FAIL, fs)
            else if file_size \<noteq> found_size - 8 then (IO_MEMO_SIZE_MISMATCH, fs)
            else if \<not> io_read io \<or> length content < 8 then (IO_MEMO_SIZE_MISMATCH, fs)
            else if take 8 content \<noteq> dag_magic then (IO_MEMO_SIZE_MISMATCH, fs)
            else (IO_MEMO_MATCH, fs)
        | None \<Rightarrow>
            if \<not> io_create io then (IO_FAIL, fs)
            else if \<not> io_seek io \<or> \<not> io_putc io then (IO_FAIL, fs(tmpfile \<mapsto> []))
            else if \<not> io_flush io then (IO_FAIL, fs(tmpfile \<mapsto> (if io_late io then blank_dag file_size else [])))
            else (IO_MEMO_MISMATCH, fs(tmpfile \<mapsto> blank_dag file_size)))"

section \<open>The full DAG\<close>

text \<open>The nodes in a file's content, behind the magic number, and the content with other nodes.\<close>

definition file_nodes :: "nat \<Rightarrow> bytes \<Rightarrow> dag_node list" where
  "file_nodes n content = map (\<lambda>i. words_of (take 64 (drop (8 + 64 * i) content))) [0..<n]"

definition write_nodes :: "dag_node list \<Rightarrow> bytes \<Rightarrow> bytes" where
  "write_nodes ns content = take 8 content @ concat (map node_bytes ns) @ drop (8 + 64 * length ns) content"

definition write_magic :: "bytes \<Rightarrow> bytes" where
  "write_magic content = dag_magic @ drop 8 content"

text \<open>The outcomes of a whole call: two preparations, the mapping, and the final writes.\<close>

record full_outcome =
  fo_calloc :: bool
  fo_first :: io_outcome
  fo_second :: io_outcome
  fo_mmap :: bool
  fo_seek :: bool
  fo_write :: bool
  fo_flush :: bool
  fo_late :: bool

definition ethash_full_new_internal ::
    "full_outcome \<Rightarrow> string \<Rightarrow> bytes \<Rightarrow> u64 \<Rightarrow> light \<Rightarrow> (int \<Rightarrow> bool) option \<Rightarrow> (files, full option) op" where
  "ethash_full_new_internal out dirname seed_hash full_size l callback fs =
     (let path = dag_path dirname seed_hash; n = unat (full_size div 64) in
      if \<not> fo_calloc out then (Inr None, fs)
      else
        let (rc1, fs1) = ethash_io_prepare (fo_first out) dirname seed_hash full_size False fs;
            (rc, fs2) = (if rc1 = IO_MEMO_SIZE_MISMATCH
                         then ethash_io_prepare (fo_second out) dirname seed_hash full_size True fs1 else (rc1, fs1))
        in if rc1 = IO_FAIL \<or> rc1 = IO_MEMO_SIZE_MISMATCH \<and> rc \<noteq> IO_MEMO_MISMATCH then (Inr None, fs2)
           else if \<not> fo_mmap out then (Inr None, fs2)
           else
             let content = the (fs2 path); nodes = file_nodes n content in
             if rc = IO_MEMO_MATCH then (Inr (Some \<lparr>f_data = nodes, f_file_size = full_size\<rparr>), fs2)
             else
               case ethash_compute_full_data nodes full_size l callback of
                 Inl e \<Rightarrow> (Inl e, fs2)
               | Inr (ok, nodes') \<Rightarrow>
                   let content' = write_nodes nodes' content; fs3 = fs2(path \<mapsto> content') in
                   if \<not> ok \<or> \<not> fo_seek out \<or> \<not> fo_write out then (Inr None, fs3)
                   else if \<not> fo_flush out
                   then (Inr None, fs2(path \<mapsto> (if fo_late out then write_magic content' else content')))
                   else (Inr (Some \<lparr>f_data = nodes', f_file_size = full_size\<rparr>), fs2(path \<mapsto> write_magic content')))"

text \<open>The directory's name is copied into 256 bytes.\<close>

definition ethash_full_new ::
    "full_outcome \<Rightarrow> (string option) \<Rightarrow> light \<Rightarrow> string \<Rightarrow> (int \<Rightarrow> bool) option \<Rightarrow> files \<Rightarrow> (full option result \<times> files) option" where
  "ethash_full_new out default_dirname l custom_dir_name callback fs =
     (case ethash_get_seedhash (l_block_number l) of
        None \<Rightarrow> None
      | Some seedhash \<Rightarrow> Some (
          if 256 \<le> length custom_dir_name then (Inl UndefinedBehaviour, fs)
          else case (if custom_dir_name \<noteq> [] then Some custom_dir_name else default_dirname) of
            None \<Rightarrow> (Inr None, fs)
          | Some strbuf \<Rightarrow>
              case ethash_get_datasize (l_block_number l) of
                Inl e \<Rightarrow> (Inl e, fs)
              | Inr full_size \<Rightarrow> ethash_full_new_internal out strbuf seedhash full_size l callback fs))"

text \<open>The home directory: of the environment or of the password entry; the suffix is counted with its NUL.\<close>

definition ethash_get_default_dirname :: "string option \<Rightarrow> string option \<Rightarrow> nat \<Rightarrow> string option result" where
  "ethash_get_default_dirname env_home pw_dir buffsize =
     (case (if env_home = None \<or> env_home = Some [] then (if pw_dir \<noteq> None then pw_dir else env_home) else env_home) of
        None \<Rightarrow> Inl UndefinedBehaviour
      | Some home_dir \<Rightarrow>
          let len = length home_dir in
          if \<not> (0 + len + 1 \<le> buffsize) then Inr None
          else if \<not> (len + 1 + 1 \<le> buffsize) then Inr None
          else if \<not> (len + 1 + 9 + 1 \<le> buffsize) then Inr None
          else Inr (Some (home_dir @ ''/'' @ ''.ethash/'')))"

section \<open>Lemmas: the computation never fails\<close>

text \<open>A cache of whole nodes, of the size it is said to have.\<close>

definition light_ok :: "light \<Rightarrow> bool" where
  "light_ok l \<longleftrightarrow> 0 < unat (l_cache_size l div 64) \<and> unat (l_cache_size l div 64) < 2 ^ 32 \<and>
     length (l_cache l) = unat (l_cache_size l div 64) \<and> (\<forall>n \<in> set (l_cache l). length n = 16)"

lemma light_parents:
  assumes "light_ok l"
  shows "unat (ucast (l_cache_size l div 64) :: u32) = length (l_cache l)" "(ucast (l_cache_size l div 64) :: u32) \<noteq> 0"
proof -
  show n: "unat (ucast (l_cache_size l div 64) :: u32) = length (l_cache l)"
    using assms by (simp add: light_ok_def unsigned_ucast_eq take_bit_nat_eq_self)
  have "0 < length (l_cache l)" using assms by (auto simp: light_ok_def)
  then show "(ucast (l_cache_size l div 64) :: u32) \<noteq> 0" using n by (metis less_irrefl unsigned_0)
qed

lemma nth_node_ok:
  assumes "light_ok l"
  shows "\<exists>n. nth_node (l_cache l) (i mod ucast (l_cache_size l div 64)) = Inr n \<and> length n = 16"
proof -
  let ?m = "ucast (l_cache_size l div 64) :: u32"
  have "unat (i mod ?m) < unat ?m" using light_parents(2) [OF assms] by (simp add: unat_mod unat_gt_0)
  then have "unat (i mod ?m) < length (l_cache l)" by (simp add: light_parents(1) [OF assms])
  then show ?thesis using assms by (simp add: nth_node_def light_ok_def)
qed

lemma dag_item_ok:
  assumes "light_ok l"
  shows "\<exists>item. ethash_calculate_dag_item i l = Inr item \<and> length item = 16"
proof -
  let ?m = "ucast (l_cache_size l div 64) :: u32"
  let ?f = "\<lambda>j ret. bindE (nth_node (l_cache l) (fnv_hash (i XOR of_nat j) (ret ! (j mod 16)) mod ?m)) (\<lambda>parent.
      Inr (map2 fnv_hash ret parent))"
  obtain init where init: "nth_node (l_cache l) (i mod ?m) = Inr init" using nth_node_ok [OF assms] by blast
  have "\<exists>ret. foldE ?f [0..<256] (sha_node (init[0 := init ! 0 XOR i])) = Inr ret \<and> length ret = 16"
  proof (rule foldE_total)
    fix j and ret :: dag_node
    assume "length ret = 16"
    with nth_node_ok [OF assms, of "fnv_hash (i XOR of_nat j) (ret ! (j mod 16))"]
    show "\<exists>ret'. ?f j ret = Inr ret' \<and> length ret' = 16" by auto
  qed simp
  then show ?thesis using init light_parents(2) [OF assms] by (auto simp: ethash_calculate_dag_item_def Let_def)
qed

lemma mix_node_ok: "n < 2 \<Longrightarrow> length mix = 32 \<Longrightarrow> length d = 16 \<Longrightarrow> length (mix_node n d mix) = 32"
  by (cases "n = 0") (auto simp: mix_node_def)

lemma dag_access_ok:
  assumes "light_ok l" "pages \<noteq> 0" "length mix = 32"
  shows "\<exists>mix'. dag_access (dag_lookup None l) w pages i mix = Inr mix' \<and> length mix' = 32"
proof -
  have "\<exists>mix'. foldE (\<lambda>n mix. bindE (dag_lookup None l (2 * k + of_nat n)) (\<lambda>d. Inr (mix_node n d mix))) [0, 1] mix = Inr mix' \<and>
      length mix' = 32" for k
  proof (rule foldE_total)
    fix n :: nat and mix :: "u32 list"
    assume "n \<in> set [0, 1]" "length mix = 32"
    moreover obtain d where "dag_lookup None l (2 * k + of_nat n) = Inr d" "length d = 16"
      using dag_item_ok [OF assms(1)] by (auto simp: dag_lookup_def)
    ultimately show "\<exists>mix'. bindE (dag_lookup None l (2 * k + of_nat n)) (\<lambda>d. Inr (mix_node n d mix)) = Inr mix' \<and> length mix' = 32"
      using mix_node_ok [of n mix d] by auto
  qed (fact assms(3))
  then show ?thesis using assms(2) by (simp add: dag_access_def Let_def)
qed

lemma length_compress [simp]: "length (compress_mix mix) = length mix"
  by (simp add: compress_mix_def Let_def)

lemma light_compute_ok:
  assumes "light_ok l" "full_size mod 128 = 0" "128 \<le> full_size" "full_size < 2 ^ 38"
  shows "\<exists>r. ethash_light_compute_internal ret0 l full_size header nonce = Inr r \<and> r_success r \<and>
    length (r_result r) = 32 \<and> length (r_mix_hash r) = 32"
proof -
  let ?pages = "ucast (full_size div 128) :: u32"
  have size: "unat full_size < 2 ^ 38" "128 \<le> unat full_size" using assms(3,4) by (simp_all add: word_less_nat_alt word_le_nat_alt)
  then have "unat ?pages = unat full_size div 128" by (simp add: unsigned_ucast_eq take_bit_nat_eq_self unat_div)
  then have pages: "?pages \<noteq> 0" using size(2) by (metis div_greater_zero_iff less_irrefl unsigned_0 zero_less_numeral)
  have "unat (full_size mod 128) = 0" using assms(2) by simp
  then have "unat full_size mod 128 = 0" by (simp add: unat_mod)
  then have "128 dvd unat full_size" by (simp add: dvd_eq_mod_eq_0)
  then have "32 dvd unat full_size" by (rule dvd_trans [rotated]) simp
  then have "unat full_size mod 32 = 0" by simp
  then have words: "full_size mod 32 = 0" by (simp add: word_unat_eq_iff unat_mod)
  have mixes: "\<exists>mix. foldE (dag_access (dag_lookup None l) w ?pages) [0..<64] mix0 = Inr mix \<and> length mix = 32"
    if "length mix0 = 32" for w and mix0 :: "u32 list"
    by (rule foldE_total) (use that dag_access_ok [OF assms(1) pages] in auto)
  define s_mix where "s_mix = words_of (SHA3_512 (seed_bytes header nonce))"
  obtain mix where "foldE (dag_access (dag_lookup None l) (s_mix ! 0) ?pages) [0..<64] (map (\<lambda>w. s_mix ! (w mod 16)) [0..<32]) = Inr mix"
    "length mix = 32"
    using mixes [of "map (\<lambda>w. s_mix ! (w mod 16)) [0..<32]" "s_mix ! 0"] by auto
  then show ?thesis
    using words by (simp add: ethash_light_compute_internal_def ethash_hash_def Let_def s_mix_def [symmetric] del: upt_rec_numeral)
qed

section \<open>Lemmas: a new light cache\<close>

lemma length_memo_chain [simp]: "length (memo_chain n seed) = n"
  by (simp add: memo_chain_def)

lemma memo_chain_nodes: "\<forall>x \<in> set (memo_chain n seed). length x = 16"
proof -
  have "length ((sha_node ^^ i) (words_of (SHA3_512 seed))) = 16" for i by (cases i) simp_all
  then show ?thesis by (auto simp: memo_chain_def)
qed

lemma memo_round_nodes:
  "length (memo_round n nodes) = length nodes \<and> ((\<forall>x \<in> set nodes. length x = 16) \<longrightarrow> (\<forall>x \<in> set (memo_round n nodes). length x = 16))"
proof -
  have "length (fold (\<lambda>i nodes. nodes[i := sha_node (f i nodes)]) is nodes) = length nodes \<and>
      ((\<forall>x \<in> set nodes. length x = 16) \<longrightarrow> (\<forall>x \<in> set (fold (\<lambda>i nodes. nodes[i := sha_node (f i nodes)]) is nodes). length x = 16))"
    for f "is" and nodes :: "dag_node list"
  proof (induction "is" arbitrary: nodes)
    case (Cons i "is")
    have "\<forall>x \<in> set (nodes[i := sha_node (f i nodes)]). length x = 16" if "\<forall>x \<in> set nodes. length x = 16"
      using that set_update_subset_insert [of nodes i "sha_node (f i nodes)"] by auto
    then show ?case using Cons.IH [of "nodes[i := sha_node (f i nodes)]"] by simp
  qed simp
  then show ?thesis by (simp add: memo_round_def)
qed

lemma memo_rounds_nodes:
  "length ((memo_round n ^^ k) (memo_chain n seed)) = n \<and> (\<forall>x \<in> set ((memo_round n ^^ k) (memo_chain n seed)). length x = 16)"
proof (induction k)
  case (Suc k)
  then show ?case using memo_round_nodes [of n "(memo_round n ^^ k) (memo_chain n seed)"] by simp
qed (simp add: memo_chain_nodes)

lemma light_new_ok:
  assumes "block_number < 61440000" and "ethash_get_cachesize block_number = Inr cache_size"
    and "length nodes = unat (cache_size div 64)"
  shows "\<exists>l. ethash_light_new True (Some nodes) block_number = Some (Inr l) \<and> light_ok l \<and> l_block_number l = block_number"
proof -
  have csz: "cache_size mod 64 = 0" "2 ^ 23 < cache_size" "cache_size \<le> 2 ^ 37"
    using cachesize_ok [OF assms(1)] assms(2) by auto
  then have u: "2 ^ 23 < unat cache_size" "unat cache_size \<le> 2 ^ 37" by (simp_all add: word_less_nat_alt word_le_nat_alt)
  then have pos: "0 < cache_size" by (simp add: word_less_nat_alt)
  have "64 \<le> unat cache_size" "unat cache_size < 2 ^ 32 * 64" using u by simp_all
  then have n: "0 < unat (cache_size div 64)" "unat (cache_size div 64) < 2 ^ 32"
    by (simp_all add: unat_div div_greater_zero_iff less_mult_imp_div_less)
  obtain seed where seed: "ethash_get_seedhash block_number = Some seed"
  proof -
    have "unat (block_number div 30000) < 2 ^ 32" using block_epoch [OF assms(1)] by simp
    then show ?thesis using seed_loop_iterates [of "block_number div 30000" 0] that by (simp add: ethash_get_seedhash_def)
  qed
  define ns where "ns = (memo_round (unat (cache_size div 64)) ^^ 3) (memo_chain (unat (cache_size div 64)) seed)"
  have "ethash_compute_cache_nodes nodes cache_size seed = Inr (Some ns)"
    unfolding ns_def by (rule cache_nodes_spec [OF csz(1) pos csz(3) assms(3)])
  moreover have "light_ok \<lparr>l_cache = ns, l_cache_size = cache_size, l_block_number = block_number\<rparr>"
    using memo_rounds_nodes [where n = "unat (cache_size div 64)" and k = 3 and seed = seed] n by (simp add: light_ok_def ns_def)
  ultimately show ?thesis
    using seed assms(2) by (simp add: ethash_light_new_def ethash_light_new_internal_def)
qed

section \<open>Lemmas: the file of a DAG\<close>

lemma dag_item_words: "ethash_calculate_dag_item i l = Inr item \<Longrightarrow> length item = 16"
  by (auto simp: ethash_calculate_dag_item_def Let_def bindE_Inr_iff split: if_splits)

lemma dag_magic_length [simp]: "length dag_magic = 8"
  by (simp add: dag_magic_def)

lemma dag_magic_nonempty [simp]: "dag_magic \<noteq> []" "[] \<noteq> dag_magic"
  using dag_magic_length by (metis list.size(3) zero_neq_numeral)+

lemma dag_magic_hd: "hd dag_magic \<noteq> 0"
proof -
  have eq: "dag_magic = word_of_nat (0xFEE1DEADBADDCAFE mod 256) # rev (toBigEndian (0xFEE1DEADBADDCAFE div 256) 7)"
    using toBigEndian.simps(2) [of "0xFEE1DEADBADDCAFE" 7] by (simp add: dag_magic_def del: toBigEndian.simps)
  show ?thesis unfolding eq by simp
qed

lemma blank_no_magic: "take 8 (blank_dag sz) \<noteq> dag_magic"
proof (cases "unat (sz + 8 - 1)")
  case 0
  then have "length (take 8 (blank_dag sz)) \<noteq> length dag_magic" by (simp add: blank_dag_def)
  then show ?thesis by metis
next
  case (Suc k)
  then have "hd (take 8 (blank_dag sz)) = 0" by (simp add: blank_dag_def)
  then show ?thesis using dag_magic_hd by metis
qed

lemma take_write_nodes: "take 8 (write_nodes ns c) = take 8 c" if "8 \<le> length c"
  using that by (simp add: write_nodes_def)

lemma nth_file_nodes: "i < n \<Longrightarrow> file_nodes n c ! i = words_of (take 64 (drop (8 + 64 * i) c))"
  by (simp add: file_nodes_def)

lemma length_concat_nodes: "\<forall>x \<in> set xs. length x = 16 \<Longrightarrow> length (concat (map node_bytes xs)) = 64 * length xs"
  by (induction xs) simp_all

lemma file_nodes_written:
  assumes "\<forall>x \<in> set ns. length x = 16" and "8 \<le> length c"
  shows "file_nodes (length ns) (write_magic (write_nodes ns c)) = ns"
proof (rule nth_equalityI)
  fix i assume "i < length (file_nodes (length ns) (write_magic (write_nodes ns c)))"
  then have i: "i < length ns" by (simp add: file_nodes_def)
  then obtain a x b where ns: "ns = a @ x # b" "length a = i" by (metis id_take_nth_drop length_take min.absorb4)
  define rest where "rest = drop (8 + 64 * length ns) c"
  have "length (concat (map node_bytes a)) = 64 * i" "length (node_bytes x) = 64"
    using assms(1) length_concat_nodes [of a] by (simp_all add: ns)
  then have "take 64 (drop (8 + 64 * i) (dag_magic @ concat (map node_bytes ns) @ rest)) = node_bytes x"
    unfolding ns(1) by simp
  moreover have "write_magic (write_nodes ns c) = dag_magic @ concat (map node_bytes ns) @ rest"
    using assms(2) by (simp add: write_magic_def write_nodes_def rest_def)
  ultimately have "words_of (take 64 (drop (8 + 64 * i) (write_magic (write_nodes ns c)))) = x"
    by (simp only: words_of_node_bytes)
  then show "file_nodes (length ns) (write_magic (write_nodes ns c)) ! i = ns ! i"
    using ns nth_file_nodes [OF i, of "write_magic (write_nodes ns c)"] by auto
qed (simp add: file_nodes_def)

lemma length_file_nodes [simp]: "length (file_nodes n c) = n"
  by (simp add: file_nodes_def)

text \<open>
  Reaching the file: calls of \<open>ethash_full_new\<close> with any outcomes and any callback, processes killed
  while they compute the DAG, and changes of other files.
\<close>

datatype dag_event = Call full_outcome "(int \<Rightarrow> bool) option" | Killed full_outcome nat | Other string "bytes option"

definition killed_while_computing :: "full_outcome \<Rightarrow> nat \<Rightarrow> string \<Rightarrow> bytes \<Rightarrow> u64 \<Rightarrow> light \<Rightarrow> files \<Rightarrow> files" where
  "killed_while_computing out k dirname seed sz l fs =
     (let path = dag_path dirname seed;
          (rc1, fs1) = ethash_io_prepare (fo_first out) dirname seed sz False fs;
          (rc, fs2) = (if rc1 = IO_MEMO_SIZE_MISMATCH then ethash_io_prepare (fo_second out) dirname seed sz True fs1 else (rc1, fs1))
      in if rc = IO_MEMO_MISMATCH then
           (case full_loop l None 0 (Fin 0) [0..<k] (Fin 0) (file_nodes (unat (sz div 64)) (the (fs2 path))) of
              Inl e \<Rightarrow> fs2
            | Inr (ok, nodes) \<Rightarrow> fs2(path \<mapsto> write_nodes nodes (the (fs2 path))))
         else fs2)"

inductive dag_step :: "string \<Rightarrow> bytes \<Rightarrow> u64 \<Rightarrow> light \<Rightarrow> files \<Rightarrow> dag_event \<Rightarrow> files \<Rightarrow> bool"
  for dirname seed sz l where
  call: "dag_step dirname seed sz l fs (Call out cb) (snd (ethash_full_new_internal out dirname seed sz l cb fs))"
| killed: "dag_step dirname seed sz l fs (Killed out k) (killed_while_computing out k dirname seed sz l fs)"
| other: "path \<noteq> dag_path dirname seed \<Longrightarrow> dag_step dirname seed sz l fs (Other path c) (fs(path := c))"

inductive_cases dag_stepE: "dag_step dirname seed sz l fs e fs'"

text \<open>The invariant: a file with the magic number holds the whole DAG.\<close>

definition dag_file_inv :: "string \<Rightarrow> u64 \<Rightarrow> light \<Rightarrow> files \<Rightarrow> bool" where
  "dag_file_inv path sz l fs \<longleftrightarrow>
     (\<forall>c. fs path = Some c \<longrightarrow> take 8 c = dag_magic \<longrightarrow> dag_complete l sz (file_nodes (unat (sz div 64)) c))"

lemma dag_inv_put: "dag_file_inv path sz l (fs(path \<mapsto> c)) \<longleftrightarrow>
    (take 8 c = dag_magic \<longrightarrow> dag_complete l sz (file_nodes (unat (sz div 64)) c))"
  by (simp add: dag_file_inv_def)

text \<open>What a preparation leaves.\<close>

lemma io_prepare_cases:
  assumes "ethash_io_prepare io dirname seed sz force fs = (rc, fs')"
    and "dag_file_inv (dag_path dirname seed) sz l fs"
  shows "dag_file_inv (dag_path dirname seed) sz l fs' \<and>
    (rc = IO_MEMO_MATCH \<longrightarrow> fs' = fs \<and> \<not> force \<and> (\<exists>c. fs (dag_path dirname seed) = Some c \<and> take 8 c = dag_magic)) \<and>
    (rc = IO_MEMO_SIZE_MISMATCH \<longrightarrow> fs' = fs \<and> \<not> force) \<and>
    (rc = IO_MEMO_MISMATCH \<longrightarrow> fs' (dag_path dirname seed) = Some (blank_dag sz))"
  using assms blank_no_magic [of sz]
  by (auto simp: ethash_io_prepare_def Let_def dag_inv_put dag_magic_def [symmetric] split: if_splits option.splits)

lemma dag_complete_words: "dag_complete l sz ns \<Longrightarrow> \<forall>x \<in> set ns. length x = 16"
proof
  fix x assume c: "dag_complete l sz ns" and "x \<in> set ns"
  then obtain i where "i < length ns" "x = ns ! i" by (metis in_set_conv_nth)
  with c have "ethash_calculate_dag_item (of_nat i) l = Inr x" by (simp add: dag_complete_def)
  then show "length x = 16" by (rule dag_item_words)
qed

lemma blank_length: "sz < 2 ^ 38 \<Longrightarrow> length (blank_dag sz) = unat sz + 8"
proof -
  assume "sz < 2 ^ 38"
  then have "unat sz < 2 ^ 38" by (simp add: word_less_nat_alt)
  moreover from this have "unat (7 + sz) = 7 + unat sz" by (simp add: unat_word_ariths)
  moreover have "sz + 8 - 1 = 7 + sz" by simp
  ultimately show ?thesis by (simp add: blank_dag_def)
qed

text \<open>The two preparations of a call, together.\<close>

lemma full_prepare:
  assumes "dag_file_inv (dag_path dirname seed) sz l fs"
    and "ethash_io_prepare io1 dirname seed sz False fs = (rc1, fs1)"
    and "(if rc1 = IO_MEMO_SIZE_MISMATCH then ethash_io_prepare io2 dirname seed sz True fs1 else (rc1, fs1)) = (rc, fs2)"
  shows "dag_file_inv (dag_path dirname seed) sz l fs2 \<and>
    (rc = IO_MEMO_MATCH \<longrightarrow> fs2 = fs \<and> (\<exists>c. fs (dag_path dirname seed) = Some c \<and> take 8 c = dag_magic)) \<and>
    rc \<noteq> IO_MEMO_SIZE_MISMATCH \<and>
    (rc = IO_MEMO_MISMATCH \<longrightarrow> fs2 (dag_path dirname seed) = Some (blank_dag sz))"
proof (cases "rc1 = IO_MEMO_SIZE_MISMATCH")
  case True
  then have again: "ethash_io_prepare io2 dirname seed sz True fs1 = (rc, fs2)" using assms(3) by simp
  have "dag_file_inv (dag_path dirname seed) sz l fs1" using io_prepare_cases [OF assms(2,1)] by blast
  from io_prepare_cases [OF again this] show ?thesis by blast
next
  case False
  then have "rc = rc1" "fs2 = fs1" using assms(3) by simp_all
  with io_prepare_cases [OF assms(2,1)] False show ?thesis by blast
qed

lemma full_new_sound:
  assumes inv: "dag_file_inv (dag_path dirname seed) sz l fs" and sz: "sz < 2 ^ 38"
    and run: "ethash_full_new_internal out dirname seed sz l cb fs = (r, fs')"
  shows "dag_file_inv (dag_path dirname seed) sz l fs' \<and>
    (\<forall>f. r = Inr (Some f) \<longrightarrow> f_file_size f = sz \<and> dag_complete l sz (f_data f))"
proof -
  let ?path = "dag_path dirname seed" and ?n = "unat (sz div 64)"
  obtain rc1 fs1 where p1: "ethash_io_prepare (fo_first out) dirname seed sz False fs = (rc1, fs1)" by fastforce
  obtain rc fs2 where p2: "(if rc1 = IO_MEMO_SIZE_MISMATCH then ethash_io_prepare (fo_second out) dirname seed sz True fs1 else (rc1, fs1)) = (rc, fs2)"
    by fastforce
  note prep = full_prepare [OF inv p1 p2]
  show ?thesis
  proof (cases "fo_calloc out \<and> \<not> (rc1 = IO_FAIL \<or> rc1 = IO_MEMO_SIZE_MISMATCH \<and> rc \<noteq> IO_MEMO_MISMATCH) \<and> fo_mmap out")
    case False
    then have "r = Inr None" "fs' = fs2 \<or> fs' = fs"
      using run p1 p2 by (auto simp: ethash_full_new_internal_def Let_def split: if_splits)
    then show ?thesis using prep inv by auto
  next
    case go: True
    then have rcs: "rc = IO_MEMO_MATCH \<or> rc = IO_MEMO_MISMATCH"
      using prep p2 by (cases rc) (auto split: if_splits)
    show ?thesis
    proof (cases "rc = IO_MEMO_MATCH")
      case True
      then have "r = Inr (Some \<lparr>f_data = file_nodes ?n (the (fs2 ?path)), f_file_size = sz\<rparr>)" "fs' = fs2"
        using run p1 p2 go by (auto simp: ethash_full_new_internal_def Let_def split: if_splits)
      then show ?thesis using True prep inv by (auto simp: dag_file_inv_def)
    next
      case False
      with rcs have mis: "rc = IO_MEMO_MISMATCH" by simp
      then have content: "fs2 ?path = Some (blank_dag sz)" using prep by blast
      have len: "8 \<le> length (blank_dag sz)" by (simp add: blank_length [OF sz])
      let ?mem = "file_nodes ?n (blank_dag sz)"
      show ?thesis
      proof (cases "ethash_compute_full_data ?mem sz l cb")
        case (Inl e)
        then have "r = Inl e" "fs' = fs2"
          using run p1 p2 go mis content by (auto simp: ethash_full_new_internal_def Let_def split: if_splits)
        then show ?thesis using prep by auto
      next
        case (Inr b)
        obtain ok ns where b: "b = (ok, ns)" by fastforce
        let ?c = "write_nodes ns (blank_dag sz)"
        have blank: "dag_file_inv ?path sz l (fs2(?path \<mapsto> ?c))"
          using blank_no_magic [of sz] take_write_nodes [OF len, of ns] by (simp add: dag_inv_put)
        have "dag_file_inv ?path sz l (fs2(?path \<mapsto> write_magic ?c)) \<and> dag_complete l sz ns" if "ok"
        proof -
          have "dag_complete l sz ns" using full_data_complete [of ?mem sz l cb ns] Inr b that sz by simp
          moreover from this have "file_nodes ?n (write_magic ?c) = ns"
            using file_nodes_written [OF dag_complete_words len] by (metis dag_complete_def)
          ultimately show ?thesis by (simp add: dag_inv_put)
        qed
        with blank show ?thesis
          using run p1 p2 go mis content Inr b
          by (auto simp: ethash_full_new_internal_def Let_def split: if_splits)
      qed
    qed
  qed
qed

lemma killed_sound:
  assumes inv: "dag_file_inv (dag_path dirname seed) sz l fs" and sz: "sz < 2 ^ 38"
  shows "dag_file_inv (dag_path dirname seed) sz l (killed_while_computing out k dirname seed sz l fs)"
proof -
  obtain rc1 fs1 where p1: "ethash_io_prepare (fo_first out) dirname seed sz False fs = (rc1, fs1)" by fastforce
  obtain rc fs2 where p2: "(if rc1 = IO_MEMO_SIZE_MISMATCH then ethash_io_prepare (fo_second out) dirname seed sz True fs1 else (rc1, fs1)) = (rc, fs2)"
    by fastforce
  have len: "8 \<le> length (blank_dag sz)" by (simp add: blank_length [OF sz])
  show ?thesis
    using full_prepare [OF inv p1 p2] p1 p2 blank_no_magic [of sz] take_write_nodes [OF len]
    by (auto simp: killed_while_computing_def Let_def dag_inv_put split: sum.split prod.split)
qed

interpretation dag_file: invariant_machine "\<lambda>fs. fs (dag_path dirname seed) = None" "dag_step dirname seed sz l"
    "\<lambda>fs. sz < 2 ^ 38 \<longrightarrow> dag_file_inv (dag_path dirname seed) sz l fs" for dirname seed sz l
proof
  fix fs e fs'
  assume inv: "sz < 2 ^ 38 \<longrightarrow> dag_file_inv (dag_path dirname seed) sz l fs" and "dag_step dirname seed sz l fs e fs'"
  from this(2) show "sz < 2 ^ 38 \<longrightarrow> dag_file_inv (dag_path dirname seed) sz l fs'"
  proof cases
    case (call out cb)
    then show ?thesis
      using inv full_new_sound [of dirname seed sz l fs out cb] by (metis prod.collapse)
  next
    case (killed out k)
    then show ?thesis using inv killed_sound by blast
  next
    case (other path c)
    then show ?thesis using inv by (simp add: dag_file_inv_def)
  qed
qed (simp add: dag_file_inv_def)

section \<open>Lemmas: building the DAG succeeds\<close>

lemma full_loop_total:
  assumes "light_ok l" and "m \<le> length mem"
  shows "\<exists>nodes. full_loop l None mx ch [k..<m] p mem = Inr (True, nodes)"
  using assms(2)
proof (induction "m - k" arbitrary: k p mem)
  case (Suc d)
  then have upt: "[k..<m] = k # [Suc k..<m]" by (simp add: upt_conv_Cons)
  obtain item where "ethash_calculate_dag_item (of_nat k) l = Inr item" using dag_item_ok [OF assms(1)] by blast
  then show ?case
    using Suc.hyps(1) [of "Suc k" "mem[k := item]" "fadd dbl p ch"] Suc.hyps(2) Suc.prems unfolding upt by simp
qed simp

lemma full_data_total:
  assumes "light_ok l" "sz mod 128 = 0" "sz < 2 ^ 38" "length mem = unat (sz div 64)"
  shows "\<exists>nodes. ethash_compute_full_data mem sz l None = Inr (True, nodes)"
proof -
  have "unat (sz mod 128) = 0" using assms(2) by simp
  then have "128 dvd unat sz" by (simp add: unat_mod dvd_eq_mod_eq_0)
  then have "64 dvd unat sz" by (rule dvd_trans [rotated]) simp
  then have m64: "sz mod 64 = 0" by (simp add: word_unat_eq_iff unat_mod)
  have "unat (ucast (sz div 64) :: u32) \<le> length mem"
    using assms(4) by (simp add: unsigned_ucast_eq)
  from full_loop_total [OF assms(1) this] m64 assms(2) show ?thesis
    by (simp add: ethash_compute_full_data_def Let_def)
qed

definition io_good :: "io_outcome \<Rightarrow> bool" where
  "io_good io \<longleftrightarrow> io_mkdir io \<and> io_malloc io \<and> io_open io \<and> io_file_size io \<and> io_read io \<and> io_create io \<and>
     io_seek io \<and> io_putc io \<and> io_flush io"

definition full_good :: "full_outcome \<Rightarrow> bool" where
  "full_good out \<longleftrightarrow> fo_calloc out \<and> io_good (fo_first out) \<and> io_good (fo_second out) \<and> fo_mmap out \<and> fo_seek out \<and>
     fo_write out \<and> fo_flush out"

lemma io_prepare_good:
  "io_good io \<Longrightarrow> fst (ethash_io_prepare io dirname seed sz force fs) \<noteq> IO_FAIL"
  "io_good io \<Longrightarrow> ethash_io_prepare io dirname seed sz True fs = (IO_MEMO_MISMATCH, fs(dag_path dirname seed \<mapsto> blank_dag sz))"
  by (auto simp: ethash_io_prepare_def io_good_def Let_def split: option.split)

lemma io_prepare_match:
  assumes "io_good io" "fs (dag_path dirname seed) = Some c" "of_nat (length c) - 8 = sz" "8 \<le> length c" "take 8 c = dag_magic"
  shows "ethash_io_prepare io dirname seed sz False fs = (IO_MEMO_MATCH, fs)"
  using assms by (auto simp: ethash_io_prepare_def io_good_def Let_def)

lemma io_prepare_create:
  assumes "ethash_io_prepare io dirname seed sz force fs = (IO_MEMO_MISMATCH, fs')"
  shows "fs' (dag_path dirname seed) = Some (blank_dag sz)"
  using assms by (auto simp: ethash_io_prepare_def Let_def split: if_splits option.splits)

lemma full_new_good:
  assumes "full_good out" "light_ok l" "sz mod 128 = 0" "sz < 2 ^ 38"
  shows "\<exists>f fs'. ethash_full_new_internal out dirname seed sz l None fs = (Inr (Some f), fs')"
proof -
  have good: "io_good (fo_first out)" "io_good (fo_second out)" using assms(1) by (simp_all add: full_good_def)
  obtain rc1 fs1 where p1: "ethash_io_prepare (fo_first out) dirname seed sz False fs = (rc1, fs1)" by fastforce
  then have "rc1 \<noteq> IO_FAIL" using io_prepare_good(1) [OF good(1), of dirname seed sz False fs] by simp
  then consider "rc1 = IO_MEMO_MATCH" | "rc1 = IO_MEMO_SIZE_MISMATCH" | "rc1 = IO_MEMO_MISMATCH" by (cases rc1) auto
  then show ?thesis
  proof cases
    case 1
    then show ?thesis using assms(1) p1 by (simp add: ethash_full_new_internal_def full_good_def Let_def)
  next
    case 2
    obtain nodes where "ethash_compute_full_data (file_nodes (unat (sz div 64)) (blank_dag sz)) sz l None = Inr (True, nodes)"
      using full_data_total [OF assms(2-4)] by (metis length_file_nodes)
    then show ?thesis using assms(1) p1 2 io_prepare_good(2) [OF good(2)]
      by (simp add: ethash_full_new_internal_def full_good_def Let_def)
  next
    case 3
    obtain nodes where "ethash_compute_full_data (file_nodes (unat (sz div 64)) (blank_dag sz)) sz l None = Inr (True, nodes)"
      using full_data_total [OF assms(2-4)] by (metis length_file_nodes)
    then show ?thesis using assms(1) p1 3 io_prepare_create [of "fo_first out" dirname seed sz False fs fs1]
      by (simp add: ethash_full_new_internal_def full_good_def Let_def)
  qed
qed

text \<open>What a successful call leaves in the file is what the next call finds.\<close>

lemma length_written:
  assumes "dag_complete l sz ns" "sz mod 128 = 0" "sz < 2 ^ 38"
  shows "length (write_magic (write_nodes ns (blank_dag sz))) = unat sz + 8"
proof -
  have "unat (sz mod 128) = 0" using assms(2) by simp
  then have "128 dvd unat sz" by (simp add: unat_mod dvd_eq_mod_eq_0)
  then have "64 dvd unat sz" by (rule dvd_trans [rotated]) simp
  then have "64 * length ns = unat sz" using assms(1) by (simp add: dag_complete_def unat_div)
  moreover have "length (blank_dag sz) = unat sz + 8" by (rule blank_length [OF assms(3)])
  ultimately show ?thesis
    using length_concat_nodes [OF dag_complete_words [OF assms(1)]] by (simp add: write_magic_def write_nodes_def)
qed

lemma full_new_leaves:
  assumes run: "ethash_full_new_internal out dirname seed sz l cb fs = (Inr (Some f), fs')" and sz: "sz < 2 ^ 38"
  shows "\<exists>c. fs' (dag_path dirname seed) = Some c \<and> take 8 c = dag_magic \<and> 8 \<le> length c \<and> of_nat (length c) - 8 = sz \<and>
    f = \<lparr>f_data = file_nodes (unat (sz div 64)) c, f_file_size = sz\<rparr>"
proof -
  let ?path = "dag_path dirname seed" and ?n = "unat (sz div 64)"
  obtain rc1 fs1 where p1: "ethash_io_prepare (fo_first out) dirname seed sz False fs = (rc1, fs1)" by fastforce
  obtain rc fs2 where p2: "(if rc1 = IO_MEMO_SIZE_MISMATCH then ethash_io_prepare (fo_second out) dirname seed sz True fs1 else (rc1, fs1)) = (rc, fs2)"
    by fastforce
  have "rc = IO_MEMO_MATCH \<and> fs' = fs2 \<and> f = \<lparr>f_data = file_nodes ?n (the (fs2 ?path)), f_file_size = sz\<rparr> \<or>
      rc = IO_MEMO_MISMATCH \<and> (\<exists>ns. ethash_compute_full_data (file_nodes ?n (the (fs2 ?path))) sz l cb = Inr (True, ns) \<and>
        fs' = fs2(?path \<mapsto> write_magic (write_nodes ns (the (fs2 ?path)))) \<and> f = \<lparr>f_data = ns, f_file_size = sz\<rparr>)"
    using run p1 p2 by (cases rc) (auto simp: ethash_full_new_internal_def Let_def split: if_splits sum.splits prod.splits)
  then show ?thesis
  proof
    assume m: "rc = IO_MEMO_MATCH \<and> fs' = fs2 \<and> f = \<lparr>f_data = file_nodes ?n (the (fs2 ?path)), f_file_size = sz\<rparr>"
    then have "ethash_io_prepare (fo_first out) dirname seed sz False fs = (IO_MEMO_MATCH, fs2)"
      using p1 p2 by (auto simp: ethash_io_prepare_def Let_def split: if_splits option.splits)
    then show ?thesis
      using m by (auto simp: ethash_io_prepare_def Let_def split: if_splits option.splits)
  next
    assume "rc = IO_MEMO_MISMATCH \<and> (\<exists>ns. ethash_compute_full_data (file_nodes ?n (the (fs2 ?path))) sz l cb = Inr (True, ns) \<and>
        fs' = fs2(?path \<mapsto> write_magic (write_nodes ns (the (fs2 ?path)))) \<and> f = \<lparr>f_data = ns, f_file_size = sz\<rparr>)"
    then obtain ns where mis: "rc = IO_MEMO_MISMATCH"
      and ns: "ethash_compute_full_data (file_nodes ?n (the (fs2 ?path))) sz l cb = Inr (True, ns)"
        "fs' = fs2(?path \<mapsto> write_magic (write_nodes ns (the (fs2 ?path))))" "f = \<lparr>f_data = ns, f_file_size = sz\<rparr>" by blast
    have blank: "fs2 ?path = Some (blank_dag sz)"
      using p1 p2 mis io_prepare_create by (metis prod.inject)
    note complete = full_data_complete [OF ns(1) length_file_nodes sz]
    have len: "8 \<le> length (blank_dag sz)" by (simp add: blank_length [OF sz])
    have "file_nodes ?n (write_magic (write_nodes ns (blank_dag sz))) = ns"
      using file_nodes_written [OF dag_complete_words len] complete by (metis dag_complete_def)
    moreover have "take 8 (write_magic (write_nodes ns (blank_dag sz))) = dag_magic" by (simp add: write_magic_def)
    ultimately show ?thesis
      using ns(2,3) blank complete length_written [of l sz ns] sz by simp
  qed
qed

text \<open>A small cache and calls in which nothing fails, for the witnesses.\<close>

definition demo_light :: light where
  "demo_light = \<lparr>l_cache = [replicate 16 1], l_cache_size = 64, l_block_number = 0\<rparr>"

definition demo_io :: io_outcome where
  "demo_io = \<lparr>io_mkdir = True, io_malloc = True, io_open = True, io_file_size = True, io_read = True, io_create = True,
     io_seek = True, io_putc = True, io_flush = True, io_late = True\<rparr>"

definition demo_full :: full_outcome where
  "demo_full = \<lparr>fo_calloc = True, fo_first = demo_io, fo_second = demo_io, fo_mmap = True, fo_seek = True,
     fo_write = True, fo_flush = True, fo_late = True\<rparr>"

definition demo_return :: ethash_return where
  "demo_return = \<lparr>r_result = [], r_mix_hash = [], r_success = False\<rparr>"

lemma demo_ok: "light_ok demo_light" "full_good demo_full"
  by (simp_all add: light_ok_def demo_light_def full_good_def io_good_def demo_full_def demo_io_def)

section \<open>Claims\<close>

text \<open>C20: A DAG that the library hands out can be trusted: whatever happened to its file before - calls
  that failed at any system call or were stopped by their callback, processes killed while they
  computed - whenever \<open>ethash_full_new\<close> returns a DAG, hashing with it gives what the light
  computation gives, for every header and nonce. A half-written file is never taken for a DAG.\<close>

theorem dag_trustworthy:
  assumes "fs0 (dag_path dirname seed) = None" and "runs (dag_step dirname seed sz l) fs0 es fs" and "sz < 2 ^ 38"
    and "ethash_full_new_internal out dirname seed sz l cb fs = (Inr (Some f), fs')"
  shows "ethash_full_compute ret f header nonce null_l = ethash_light_compute_internal ret l sz header nonce"
proof -
  have "dag_file_inv (dag_path dirname seed) sz l fs" using dag_file.inv_reachable [OF assms(1,2)] assms(3) by blast
  from full_new_sound [OF this assms(3,4)] have "f = \<lparr>f_data = f_data f, f_file_size = sz\<rparr>" "dag_complete l sz (f_data f)" by simp_all
  with full_compute_is_light [OF this(2) assms(3)] show ?thesis by metis
qed

lemma dag_trustworthy_witness:
  "\<exists>fs f fs'. runs (dag_step ''dag'' [] 128 demo_light) Map.empty [Killed demo_full 1] fs \<and>
    ethash_full_new_internal demo_full ''dag'' [] 128 demo_light None fs = (Inr (Some f), fs') \<and>
    (\<lambda>ret. ethash_full_compute ret f [] 5 demo_light) = (\<lambda>ret. ethash_light_compute_internal ret demo_light 128 [] 5)"
proof -
  define fs where "fs = killed_while_computing demo_full 1 ''dag'' [] 128 demo_light Map.empty"
  have run: "runs (dag_step ''dag'' [] 128 demo_light) Map.empty [Killed demo_full 1] fs"
    by (simp add: fs_def dag_step.killed)
  obtain f fs' where full: "ethash_full_new_internal demo_full ''dag'' [] 128 demo_light None fs = (Inr (Some f), fs')"
    using full_new_good [OF demo_ok(2,1), of 128 "''dag''" "[]" fs] by auto
  have "(128 :: u64) < 2 ^ 38" by simp
  then have "ethash_full_compute ret f [] 5 demo_light = ethash_light_compute_internal ret demo_light 128 [] 5" for ret
    using dag_trustworthy [OF _ run _ full] by simp
  then show ?thesis using run full by blast
qed

text \<open>The DAG is built, and built once: when no system call fails, \<open>ethash_full_new\<close> returns a DAG
  whatever was in its file; and after that a further call finds this DAG in the file, leaves the
  file alone and computes nothing, so that a callback that would stop it at once is not asked.\<close>

theorem dag_built_once:
  assumes "full_good out" and "light_ok l" and "sz mod 128 = 0" and "sz < 2 ^ 38" and "full_good out'"
  shows "\<exists>f fs'. ethash_full_new_internal out dirname seed sz l None fs = (Inr (Some f), fs') \<and>
    ethash_full_new_internal out' dirname seed sz l' cb fs' = (Inr (Some f), fs')"
proof -
  obtain f fs' where run: "ethash_full_new_internal out dirname seed sz l None fs = (Inr (Some f), fs')"
    using full_new_good [OF assms(1-4)] by blast
  from full_new_leaves [OF run assms(4)] obtain c where c: "fs' (dag_path dirname seed) = Some c" "take 8 c = dag_magic" "8 \<le> length c"
    "of_nat (length c) - 8 = sz" "f = \<lparr>f_data = file_nodes (unat (sz div 64)) c, f_file_size = sz\<rparr>" by blast
  have "ethash_io_prepare (fo_first out') dirname seed sz False fs' = (IO_MEMO_MATCH, fs')"
    using assms(5) io_prepare_match [of "fo_first out'" fs' dirname seed c sz] c by (simp add: full_good_def)
  then have "ethash_full_new_internal out' dirname seed sz l' cb fs' = (Inr (Some f), fs')"
    using assms(5) c by (simp add: ethash_full_new_internal_def full_good_def Let_def)
  with run show ?thesis by blast
qed

lemma dag_built_once_witness:
  "\<exists>f fs'. ethash_full_new_internal demo_full ''dag'' [] 128 demo_light None Map.empty = (Inr (Some f), fs') \<and>
    ethash_full_new_internal demo_full ''dag'' [] 128 demo_light (Some (\<lambda>p. True)) fs' = (Inr (Some f), fs')"
  by (rule dag_built_once [OF demo_ok(2,1) _ _ demo_ok(2)]) simp_all

text \<open>C21: A new light cache is good for its whole epoch: for every block of the tabulated epochs, when the
  memory can be had, \<open>ethash_light_new\<close> returns a cache with which \<open>ethash_light_compute\<close> succeeds for
  every header and nonce - no index is out of range and nothing is divided by zero - and gives a
  result and a mix hash of 32 bytes each, whatever the returned structure held before.\<close>

theorem light_cache_serves:
  assumes "block_number < 61440000" and "ethash_get_cachesize block_number = Inr cache_size"
    and "length memory = unat (cache_size div 64)"
  shows "\<exists>l. ethash_light_new True (Some memory) block_number = Some (Inr l) \<and>
    (\<forall>ret header nonce. \<exists>r. ethash_light_compute ret l header nonce = Inr r \<and> r_success r \<and>
      length (r_result r) = 32 \<and> length (r_mix_hash r) = 32)"
proof -
  from light_new_ok [OF assms] obtain l where l: "ethash_light_new True (Some memory) block_number = Some (Inr l)" "light_ok l" "l_block_number l = block_number"
    by (elim exE conjE)
  from datasize_ok [OF assms(1)] obtain sz where sz: "ethash_get_datasize block_number = Inr sz" "sz mod 128 = 0" "2 ^ 29 < sz" "sz < 2 ^ 38"
    by (elim exE conjE)
  have "(128 :: u64) \<le> 2 ^ 29" by simp
  then have "128 \<le> sz" using sz(3) by (rule order_trans [OF _ less_imp_le])
  note ok = light_compute_ok [OF l(2) sz(2) this sz(4)]
  have "ethash_light_compute ret l header nonce = ethash_light_compute_internal ret l sz header nonce" for ret header nonce
    unfolding ethash_light_compute_def l(3) sz(1) bindE_simps by (rule refl)
  with ok have "\<exists>r. ethash_light_compute ret l header nonce = Inr r \<and> r_success r \<and>
      length (r_result r) = 32 \<and> length (r_mix_hash r) = 32" for ret header nonce by (simp only:)
  then show ?thesis using l(1) by blast
qed

lemma light_cache_serves_witness:
  "\<exists>cache_size l. ethash_get_cachesize 61439999 = Inr cache_size \<and>
    ethash_light_new True (Some (replicate (unat (cache_size div 64)) (replicate 16 0))) 61439999 = Some (Inr l)"
proof -
  obtain cache_size where c: "ethash_get_cachesize 61439999 = Inr cache_size" using cachesize_ok [of 61439999] by auto
  have "(61439999 :: u64) < 61440000" by simp
  from light_cache_serves [OF this c length_replicate] c show ?thesis by blast
qed

text \<open>C23: A proof of work that the light computation produces passes the quick check exactly when its
  result, read as a number, is at most the boundary: the mix hash alone lets a verifier recompute
  the result with two digests, and the check compares big-endian numbers byte by byte.\<close>

theorem light_result_checks:
  assumes "ethash_light_compute_internal ret0 l full_size header nonce = Inr r" and "r_success r"
    and "length boundary = 32"
  shows "ethash_quick_hash header nonce (r_mix_hash r) = r_result r \<and>
    (ethash_quick_check_difficulty header nonce (r_mix_hash r) boundary \<longleftrightarrow> be_val (r_result r) \<le> be_val boundary)"
proof -
  have hash: "ethash_quick_hash header nonce (r_mix_hash r) = r_result r" by (rule light_quick_hash [OF assms(1,2)])
  then have "length (r_result r) = 32" by (metis ethash_quick_hash_def length_SHA3_256)
  then show ?thesis
    using assms(3) by (simp add: ethash_quick_check_difficulty_def hash check_difficulty_iff)
qed

lemma light_result_checks_witness:
  "\<exists>r. ethash_light_compute_internal demo_return demo_light 128 (replicate 32 7) 5 = Inr r \<and>
    ethash_quick_hash (replicate 32 7) 5 (r_mix_hash r) = r_result r \<and>
    (ethash_quick_check_difficulty (replicate 32 7) 5 (r_mix_hash r) (replicate 32 255) \<longleftrightarrow>
      be_val (r_result r) \<le> be_val (replicate 32 255))"
proof -
  have "(128 :: u64) mod 128 = 0" "(128 :: u64) \<le> 128" "(128 :: u64) < 2 ^ 38" by simp_all
  from light_compute_ok [OF demo_ok(1) this] obtain r where
    r: "ethash_light_compute_internal demo_return demo_light 128 (replicate 32 7) 5 = Inr r" "r_success r" by blast
  with light_result_checks [OF r length_replicate] show ?thesis by blast
qed

text \<open>C22: The cache is the memory-hard hash of the papers: the loops of \<open>ethash_compute_cache_nodes\<close>, with
  their 32-bit counters and their updates in place, are three rounds of mixing each node with its
  predecessor and the node its first word selects, on the chain of digests of the seed; what the
  memory held before has no influence.\<close>

theorem cache_is_memohash:
  assumes "cache_size mod 64 = 0" and "0 < cache_size" and "cache_size \<le> 2 ^ 37"
    and "length memory = unat (cache_size div 64)"
  shows "ethash_compute_cache_nodes memory cache_size seed =
    Inr (Some ((memo_round (unat (cache_size div 64)) ^^ 3) (memo_chain (unat (cache_size div 64)) seed)))"
  by (rule cache_nodes_spec [OF assms])

lemma cache_is_memohash_witness:
  "ethash_compute_cache_nodes [replicate 16 0, []] 128 [] = Inr (Some ((memo_round 2 ^^ 3) (memo_chain 2 [])))"
  using cache_is_memohash [of 128 "[replicate 16 0, []]" "[]"] by simp

text \<open>C24: \<open>ethash_get_seedhash\<close> returns exactly for the blocks of the first 2^32 epochs, which its 32-bit
  counter can reach, and then gives the digest iterated once for each epoch; for a later block its
  loop never ends.\<close>

theorem seedhash_returns:
  "ethash_get_seedhash block_number =
    (if unat block_number div 30000 < 2 ^ 32 then Some ((SHA3_256 ^^ (unat block_number div 30000)) (replicate 32 0)) else None)"
proof -
  have e: "unat (block_number div 30000) = unat block_number div 30000" by (simp add: unat_div)
  show ?thesis
  proof (cases "unat block_number div 30000 < 2 ^ 32")
    case True
    then show ?thesis using seed_loop_iterates [of "block_number div 30000" 0 "replicate 32 0"] by (simp add: ethash_get_seedhash_def e)
  next
    case False
    then show ?thesis using seed_loop_Some [of 0 "block_number div 30000" "replicate 32 0"]
      by (cases "ethash_get_seedhash block_number") (auto simp: ethash_get_seedhash_def e)
  qed
qed

end
