(* ===== verification/GpuKernel.thy ===== *)
theory GpuKernel
  imports Keccak
begin

text \<open>
  \<open>libethash-cl/ethash_cl_miner_kernel.cl\<close>: the OpenCL kernel that hashes one message for each work item,
  on pairs of 32-bit words, from the state that the host prepares; and \<open>keccak_precomp\<close> of
  \<open>ethash_cl_miner.cpp\<close>, the host's part of the first round. The rotation depends on the platform: it
  is an argument of the kernel's functions, and its law the locale \<open>rotation\<close>. OpenCL's \<open>bitselect\<close>
  is written out; shifts of 32-bit words take the amount modulo 32.
\<close>

unbundle bit_operations_syntax

section \<open>Pairs of words\<close>

record uint2 =
  u2_x :: u32
  u2_y :: u32

definition u2_xor :: "uint2 \<Rightarrow> uint2 \<Rightarrow> uint2" where
  "u2_xor a b = \<lparr>u2_x = u2_x a XOR u2_x b, u2_y = u2_y a XOR u2_y b\<rparr>"

definition bitselect :: "uint2 \<Rightarrow> uint2 \<Rightarrow> uint2 \<Rightarrow> uint2" where
  "bitselect a b c =
     \<lparr>u2_x = (u2_x a AND NOT (u2_x c)) OR (u2_x b AND u2_x c), u2_y = (u2_y a AND NOT (u2_y c)) OR (u2_y b AND u2_y c)\<rparr>"

text \<open>The kernel's \<open>chi\<close>.\<close>

definition cl_chi :: "uint2 \<Rightarrow> uint2 \<Rightarrow> uint2 \<Rightarrow> uint2" where
  "cl_chi a b c = bitselect (u2_xor a c) a b"

text \<open>A 64-bit word as it is read on the device, and back.\<close>

definition to_uint2 :: "u64 \<Rightarrow> uint2" where
  "to_uint2 w = \<lparr>u2_x = ucast (w AND 0xffffffff), u2_y = ucast (drop_bit 32 w AND 0xffffffff)\<rparr>"

definition lane :: "uint2 \<Rightarrow> u64" where
  "lane v = push_bit 32 (ucast (u2_y v)) OR ucast (u2_x v)"

section \<open>Rotations\<close>

definition cl_shl :: "u32 \<Rightarrow> nat \<Rightarrow> u32" where "cl_shl x n = push_bit (n mod 32) x"

definition cl_shr :: "u32 \<Rightarrow> nat \<Rightarrow> u32" where "cl_shr x n = drop_bit (n mod 32) x"

definition ROL2 :: "uint2 \<Rightarrow> nat \<Rightarrow> uint2" where
  "ROL2 v n =
     (if n \<le> 32
      then \<lparr>u2_x = cl_shl (u2_x v) n OR cl_shr (u2_y v) (32 - n), u2_y = cl_shl (u2_y v) n OR cl_shr (u2_x v) (32 - n)\<rparr>
      else \<lparr>u2_x = cl_shl (u2_y v) (n - 32) OR cl_shr (u2_x v) (64 - n), u2_y = cl_shl (u2_x v) (n - 32) OR cl_shr (u2_y v) (64 - n)\<rparr>)"

text \<open>On AMD devices with \<open>amd_bitalign\<close>, which works on the components; on NVIDIA's with \<open>shf.l.wrap.b32\<close>.\<close>

definition ROL2_amd :: "(u32 \<Rightarrow> u32 \<Rightarrow> nat \<Rightarrow> u32) \<Rightarrow> uint2 \<Rightarrow> nat \<Rightarrow> uint2" where
  "ROL2_amd bitalign v r =
     (if r \<le> 32
      then \<lparr>u2_x = bitalign (u2_x v) (u2_y v) (32 - r), u2_y = bitalign (u2_y v) (u2_x v) (32 - r)\<rparr>
      else \<lparr>u2_x = bitalign (u2_y v) (u2_x v) (64 - r), u2_y = bitalign (u2_x v) (u2_y v) (64 - r)\<rparr>)"

definition ROL2_nv :: "(u32 \<Rightarrow> u32 \<Rightarrow> nat \<Rightarrow> u32) \<Rightarrow> uint2 \<Rightarrow> nat \<Rightarrow> uint2" where
  "ROL2_nv shf a offset =
     (if 32 \<le> offset
      then \<lparr>u2_x = shf (u2_x a) (u2_y a) offset, u2_y = shf (u2_y a) (u2_x a) offset\<rparr>
      else \<lparr>u2_x = shf (u2_y a) (u2_x a) offset, u2_y = shf (u2_x a) (u2_y a) offset\<rparr>)"

text \<open>What the kernel needs of a rotation.\<close>

definition rotates :: "(uint2 \<Rightarrow> nat \<Rightarrow> uint2) \<Rightarrow> bool" where
  "rotates R \<longleftrightarrow> (\<forall>v n. 0 < n \<and> n < 64 \<and> n \<noteq> 32 \<longrightarrow> lane (R v n) = rol (lane v) n)"

lemma bit_high: "32 \<le> i \<Longrightarrow> \<not> bit (x :: u32) i" "64 \<le> i \<Longrightarrow> \<not> bit (w :: u64) i"
  using bit_imp_le_length [of x i] bit_imp_le_length [of w i] by auto

lemma bit_lane: "bit (lane v) i \<longleftrightarrow> (if i < 32 then bit (u2_x v) i else bit (u2_y v) (i - 32))"
proof (cases "i < 64")
  case False
  then show ?thesis by (simp add: bit_high)
qed (auto simp: lane_def bit_simps not_less possible_bit_def bit_high)

lemma bit_rol: "0 < n \<Longrightarrow> n < 64 \<Longrightarrow> bit (rol w n) i \<longleftrightarrow> i < 64 \<and> bit w (if n \<le> i then i - n else i + 64 - n)"
  by (auto simp: rol_def bit_simps not_le bit_high add.commute [of 64])

lemma rotates_half:
  assumes "0 < n" "n < 32" "\<And>a b. x a b = push_bit n a OR drop_bit (32 - n) (b :: u32)"
  shows "lane \<lparr>u2_x = x (u2_x v) (u2_y v), u2_y = x (u2_y v) (u2_x v)\<rparr> = rol (lane v) n"
    "lane \<lparr>u2_x = x (u2_y v) (u2_x v), u2_y = x (u2_x v) (u2_y v)\<rparr> = rol (lane v) (n + 32)"
proof -
  have cases: "P" if "i < n \<Longrightarrow> P" "n \<le> i \<Longrightarrow> i < 32 \<Longrightarrow> P" "32 \<le> i \<Longrightarrow> i < n + 32 \<Longrightarrow> P" "n + 32 \<le> i \<Longrightarrow> P" for i P
    using that by linarith
  show "lane \<lparr>u2_x = x (u2_x v) (u2_y v), u2_y = x (u2_y v) (u2_x v)\<rparr> = rol (lane v) n"
  proof (rule bit_word_eqI)
    fix i assume "i < LENGTH(64)"
    with assms(1,2) show "bit (lane \<lparr>u2_x = x (u2_x v) (u2_y v), u2_y = x (u2_y v) (u2_x v)\<rparr>) i \<longleftrightarrow> bit (rol (lane v) n) i"
      by (cases rule: cases [of i]) (auto simp: bit_rol bit_lane assms(3) bit_simps bit_high add.commute [of 32])
  qed
  show "lane \<lparr>u2_x = x (u2_y v) (u2_x v), u2_y = x (u2_x v) (u2_y v)\<rparr> = rol (lane v) (n + 32)"
  proof (rule bit_word_eqI)
    fix i assume "i < LENGTH(64)"
    with assms(1,2) show "bit (lane \<lparr>u2_x = x (u2_y v) (u2_x v), u2_y = x (u2_x v) (u2_y v)\<rparr>) i \<longleftrightarrow> bit (rol (lane v) (n + 32)) i"
      by (cases rule: cases [of i]) (auto simp: bit_rol bit_lane assms(3) bit_simps bit_high add.commute [of 32])
  qed
qed

lemma cl_shifts: "0 < n \<Longrightarrow> n < 32 \<Longrightarrow> cl_shl a n OR cl_shr b (32 - n) = push_bit n a OR drop_bit (32 - n) b"
  by (simp add: cl_shl_def cl_shr_def)

text \<open>
  The documented behaviour of the two devices' instructions: the 64-bit word of the two arguments,
  shifted right by an amount modulo 32, and shifted left, of which the upper half is taken.
\<close>

definition bitalign_doc :: "(u32 \<Rightarrow> u32 \<Rightarrow> nat \<Rightarrow> u32) \<Rightarrow> bool" where
  "bitalign_doc bitalign \<longleftrightarrow> (\<forall>a b n. bitalign a b n = ucast (drop_bit (n mod 32) (push_bit 32 (ucast a) OR ucast b :: u64)))"

definition shf_doc :: "(u32 \<Rightarrow> u32 \<Rightarrow> nat \<Rightarrow> u32) \<Rightarrow> bool" where
  "shf_doc shf \<longleftrightarrow> (\<forall>a b n. shf a b n = ucast (drop_bit 32 (push_bit (n mod 32) (push_bit 32 (ucast b) OR ucast a :: u64))))"

lemma bitalign_half:
  assumes "bitalign_doc f" "0 < n" "n < 32"
  shows "f a b (32 - n) = push_bit n a OR drop_bit (32 - n) b"
proof -
  have "f a b (32 - n) = ucast (drop_bit (32 - n) (push_bit 32 (ucast a) OR ucast b :: u64))"
    using assms by (simp only: bitalign_doc_def) simp
  also have "\<dots> = push_bit n a OR drop_bit (32 - n) b"
    using assms(2,3) by (intro bit_word_eqI) (auto simp: bit_simps bit_high not_le)
  finally show ?thesis .
qed

lemma shf_half:
  assumes "shf_doc f" "0 < n" "n < 32"
  shows "f a b n = push_bit n b OR drop_bit (32 - n) a" "f a b (n + 32) = push_bit n b OR drop_bit (32 - n) a"
proof -
  have "ucast (drop_bit 32 (push_bit n (push_bit 32 (ucast b) OR ucast a :: u64))) = push_bit n b OR drop_bit (32 - n) a"
    using assms(2,3) by (intro bit_word_eqI) (auto simp: bit_simps bit_high not_le)
  then show "f a b n = push_bit n b OR drop_bit (32 - n) a" "f a b (n + 32) = push_bit n b OR drop_bit (32 - n) a"
    using assms by (simp_all only: shf_doc_def) simp_all
qed

lemma rotatesI:
  assumes "\<And>v n. 0 < n \<Longrightarrow> n < 32 \<Longrightarrow> lane (R v n) = rol (lane v) n"
    and "\<And>v n. 0 < n \<Longrightarrow> n < 32 \<Longrightarrow> lane (R v (n + 32)) = rol (lane v) (n + 32)"
  shows "rotates R"
  unfolding rotates_def
proof (intro allI impI, elim conjE)
  fix v n assume n: "0 < n" "n < 64" "n \<noteq> (32 :: nat)"
  show "lane (R v n) = rol (lane v) n"
  proof (cases "n < 32")
    case False
    then have "n = (n - 32) + 32" "0 < n - 32" "n - 32 < 32" using n by simp_all
    then show ?thesis using assms(2) [of "n - 32" v] by simp
  qed (use assms(1) n in blast)
qed

lemmas rotates_halves = rotates_half [where x = "\<lambda>a b. push_bit n a OR drop_bit (32 - n) b" and n = n for n, simplified]

lemma ROL2_rotates: "rotates ROL2"
  by (rule rotatesI) (simp_all add: ROL2_def cl_shifts rotates_halves)

lemma ROL2_amd_rotates: "bitalign_doc bitalign \<Longrightarrow> rotates (ROL2_amd bitalign)"
  by (rule rotatesI) (simp_all add: ROL2_amd_def bitalign_half rotates_halves)

lemma ROL2_nv_rotates: "shf_doc shf \<Longrightarrow> rotates (ROL2_nv shf)"
  by (rule rotatesI) (simp_all add: ROL2_nv_def shf_half rotates_halves)

section \<open>The rounds on the device\<close>

definition U2 :: "u32 \<Rightarrow> u32 \<Rightarrow> uint2" where "U2 x y = \<lparr>u2_x = x, u2_y = y\<rparr>"

definition Keccak_f1600_RC :: "uint2 list" where
  "Keccak_f1600_RC =
    [U2 0x00000001 0x00000000, U2 0x00008082 0x00000000, U2 0x0000808a 0x80000000, U2 0x80008000 0x80000000,
     U2 0x0000808b 0x00000000, U2 0x80000001 0x00000000, U2 0x80008081 0x80000000, U2 0x00008009 0x80000000,
     U2 0x0000008a 0x00000000, U2 0x00000088 0x00000000, U2 0x80008009 0x00000000, U2 0x8000000a 0x00000000,
     U2 0x8000808b 0x00000000, U2 0x0000008b 0x80000000, U2 0x00008089 0x80000000, U2 0x00008003 0x80000000,
     U2 0x00008002 0x80000000, U2 0x00000080 0x80000000, U2 0x0000800a 0x00000000, U2 0x8000000a 0x80000000,
     U2 0x80008081 0x80000000, U2 0x00008080 0x80000000, U2 0x80000001 0x00000000, U2 0x80008008 0x80000000]"

text \<open>One pass of the loop of \<open>keccak_2\<close>: theta, rho with pi, and chi with iota, in place.\<close>

definition xor_lanes :: "uint2 \<Rightarrow> nat list \<Rightarrow> uint2 list \<Rightarrow> uint2 list" where
  "xor_lanes d is st = fold (\<lambda>i st. st[i := u2_xor (st ! i) d]) is st"

definition k2_parity :: "uint2 list \<Rightarrow> nat \<Rightarrow> uint2" where
  "k2_parity st x =
     u2_xor (u2_xor (u2_xor (u2_xor (st ! x) (st ! (x + 5))) (st ! (x + 10))) (st ! (x + 15))) (st ! (x + 20))"

definition k2_theta :: "(uint2 \<Rightarrow> nat \<Rightarrow> uint2) \<Rightarrow> uint2 list \<Rightarrow> uint2 list" where
  "k2_theta R st =
     (let C0 = k2_parity st 0; C1 = k2_parity st 1; C2 = k2_parity st 2; C3 = k2_parity st 3; C4 = k2_parity st 4;
          st = xor_lanes (u2_xor (R C1 1) C4) [0, 5, 10, 15, 20] st;
          st = xor_lanes (u2_xor (R C2 1) C0) [1, 6, 11, 16, 21] st;
          st = xor_lanes (u2_xor (R C3 1) C1) [2, 7, 12, 17, 22] st;
          st = xor_lanes (u2_xor (R C4 1) C2) [3, 8, 13, 18, 23] st
      in xor_lanes (u2_xor (R C0 1) C3) [4, 9, 14, 19, 24] st)"

definition k2_rho_pi :: "(uint2 \<Rightarrow> nat \<Rightarrow> uint2) \<Rightarrow> uint2 list \<Rightarrow> uint2 list" where
  "k2_rho_pi R st =
     (let C0 = st ! 1;
          st = fold (\<lambda>(d, s, n) st. st[d := R (st ! s) n])
       [(1, 6, 44), (6, 9, 20), (9, 22, 61), (22, 14, 39), (14, 20, 18), (20, 2, 62), (2, 12, 43), (12, 13, 25),
        (13, 19, 8), (19, 23, 56), (23, 15, 41), (15, 4, 27), (4, 24, 14), (24, 21, 2), (21, 8, 55), (8, 16, 45),
        (16, 5, 36), (5, 3, 28), (3, 18, 21), (18, 17, 15), (17, 11, 10), (11, 7, 6), (7, 10, 3)] st
      in st[10 := R C0 1])"

definition k2_chi_row :: "nat \<Rightarrow> (uint2 \<Rightarrow> uint2) \<Rightarrow> uint2 list \<Rightarrow> uint2 list" where
  "k2_chi_row y rc st =
     (let C0 = st ! y; C1 = st ! (y + 1);
          st = st[y := cl_chi (st ! y) (st ! (y + 1)) (st ! (y + 2))];
          st = st[y := rc (st ! y)];
          st = st[y + 1 := cl_chi (st ! (y + 1)) (st ! (y + 2)) (st ! (y + 3))];
          st = st[y + 2 := cl_chi (st ! (y + 2)) (st ! (y + 3)) (st ! (y + 4))];
          st = st[y + 3 := cl_chi (st ! (y + 3)) (st ! (y + 4)) C0]
      in st[y + 4 := cl_chi (st ! (y + 4)) C0 C1])"

definition k2_chis :: "nat \<Rightarrow> uint2 list \<Rightarrow> uint2 list" where
  "k2_chis i st =
     k2_chi_row 20 id (k2_chi_row 15 id (k2_chi_row 10 id (k2_chi_row 5 id
       (k2_chi_row 0 (\<lambda>a. u2_xor a (Keccak_f1600_RC ! i)) st))))"

definition k2_round :: "(uint2 \<Rightarrow> nat \<Rightarrow> uint2) \<Rightarrow> nat \<Rightarrow> uint2 list \<Rightarrow> uint2 list" where
  "k2_round R i st = k2_chis i (k2_rho_pi R (k2_theta R st))"

definition keccak_2 :: "(uint2 \<Rightarrow> nat \<Rightarrow> uint2) \<Rightarrow> uint2 list \<Rightarrow> nat \<Rightarrow> nat \<Rightarrow> uint2 list" where
  "keccak_2 R st first_round rounds = fold (k2_round R) [first_round..<rounds] st"

text \<open>
  The rounds with a second array, which the file also has: \<open>keccak_f1600_round\<close>, and \<open>keccak_final_round\<close>,
  which computes only the first lane.
\<close>

definition chi5 :: "uint2 list \<Rightarrow> nat \<Rightarrow> uint2 list \<Rightarrow> uint2 list" where
  "chi5 a n t =
     (let a = a[n + 0 := bitselect (u2_xor (t ! (n + 0)) (t ! (n + 2))) (t ! (n + 0)) (t ! (n + 1))];
          a = a[n + 1 := bitselect (u2_xor (t ! (n + 1)) (t ! (n + 3))) (t ! (n + 1)) (t ! (n + 2))];
          a = a[n + 2 := bitselect (u2_xor (t ! (n + 2)) (t ! (n + 4))) (t ! (n + 2)) (t ! (n + 3))];
          a = a[n + 3 := bitselect (u2_xor (t ! (n + 3)) (t ! (n + 0))) (t ! (n + 3)) (t ! (n + 4))]
      in a[n + 4 := bitselect (u2_xor (t ! (n + 4)) (t ! (n + 1))) (t ! (n + 4)) (t ! (n + 0))])"

definition f1600_theta :: "(uint2 \<Rightarrow> nat \<Rightarrow> uint2) \<Rightarrow> uint2 list \<Rightarrow> uint2 list" where
  "f1600_theta R a =
     (let t0 = k2_parity a 0; t1 = k2_parity a 1; t2 = k2_parity a 2; t3 = k2_parity a 3; t4 = k2_parity a 4;
          a = xor_lanes (u2_xor t4 (R t1 1)) [0, 5, 10, 15, 20] a;
          a = xor_lanes (u2_xor t0 (R t2 1)) [1, 6, 11, 16, 21] a;
          a = xor_lanes (u2_xor t1 (R t3 1)) [2, 7, 12, 17, 22] a;
          a = xor_lanes (u2_xor t2 (R t4 1)) [3, 8, 13, 18, 23] a
      in xor_lanes (u2_xor t3 (R t0 1)) [4, 9, 14, 19, 24] a)"

definition f1600_rho_pi :: "(uint2 \<Rightarrow> nat \<Rightarrow> uint2) \<Rightarrow> uint2 list \<Rightarrow> uint2 list \<Rightarrow> uint2 list" where
  "f1600_rho_pi R a t =
     fold (\<lambda>(d, s, n) t. t[d := R (a ! s) n])
       [(10, 1, 1), (20, 2, 62), (5, 3, 28), (15, 4, 27), (16, 5, 36), (1, 6, 44), (11, 7, 6), (21, 8, 55),
        (6, 9, 20), (7, 10, 3), (17, 11, 10), (2, 12, 43), (12, 13, 25), (22, 14, 39), (23, 15, 41), (8, 16, 45),
        (18, 17, 15), (3, 18, 21), (13, 19, 8), (14, 20, 18), (24, 21, 2), (9, 22, 61), (19, 23, 56), (4, 24, 14)] (t[0 := a ! 0])"

definition f1600_chi :: "nat \<Rightarrow> uint2 list \<Rightarrow> uint2 list \<Rightarrow> uint2 list" where
  "f1600_chi r a t =
     (let a = chi5 a 0 t;
          a = a[0 := u2_xor (a ! 0) (Keccak_f1600_RC ! r)];
          a = chi5 a 5 t; a = chi5 a 10 t; a = chi5 a 15 t
      in chi5 a 20 t)"

definition keccak_f1600_round :: "(uint2 \<Rightarrow> nat \<Rightarrow> uint2) \<Rightarrow> uint2 list \<Rightarrow> uint2 list \<Rightarrow> nat \<Rightarrow> uint2 list" where
  "keccak_f1600_round R t a r =
     (let a = f1600_theta R a in f1600_chi r a (f1600_rho_pi R a t))"

definition keccak_final_round :: "(uint2 \<Rightarrow> nat \<Rightarrow> uint2) \<Rightarrow> uint2 list \<Rightarrow> uint2 list" where
  "keccak_final_round R a =
     (let t0 = k2_parity a 0; t1 = k2_parity a 1; t2 = k2_parity a 2; t3 = k2_parity a 3; t4 = k2_parity a 4;
          a = a[0 := u2_xor (a ! 0) (u2_xor (R t1 1) t4)];
          a = a[6 := u2_xor (a ! 6) (u2_xor (R t2 1) t0)];
          a = a[12 := u2_xor (a ! 12) (u2_xor (R t3 1) t1)];
          a = a[1 := R (a ! 6) 44];
          a = a[2 := R (a ! 12) 43];
          a = a[0 := cl_chi (a ! 0) (a ! 1) (a ! 2)]
      in a[0 := u2_xor (a ! 0) (Keccak_f1600_RC ! 23)])"

text \<open>
  \<open>keccak_first_round\<close>: the lanes that depend on the work item are mixed into what the host has prepared,
  and then chi and iota. The array \<open>state\<close> is not initialised.
\<close>

definition fr_mix :: "(uint2 \<Rightarrow> nat \<Rightarrow> uint2) \<Rightarrow> uint2 list \<Rightarrow> uint2 \<Rightarrow> uint2 list \<Rightarrow> uint2 list" where
  "fr_mix R d_mid gid st =
     fold (\<lambda>(i, n) st. st[i := u2_xor (d_mid ! i) (R gid n)])
       [(2, 44), (4, 14), (6, 20), (9, 62), (11, 7), (13, 8), (15, 27), (18, 16), (20, 63), (21, 55), (22, 39)] st"

definition fr_row0 :: "uint2 list \<Rightarrow> uint2 list \<Rightarrow> uint2 list" where
  "fr_row0 d st =
     (let st = st[0 := cl_chi (d ! 0) (d ! 1) (st ! 2)];
          st = st[0 := u2_xor (st ! 0) (Keccak_f1600_RC ! 0)];
          st = st[1 := cl_chi (d ! 1) (st ! 2) (d ! 3)];
          st = st[2 := cl_chi (st ! 2) (d ! 3) (st ! 4)];
          st = st[3 := cl_chi (d ! 3) (st ! 4) (d ! 0)]
      in st[4 := cl_chi (st ! 4) (d ! 0) (d ! 1)])"

definition fr_row1 :: "uint2 list \<Rightarrow> uint2 list \<Rightarrow> uint2 list" where
  "fr_row1 d st =
     (let C0 = st ! 6;
          st = st[5 := cl_chi (d ! 5) C0 (d ! 7)];
          st = st[6 := cl_chi C0 (d ! 7) (d ! 8)];
          st = st[7 := cl_chi (d ! 7) (d ! 8) (st ! 9)];
          st = st[8 := cl_chi (d ! 8) (st ! 9) (d ! 5)]
      in st[9 := cl_chi (st ! 9) (d ! 5) C0])"

definition fr_row2 :: "uint2 list \<Rightarrow> uint2 list \<Rightarrow> uint2 list" where
  "fr_row2 d st =
     (let C0 = st ! 11;
          st = st[10 := cl_chi (d ! 10) C0 (d ! 12)];
          st = st[11 := cl_chi C0 (d ! 12) (st ! 13)];
          st = st[12 := cl_chi (d ! 12) (st ! 13) (d ! 14)];
          st = st[13 := cl_chi (st ! 13) (d ! 14) (d ! 10)]
      in st[14 := cl_chi (d ! 14) (d ! 10) C0])"

definition fr_row3 :: "uint2 list \<Rightarrow> uint2 list \<Rightarrow> uint2 list" where
  "fr_row3 d st =
     (let C0 = st ! 15;
          st = st[15 := cl_chi C0 (d ! 16) (d ! 17)];
          st = st[16 := cl_chi (d ! 16) (d ! 17) (st ! 18)];
          st = st[17 := cl_chi (d ! 17) (st ! 18) (d ! 19)];
          st = st[18 := cl_chi (st ! 18) (d ! 19) C0]
      in st[19 := cl_chi (d ! 19) C0 (d ! 16)])"

definition fr_row4 :: "uint2 list \<Rightarrow> uint2 list \<Rightarrow> uint2 list" where
  "fr_row4 d st =
     (let C0 = st ! 20; C1 = st ! 21;
          st = st[20 := cl_chi C0 C1 (st ! 22)];
          st = st[21 := cl_chi C1 (st ! 22) (d ! 23)];
          st = st[22 := cl_chi (st ! 22) (d ! 23) (d ! 24)];
          st = st[23 := cl_chi (d ! 23) (d ! 24) C0]
      in st[24 := cl_chi (d ! 24) C0 C1])"

definition keccak_first_round :: "(uint2 \<Rightarrow> nat \<Rightarrow> uint2) \<Rightarrow> uint2 list \<Rightarrow> uint2 list \<Rightarrow> uint2 \<Rightarrow> uint2 list" where
  "keccak_first_round R st d_mid gid =
     fr_row4 d_mid (fr_row3 d_mid (fr_row2 d_mid (fr_row1 d_mid (fr_row0 d_mid (fr_mix R d_mid gid st)))))"

section \<open>The host's part of the first round\<close>

definition ROTL64 :: "u64 \<Rightarrow> nat \<Rightarrow> u64" where
  "ROTL64 x y = push_bit y x XOR drop_bit (64 - y) x"

text \<open>\<open>keccak_precomp\<close> on the eleven words of the message; \<open>message[8]\<close>, the work item's, is not used.\<close>

definition keccak_precomp :: "u64 list \<Rightarrow> u64 list" where
  "keccak_precomp message =
     (let C0 = message ! 0 XOR message ! 5 XOR message ! 10 XOR 0x100000000;
          C1 = message ! 1 XOR message ! 6 XOR 0x8000000000000000;
          C2 = message ! 2 XOR message ! 7;
          C3 = message ! 4 XOR message ! 9;
          D0 = ROTL64 C1 1 XOR C3;
          D1 = ROTL64 C2 1 XOR C0;
          D2 = ROTL64 (message ! 3) 1 XOR C1;
          D3 = ROTL64 C3 1 XOR C2;
          D4 = ROTL64 C0 1 XOR message ! 3
      in [message ! 0 XOR D0,
          ROTL64 (message ! 6 XOR D1) 44,
          ROTL64 D2 43,
          ROTL64 D3 21,
          ROTL64 D4 14,
          ROTL64 (message ! 3 XOR D3) 28,
          ROTL64 (message ! 9 XOR D4) 20,
          ROTL64 (message ! 10 XOR D0 XOR 0x100000000) 3,
          ROTL64 (0x8000000000000000 XOR D1) 45,
          ROTL64 D2 61,
          ROTL64 (message ! 1 XOR D1) 1,
          ROTL64 (message ! 7 XOR D2) 6,
          ROTL64 D3 25,
          ROTL64 D4 8,
          ROTL64 D0 18,
          ROTL64 (message ! 4 XOR D4) 27,
          ROTL64 (message ! 5 XOR D0) 36,
          ROTL64 D1 10,
          ROTL64 D2 15,
          ROTL64 D3 56,
          ROTL64 (message ! 2 XOR D2) 62,
          ROTL64 D3 55,
          ROTL64 D4 39,
          ROTL64 D0 41,
          ROTL64 D1 2])"

section \<open>The kernels\<close>

text \<open>The bytes of \<open>state[0]\<close>, reversed: the upper 64 bits of the digest as a number.\<close>

definition byte_swap :: "u64 \<Rightarrow> u64" where
  "byte_swap w = word_of_nat (be_val (rev (toBigEndian (unat w) 8)))"

definition kernel_state :: "(uint2 \<Rightarrow> nat \<Rightarrow> uint2) \<Rightarrow> uint2 list \<Rightarrow> u64 list \<Rightarrow> u64 \<Rightarrow> uint2 list" where
  "kernel_state R st precomp gid =
     keccak_2 R (keccak_first_round R st (map to_uint2 precomp) (to_uint2 gid)) 1 24"

text \<open>What a work item of \<open>bitcoin0x_search\<close> decides.\<close>

definition item_solves :: "(uint2 \<Rightarrow> nat \<Rightarrow> uint2) \<Rightarrow> uint2 list \<Rightarrow> u64 list \<Rightarrow> u64 \<Rightarrow> u64 \<Rightarrow> bool" where
  "item_solves R st precomp target gid \<longleftrightarrow> byte_swap (lane (kernel_state R st precomp gid ! 0)) < target"

text \<open>\<open>test_keccak\<close>: only the work item \<open>isolate\<close> writes the output.\<close>

definition test_keccak :: "(uint2 \<Rightarrow> nat \<Rightarrow> uint2) \<Rightarrow> uint2 list \<Rightarrow> u64 list \<Rightarrow> u32 \<Rightarrow> u64 \<Rightarrow> uint2 \<Rightarrow> uint2" where
  "test_keccak R st precomp isolate gid output =
     (if gid \<noteq> ucast isolate then output else kernel_state R st precomp gid ! 0)"

section \<open>Lemmas: the rounds are those of the permutation\<close>

lemma lane_xor: "lane (u2_xor a b) = lane a XOR lane b"
  by (rule bit_word_eqI) (auto simp: bit_lane bit_simps u2_xor_def)

lemma lane_chi: "lane (cl_chi a b c) = lane a XOR (NOT (lane b) AND lane c)"
  by (rule bit_word_eqI) (auto simp: bit_lane bit_simps u2_xor_def cl_chi_def bitselect_def)

lemma lane_to_uint2 [simp]: "lane (to_uint2 w) = w"
proof -
  have mask: "0xffffffff = (mask 32 :: u64)" by (simp add: mask_eq_exp_minus_1)
  show ?thesis unfolding to_uint2_def mask by (intro bit_word_eqI) (auto simp: bit_lane bit_simps bit_high)
qed

lemma lane_RC: "i < 24 \<Longrightarrow> lane (Keccak_f1600_RC ! i) = RC ! i"
proof -
  have "map lane Keccak_f1600_RC = RC" by (simp add: Keccak_f1600_RC_def RC_def lane_def U2_def)
  moreover have "length Keccak_f1600_RC = 24" by (simp add: Keccak_f1600_RC_def)
  ultimately show "i < 24 \<Longrightarrow> lane (Keccak_f1600_RC ! i) = RC ! i" by (metis nth_map)
qed

lemma length25_lanes:
  assumes "length a = 25"
  obtains a0 a1 a2 a3 a4 a5 a6 a7 a8 a9 a10 a11 a12 a13 a14 a15 a16 a17 a18 a19 a20 a21 a22 a23 a24 :: uint2
  where "a = [a0, a1, a2, a3, a4, a5, a6, a7, a8, a9, a10, a11, a12, a13, a14, a15, a16, a17, a18, a19, a20, a21, a22, a23, a24]"
  using assms by (auto simp: numeral_eq_Suc length_Suc_conv)

lemma rotatesD: "rotates R \<Longrightarrow> 0 < n \<Longrightarrow> n < 64 \<Longrightarrow> n \<noteq> 32 \<Longrightarrow> lane (R v n) = rol (lane v) n"
  by (simp add: rotates_def)

lemma map_theta: "rotates R \<Longrightarrow> length st = 25 \<Longrightarrow> map lane (k2_theta R st) = theta (map lane st)"
  by (erule length25_lanes)
    (simp add: k2_theta_def k2_parity_def xor_lanes_def theta_def theta_b_def Let_def lane_xor rotatesD ac_simps)

lemma map_rho_pi: "rotates R \<Longrightarrow> length st = 25 \<Longrightarrow> map lane (k2_rho_pi R st) = rho_pi (map lane st)"
  by (erule length25_lanes) (simp add: k2_rho_pi_def rho_pi_def pi_idx_def rho_def Let_def rotatesD)

lemma map_chis: "i < 24 \<Longrightarrow> length st = 25 \<Longrightarrow> map lane (k2_chis i st) = Keccak.iota i (Keccak.chi (map lane st))"
  by (erule length25_lanes)
    (simp add: k2_chis_def k2_chi_row_def Keccak.chi_def chi_row_def iota_def Let_def lane_xor lane_chi lane_RC)

lemma map_round:
  assumes "rotates R" "length st = 25" "i < 24"
  shows "map lane (k2_round R i st) = keccak_round i (map lane st)" "length (k2_round R i st) = 25"
proof -
  have eq: "k2_round R i st = k2_chis i (k2_rho_pi R (k2_theta R st))"
    by (rule k2_round_def)
  have len: "length (theta a) = 25" "length (rho_pi a) = 25" "length (Keccak.iota i (Keccak.chi a)) = 25" if "length a = 25" for a
    using that assms(3) by (simp_all add: theta_spec rho_pi_spec chi_spec iota_spec)
  have l1: "length (k2_theta R st) = 25"
    using map_theta [OF assms(1,2)] len(1) [of "map lane st"] assms(2) by (metis length_map)
  have l2: "length (k2_rho_pi R (k2_theta R st)) = 25"
    using map_rho_pi [OF assms(1) l1] len(2) [of "map lane (k2_theta R st)"] l1 by (metis length_map)
  show map: "map lane (k2_round R i st) = keccak_round i (map lane st)"
    by (simp add: eq map_chis [OF assms(3) l2] map_rho_pi [OF assms(1) l1] map_theta [OF assms(1,2)] keccak_round_def)
  show "length (k2_round R i st) = 25"
    unfolding eq using map_chis [OF assms(3) l2] len(3) [of "map lane (k2_rho_pi R (k2_theta R st))"] l2 by (metis length_map)
qed

lemma map_keccak_2:
  assumes "rotates R" "length st = 25" "n \<le> 24"
  shows "map lane (keccak_2 R st k n) = fold keccak_round [k..<n] (map lane st) \<and> length (keccak_2 R st k n) = 25"
  using assms(3)
proof (induction n)
  case 0
  then show ?case using assms(2) by (simp add: keccak_2_def)
next
  case (Suc n)
  have step: "keccak_2 R st k (Suc n) = (if k \<le> n then k2_round R n (keccak_2 R st k n) else st)"
    by (simp add: keccak_2_def)
  from Suc.prems have "n \<le> 24" "n < 24" by simp_all
  with Suc.IH show ?case
    using map_round [OF assms(1), of "keccak_2 R st k n" n] assms(2) unfolding step by simp
qed

text \<open>The rounds with a second array are the same permutation, and the short final round its first lane.\<close>

lemma map_f1600_theta: "rotates R \<Longrightarrow> length a = 25 \<Longrightarrow> map lane (f1600_theta R a) = theta (map lane a)"
  by (erule length25_lanes)
    (simp add: f1600_theta_def k2_parity_def xor_lanes_def theta_def theta_b_def Let_def lane_xor rotatesD ac_simps)

lemma map_f1600_rho_pi:
  "rotates R \<Longrightarrow> length a = 25 \<Longrightarrow> length t = 25 \<Longrightarrow> map lane (f1600_rho_pi R a t) = rho_pi (map lane a)"
  by (elim length25_lanes) (simp add: f1600_rho_pi_def rho_pi_def pi_idx_def rho_def Let_def rotatesD)

lemma lane_chi5: "lane (bitselect (u2_xor a c) a b) = lane a XOR (NOT (lane b) AND lane c)"
  using lane_chi [of a b c] by (simp add: cl_chi_def)

lemma map_f1600_chi:
  "r < 24 \<Longrightarrow> length a = 25 \<Longrightarrow> length t = 25 \<Longrightarrow> map lane (f1600_chi r a t) = Keccak.iota r (Keccak.chi (map lane t))"
  by (elim length25_lanes) (simp add: f1600_chi_def chi5_def Keccak.chi_def chi_row_def iota_def Let_def lane_xor lane_chi5 lane_RC)

lemma map_f1600_round:
  assumes "rotates R" "length a = 25" "length t = 25" "r < 24"
  shows "map lane (keccak_f1600_round R t a r) = keccak_round r (map lane a)"
proof -
  have th: "map lane (f1600_theta R a) = theta (map lane a)" by (rule map_f1600_theta [OF assms(1,2)])
  then have l1: "length (f1600_theta R a) = 25"
    using theta_spec [of "map lane a"] assms(2) by (metis length_list_of_lanes length_map)
  have rp: "map lane (f1600_rho_pi R (f1600_theta R a) t) = rho_pi (theta (map lane a))"
    using map_f1600_rho_pi [OF assms(1) l1 assms(3)] th by simp
  then have l2: "length (f1600_rho_pi R (f1600_theta R a) t) = 25"
    using rho_pi_spec [of "theta (map lane a)"] l1 th by (metis length_list_of_lanes length_map)
  show ?thesis using map_f1600_chi [OF assms(4) l1 l2] rp by (simp add: keccak_f1600_round_def keccak_round_def Let_def)
qed

lemma final_round_lane:
  assumes "rotates R" "length a = 25"
  shows "lane (keccak_final_round R a ! 0) = keccak_round 23 (map lane a) ! 0"
  using assms(2) unfolding keccak_round_spec [of "map lane a" 23, simplified, OF assms(2)]
  by (elim length25_lanes)
    (simp add: keccak_final_round_def k2_parity_def Let_def lane_xor lane_chi lane_RC rotatesD [OF assms(1)] on_list_def
      round_constant_RC list_of_lanes_def spec_round_def spec_iota_def spec_chi_def spec_rho_pi_def spec_theta_def rot_offset_def
      lanes_of_list_def rol_0 ac_simps)

section \<open>Lemmas: the first round\<close>

lemma rol_xor: "rol (x XOR y) n = rol x n XOR rol y n"
  by (rule bit_word_eqI) (auto simp: rol_def bit_simps bit_high)

lemma rol_zero [simp]: "rol 0 n = 0"
  by (simp add: rol_def)

lemma rol_rol: "0 < a \<Longrightarrow> 0 < b \<Longrightarrow> a + b < 64 \<Longrightarrow> rol (rol x a) b = rol x (a + b)"
  by (rule bit_word_eqI) (auto simp: bit_rol add.commute [of b a])

lemma ROTL64_rol: "0 < n \<Longrightarrow> n < 64 \<Longrightarrow> ROTL64 x n = rol x n"
  by (rule bit_word_eqI) (auto simp: ROTL64_def rol_def bit_simps bit_high)

text \<open>The state that absorbs the message and the padding, with the work item's word \<open>g\<close>.\<close>

definition first_state :: "u64 list \<Rightarrow> u64 \<Rightarrow> u64 list" where
  "first_state m g =
     take 8 m @ [g, m ! 9, m ! 10 XOR 0x100000000, 0, 0, 0, 0, 0, 0x8000000000000000, 0, 0, 0, 0, 0, 0, 0, 0]"

definition mixed :: "u64 list \<Rightarrow> u64 \<Rightarrow> u64 list" where
  "mixed d g = fold (\<lambda>(i, n) d. d[i := d ! i XOR rol g n])
     [(2, 44), (4, 14), (6, 20), (9, 62), (11, 7), (13, 8), (15, 27), (18, 16), (20, 63), (21, 55), (22, 39)] d"

lemma length11_cases:
  assumes "length m = 11"
  obtains m0 m1 m2 m3 m4 m5 m6 m7 m8 m9 m10 where "m = [m0, m1, m2, m3, m4, m5, m6, m7, m8, m9, m10]"
  using assms by (auto simp: numeral_eq_Suc length_Suc_conv)

lemma rol_padding: "rol 0x8000000100000000 n = rol 0x100000000 n XOR rol 0x8000000000000000 n"
  using rol_xor [of "0x100000000" "0x8000000000000000" n] by simp

lemma precomp_mixed:
  assumes "length m = 11"
  shows "rho_pi (theta (first_state m g)) = mixed (keccak_precomp m) g"
  using assms
  by (rule length11_cases)
    (simp add: first_state_def mixed_def keccak_precomp_def theta_def theta_b_def rho_pi_def pi_idx_def rho_def Let_def
      ROTL64_rol rol_xor rol_rol rol_padding ac_simps)

lemma map_first_mixed:
  assumes "rotates R" "length st = 25" "length d = 25"
  shows "map lane (keccak_first_round R st d gid) = Keccak.iota 0 (Keccak.chi (mixed (map lane d) (lane gid)))"
  using assms(2,3)
  by (elim length25_lanes)
    (simp add: keccak_first_round_def fr_mix_def fr_row0_def fr_row1_def fr_row2_def fr_row3_def fr_row4_def mixed_def
      Keccak.chi_def chi_row_def iota_def Let_def lane_xor lane_chi lane_RC rotatesD [OF assms(1)])

lemma map_first_round:
  assumes "rotates R" "length st = 25" "length m = 11"
  shows "map lane (keccak_first_round R st (map to_uint2 (keccak_precomp m)) (to_uint2 g)) = keccak_round 0 (first_state m g)"
proof -
  have d: "length (map to_uint2 (keccak_precomp m)) = 25" by (simp add: keccak_precomp_def Let_def)
  have "map lane (map to_uint2 xs) = xs" for xs by (induction xs) simp_all
  with map_first_mixed [OF assms(1,2) d, of "to_uint2 g"] precomp_mixed [OF assms(3), of g] show ?thesis
    by (simp add: keccak_round_def)
qed

lemma kernel_state_lanes:
  assumes "rotates R" "length st = 25" "length m = 11"
  shows "map lane (kernel_state R st (keccak_precomp m) g) = keccakf_lanes (first_state m g)"
proof -
  let ?s1 = "keccak_first_round R st (map to_uint2 (keccak_precomp m)) (to_uint2 g)"
  have eq: "map lane ?s1 = keccak_round 0 (first_state m g)" by (rule map_first_round [OF assms])
  have "length (keccak_round 0 (first_state m g)) = 25"
    using assms(3) by (simp add: keccak_round_spec first_state_def)
  with eq have len: "length ?s1 = 25" by (metis length_map)
  have upt: "[0..<24] = 0 # [Suc 0..<24]" by (rule upt_conv_Cons) simp
  from map_keccak_2 [OF assms(1) len, of 24 "Suc 0"] show ?thesis
    unfolding keccakf_lanes_def upt by (simp add: kernel_state_def eq)
qed

section \<open>Lemmas: the digest\<close>

definition le8 :: "u64 \<Rightarrow> bytes" where
  "le8 w = rev (toBigEndian (unat w) 8)"

lemma length_le8 [simp]: "length (le8 w) = 8"
  by (simp add: le8_def)

lemma le8_value [simp]: "word_of_nat (be_val (rev (le8 w))) = w"
proof -
  have "unat w < 256 ^ 8" using unsigned_less [of w, where 'a = nat] by simp
  then show ?thesis by (simp add: le8_def be_val_toBigEndian)
qed

lemma lane_at_append:
  assumes "length a = 8 * k"
  shows "map (lane_at (a @ b)) [0..<k + n] = map (lane_at a) [0..<k] @ map (lane_at b) [0..<n]"
proof -
  have low: "lane_at (a @ b) i = lane_at a i" if "i < k" for i
    using that assms by (simp add: lane_at_def)
  have high: "lane_at (a @ b) i = lane_at b (i - k)" if "k \<le> i" for i
    using that assms by (simp add: lane_at_def diff_mult_distrib2)
  show ?thesis by (rule nth_equalityI) (auto simp: nth_append low high)
qed

lemma lane_at_single:
  "length a = 8 \<Longrightarrow> map (lane_at (a @ b)) [0..<Suc n] = word_of_nat (be_val (rev a)) # map (lane_at b) [0..<n]"
  using lane_at_append [of a 1 b n] by (simp add: lane_at_def)

lemma lanes_words: "map (lane_at (concat (map le8 ws))) [0..<length ws] = ws"
proof (induction ws)
  case (Cons w ws)
  then show ?case using lane_at_single [of "le8 w" "concat (map le8 ws)" "length ws"] by (simp del: upt_Suc)
qed simp

lemma padding_word:
  assumes "length t = 4"
  shows "word_of_nat (be_val (rev (t @ [1, 0, 0, 0]))) = (word_of_nat (be_val (rev (t @ [0, 0, 0, 0]))) XOR 0x100000000 :: u64)"
proof -
  have x: "be_val (rev t) < 2 ^ 32" using be_val_lt [of "rev t"] assms by simp
  then have low: "\<not> bit (be_val (rev t)) 32" by (simp add: bit_iff_odd)
  have p: "(0x100000000 :: u64) = push_bit 32 1" by simp
  have "(word_of_nat (be_val (rev t)) :: u64) AND push_bit 32 1 = 0"
    using low by (intro bit_word_eqI) (auto simp: bit_simps bit_1_iff le_less simp del: push_bit_of_1)
  then have "word_of_nat (be_val (rev t)) + push_bit 32 1 = (word_of_nat (be_val (rev t)) XOR push_bit 32 1 :: u64)"
    by (rule disjunctive_add_eq_xor)
  then show ?thesis using assms unfolding p [symmetric] by (simp add: be_val_Cons be_val_append add.commute)
qed

text \<open>The message with its padding, as the first state.\<close>

definition padding_words :: "u64 list" where
  "padding_words = [0, 0, 0, 0, 0, 0x8000000000000000, 0, 0, 0, 0, 0, 0, 0, 0]"

lemma toBigEndian_zero: "toBigEndian 0 n = replicate n 0"
  by (induction n) (simp_all add: replicate_append_same)

lemma zero_words: "concat (map le8 (replicate n 0)) = replicate (8 * n) 0"
  by (induction n) (simp_all add: le8_def toBigEndian_zero replicate_add)

lemma xorin_zero: "length b \<le> n \<Longrightarrow> xorin (replicate n 0) b = b @ replicate (n - length b) 0"
  by (rule nth_equalityI) (auto simp: nth_xorin nth_append)

lemma be_val_zeros [simp]: "be_val (replicate n 0) = 0"
  by (induction n) (simp_all add: be_val_Cons)

lemma top_byte: "le8 0x8000000000000000 = replicate 7 0 @ [0x80]"
proof -
  let ?b = "0x80 # replicate 7 0 :: bytes"
  have val: "be_val ?b = 0x8000000000000000"
    unfolding be_val_Cons by (simp only: be_val_zeros length_replicate) simp
  have "length ?b = 8" by (simp only: length_Cons length_replicate)
  then have "toBigEndian (be_val ?b) 8 = ?b"
    by (metis be_val_inj be_val_lt be_val_toBigEndian length_toBigEndian mod_less)
  then have "rev (toBigEndian 0x8000000000000000 8) = rev ?b" unfolding val by (rule arg_cong)
  also have "\<dots> = replicate 7 0 @ [0x80]" by (simp only: rev.simps rev_replicate)
  finally show ?thesis unfolding le8_def by simp
qed

lemma padding_bytes:
  "sponge_pad 136 1 84 @ replicate 64 0 = [1, 0, 0, 0] @ concat (map le8 padding_words)"
proof -
  have words: "padding_words = replicate 5 0 @ 0x8000000000000000 # replicate 8 0"
    by (simp add: padding_words_def numeral_eq_Suc)
  have "concat (map le8 padding_words) = replicate (8 * 5) 0 @ (replicate 7 0 @ [0x80]) @ replicate (8 * 8) 0"
    by (simp only: words map_append list.map concat_append concat.simps zero_words top_byte)
  moreover have "replicate 50 (0 :: byte) = replicate 3 0 @ replicate (8 * 5) 0 @ replicate 7 0"
    unfolding replicate_add [symmetric] by simp
  moreover have "replicate 3 (0 :: byte) = [0, 0, 0]" by (simp add: numeral_eq_Suc)
  ultimately show ?thesis by (simp add: sponge_pad_def)
qed

lemma lanes_of_append: "length a = 8 * k \<Longrightarrow> k + n = 25 \<Longrightarrow> lanes_of (a @ b) = map (lane_at a) [0..<k] @ map (lane_at b) [0..<n]"
  using lane_at_append [of a k b n] by (simp add: lanes_of_def)

lemma first_state_lanes:
  assumes "length a = 64" "length b = 8" "length t = 4" "length g0 = 8"
  shows "lanes_of (xorin (replicate 200 0) ((a @ le8 g @ b @ t) @ sponge_pad 136 1 84)) =
    first_state (map (lane_at (a @ g0 @ b @ t @ [0, 0, 0, 0])) [0..<11]) g"
proof -
  have pad: "length (sponge_pad 136 1 84) = 52" by (simp add: length_sponge_pad)
  have "xorin (replicate 200 0) ((a @ le8 g @ b @ t) @ sponge_pad 136 1 84) = a @ le8 g @ b @ t @ sponge_pad 136 1 84 @ replicate 64 0"
    using assms by (simp add: xorin_zero pad)
  also have "\<dots> = a @ le8 g @ b @ (t @ [1, 0, 0, 0]) @ concat (map le8 padding_words)"
    by (simp add: padding_bytes)
  finally have state: "xorin (replicate 200 0) ((a @ le8 g @ b @ t) @ sponge_pad 136 1 84) = \<dots>" .
  have p14: "map (lane_at (concat (map le8 padding_words))) [0..<14] = padding_words"
  proof -
    have "length padding_words = 14" by (simp add: padding_words_def)
    with lanes_words [of padding_words] show ?thesis by (simp only:)
  qed
  have t8: "length (t @ [1, 0, 0, 0]) = 8" "length (t @ [0, 0, 0, 0]) = 8" using assms(3) by simp_all
  have tail: "map (lane_at (le8 g @ b @ (t @ [1, 0, 0, 0]) @ concat (map le8 padding_words))) [0..<17] =
      g # word_of_nat (be_val (rev b)) # (word_of_nat (be_val (rev (t @ [0, 0, 0, 0]))) XOR 0x100000000) # padding_words"
  proof -
    have n: "17 = Suc (Suc (Suc 14))" by simp
    show ?thesis
      unfolding n lane_at_single [OF length_le8] lane_at_single [OF assms(2)] lane_at_single [OF t8(1)] p14 le8_value
        padding_word [OF assms(3)] ..
  qed
  have A: "length a = 8 * 8" using assms(1) by simp
  have M: "map (lane_at (a @ g0 @ b @ t @ [0, 0, 0, 0])) [0..<11] =
      map (lane_at a) [0..<8] @ [word_of_nat (be_val (rev g0)), word_of_nat (be_val (rev b)), word_of_nat (be_val (rev (t @ [0, 0, 0, 0])))]"
  proof -
    have n: "11 = 8 + Suc (Suc (Suc 0))" by simp
    have "map (lane_at (t @ [0, 0, 0, 0])) [0..<Suc 0] = [word_of_nat (be_val (rev (t @ [0, 0, 0, 0])))]"
      using lane_at_single [OF t8(2), of "[]" 0] by simp
    then show ?thesis
      unfolding n lane_at_append [OF A] lane_at_single [OF assms(4)] lane_at_single [OF assms(2)] by (simp del: upt_Suc)
  qed
  show ?thesis
    unfolding state lanes_of_append [OF A, of 17, simplified] tail M
    by (simp add: first_state_def padding_words_def nth_append del: upt_rec_numeral)
qed

text \<open>The nonce with the work item's number from byte 12 on.\<close>

definition put_gid :: "u64 \<Rightarrow> bytes \<Rightarrow> bytes" where
  "put_gid g nonce = take 12 nonce @ le8 g @ drop 20 nonce"

definition message_words :: "bytes \<Rightarrow> bytes \<Rightarrow> bytes \<Rightarrow> u64 list" where
  "message_words challenge account nonce = map (lane_at (challenge @ account @ nonce @ [0, 0, 0, 0])) [0..<11]"

lemma length_message_words [simp]: "length (message_words c a n) = 11"
  by (simp add: message_words_def)

lemma nonce_split: "n = take 12 n @ take 8 (drop 12 n) @ take 8 (drop 20 n) @ drop 28 n"
proof -
  have "drop 12 n = take 8 (drop 12 n) @ drop 20 n" "drop 20 n = take 8 (drop 20 n) @ drop 28 n"
    using append_take_drop_id [of 8 "drop 12 n"] append_take_drop_id [of 8 "drop 20 n"] by simp_all
  then show ?thesis by (metis append_take_drop_id)
qed

lemma first_state_message:
  assumes "length challenge = 32" "length account = 20" "length nonce = 32"
  shows "first_state (message_words challenge account nonce) g =
    lanes_of (xorin (replicate 200 0) ((challenge @ account @ put_gid g nonce) @ sponge_pad 136 1 84))"
proof -
  let ?a = "challenge @ account @ take 12 nonce" and ?b = "take 8 (drop 20 nonce)" and ?t = "drop 28 nonce" and ?g0 = "take 8 (drop 12 nonce)"
  have "lanes_of (xorin (replicate 200 0) ((?a @ le8 g @ ?b @ ?t) @ sponge_pad 136 1 84)) =
      first_state (map (lane_at (?a @ ?g0 @ ?b @ ?t @ [0, 0, 0, 0])) [0..<11]) g"
    by (rule first_state_lanes) (use assms in simp_all)
  moreover have "?a @ ?g0 @ ?b @ ?t @ [0, 0, 0, 0] = challenge @ account @ nonce @ [0, 0, 0, 0]"
    by (subst (5) nonce_split) (simp only: append_assoc)
  moreover have "(?a @ le8 g @ ?b @ ?t) = challenge @ account @ put_gid g nonce"
    using append_take_drop_id [of 8 "drop 20 nonce"] by (simp add: put_gid_def)
  ultimately show ?thesis by (simp only: message_words_def)
qed

lemma sha3_one_block:
  assumes "length msg = 84"
  shows "sha3 msg = take 32 (keccakf (xorin (replicate 200 0) (msg @ sponge_pad 136 1 84)))"
proof -
  have len: "length (msg @ sponge_pad 136 1 84) = 136" using assms by (simp add: length_sponge_pad)
  then have "blocks 136 (msg @ sponge_pad 136 1 84) = [msg @ sponge_pad 136 1 84]"
    by (simp add: blocks.simps [of 136 "msg @ sponge_pad 136 1 84"] blocks.simps [of 136 "[]"])
  then show ?thesis using assms by (simp add: sha3_spec absorb_block_def)
qed

lemma keccakf_first_lane:
  assumes "keccakf_lanes (lanes_of s) = w # ws"
  shows "take 8 (take 32 (keccakf s)) = le8 w"
  using assms by (simp add: keccakf_def bytes_of_lanes_def le8_def)

lemma upper64_bytes: "length h = 32 \<Longrightarrow> take 8 h = le8 w \<Longrightarrow> upper64OfHash h = byte_swap w"
proof -
  assume "length h = 32" "take 8 h = le8 w"
  then have "unat (upper64OfHash h) = be_val (le8 w)" using upper64OfHash_eq [of h] by simp
  then have "word_of_nat (unat (upper64OfHash h)) = byte_swap w" by (simp only: byte_swap_def le8_def)
  then show "upper64OfHash h = byte_swap w" by simp
qed

lemma kernel_bytes:
  assumes "rotates R" "length st = 25" "length challenge = 32" "length account = 20" "length nonce = 32"
  shows "le8 (lane (kernel_state R st (keccak_precomp (message_words challenge account nonce)) g ! 0)) =
    take 8 (sha3 (challenge @ account @ put_gid g nonce))"
proof -
  let ?s = "kernel_state R st (keccak_precomp (message_words challenge account nonce)) g"
  let ?x = "xorin (replicate 200 0) ((challenge @ account @ put_gid g nonce) @ sponge_pad 136 1 84)"
  have lanes: "map lane ?s = keccakf_lanes (lanes_of ?x)"
    using kernel_state_lanes [OF assms(1,2) length_message_words] first_state_message [OF assms(3-5)] by simp
  have "length (keccakf_lanes (lanes_of ?x)) = 25" by (simp add: keccakf_lanes_spec lanes_of_def)
  with lanes have "length ?s = 25" by (metis length_map)
  then obtain v vs where s: "?s = v # vs" by (cases ?s) auto
  have "length (challenge @ account @ put_gid g nonce) = 84" using assms(3-5) by (simp add: put_gid_def)
  from sha3_one_block [OF this] keccakf_first_lane [of ?x "lane v" "map lane vs"] lanes s
  show ?thesis by simp
qed

lemma kernel_digest:
  assumes "rotates R" "length st = 25" "length challenge = 32" "length account = 20" "length nonce = 32"
  shows "byte_swap (lane (kernel_state R st (keccak_precomp (message_words challenge account nonce)) g ! 0)) =
    upper64OfHash (sha3 (challenge @ account @ put_gid g nonce))"
  using upper64_bytes [OF length_sha3 kernel_bytes [OF assms, symmetric]] by simp

section \<open>Claims\<close>

text \<open>The rotations the kernel is compiled with: the portable one, AMD's and NVIDIA's.\<close>

definition platform_rotation :: "(uint2 \<Rightarrow> nat \<Rightarrow> uint2) \<Rightarrow> bool" where
  "platform_rotation R \<longleftrightarrow> R = ROL2 \<or> (\<exists>f. bitalign_doc f \<and> R = ROL2_amd f) \<or> (\<exists>f. shf_doc f \<and> R = ROL2_nv f)"

lemma platform_rotates: "platform_rotation R \<Longrightarrow> rotates R"
  using ROL2_rotates ROL2_amd_rotates ROL2_nv_rotates by (auto simp: platform_rotation_def)

text \<open>C5: The GPU hashes what the contract hashes: on every platform, whatever its registers held before, a
  work item of the search kernel, working from the state that the host has precomputed, accepts its
  number exactly when the upper 64 bits of the Keccak-256 digest of challenge, account and nonce - with
  the number as its bytes 12 to 19 - lie below the target.\<close>

theorem gpu_kernel_hash:
  assumes "platform_rotation R" and "length st = 25"
    and "length challenge = 32" and "length account = 20" and "length nonce = 32"
  shows "item_solves R st (keccak_precomp (message_words challenge account nonce)) target gid \<longleftrightarrow>
    upper64OfHash (sha3 (challenge @ account @ put_gid gid nonce)) < target"
  unfolding item_solves_def kernel_digest [OF platform_rotates [OF assms(1)] assms(2-5)] ..

lemma gpu_kernel_hash_witness:
  "item_solves ROL2 (replicate 25 (U2 0 0)) (keccak_precomp (message_words (replicate 32 7) (replicate 20 1) (replicate 32 2))) 1000 5 \<longleftrightarrow>
    upper64OfHash (sha3 (replicate 32 7 @ replicate 20 1 @ put_gid 5 (replicate 32 2))) < 1000"
  by (rule gpu_kernel_hash) (simp_all only: platform_rotation_def length_replicate simp_thms)

end

