(* ===== verification/GpuSearch.thy ===== *)
theory GpuSearch
  imports GpuKernel Farm
begin

text \<open>
  The search of a GPU miner: the work items of \<open>bitcoin0x_search\<close> that run at the same time and share one
  output buffer, and \<open>ethash_cl_miner::search\<close> (\<open>libethash-cl/ethash_cl_miner.cpp\<close>), which keeps two
  kernel runs under way and reports what they find. The command queues are in order, one for each
  buffer, so that a run's effect on its buffer is that of the time it was queued.
\<close>

section \<open>Work items\<close>

definition MAX_OUTPUTS :: nat where "MAX_OUTPUTS = 63"

text \<open>The output buffer, the items that have not finished their test, and the writes under way.\<close>

record kernel =
  k_output :: "u32 list"
  k_todo :: "u64 set"
  k_writes :: "(nat \<times> u64) set"

text \<open>
  The steps of a work item: the end of an item that finds nothing; the atomic increment, which gives the
  slot; and the write of the item's number, which is cut to 32 bits.
\<close>

definition item_inc :: "u64 \<Rightarrow> kernel \<Rightarrow> kernel" where
  "item_inc gid k =
     (let old = k_output k ! 0; slot = min MAX_OUTPUTS (unat (old + 1)) in
      \<lparr>k_output = (k_output k)[0 := old + 1], k_todo = k_todo k - {gid}, k_writes = insert (slot, gid) (k_writes k)\<rparr>)"

definition item_write :: "nat \<Rightarrow> u64 \<Rightarrow> kernel \<Rightarrow> kernel" where
  "item_write slot gid k =
     k\<lparr>k_output := (k_output k)[slot := ucast gid], k_writes := k_writes k - {(slot, gid)}\<rparr>"

inductive item_step :: "(u64 \<Rightarrow> bool) \<Rightarrow> kernel \<Rightarrow> u64 \<Rightarrow> kernel \<Rightarrow> bool" for hits where
  miss: "gid \<in> k_todo k \<Longrightarrow> \<not> hits gid \<Longrightarrow> item_step hits k gid (k\<lparr>k_todo := k_todo k - {gid}\<rparr>)"
| found: "gid \<in> k_todo k \<Longrightarrow> hits gid \<Longrightarrow> item_step hits k gid (item_inc gid k)"
| store: "(slot, gid) \<in> k_writes k \<Longrightarrow> item_step hits k gid (item_write slot gid k)"

inductive_cases item_stepE: "item_step hits k gid k'"

definition kernel_start :: "u32 list \<Rightarrow> u32 \<Rightarrow> kernel" where
  "kernel_start output work_size = \<lparr>k_output = output, k_todo = {gid. gid < ucast work_size}, k_writes = {}\<rparr>"

definition kernel_finished :: "kernel \<Rightarrow> bool" where
  "kernel_finished k \<longleftrightarrow> k_todo k = {} \<and> k_writes k = {}"

text \<open>What the host reads: \<open>num_found\<close> solutions.\<close>

definition read_solutions :: "u32 list \<Rightarrow> u32 list" where
  "read_solutions output = map (\<lambda>i. output ! (i + 1)) [0..<min (unat (output ! 0)) MAX_OUTPUTS]"

section \<open>The host's loop\<close>

text \<open>
  The members of \<open>ethash_cl_miner\<close>: the batches whose results are still to be read, the buffer that is
  used next, and the contents of the two output buffers; with the farm that the hook reports to.
\<close>

definition c_bufferCount :: nat where "c_bufferCount = 2"

record cl_miner =
  cm_pending :: "(h256 \<times> nat) list"
  cm_buf :: nat
  cm_outputs :: "u32 list list"
  cm_globalWorkSize :: u32
  cm_farm :: farm

record cl_local =
  ll_throttle :: int
  ll_bufferCount :: nat
  ll_kernelTime :: int
  ll_batchCount :: int

text \<open>
  What an iteration observes: the throttle when it is looked at, the throttle and the hook's answer for
  each nap, the random nonce, the device (what a kernel run on the prepared words with a target makes of
  the output buffer), the kernel's milliseconds, the microseconds of the miner's timer, and whether the
  hook says that the search should stop.
\<close>

type_synonym device = "u64 list \<Rightarrow> u64 \<Rightarrow> u32 list \<Rightarrow> u32 list"

record cl_env =
  ce_throttle :: int
  ce_naps :: "(int \<times> bool) list"
  ce_nonce :: h256
  ce_run :: device
  ce_ms :: int
  ce_us :: u64
  ce_stop :: bool

definition checkThrottleChange :: "int \<Rightarrow> cl_local \<Rightarrow> cl_local" where
  "checkThrottleChange m_throttle l =
     (let bc = (if m_throttle > 0 \<and> ll_throttle l = 0 then 1
                else if ll_throttle l > 0 \<and> m_throttle = 0 then c_bufferCount else ll_bufferCount l)
      in l\<lparr>ll_bufferCount := bc, ll_throttle := m_throttle\<rparr>)"

definition set_aborted :: "nat \<Rightarrow> bool \<Rightarrow> farm \<Rightarrow> farm" where
  "set_aborted m b f =
     f\<lparr>fm_miners := (fm_miners f)[m := (fm_miners f ! m)\<lparr>mn_hook := (fst (mn_hook (fm_miners f ! m)), b)\<rparr>]\<rparr>"

text \<open>The naps of a throttled miner: it wakes up, or new work interrupts it, or it still sleeps.\<close>

datatype nap = Awake | Interrupted | Asleep

fun cl_naps :: "nat \<Rightarrow> int \<Rightarrow> (int \<times> bool) list \<Rightarrow> cl_local \<Rightarrow> farm \<Rightarrow> nap \<times> cl_local \<times> farm" where
  "cl_naps m millisDelay [] l f = (if millisDelay > 0 then (Asleep, l, f) else (Awake, l, f))"
| "cl_naps m millisDelay ((m_throttle, stop) # readings) l f =
     (if millisDelay > 0 then
        let thisDelay = min 100 millisDelay;
            millisDelay = (if ll_throttle l = 100 then 100 else millisDelay - thisDelay);
            l = checkThrottleChange m_throttle l;
            f = (if ll_throttle l = 100 then set_aborted m stop f else f)
        in if stop then (Interrupted, l, set_aborted m True f) else cl_naps m millisDelay readings l f
      else (Awake, l, f))"

definition cl_throttle :: "nat \<Rightarrow> cl_env \<Rightarrow> cl_local \<Rightarrow> cl_miner \<Rightarrow> (nap \<times> cl_local \<times> cl_miner) result" where
  "cl_throttle m e l c =
     (if ll_throttle l > 0 then
        bindE
          (if ll_throttle l < 100
           then bindE (int32 (ll_throttle l * ll_kernelTime l)) (\<lambda>time.
                fp_to_int (- (2 ^ 31)) (2 ^ 31 - 1)
                  (fdiv dbl (dbl_of_int time) (fsub dbl (Fin 100) (dbl_of_int (ll_throttle l)))))
           else Inr 100) (\<lambda>millisDelay.
        let c1 = (if ll_throttle l < 100 then c else c\<lparr>cm_pending := []\<rparr>);
            (r, l1, f1) = cl_naps m millisDelay (ce_naps e) l (cm_farm c1)
        in Inr (r, l1, c1\<lparr>cm_farm := f1\<rparr>))
      else Inr (Awake, l, c))"

text \<open>Queueing a kernel run, when there is room for one.\<close>

definition cl_enqueue :: "bytes \<Rightarrow> h160 \<Rightarrow> u64 \<Rightarrow> cl_env \<Rightarrow> cl_local \<Rightarrow> cl_miner \<Rightarrow> cl_miner" where
  "cl_enqueue challenge account target e l c =
     (if length (cm_pending c) < ll_bufferCount l then
        let nonce = ce_nonce e;
            precomp = keccak_precomp (message_words challenge account nonce)
        in c\<lparr>cm_outputs := (cm_outputs c)[cm_buf c := ce_run e precomp target (cm_outputs c ! cm_buf c)],
             cm_pending := cm_pending c @ [(nonce, cm_buf c)],
             cm_buf := (cm_buf c + 1) mod ll_bufferCount l\<rparr>
      else c)"

text \<open>Reading the results of the oldest run, when as many are under way as there are buffers.\<close>

definition batch_nonces :: "h256 \<Rightarrow> u32 list \<Rightarrow> h256 list" where
  "batch_nonces nonce output = map (\<lambda>soln. put_gid (ucast soln) nonce) (read_solutions output)"

definition cl_report :: "(bytes \<Rightarrow> h256) \<Rightarrow> nat \<Rightarrow> bool \<Rightarrow> nat \<Rightarrow> h256 list \<Rightarrow> cl_miner \<Rightarrow> (bool \<times> cl_miner) result" where
  "cl_report H m stop buf nonces c =
     (if nonces \<noteq> [] then
        bindE (clhook_found H m stop nonces (cm_farm c)) (\<lambda>(brk, f).
        Inr (brk, c\<lparr>cm_outputs := (cm_outputs c)[buf := (cm_outputs c ! buf)[0 := 0]], cm_farm := f\<rparr>))
      else Inr (False, c))"

text \<open>The hashes are counted with every run on the first buffer; \<open>searched\<close> asks whether to go on.\<close>

definition cl_account :: "nat \<Rightarrow> u64 \<Rightarrow> cl_local \<Rightarrow> cl_miner \<Rightarrow> farm" where
  "cl_account m us l c =
     (let f = cm_farm c in
      f\<lparr>fm_miners := (fm_miners f)[m :=
          mn_accumulateHashes (cm_globalWorkSize c * word_of_nat (ll_bufferCount l)) (ll_batchCount l) us (fm_miners f ! m)]\<rparr>)"

definition cl_searched :: "nat \<Rightarrow> cl_env \<Rightarrow> nat \<Rightarrow> cl_local \<Rightarrow> cl_miner \<Rightarrow> cl_local \<times> cl_miner" where
  "cl_searched m e buf l c =
     (let f = (if buf = 0 then cl_account m (ce_us e) l c else cm_farm c);
          l = (if buf = 0 then l\<lparr>ll_batchCount := ll_batchCount l + 1\<rparr> else l)
      in (l, c\<lparr>cm_farm := set_aborted m (ce_stop e) f\<rparr>))"

definition cl_read :: "(bytes \<Rightarrow> h256) \<Rightarrow> nat \<Rightarrow> cl_env \<Rightarrow> cl_local \<Rightarrow> cl_miner \<Rightarrow> (bool \<times> cl_local \<times> cl_miner) result" where
  "cl_read H m e l c =
     (if length (cm_pending c) = ll_bufferCount l then
        let (nonce, buf) = hd (cm_pending c);
            c = c\<lparr>cm_pending := tl (cm_pending c)\<rparr>;
            l = l\<lparr>ll_kernelTime := ce_ms e\<rparr>
        in bindE (cl_report H m (ce_stop e) buf (batch_nonces nonce (cm_outputs c ! buf)) c) (\<lambda>(stop, c).
           if stop then Inr (True, l, c) else let (l, c) = cl_searched m e buf l c in Inr (ce_stop e, l, c))
      else Inr (False, l, c))"

definition cl_iteration ::
    "(bytes \<Rightarrow> h256) \<Rightarrow> nat \<Rightarrow> bytes \<Rightarrow> h160 \<Rightarrow> u64 \<Rightarrow> cl_env \<Rightarrow> cl_local \<Rightarrow> cl_miner \<Rightarrow> (nap \<times> cl_local \<times> cl_miner) result" where
  "cl_iteration H m challenge account target e l c =
     bindE (cl_throttle m e (checkThrottleChange (ce_throttle e) l) c) (\<lambda>(r, l, c).
     if r \<noteq> Awake then Inr (r, l, c)
     else
       bindE (cl_read H m e l (cl_enqueue challenge account target e l c)) (\<lambda>(stop, l, c).
       Inr (if stop then Interrupted else Awake, l, c)))"

fun cl_loop ::
    "(bytes \<Rightarrow> h256) \<Rightarrow> nat \<Rightarrow> bytes \<Rightarrow> h160 \<Rightarrow> u64 \<Rightarrow> cl_env list \<Rightarrow> cl_local \<Rightarrow> cl_miner \<Rightarrow> (nap \<times> cl_local \<times> cl_miner) result" where
  "cl_loop H m challenge account target [] l c = Inr (Awake, l, c)"
| "cl_loop H m challenge account target (e # es) l c =
     bindE (cl_iteration H m challenge account target e l c) (\<lambda>(r, l, c).
     if r = Awake then cl_loop H m challenge account target es l c else Inr (r, l, c))"

text \<open>\<open>search\<close>, with the throttle when it starts; the result says whether it has ended.\<close>

definition cl_search ::
    "(bytes \<Rightarrow> h256) \<Rightarrow> nat \<Rightarrow> bytes \<Rightarrow> u64 \<Rightarrow> h160 \<Rightarrow> int \<Rightarrow> cl_env list \<Rightarrow> cl_miner \<Rightarrow> (bool \<times> cl_miner) result" where
  "cl_search H m challenge target account m_throttle es c =
     (if length challenge < 32 then Inl UndefinedBehaviour
      else
        bindE (cl_loop H m (take 32 challenge) account target es
                 \<lparr>ll_throttle = 0, ll_bufferCount = (if m_throttle = 0 then c_bufferCount else 1), ll_kernelTime = 100, ll_batchCount = 0\<rparr> c)
          (\<lambda>(r, l, c). Inr (r = Interrupted, c)))"

text \<open>\<open>EthashGPUMiner::workLoop\<close>, once the device is initialised; at its end the thread stops by itself.\<close>

definition gpu_workLoop :: "(bytes \<Rightarrow> h256) \<Rightarrow> nat \<Rightarrow> int \<Rightarrow> cl_env list \<Rightarrow> cl_miner \<Rightarrow> (bool \<times> cl_miner) result" where
  "gpu_workLoop H m m_throttle es c =
     (let f = (cm_farm c)\<lparr>fm_isMining := True\<rparr>; threshold = upper64OfHash (mn_target (fm_miners f ! m)) in
      bindE (fh_of_string 20 (fm_hashingAcct f) FromHex FailIfDifferent) (\<lambda>account.
      bindE (cl_search H m (mn_challenge (fm_miners f ! m)) threshold account m_throttle es (c\<lparr>cm_farm := f\<rparr>)) (\<lambda>(ended, c).
      Inr (ended, if ended then c\<lparr>cm_farm := (cm_farm c)\<lparr>fm_miners := (fm_miners (cm_farm c))[m := (fm_miners (cm_farm c) ! m)\<lparr>mn_running := False\<rparr>]\<rparr>\<rparr> else c))))"

section \<open>Lemmas: the shared buffer\<close>

text \<open>
  The invariant: the items that have incremented the counter, in their order, own the slots from 1 on;
  the last slot is shared by all that came late.
\<close>

definition slots_ok :: "u64 list \<Rightarrow> kernel \<Rightarrow> bool" where
  "slots_ok ord k \<longleftrightarrow>
     k_writes k \<subseteq> {(min 63 (Suc i), ord ! i) | i. i < length ord} \<and>
     (\<forall>i < length ord. i < 62 \<longrightarrow> (Suc i, ord ! i) \<in> k_writes k \<or> k_output k ! Suc i = ucast (ord ! i)) \<and>
     ((\<forall>i < length ord. 62 \<le> i \<longrightarrow> (63, ord ! i) \<in> k_writes k) \<or> (\<exists>i < length ord. 62 \<le> i \<and> k_output k ! 63 = ucast (ord ! i)))"

definition kernel_inv :: "u64 set \<Rightarrow> (u64 \<Rightarrow> bool) \<Rightarrow> kernel \<Rightarrow> bool" where
  "kernel_inv G hits k \<longleftrightarrow> k_todo k \<subseteq> G \<and> length (k_output k) = 64 \<and>
     (\<exists>ord. distinct ord \<and> set ord = {g \<in> G. hits g} - k_todo k \<and> k_output k ! 0 = word_of_nat (length ord) \<and> slots_ok ord k)"

lemma slots_inc:
  assumes ok: "slots_ok ord k" and len: "length (k_output k) = 64" and "k_output k ! 0 = word_of_nat (length ord)"
    and "length ord + 1 < 2 ^ 32"
  shows "slots_ok (ord @ [gid]) (item_inc gid k)" "k_output (item_inc gid k) ! 0 = word_of_nat (length (ord @ [gid]))"
proof -
  have "unat (k_output k ! 0 + 1) = Suc (length ord)"
    using assms(3,4) by (simp add: unat_word_ariths unat_of_nat)
  then have inc: "k_writes (item_inc gid k) = insert (min 63 (Suc (length ord)), gid) (k_writes k)"
    "k_output (item_inc gid k) = (k_output k)[0 := k_output k ! 0 + 1]"
    by (simp_all add: item_inc_def Let_def MAX_OUTPUTS_def)
  have w: "k_writes k \<subseteq> {(min 63 (Suc i), ord ! i) | i. i < length ord}"
    and low: "\<And>i. i < length ord \<Longrightarrow> i < 62 \<Longrightarrow> (Suc i, ord ! i) \<in> k_writes k \<or> k_output k ! Suc i = ucast (ord ! i)"
    and high: "(\<forall>i < length ord. 62 \<le> i \<longrightarrow> (63, ord ! i) \<in> k_writes k) \<or> (\<exists>i < length ord. 62 \<le> i \<and> k_output k ! 63 = ucast (ord ! i))"
    using ok unfolding slots_ok_def by blast+
  have "k_writes (item_inc gid k) \<subseteq> {(min 63 (Suc i), (ord @ [gid]) ! i) | i. i < length (ord @ [gid])}"
    using w unfolding inc(1) by (fastforce simp: nth_append)
  moreover have "\<forall>i < length (ord @ [gid]). i < 62 \<longrightarrow>
      (Suc i, (ord @ [gid]) ! i) \<in> k_writes (item_inc gid k) \<or> k_output (item_inc gid k) ! Suc i = ucast ((ord @ [gid]) ! i)"
    using low unfolding inc by (auto simp: nth_append less_Suc_eq min_def)
  moreover have "(\<forall>i < length (ord @ [gid]). 62 \<le> i \<longrightarrow> (63, (ord @ [gid]) ! i) \<in> k_writes (item_inc gid k)) \<or>
      (\<exists>i < length (ord @ [gid]). 62 \<le> i \<and> k_output (item_inc gid k) ! 63 = ucast ((ord @ [gid]) ! i))"
    using high unfolding inc by (auto simp: nth_append less_Suc_eq min_def)
  ultimately show "slots_ok (ord @ [gid]) (item_inc gid k)" unfolding slots_ok_def by blast
  show "k_output (item_inc gid k) ! 0 = word_of_nat (length (ord @ [gid]))"
    using assms(2,3) by (simp add: inc(2) add.commute)
qed

lemma slots_write:
  assumes ok: "slots_ok ord k" and len: "length (k_output k) = 64" and w: "(slot, gid) \<in> k_writes k" and "distinct ord"
  shows "slots_ok ord (item_write slot gid k)" "k_output (item_write slot gid k) ! 0 = k_output k ! 0"
proof -
  obtain j where j: "slot = min 63 (Suc j)" "gid = ord ! j" "j < length ord"
    using ok w unfolding slots_ok_def by blast
  have wr: "k_writes (item_write slot gid k) = k_writes k - {(slot, gid)}"
    "k_output (item_write slot gid k) = (k_output k)[slot := ucast gid]" by (simp_all add: item_write_def)
  have "slot \<noteq> 0" using j(1) by simp
  then show "k_output (item_write slot gid k) ! 0 = k_output k ! 0" by (simp add: wr)
  have sub: "k_writes k \<subseteq> {(min 63 (Suc i), ord ! i) | i. i < length ord}"
    and low: "\<And>i. i < length ord \<Longrightarrow> i < 62 \<Longrightarrow> (Suc i, ord ! i) \<in> k_writes k \<or> k_output k ! Suc i = ucast (ord ! i)"
    and high: "(\<forall>i < length ord. 62 \<le> i \<longrightarrow> (63, ord ! i) \<in> k_writes k) \<or> (\<exists>i < length ord. 62 \<le> i \<and> k_output k ! 63 = ucast (ord ! i))"
    using ok unfolding slots_ok_def by blast+
  have "k_writes (item_write slot gid k) \<subseteq> {(min 63 (Suc i), ord ! i) | i. i < length ord}" using sub wr by blast
  moreover have "(Suc i, ord ! i) \<in> k_writes (item_write slot gid k) \<or> k_output (item_write slot gid k) ! Suc i = ucast (ord ! i)"
    if i: "i < length ord" "i < 62" for i
  proof (cases "i = j")
    case True
    then have "Suc i = slot" "ord ! i = gid" using i j by simp_all
    then show ?thesis using i len by (simp add: wr)
  next
    case False
    then have "(Suc i, ord ! i) \<noteq> (slot, gid)" using i j assms(4) by (auto simp: nth_eq_iff_index_eq)
    moreover have "Suc i \<noteq> slot" using False i j(1) by auto
    ultimately show ?thesis using low [OF i] by (auto simp: wr)
  qed
  moreover have "(\<forall>i < length ord. 62 \<le> i \<longrightarrow> (63, ord ! i) \<in> k_writes (item_write slot gid k)) \<or>
      (\<exists>i < length ord. 62 \<le> i \<and> k_output (item_write slot gid k) ! 63 = ucast (ord ! i))"
  proof (cases "62 \<le> j")
    case True
    then have "slot = 63" using j(1) by simp
    moreover from this have "slot < length (k_output k)" using len by simp
    then have "k_output (item_write slot gid k) ! slot = ucast gid" by (simp only: wr nth_list_update_eq)
    ultimately have "k_output (item_write slot gid k) ! 63 = ucast (ord ! j)" using j(2) by metis
    then show ?thesis using True j(3) by blast
  next
    case False
    then have "slot \<noteq> 63" using j(1) by simp
    then show ?thesis using high by (auto simp: wr)
  qed
  ultimately show "slots_ok ord (item_write slot gid k)" unfolding slots_ok_def by blast
qed

lemma kernel_inv_step:
  assumes inv: "kernel_inv G hits k" and step: "item_step hits k gid k'" and G: "finite G" "card G < 2 ^ 32"
  shows "kernel_inv G hits k'"
proof -
  from inv obtain ord where sub: "k_todo k \<subseteq> G" and len: "length (k_output k) = 64"
    and ord: "distinct ord" "set ord = {g \<in> G. hits g} - k_todo k" "k_output k ! 0 = word_of_nat (length ord)" "slots_ok ord k"
    unfolding kernel_inv_def by blast
  show ?thesis
    using step
  proof cases
    case miss
    then have "set ord = {g \<in> G. hits g} - k_todo k'" using ord(2) by auto
    moreover have "slots_ok ord k'" using ord(4) miss(1) by (simp add: slots_ok_def)
    ultimately show ?thesis using sub len ord(1,3) miss(1) unfolding kernel_inv_def by (intro conjI exI [of _ ord]) auto
  next
    case found
    have todo: "k_todo k' = k_todo k - {gid}" "length (k_output k') = 64"
      using found(1) len by (simp_all add: item_inc_def Let_def)
    have "set (ord @ [gid]) = {g \<in> G. hits g} - k_todo k'" "distinct (ord @ [gid])"
      using ord(1,2) found(2,3) sub todo(1) by auto
    moreover from this have "length (ord @ [gid]) \<le> card G"
      by (metis (no_types, lifting) Diff_subset G(1) card_mono distinct_card mem_Collect_eq subsetI subset_trans)
    then have "length ord + 1 < 2 ^ 32" using G(2) by simp
    ultimately show ?thesis using slots_inc [OF ord(4) len ord(3), of gid] todo sub found(1)
      unfolding kernel_inv_def by (intro conjI exI [of _ "ord @ [gid]"]) auto
  next
    case (store slot)
    have "k_todo k' = k_todo k" "length (k_output k') = 64"
      using store(1) len by (simp_all add: item_write_def)
    with slots_write [OF ord(4) len store(2) ord(1)] ord sub store(1) show ?thesis
      unfolding kernel_inv_def by (intro conjI exI [of _ ord]) auto
  qed
qed

lemma kernel_inv_start:
  assumes "length output = 64" "output ! 0 = 0"
  shows "kernel_inv (k_todo (kernel_start output work_size)) hits (kernel_start output work_size)"
  using assms unfolding kernel_inv_def slots_ok_def by (intro conjI exI [of _ "[]"]) (auto simp: kernel_start_def)

lemma work_items:
  "finite {gid. gid < (ucast (n :: u32) :: u64)}" "card {gid. gid < (ucast (n :: u32) :: u64)} = unat n"
proof -
  have eq: "{gid. gid < (ucast n :: u64)} = word_of_nat ` {..<unat n}"
  proof (intro set_eqI iffI)
    fix g :: u64 assume "g \<in> {gid. gid < ucast n}"
    then have "unat g < unat n" by (simp add: word_less_nat_alt unat_ucast_u64)
    then show "g \<in> word_of_nat ` {..<unat n}" by (intro image_eqI [of _ _ "unat g"]) simp_all
  next
    fix g :: u64 assume "g \<in> word_of_nat ` {..<unat n}"
    then obtain i where i: "g = word_of_nat i" "i < unat n" by blast
    moreover have "unat n < 2 ^ 32" using unsigned_less [of n, where 'a = nat] by simp
    ultimately show "g \<in> {gid. gid < ucast n}" by (simp add: word_less_nat_alt unat_ucast_u64 unat_of_nat)
  qed
  have "inj_on (word_of_nat :: nat \<Rightarrow> u64) {..<unat n}"
  proof (rule inj_onI)
    fix i j assume ij: "i \<in> {..<unat n}" "j \<in> {..<unat n}" "(word_of_nat i :: u64) = word_of_nat j"
    have "unat n < 2 ^ 32" using unsigned_less [of n, where 'a = nat] by simp
    then have "unat (word_of_nat i :: u64) = i" "unat (word_of_nat j :: u64) = j" using ij(1,2) by (simp_all add: unat_of_nat)
    then show "i = j" using ij(3) by metis
  qed
  then show "finite {gid. gid < (ucast n :: u64)}" "card {gid. gid < (ucast n :: u64)} = unat n"
    unfolding eq by (simp_all add: card_image)
qed

interpretation kernel: invariant_machine
    "\<lambda>k. \<exists>output. k = kernel_start output work_size \<and> length output = 64 \<and> output ! 0 = 0" "item_step hits"
    "kernel_inv {gid. gid < ucast work_size} hits" for work_size hits
proof
  fix k assume "\<exists>output. k = kernel_start output work_size \<and> length output = 64 \<and> output ! 0 = 0"
  then show "kernel_inv {gid. gid < ucast work_size} hits k"
    using kernel_inv_start by (fastforce simp: kernel_start_def)
next
  fix k gid k'
  assume "kernel_inv {gid. gid < ucast work_size} hits k" "item_step hits k gid k'"
  moreover have "unat work_size < 2 ^ 32" using unsigned_less [of work_size, where 'a = nat] by simp
  ultimately show "kernel_inv {gid. gid < ucast work_size} hits k'"
    using kernel_inv_step work_items [of work_size] by simp
qed

text \<open>What a finished run leaves in the buffer.\<close>

lemma kernel_results:
  assumes inv: "kernel_inv G hits k" and fin: "kernel_finished k" and G: "finite G" "card G < 2 ^ 32"
  shows "length (read_solutions (k_output k)) = min (card {g \<in> G. hits g}) 63"
    and "set (read_solutions (k_output k)) \<subseteq> ucast ` {g \<in> G. hits g}"
    and "card {g \<in> G. hits g} \<le> 63 \<Longrightarrow> set (read_solutions (k_output k)) = ucast ` {g \<in> G. hits g}"
proof -
  from inv fin obtain ord where len: "length (k_output k) = 64"
    and ord: "distinct ord" "set ord = {g \<in> G. hits g}" "k_output k ! 0 = word_of_nat (length ord)" "slots_ok ord k"
    unfolding kernel_inv_def kernel_finished_def by auto
  have low: "k_output k ! Suc i = ucast (ord ! i)" if "i < length ord" "i < 62" for i
    using ord(4) fin that by (simp add: slots_ok_def kernel_finished_def)
  have high: "\<exists>i < length ord. 62 \<le> i \<and> k_output k ! 63 = ucast (ord ! i)" if "63 \<le> length ord"
  proof -
    have "62 < length ord" using that by simp
    then show ?thesis using ord(4) fin unfolding slots_ok_def kernel_finished_def by auto
  qed
  have n: "card {g \<in> G. hits g} = length ord" using ord(1,2) distinct_card by metis
  have "length ord \<le> card G" unfolding n [symmetric] by (rule card_mono [OF G(1)]) auto
  then have count: "unat (k_output k ! 0) = length ord" using G(2) by (simp add: ord(3) unat_of_nat)
  have sols: "read_solutions (k_output k) = map (\<lambda>i. k_output k ! Suc i) [0..<min (length ord) 63]"
    by (simp add: read_solutions_def count MAX_OUTPUTS_def)
  then show "length (read_solutions (k_output k)) = min (card {g \<in> G. hits g}) 63" by (simp add: n)
  have slot: "k_output k ! Suc i \<in> ucast ` set ord" if "i < min (length ord) 63" for i
  proof (cases "i < 62")
    case True
    have "i < length ord" using that by simp
    then show ?thesis using low [of i] True by simp
  next
    case False
    then have "i = 62" using that by simp
    moreover from this have "63 \<le> length ord" using that by simp
    ultimately show ?thesis using high by auto
  qed
  then show sub: "set (read_solutions (k_output k)) \<subseteq> ucast ` {g \<in> G. hits g}" unfolding sols ord(2) [symmetric] by auto
  assume "card {g \<in> G. hits g} \<le> 63"
  then have le: "length ord \<le> 63" by (simp add: n)
  have "ucast (ord ! i) \<in> set (read_solutions (k_output k))" if i: "i < length ord" for i
  proof -
    have "k_output k ! Suc i = ucast (ord ! i)"
    proof (cases "i < 62")
      case False
      then have "i = 62" "length ord = 63" using i le by simp_all
      with high obtain j where "j < 63" "62 \<le> j" "k_output k ! 63 = ucast (ord ! j)" by auto
      moreover from this(1,2) have "j = 62" by simp
      ultimately show ?thesis using \<open>i = 62\<close> by simp
    qed (rule low [OF i])
    moreover have "i < min (length ord) 63" using i le by simp
    ultimately show ?thesis unfolding sols by force
  qed
  then have "ucast ` set ord \<subseteq> set (read_solutions (k_output k))" by (auto simp: in_set_conv_nth)
  with sub show "set (read_solutions (k_output k)) = ucast ` {g \<in> G. hits g}" unfolding ord(2) by blast
qed

section \<open>Lemmas: buffers and batches\<close>

text \<open>
  Between two iterations at most one batch is under way, and its buffer is not the one that is used
  next, whatever the throttle does.
\<close>

definition cl_ok :: "cl_local \<Rightarrow> cl_miner \<Rightarrow> bool" where
  "cl_ok l c \<longleftrightarrow> ll_bufferCount l \<in> {1, 2} \<and> cm_buf c < 2 \<and> length (cm_outputs c) = 2 \<and>
     (cm_pending c = [] \<or> (\<exists>n b. cm_pending c = [(n, b)] \<and> b < 2 \<and> b \<noteq> cm_buf c))"

lemma checkThrottle_count: "ll_bufferCount l \<in> {1, 2} \<Longrightarrow> ll_bufferCount (checkThrottleChange t l) \<in> {1, 2}"
  by (simp add: checkThrottleChange_def Let_def c_bufferCount_def)

lemma cl_naps_count: "ll_bufferCount l \<in> {1, 2} \<Longrightarrow> cl_naps m d rs l f = (r, l', f') \<Longrightarrow> ll_bufferCount l' \<in> {1, 2}"
proof (induction rs arbitrary: d l f)
  case (Cons x rs)
  obtain t stop where x: "x = (t, stop)" by fastforce
  note count = checkThrottle_count [OF Cons.prems(1), of t]
  show ?case
    using Cons.IH [OF count] Cons.prems count unfolding x by (auto simp: Let_def split: if_splits)
qed (auto split: if_splits)

lemma cl_throttle_cases:
  assumes "cl_throttle m e l c = Inr (r, l', c')"
  obtains (free) "\<not> ll_throttle l > 0" "r = Awake" "l' = l" "c' = c"
  | (nap) d f' where "ll_throttle l > 0" "cl_naps m d (ce_naps e) l (cm_farm c) = (r, l', f')"
      "c' = (if ll_throttle l < 100 then c else c\<lparr>cm_pending := []\<rparr>)\<lparr>cm_farm := f'\<rparr>"
proof (cases "ll_throttle l > 0")
  case False
  then show thesis using that(1) assms by (simp add: cl_throttle_def)
next
  case True
  let ?c1 = "if ll_throttle l < 100 then c else c\<lparr>cm_pending := []\<rparr>"
  from True assms obtain d where
    "(let (r, l1, f1) = cl_naps m d (ce_naps e) l (cm_farm ?c1) in Inr (r, l1, ?c1\<lparr>cm_farm := f1\<rparr>)) = (Inr (r, l', c') :: (nap \<times> cl_local \<times> cl_miner) result)"
    by (auto simp: cl_throttle_def bindE_Inr_iff Let_def split: if_splits)
  moreover have "cm_farm ?c1 = cm_farm c" by simp
  ultimately show thesis using that(2) [OF True, of d] by (cases "cl_naps m d (ce_naps e) l (cm_farm c)") auto
qed

lemma cl_throttle_ok:
  assumes "cl_throttle m e l c = Inr (r, l', c')" "cl_ok l c"
  shows "cl_ok l' c'"
  using assms(1)
proof (cases rule: cl_throttle_cases)
  case free
  then show ?thesis using assms(2) by simp
next
  case (nap d f')
  have "ll_bufferCount l \<in> {1, 2}" using assms(2) by (simp add: cl_ok_def)
  from cl_naps_count [OF this nap(2)] show ?thesis using nap(3) assms(2) by (simp add: cl_ok_def)
qed

lemma cl_enqueue_cases:
  assumes "cl_ok l c"
  obtains
    (one) "cm_pending c \<noteq> []" "ll_bufferCount l = 1" "cl_enqueue ch acc t e l c = c"
  | (first) "cm_pending c = []"
      "cl_enqueue ch acc t e l c = c\<lparr>cm_outputs := (cm_outputs c)[cm_buf c := ce_run e (keccak_precomp (message_words ch acc (ce_nonce e))) t (cm_outputs c ! cm_buf c)],
         cm_pending := [(ce_nonce e, cm_buf c)], cm_buf := (cm_buf c + 1) mod ll_bufferCount l\<rparr>"
  | (second) n b where "cm_pending c = [(n, b)]" "b = 1 - cm_buf c" "ll_bufferCount l = 2" "cm_buf c < 2"
      "cl_enqueue ch acc t e l c = c\<lparr>cm_outputs := (cm_outputs c)[cm_buf c := ce_run e (keccak_precomp (message_words ch acc (ce_nonce e))) t (cm_outputs c ! cm_buf c)],
         cm_pending := [(n, b), (ce_nonce e, cm_buf c)], cm_buf := b\<rparr>"
proof (cases "cm_pending c = []")
  case True
  then show thesis using that(2) assms by (auto simp: cl_enqueue_def cl_ok_def Let_def)
next
  case False
  then obtain n b where p: "cm_pending c = [(n, b)]" "b < 2" "b \<noteq> cm_buf c" using assms by (auto simp: cl_ok_def)
  have buf: "cm_buf c < 2" "ll_bufferCount l \<in> {1, 2}" using assms by (simp_all add: cl_ok_def)
  then have b: "b = 1 - cm_buf c" "(cm_buf c + 1) mod 2 = b" using p(2,3) by (auto simp: less_Suc_eq numeral_2_eq_2)
  show thesis
  proof (cases "ll_bufferCount l = 1")
    case True
    then show thesis using that(1) False p by (simp add: cl_enqueue_def)
  next
    case False
    then show thesis using that(3) [OF p(1) b(1)] buf b p by (simp add: cl_enqueue_def Let_def)
  qed
qed

text \<open>What a search may not change for its miner: everything but the mailbox, the rates and the hook's flags.\<close>

definition search_view :: "nat \<Rightarrow> farm \<Rightarrow> (h256 \<times> int) option \<times> nat \<times> bytes \<times> h256 \<times> nat \<times> string" where
  "search_view m f = (mailbox f, length (fm_miners f), mn_challenge (fm_miners f ! m), mn_target (fm_miners f ! m),
     mn_index (fm_miners f ! m), fm_hashingAcct f)"

lemma view_update:
  assumes "mn_challenge x = mn_challenge (fm_miners f ! m)" "mn_target x = mn_target (fm_miners f ! m)" "mn_index x = mn_index (fm_miners f ! m)"
  shows "search_view m (f\<lparr>fm_miners := (fm_miners f)[m := x]\<rparr>) = search_view m f"
  using assms by (cases "m < length (fm_miners f)") (simp_all add: search_view_def mailbox_def list_update_beyond)

lemma view_set_aborted [simp]: "search_view m (set_aborted m b f) = search_view m f"
  by (simp add: set_aborted_def view_update)

lemma view_account [simp]: "search_view m (cl_account m us l c) = search_view m (cm_farm c)"
  by (simp add: cl_account_def Let_def view_update mn_accumulateHashes_def)

lemma view_naps: "cl_naps m d rs l f = (r, l', f') \<Longrightarrow> search_view m f' = search_view m f"
proof (induction rs arbitrary: d l f)
  case (Cons x rs)
  obtain t stop where x: "x = (t, stop)" by fastforce
  show ?case using Cons.prems Cons.IH unfolding x by (auto simp: Let_def split: if_splits)
qed (auto split: if_splits)

lemma cl_read_cases:
  assumes "cl_read H m e l c = Inr (stop, l', c')"
  obtains (wait) "length (cm_pending c) \<noteq> ll_bufferCount l" "\<not> stop" "l' = l" "c' = c"
  | (read) nonce buf brk c1 where "length (cm_pending c) = ll_bufferCount l" "hd (cm_pending c) = (nonce, buf)"
      "cl_report H m (ce_stop e) buf (batch_nonces nonce (cm_outputs c ! buf)) (c\<lparr>cm_pending := tl (cm_pending c)\<rparr>) = Inr (brk, c1)"
      "stop = (brk \<or> ce_stop e)" "ll_bufferCount l' = ll_bufferCount l" "ll_throttle l' = ll_throttle l"
      "c' = c1\<lparr>cm_farm := cm_farm c'\<rparr>" "search_view m (cm_farm c') = search_view m (cm_farm c1)"
proof (cases "length (cm_pending c) = ll_bufferCount l")
  case False
  then show thesis using that(1) assms by (simp add: cl_read_def)
next
  case True
  obtain nonce buf where hd: "hd (cm_pending c) = (nonce, buf)" by fastforce
  let ?c0 = "c\<lparr>cm_pending := tl (cm_pending c)\<rparr>" and ?l0 = "l\<lparr>ll_kernelTime := ce_ms e\<rparr>"
  from assms True hd obtain brk c1 where rep: "cl_report H m (ce_stop e) buf (batch_nonces nonce (cm_outputs c ! buf)) ?c0 = Inr (brk, c1)"
    and rest: "(if brk then Inr (True, ?l0, c1) else let (l, c) = cl_searched m e buf ?l0 c1 in Inr (ce_stop e, l, c)) =
      (Inr (stop, l', c') :: (bool \<times> cl_local \<times> cl_miner) result)"
    by (auto simp: cl_read_def Let_def [of "ll_kernelTime_update _ _"] Let_def [of "cm_pending_update _ _"] bindE_Inr_iff)
  from rest that(2) [OF True hd rep] show thesis by (auto simp: cl_searched_def Let_def split: if_splits)
qed

lemma cl_report_shape:
  assumes "cl_report H m st buf nonces c = Inr (brk, c1)"
  shows "cm_pending c1 = cm_pending c" "cm_buf c1 = cm_buf c" "cm_globalWorkSize c1 = cm_globalWorkSize c"
    "cm_outputs c1 = (if nonces = [] then cm_outputs c else (cm_outputs c)[buf := (cm_outputs c ! buf)[0 := 0]])"
  using assms by (auto simp: cl_report_def bindE_Inr_iff split: if_splits)

lemma cl_read_shape:
  assumes "cl_read H m e l c = Inr (stop, l', c')"
  shows "ll_bufferCount l' = ll_bufferCount l" "cm_buf c' = cm_buf c" "length (cm_outputs c') = length (cm_outputs c)"
    "cm_pending c' = (if length (cm_pending c) = ll_bufferCount l then tl (cm_pending c) else cm_pending c)"
proof -
  have "ll_bufferCount l' = ll_bufferCount l \<and> cm_buf c' = cm_buf c \<and> length (cm_outputs c') = length (cm_outputs c) \<and>
      cm_pending c' = (if length (cm_pending c) = ll_bufferCount l then tl (cm_pending c) else cm_pending c)"
    using assms
  proof (cases rule: cl_read_cases)
    case (read nonce buf brk c1)
    have "cm_buf c' = cm_buf c1" "cm_outputs c' = cm_outputs c1" "cm_pending c' = cm_pending c1"
      by (subst read(7), simp)+
    then show ?thesis using read(1,5) cl_report_shape [OF read(3)] by simp
  qed simp
  then show "ll_bufferCount l' = ll_bufferCount l" "cm_buf c' = cm_buf c" "length (cm_outputs c') = length (cm_outputs c)"
    "cm_pending c' = (if length (cm_pending c) = ll_bufferCount l then tl (cm_pending c) else cm_pending c)" by blast+
qed

lemma cl_read_ok:
  assumes read: "cl_read H m e l (cl_enqueue ch acc t e l c) = Inr (stop, l', c')" and ok: "cl_ok l c"
  shows "cl_ok l' c'"
proof -
  have bc: "ll_bufferCount l = 1 \<or> ll_bufferCount l = 2" and buf: "cm_buf c = 0 \<or> cm_buf c = 1" and out: "length (cm_outputs c) = 2"
    using ok by (auto simp: cl_ok_def)
  note shape = cl_read_shape [OF read]
  show ?thesis
    using ok
  proof (cases rule: cl_enqueue_cases [where ch = ch and acc = acc and t = t and e = e])
    case one
    then show ?thesis using shape ok by (auto simp: cl_ok_def)
  next
    case first
    from bc buf show ?thesis
      by (elim disjE) (use first shape out in \<open>simp_all add: cl_ok_def\<close>)
  next
    case (second n b)
    from buf show ?thesis
      by (elim disjE) (use second shape out in \<open>simp_all add: cl_ok_def\<close>)
  qed
qed

lemma cl_iteration_ok:
  assumes "cl_iteration H m ch acc t e l c = Inr (r, l', c')" "cl_ok l c"
  shows "cl_ok l' c'"
proof -
  have "cl_ok (checkThrottleChange (ce_throttle e) l) c"
    using assms(2) checkThrottle_count [of l "ce_throttle e"] by (simp add: cl_ok_def)
  moreover obtain r1 l1 c1 where thr: "cl_throttle m e (checkThrottleChange (ce_throttle e) l) c = Inr (r1, l1, c1)"
    and rest: "(if r1 \<noteq> Awake then Inr (r1, l1, c1)
       else bindE (cl_read H m e l1 (cl_enqueue ch acc t e l1 c1)) (\<lambda>(stop, l, c). Inr (if stop then Interrupted else Awake, l, c))) = Inr (r, l', c')"
    using assms(1) by (auto simp: cl_iteration_def bindE_Inr_iff)
  ultimately have "cl_ok l1 c1" using cl_throttle_ok(1) by blast
  then show ?thesis using rest cl_read_ok by (auto simp: bindE_Inr_iff split: if_splits)
qed

section \<open>Lemmas: what a batch reports\<close>

lemma set_aborted_mailbox: "mailbox (f\<lparr>fm_miners := xs\<rparr>) = mailbox f"
  by (simp add: mailbox_def)

lemma gpu_report_keeps:
  assumes "gpu_report H m n f = Inr (brk, f')" "m < length (fm_miners f)"
  shows "length (fm_miners f') = length (fm_miners f) \<and> (mailbox f \<noteq> None \<longrightarrow> mailbox f' = mailbox f)"
  using assms mn_submitProof_target [of n m f brk f'] by (auto simp: gpu_report_def bindE_Inr_iff split: if_splits)

lemma found_keeps:
  assumes "clhook_found H m st ns f = Inr (brk, f')" "m < length (fm_miners f)"
  shows "length (fm_miners f') = length (fm_miners f) \<and> (mailbox f \<noteq> None \<longrightarrow> mailbox f' = mailbox f)"
  using assms
proof (induction ns arbitrary: f)
  case (Cons n ns)
  then obtain stop f1 where rep: "gpu_report H m n f = Inr (stop, f1)" by (auto simp: bindE_Inr_iff)
  with Cons.prems gpu_report_keeps [OF rep] Cons.IH [of f1] show ?case by (cases stop) (auto simp: set_aborted_mailbox)
qed simp

lemma found_submits:
  assumes found: "clhook_found sha3 m st (n # ns) f = Inr (brk, f')" and m: "m < length (fm_miners f)" and "mailbox f = None"
    and acc: "fh_of_string 20 (fm_hashingAcct f) FromHex FailIfDifferent = Inr acc"
    and less: "fh_less (sha3 (take 32 (mn_challenge (fm_miners f ! m)) @ acc @ n)) (mn_target (fm_miners f ! m))"
    and ch: "32 \<le> length (mn_challenge (fm_miners f ! m))"
  shows "mailbox f' = Some (n, int (mn_index (fm_miners f ! m)))"
proof -
  have rep: "gpu_report sha3 m n f = mn_submitProof n m f"
    using acc less ch by (simp add: gpu_report_def keccak256_0xBitcoin_def mix84_def)
  from found obtain stop f1 where sub: "mn_submitProof n m f = Inr (stop, f1)"
    and rest: "(if stop then Inr (True, f1\<lparr>fm_miners := (fm_miners f1)[m := (fm_miners f1 ! m)\<lparr>mn_hook := (fst (mn_hook (fm_miners f1 ! m)), True)\<rparr>]\<rparr>)
      else clhook_found sha3 m st ns f1) = Inr (brk, f')"
    by (auto simp: rep bindE_Inr_iff)
  from mn_submitProof_target [OF sub m] have f1: "mailbox f1 = Some (n, int (mn_index (fm_miners f ! m)))" "m < length (fm_miners f1)"
    using assms(3) m by simp_all
  with rest found_keeps [of sha3 m st ns f1 brk f'] show ?thesis by (cases stop) (auto simp: set_aborted_mailbox)
qed

text \<open>The digests that pass the kernel's test pass the host's.\<close>

definition good_nonce :: "bytes \<Rightarrow> h160 \<Rightarrow> u64 \<Rightarrow> h256 \<Rightarrow> bool" where
  "good_nonce ch acc t n \<longleftrightarrow> upper64OfHash (sha3 (ch @ acc @ n)) < t"

lemma digits_less: "a < c \<Longrightarrow> b < m \<Longrightarrow> a * m + b < c * m + (d :: nat)"
proof -
  assume "a < c" "b < m"
  then have "(a + 1) * m \<le> c * m" by (intro mult_le_mono1) simp
  with \<open>b < m\<close> show ?thesis by simp
qed

lemma upper64_less:
  assumes "length h = 32" "length t = 32" "upper64OfHash h < upper64OfHash t"
  shows "fh_less h t"
proof -
  have less: "be_val (take 8 h) < be_val (take 8 t)" using assms by (simp add: word_less_nat_alt upper64OfHash_eq)
  have split: "be_val x = be_val (take 8 x) * 256 ^ 24 + be_val (drop 8 x)" "be_val (drop 8 x) < 256 ^ 24" if "length x = 32" for x
    using that be_val_append [of "take 8 x" "drop 8 x"] be_val_lt [of "drop 8 x"] by simp_all
  have "be_val h < be_val t"
    unfolding split(1) [OF assms(1)] split(1) [OF assms(2)] by (rule digits_less [OF less split(2) [OF assms(1)]])
  then show ?thesis using assms(1,2) by (simp add: fh_less_iff)
qed

text \<open>
  A device that runs the kernel: the buffer it leaves is that of some interleaving of its work items.
\<close>

definition device_ok :: "u32 \<Rightarrow> device \<Rightarrow> bool" where
  "device_ok work_size dev \<longleftrightarrow> (\<forall>precomp target output. length output = 64 \<and> output ! 0 = 0 \<longrightarrow>
     (\<exists>R st gids k. platform_rotation R \<and> (\<forall>gid. length (st gid) = 25) \<and>
        runs (item_step (\<lambda>gid. item_solves R (st gid) precomp target gid)) (kernel_start output work_size) gids k \<and>
        kernel_finished k \<and> dev precomp target output = k_output k))"

definition batch_ok :: "bytes \<Rightarrow> h160 \<Rightarrow> u64 \<Rightarrow> u32 \<Rightarrow> h256 \<Rightarrow> u32 list \<Rightarrow> bool" where
  "batch_ok ch acc t work_size n output \<longleftrightarrow> length output = 64 \<and>
     (\<forall>x \<in> set (batch_nonces n output). good_nonce ch acc t x) \<and>
     ((\<exists>gid < ucast work_size. good_nonce ch acc t (put_gid gid n)) \<longrightarrow> batch_nonces n output \<noteq> [])"

lemma ucast_back: "gid < ucast (n :: u32) \<Longrightarrow> ucast (ucast gid :: u32) = (gid :: u64)"
proof -
  assume "gid < ucast n"
  then have "unat gid < 2 ^ 32"
    using unsigned_less [of n, where 'a = nat] by (simp add: word_less_nat_alt unat_ucast_u64)
  then have "unat (ucast (ucast gid :: u32) :: u64) = unat gid"
    by (simp add: unat_ucast_u64 unsigned_ucast_eq unsigned_take_bit_eq take_bit_nat_eq_self)
  then show ?thesis by (simp only: word_unat_eq_iff)
qed

lemma device_batch:
  assumes "device_ok work_size dev" "length output = 64" "output ! 0 = 0" "length ch = 32" "length acc = 20" "length n = 32"
  shows "batch_ok ch acc t work_size n (dev (keccak_precomp (message_words ch acc n)) t output)"
proof -
  let ?p = "keccak_precomp (message_words ch acc n)"
  obtain R st gids k where dev: "platform_rotation R" "\<And>gid. length (st gid) = 25"
    "runs (item_step (\<lambda>gid. item_solves R (st gid) ?p t gid)) (kernel_start output work_size) gids k"
    "kernel_finished k" "dev ?p t output = k_output k"
    using assms(1-3) unfolding device_ok_def by blast
  have hits: "(\<lambda>gid. item_solves R (st gid) ?p t gid) = (\<lambda>gid. good_nonce ch acc t (put_gid gid n))"
    using kernel_digest [OF platform_rotates [OF dev(1)] dev(2) assms(4-6)] by (simp add: fun_eq_iff item_solves_def good_nonce_def)
  let ?G = "{gid. gid < (ucast work_size :: u64)}" and ?h = "\<lambda>gid. good_nonce ch acc t (put_gid gid n)"
  have inv: "kernel_inv ?G ?h k"
    using kernel.inv_reachable [OF _ dev(3) [unfolded hits]] assms(2,3) by blast
  have "unat work_size < 2 ^ 32" using unsigned_less [of work_size, where 'a = nat] by simp
  then have card: "finite ?G" "card ?G < 2 ^ 32" by (simp_all add: work_items)
  note res = kernel_results [OF inv dev(4) card]
  have "length (k_output k) = 64" using inv by (simp add: kernel_inv_def)
  moreover have "good_nonce ch acc t x" if "x \<in> set (batch_nonces n (k_output k))" for x
  proof -
    from that obtain s where s: "x = put_gid (ucast s) n" "s \<in> set (read_solutions (k_output k))" by (auto simp: batch_nonces_def)
    then obtain gid where "gid < ucast work_size" "?h gid" "s = ucast gid" using res(2) by auto
    then show ?thesis using s(1) ucast_back [of gid work_size] by simp
  qed
  moreover have "batch_nonces n (k_output k) \<noteq> []" if "gid < ucast work_size" "?h gid" for gid
  proof -
    define S where "S = {g \<in> ?G. ?h g}"
    have "gid \<in> S" "finite S" using that card(1) by (simp_all add: S_def)
    then have "0 < card S" by (auto simp: card_gt_0_iff)
    then have "0 < length (read_solutions (k_output k))" unfolding res(1) S_def [symmetric] by simp
    then show ?thesis by (simp add: batch_nonces_def)
  qed
  ultimately show ?thesis unfolding batch_ok_def dev(5) by (metis (no_types, lifting))
qed

section \<open>Lemmas: the search\<close>

lemma view_same:
  assumes "search_view m f' = search_view m f"
  shows "mailbox f' = mailbox f" "length (fm_miners f') = length (fm_miners f)" "mn_index (fm_miners f' ! m) = mn_index (fm_miners f ! m)"
    "mn_challenge (fm_miners f' ! m) = mn_challenge (fm_miners f ! m)" "mn_target (fm_miners f' ! m) = mn_target (fm_miners f ! m)"
    "fm_hashingAcct f' = fm_hashingAcct f"
  using assms by (simp_all add: search_view_def)

lemma enqueue_farm [simp]: "cm_farm (cl_enqueue ch acc t e l c) = cm_farm c" "cm_globalWorkSize (cl_enqueue ch acc t e l c) = cm_globalWorkSize c"
  by (simp_all add: cl_enqueue_def Let_def)

lemma report_keeps:
  assumes "cl_report H m st buf ns c = Inr (brk, c1)" "m < length (fm_miners (cm_farm c))"
  shows "length (fm_miners (cm_farm c1)) = length (fm_miners (cm_farm c)) \<and>
    (mailbox (cm_farm c) \<noteq> None \<longrightarrow> mailbox (cm_farm c1) = mailbox (cm_farm c))"
  using assms found_keeps [of H m st ns "cm_farm c" brk] by (auto simp: cl_report_def bindE_Inr_iff split: if_splits)

lemma iteration_keeps:
  assumes it: "cl_iteration H m ch acc t e l c = Inr (r, l', c')" and m: "m < length (fm_miners (cm_farm c))"
  shows "length (fm_miners (cm_farm c')) = length (fm_miners (cm_farm c)) \<and>
    (mailbox (cm_farm c) \<noteq> None \<longrightarrow> mailbox (cm_farm c') = mailbox (cm_farm c))"
proof -
  obtain r1 l1 c1 where thr: "cl_throttle m e (checkThrottleChange (ce_throttle e) l) c = Inr (r1, l1, c1)"
    and rest: "(if r1 \<noteq> Awake then Inr (r1, l1, c1)
       else bindE (cl_read H m e l1 (cl_enqueue ch acc t e l1 c1)) (\<lambda>(stop, l, c). Inr (if stop then Interrupted else Awake, l, c))) = Inr (r, l', c')"
    using it by (auto simp: cl_iteration_def bindE_Inr_iff)
  have c1: "search_view m (cm_farm c1) = search_view m (cm_farm c)"
    using thr by (cases rule: cl_throttle_cases) (simp_all add: view_naps)
  show ?thesis
  proof (cases "r1 = Awake")
    case False
    then show ?thesis using rest view_same(1,2) [OF c1] by simp
  next
    case True
    with rest obtain stop where "cl_read H m e l1 (cl_enqueue ch acc t e l1 c1) = Inr (stop, l', c')"
      by (auto simp: bindE_Inr_iff)
    then show ?thesis
    proof (cases rule: cl_read_cases)
      case wait
      then show ?thesis using view_same(1,2) [OF c1] by simp
    next
      case (read nonce buf brk c2)
      have "m < length (fm_miners (cm_farm c1))" using view_same(2) [OF c1] m by simp
      with report_keeps [OF read(3)] view_same(1,2) [OF c1] view_same(1,2) [OF read(8)] show ?thesis by simp
    qed
  qed
qed

lemma loop_keeps:
  "cl_loop H m ch acc t es l c = Inr (r, l', c') \<Longrightarrow> m < length (fm_miners (cm_farm c)) \<Longrightarrow> mailbox (cm_farm c) \<noteq> None \<Longrightarrow>
   mailbox (cm_farm c') = mailbox (cm_farm c)"
proof (induction es arbitrary: l c)
  case (Cons e es)
  then obtain r1 l1 c1 where it: "cl_iteration H m ch acc t e l c = Inr (r1, l1, c1)"
    and rest: "(if r1 = Awake then cl_loop H m ch acc t es l1 c1 else Inr (r1, l1, c1)) = Inr (r, l', c')"
    by (auto simp: bindE_Inr_iff)
  from iteration_keeps [OF it Cons.prems(2)] Cons.prems(2,3) Cons.IH [of l1 c1] rest show ?case by (auto split: if_splits)
qed simp

text \<open>
  A search whose throttle stays below 100 percent, from clean buffers: a buffer is idle, or it belongs to a
  batch that is still to be read and holds what the device made of it.
\<close>

definition idle :: "u32 list \<Rightarrow> bool" where
  "idle output \<longleftrightarrow> length output = 64 \<and> output ! 0 = 0"

definition filled :: "bytes \<Rightarrow> h160 \<Rightarrow> u64 \<Rightarrow> cl_miner \<Rightarrow> bool" where
  "filled ch acc t c \<longleftrightarrow>
     (\<forall>(n, b) \<in> set (cm_pending c). batch_ok ch acc t (cm_globalWorkSize c) n (cm_outputs c ! b)) \<and>
     (\<forall>b < 2. b \<notin> snd ` set (cm_pending c) \<longrightarrow> idle (cm_outputs c ! b))"

definition env_ok :: "u32 \<Rightarrow> cl_env \<Rightarrow> bool" where
  "env_ok work_size e \<longleftrightarrow> ce_throttle e < 100 \<and> length (ce_nonce e) = 32 \<and> device_ok work_size (ce_run e)"

text \<open>The batches that a search queues: by their nonces, in order.\<close>

definition cl_queued :: "nat \<Rightarrow> cl_env \<Rightarrow> cl_local \<Rightarrow> cl_miner \<Rightarrow> h256 list" where
  "cl_queued m e l c =
     (case cl_throttle m e (checkThrottleChange (ce_throttle e) l) c of
        Inr (r, l1, c1) \<Rightarrow> if r = Awake \<and> length (cm_pending c1) < ll_bufferCount l1 then [ce_nonce e] else []
      | Inl _ \<Rightarrow> [])"

fun cl_batches :: "(bytes \<Rightarrow> h256) \<Rightarrow> nat \<Rightarrow> bytes \<Rightarrow> h160 \<Rightarrow> u64 \<Rightarrow> cl_env list \<Rightarrow> cl_local \<Rightarrow> cl_miner \<Rightarrow> h256 list" where
  "cl_batches H m challenge account target [] l c = []"
| "cl_batches H m challenge account target (e # es) l c =
     cl_queued m e l c @
     (case cl_iteration H m challenge account target e l c of
        Inr (r, l, c) \<Rightarrow> if r = Awake then cl_batches H m challenge account target es l c else []
      | Inl _ \<Rightarrow> [])"

definition gpu_batches :: "(bytes \<Rightarrow> h256) \<Rightarrow> nat \<Rightarrow> int \<Rightarrow> h160 \<Rightarrow> cl_env list \<Rightarrow> cl_miner \<Rightarrow> h256 list" where
  "gpu_batches H m m_throttle account es c =
     (let f = (cm_farm c)\<lparr>fm_isMining := True\<rparr> in
      cl_batches H m (take 32 (mn_challenge (fm_miners f ! m))) account (upper64OfHash (mn_target (fm_miners f ! m))) es
        \<lparr>ll_throttle = 0, ll_bufferCount = (if m_throttle = 0 then c_bufferCount else 1), ll_kernelTime = 100, ll_batchCount = 0\<rparr>
        (c\<lparr>cm_farm := f\<rparr>))"

lemma unthrottled_iteration:
  assumes "ce_throttle e = 0" "ll_throttle l = 0"
  shows "cl_iteration H m ch acc t e l c =
    bindE (cl_read H m e l (cl_enqueue ch acc t e l c)) (\<lambda>(stop, l, c). Inr (if stop then Interrupted else Awake, l, c))"
proof -
  have "checkThrottleChange (ce_throttle e) l = l" by (cases l) (use assms in \<open>simp add: checkThrottleChange_def\<close>)
  then show ?thesis using assms(2) by (simp add: cl_iteration_def cl_throttle_def)
qed

text \<open>Below 100 percent a nap changes nothing that the search depends on.\<close>

lemma nap_keeps:
  assumes thr: "cl_throttle m e (checkThrottleChange (ce_throttle e) l) c = Inr (r, l', c')" and "ce_throttle e < 100"
  shows "c' = c\<lparr>cm_farm := cm_farm c'\<rparr>" "search_view m (cm_farm c') = search_view m (cm_farm c)"
    "cl_ok l c \<Longrightarrow> cl_ok l' c'"
proof -
  have below: "ll_throttle (checkThrottleChange (ce_throttle e) l) < 100" using assms(2) by (simp add: checkThrottleChange_def Let_def)
  from thr have "c' = c\<lparr>cm_farm := cm_farm c'\<rparr> \<and> search_view m (cm_farm c') = search_view m (cm_farm c)"
    by (cases rule: cl_throttle_cases) (use below view_naps in \<open>auto split: if_splits\<close>)
  then show "c' = c\<lparr>cm_farm := cm_farm c'\<rparr>" "search_view m (cm_farm c') = search_view m (cm_farm c)" by blast+
  show "cl_ok l c \<Longrightarrow> cl_ok l' c'"
    using cl_throttle_ok [OF thr] checkThrottle_count [of l "ce_throttle e"] by (simp add: cl_ok_def)
qed

text \<open>A kernel run is queued on an idle buffer.\<close>

lemma enqueue_filled:
  assumes ok: "cl_ok l c" "filled ch acc t c" and e: "env_ok (cm_globalWorkSize c) e" and len: "length ch = 32" "length acc = 20"
  shows "filled ch acc t (cl_enqueue ch acc t e l c)" "idle (cm_outputs c ! cm_buf c)"
    "map fst (cm_pending (cl_enqueue ch acc t e l c)) =
      map fst (cm_pending c) @ (if length (cm_pending c) < ll_bufferCount l then [ce_nonce e] else [])"
    "cm_pending (cl_enqueue ch acc t e l c) \<noteq> []" "distinct (map snd (cm_pending (cl_enqueue ch acc t e l c)))"
    "\<forall>(n, b) \<in> set (cm_pending (cl_enqueue ch acc t e l c)). b < 2"
proof -
  have buf: "cm_buf c = 0 \<or> cm_buf c = 1" and out: "length (cm_outputs c) = 2" using ok(1) by (auto simp: cl_ok_def)
  show i: "idle (cm_outputs c ! cm_buf c)" using ok by (auto simp: cl_ok_def filled_def)
  let ?o = "ce_run e (keccak_precomp (message_words ch acc (ce_nonce e))) t (cm_outputs c ! cm_buf c)"
  have batch: "batch_ok ch acc t (cm_globalWorkSize c) (ce_nonce e) ?o"
    using e i len by (intro device_batch) (simp_all add: env_ok_def idle_def)
  let ?c = "cl_enqueue ch acc t e l c"
  have "filled ch acc t ?c \<and> map fst (cm_pending ?c) = map fst (cm_pending c) @ (if length (cm_pending c) < ll_bufferCount l then [ce_nonce e] else []) \<and>
      cm_pending ?c \<noteq> [] \<and> distinct (map snd (cm_pending ?c)) \<and> (\<forall>(n, b) \<in> set (cm_pending ?c). b < 2)"
    using ok(1)
  proof (cases rule: cl_enqueue_cases [where ch = ch and acc = acc and t = t and e = e])
    case one
    then show ?thesis using ok by (auto simp: cl_ok_def)
  next
    case first
    have "filled ch acc t ?c" unfolding first(2) using ok(2) batch buf out first(1) by (auto simp: filled_def nth_list_update)
    then show ?thesis using first ok(1) buf by (auto simp: cl_ok_def)
  next
    case (second n b)
    have "filled ch acc t ?c" unfolding second(5) using ok(2) batch buf out second(1,2) by (auto simp: filled_def nth_list_update)
    then show ?thesis using second buf by auto
  qed
  then show "filled ch acc t ?c" "map fst (cm_pending ?c) = map fst (cm_pending c) @ (if length (cm_pending c) < ll_bufferCount l then [ce_nonce e] else [])"
    "cm_pending ?c \<noteq> []" "distinct (map snd (cm_pending ?c))" "\<forall>(n, b) \<in> set (cm_pending ?c). b < 2" by blast+
qed

definition batch_reported :: "(bytes \<Rightarrow> h256) \<Rightarrow> nat \<Rightarrow> bytes \<Rightarrow> h160 \<Rightarrow> u64 \<Rightarrow> u32 \<Rightarrow> bool \<Rightarrow> h256 \<Rightarrow> farm \<Rightarrow> farm \<Rightarrow> bool" where
  "batch_reported H m ch acc t work_size stop n f f' \<longleftrightarrow>
     (\<exists>ns brk g. ((\<exists>gid < ucast work_size. good_nonce ch acc t (put_gid gid n)) \<longrightarrow> ns \<noteq> []) \<and>
        (\<forall>x \<in> set ns. good_nonce ch acc t x) \<and>
        (if ns = [] then g = f else clhook_found H m stop ns f = Inr (brk, g)) \<and> search_view m f' = search_view m g)"

text \<open>Reading the oldest batch reports it and leaves its buffer idle.\<close>

lemma read_filled:
  assumes read: "cl_read H m e l c = Inr (stop, l', c')"
    and c: "filled ch acc t c" "cm_pending c \<noteq> []" "distinct (map snd (cm_pending c))" "length (cm_outputs c) = 2"
      "\<forall>(n, b) \<in> set (cm_pending c). b < 2"
  shows "filled ch acc t c'" "cm_globalWorkSize c' = cm_globalWorkSize c"
    "cm_pending c' = cm_pending c \<and> search_view m (cm_farm c') = search_view m (cm_farm c) \<or>
      cm_pending c' = tl (cm_pending c) \<and>
        batch_reported H m ch acc t (cm_globalWorkSize c) (ce_stop e) (fst (hd (cm_pending c))) (cm_farm c) (cm_farm c')"
proof -
  have "filled ch acc t c' \<and> cm_globalWorkSize c' = cm_globalWorkSize c \<and>
      (cm_pending c' = cm_pending c \<and> search_view m (cm_farm c') = search_view m (cm_farm c) \<or>
       cm_pending c' = tl (cm_pending c) \<and>
         batch_reported H m ch acc t (cm_globalWorkSize c) (ce_stop e) (fst (hd (cm_pending c))) (cm_farm c) (cm_farm c'))"
    using read
  proof (cases rule: cl_read_cases)
    case wait
    then show ?thesis using c(1) by simp
  next
    case (read n b brk c2)
    let ?ns = "batch_nonces n (cm_outputs c ! b)"
    obtain p where p: "cm_pending c = (n, b) # p" using c(2) read(2) by (cases "cm_pending c") auto
    note shape = cl_report_shape [OF read(3)]
    have c': "cm_pending c' = cm_pending c2" "cm_outputs c' = cm_outputs c2" "cm_globalWorkSize c' = cm_globalWorkSize c2"
      by (subst read(7), simp)+
    have ok: "batch_ok ch acc t (cm_globalWorkSize c) n (cm_outputs c ! b)" "b < 2" using c(1,5) p by (auto simp: filled_def)
    have empty: "cm_outputs c ! b ! 0 = 0" if "?ns = []"
      using that by (auto simp: batch_nonces_def read_solutions_def MAX_OUTPUTS_def unat_eq_0 min_def split: if_splits)
    have idle: "idle (cm_outputs c' ! b)" using shape(4) c'(2) ok c(4) empty by (auto simp: idle_def batch_ok_def)
    have same: "cm_outputs c' ! x = cm_outputs c ! x" if "x \<noteq> b" for x using shape(4) c'(2) that by auto
    have other: "x \<noteq> b" if "(k, x) \<in> set p" for k x using c(3) p that by (auto simp: image_iff)
    have "batch_ok ch acc t (cm_globalWorkSize c) k (cm_outputs c' ! x)" if "(k, x) \<in> set p" for k x
      using c(1) p that same [OF other [OF that]] by (auto simp: filled_def)
    moreover have "idle (cm_outputs c' ! x)" if "x < 2" "x \<notin> snd ` set p" for x
      using c(1) p that idle same [of x] by (cases "x = b") (auto simp: filled_def)
    ultimately have "filled ch acc t c'" using c' shape p by (auto simp: filled_def)
    moreover have "batch_reported H m ch acc t (cm_globalWorkSize c) (ce_stop e) n (cm_farm c) (cm_farm c')"
    proof -
      have "\<exists>brk f. (if ?ns = [] then f = cm_farm c else clhook_found H m (ce_stop e) ?ns (cm_farm c) = Inr (brk, f)) \<and>
          search_view m (cm_farm c') = search_view m f"
        using read(3,8) by (auto simp: cl_report_def bindE_Inr_iff split: if_splits)
      with ok show ?thesis unfolding batch_reported_def batch_ok_def by blast
    qed
    ultimately show ?thesis using c' shape p by simp
  qed
  then show "filled ch acc t c'" "cm_globalWorkSize c' = cm_globalWorkSize c"
    "cm_pending c' = cm_pending c \<and> search_view m (cm_farm c') = search_view m (cm_farm c) \<or>
      cm_pending c' = tl (cm_pending c) \<and>
        batch_reported H m ch acc t (cm_globalWorkSize c) (ce_stop e) (fst (hd (cm_pending c))) (cm_farm c) (cm_farm c')" by blast+
qed

text \<open>An iteration queues at most one batch and reads at most one, the oldest.\<close>

lemma filled_iteration:
  assumes c: "cl_ok l c" "filled ch acc t c" and e: "env_ok (cm_globalWorkSize c) e" and len: "length ch = 32" "length acc = 20"
    and it: "cl_iteration H m ch acc t e l c = Inr (r, l', c')"
  shows "cl_ok l' c'" "filled ch acc t c'" "cm_globalWorkSize c' = cm_globalWorkSize c"
    "\<exists>f. search_view m f = search_view m (cm_farm c) \<and>
      (map fst (cm_pending c) @ cl_queued m e l c = map fst (cm_pending c') \<and> search_view m (cm_farm c') = search_view m f \<or>
       (\<exists>n. map fst (cm_pending c) @ cl_queued m e l c = n # map fst (cm_pending c') \<and>
          batch_reported H m ch acc t (cm_globalWorkSize c) (ce_stop e) n f (cm_farm c')))"
proof -
  show "cl_ok l' c'" by (rule cl_iteration_ok [OF it c(1)])
  obtain r1 l1 c1 where thr: "cl_throttle m e (checkThrottleChange (ce_throttle e) l) c = Inr (r1, l1, c1)"
    and rest: "(if r1 \<noteq> Awake then Inr (r1, l1, c1)
       else bindE (cl_read H m e l1 (cl_enqueue ch acc t e l1 c1)) (\<lambda>(stop, l, c). Inr (if stop then Interrupted else Awake, l, c))) = Inr (r, l', c')"
    using it by (auto simp: cl_iteration_def bindE_Inr_iff)
  have "ce_throttle e < 100" using e by (simp add: env_ok_def)
  note nap = nap_keeps [OF thr this]
  have same: "cm_pending c1 = cm_pending c" "cm_outputs c1 = cm_outputs c" "cm_globalWorkSize c1 = cm_globalWorkSize c"
    by (subst nap(1), simp)+
  have c1: "cl_ok l1 c1" "filled ch acc t c1" using nap(3) [OF c(1)] c(2) by (simp_all add: filled_def same)
  have "filled ch acc t c' \<and> cm_globalWorkSize c' = cm_globalWorkSize c \<and>
    (map fst (cm_pending c) @ cl_queued m e l c = map fst (cm_pending c') \<and> search_view m (cm_farm c') = search_view m (cm_farm c1) \<or>
     (\<exists>n. map fst (cm_pending c) @ cl_queued m e l c = n # map fst (cm_pending c') \<and>
        batch_reported H m ch acc t (cm_globalWorkSize c) (ce_stop e) n (cm_farm c1) (cm_farm c')))"
  proof (cases "r1 = Awake")
    case False
    then have "c' = c1" "cl_queued m e l c = []" using rest thr by (simp_all add: cl_queued_def)
    then show ?thesis using c1(2) same by simp
  next
    case True
    let ?c = "cl_enqueue ch acc t e l1 c1"
    note enq = enqueue_filled [OF c1 e [folded same(3)] len]
    have q: "map fst (cm_pending c) @ cl_queued m e l c = map fst (cm_pending ?c)" using enq(3) thr True by (simp add: cl_queued_def same)
    have out: "length (cm_outputs ?c) = 2" using c1(1) by (simp add: cl_enqueue_def Let_def cl_ok_def)
    from rest True obtain stop where read: "cl_read H m e l1 ?c = Inr (stop, l', c')" by (auto simp: bindE_Inr_iff)
    note rd = read_filled [OF read enq(1,4,5) out enq(6)]
    obtain x p where xp: "cm_pending ?c = x # p" using enq(4) by (cases "cm_pending ?c") auto
    show ?thesis using rd(1,2) rd(3) xp same(3) unfolding q by auto
  qed
  then show "filled ch acc t c'" "cm_globalWorkSize c' = cm_globalWorkSize c"
    "\<exists>f. search_view m f = search_view m (cm_farm c) \<and>
      (map fst (cm_pending c) @ cl_queued m e l c = map fst (cm_pending c') \<and> search_view m (cm_farm c') = search_view m f \<or>
       (\<exists>n. map fst (cm_pending c) @ cl_queued m e l c = n # map fst (cm_pending c') \<and>
          batch_reported H m ch acc t (cm_globalWorkSize c) (ce_stop e) n f (cm_farm c')))"
    using nap(2) by blast+
qed

lemma filled_loop:
  "cl_ok l c \<Longrightarrow> filled ch acc t c \<Longrightarrow> \<forall>e \<in> set es. env_ok (cm_globalWorkSize c) e \<Longrightarrow> length ch = 32 \<Longrightarrow> length acc = 20 \<Longrightarrow>
   cl_loop H m ch acc t es l c = Inr (r, l', c') \<Longrightarrow> cl_ok l' c' \<and> filled ch acc t c' \<and> cm_globalWorkSize c' = cm_globalWorkSize c"
proof (induction es arbitrary: l c)
  case (Cons e es)
  then obtain r1 l1 c1 where it: "cl_iteration H m ch acc t e l c = Inr (r1, l1, c1)"
    and rest: "(if r1 = Awake then cl_loop H m ch acc t es l1 c1 else Inr (r1, l1, c1)) = Inr (r, l', c')"
    by (auto simp: bindE_Inr_iff)
  have "env_ok (cm_globalWorkSize c) e" using Cons.prems(3) by simp
  note one = filled_iteration [OF Cons.prems(1,2) this Cons.prems(4,5) it]
  show ?case using Cons.IH [OF one(1,2) _ Cons.prems(4,5)] one Cons.prems(3) rest by (auto split: if_splits)
qed simp

text \<open>A miner that searches: its work, its account, and an empty mailbox.\<close>

definition searching :: "nat \<Rightarrow> bytes \<Rightarrow> h160 \<Rightarrow> u64 \<Rightarrow> nat \<Rightarrow> farm \<Rightarrow> bool" where
  "searching m ch acc t i f \<longleftrightarrow> mailbox f = None \<and> m < length (fm_miners f) \<and> 32 \<le> length (mn_challenge (fm_miners f ! m)) \<and>
     take 32 (mn_challenge (fm_miners f ! m)) = ch \<and> length (mn_target (fm_miners f ! m)) = 32 \<and>
     upper64OfHash (mn_target (fm_miners f ! m)) = t \<and> mn_index (fm_miners f ! m) = i \<and>
     fh_of_string 20 (fm_hashingAcct f) FromHex FailIfDifferent = Inr acc"

lemma searching_view: "search_view m f' = search_view m f \<Longrightarrow> searching m ch acc t i f' = searching m ch acc t i f"
  using view_same [of m f' f] by (simp add: searching_def)

lemma searching_found:
  assumes "searching m ch acc t i f" "\<forall>x \<in> set ns. good_nonce ch acc t x" "ns \<noteq> []"
    and "clhook_found sha3 m st ns f = Inr (brk, f')"
  shows "\<exists>x. mailbox f' = Some (x, int i) \<and> good_nonce ch acc t x \<and> length (fm_miners f') = length (fm_miners f)"
proof -
  obtain n ns' where ns: "ns = n # ns'" using assms(3) by (cases ns) auto
  have "fh_less (sha3 (ch @ acc @ n)) (mn_target (fm_miners f ! m))"
    using assms(1,2) ns by (intro upper64_less) (auto simp: searching_def good_nonce_def)
  then have "mailbox f' = Some (n, int i)"
    using found_submits [of m st n ns' f brk f' acc] assms(1,4) ns by (simp add: searching_def)
  moreover have "length (fm_miners f') = length (fm_miners f)"
    using found_keeps [OF assms(4)] assms(1) by (simp add: searching_def)
  ultimately show ?thesis using assms(2) ns by simp
qed

definition barren :: "bytes \<Rightarrow> h160 \<Rightarrow> u64 \<Rightarrow> u32 \<Rightarrow> h256 \<Rightarrow> bool" where
  "barren ch acc t work_size n \<longleftrightarrow> (\<forall>gid < ucast work_size. \<not> good_nonce ch acc t (put_gid gid n))"

definition searched_ok :: "bytes \<Rightarrow> h160 \<Rightarrow> u64 \<Rightarrow> u32 \<Rightarrow> nat \<Rightarrow> h256 list \<Rightarrow> nap \<Rightarrow> cl_miner \<Rightarrow> bool" where
  "searched_ok ch acc t work_size i batches r c \<longleftrightarrow>
     (case mailbox (cm_farm c) of
        None \<Rightarrow> r \<noteq> Interrupted \<longrightarrow> (\<exists>done. batches = done @ map fst (cm_pending c) \<and> (\<forall>n \<in> set done. barren ch acc t work_size n))
      | Some (x, j) \<Rightarrow> good_nonce ch acc t x \<and> j = int i)"

text \<open>Reporting a batch: it was barren and nothing changed, or a good nonce of it is in the mailbox.\<close>

lemma reported_cases:
  assumes rep: "batch_reported sha3 m ch acc t g st n f f'" and s: "searching m ch acc t i f"
  shows "barren ch acc t g n \<and> searching m ch acc t i f' \<or>
    (\<exists>x. mailbox f' = Some (x, int i) \<and> good_nonce ch acc t x \<and> m < length (fm_miners f'))"
proof -
  from rep obtain ns brk f1 where ns: "(\<exists>gid < ucast g. good_nonce ch acc t (put_gid gid n)) \<longrightarrow> ns \<noteq> []" "\<forall>x \<in> set ns. good_nonce ch acc t x"
      "if ns = [] then f1 = f else clhook_found sha3 m st ns f = Inr (brk, f1)" "search_view m f' = search_view m f1"
    unfolding batch_reported_def by blast
  show ?thesis
  proof (cases "ns = []")
    case True
    then show ?thesis using ns(1,3) s searching_view [OF ns(4)] by (auto simp: barren_def)
  next
    case False
    with searching_found [OF s ns(2) False, of st brk f1] ns(3) obtain x where
      "mailbox f1 = Some (x, int i)" "good_nonce ch acc t x" "length (fm_miners f1) = length (fm_miners f)" by auto
    then show ?thesis using view_same(1,2) [OF ns(4)] s by (auto simp: searching_def)
  qed
qed

lemma filled_search:
  assumes "cl_ok l c" "filled ch acc t c" "\<forall>e \<in> set es. env_ok (cm_globalWorkSize c) e"
    and "length ch = 32" "length acc = 20" "searching m ch acc t i (cm_farm c)"
    and "cl_loop sha3 m ch acc t es l c = Inr (r, l', c')"
  shows "searched_ok ch acc t (cm_globalWorkSize c) i (map fst (cm_pending c) @ cl_batches sha3 m ch acc t es l c) r c'"
  using assms
proof (induction es arbitrary: l c)
  case Nil
  then show ?case by (simp add: searched_ok_def searching_def)
next
  case (Cons e es)
  let ?g = "cm_globalWorkSize c"
  from Cons.prems(7) obtain r1 l1 c1 where it: "cl_iteration sha3 m ch acc t e l c = Inr (r1, l1, c1)"
    and rest: "(if r1 = Awake then cl_loop sha3 m ch acc t es l1 c1 else Inr (r1, l1, c1)) = Inr (r, l', c')"
    by (auto simp: bindE_Inr_iff)
  have e: "env_ok ?g e" "\<forall>e \<in> set es. env_ok ?g e" using Cons.prems(3) by simp_all
  note one = filled_iteration [OF Cons.prems(1,2) e(1) Cons.prems(4,5) it]
  let ?q = "map fst (cm_pending c) @ cl_queued m e l c"
  from one(4) obtain f where f: "search_view m f = search_view m (cm_farm c)"
    and step: "?q = map fst (cm_pending c1) \<and> search_view m (cm_farm c1) = search_view m f \<or>
      (\<exists>n. ?q = n # map fst (cm_pending c1) \<and> batch_reported sha3 m ch acc t ?g (ce_stop e) n f (cm_farm c1))" by blast
  have sf: "searching m ch acc t i f" using Cons.prems(6) searching_view [OF f] by simp
  from step reported_cases [OF _ sf] searching_view [of m "cm_farm c1" f ch acc t i] sf
  consider (go) old where "?q = old @ map fst (cm_pending c1)" "\<forall>n \<in> set old. barren ch acc t ?g n" "searching m ch acc t i (cm_farm c1)"
    | (hit) x where "mailbox (cm_farm c1) = Some (x, int i)" "good_nonce ch acc t x" "m < length (fm_miners (cm_farm c1))"
    by (metis append_Cons append_Nil empty_iff empty_set set_ConsD)
  then show ?case
  proof cases
    case go
    have "searched_ok ch acc t ?g i (map fst (cm_pending c1) @ (if r1 = Awake then cl_batches sha3 m ch acc t es l1 c1 else [])) r c'"
    proof (cases "r1 = Awake")
      case True
      then show ?thesis using Cons.IH [OF one(1,2) _ Cons.prems(4,5) go(3)] rest one(3) e(2) by simp
    next
      case False
      then show ?thesis using go(3) rest by (auto simp: searched_ok_def searching_def)
    qed
    moreover have "map fst (cm_pending c) @ cl_batches sha3 m ch acc t (e # es) l c =
        old @ map fst (cm_pending c1) @ (if r1 = Awake then cl_batches sha3 m ch acc t es l1 c1 else [])"
      using go(1) it by (simp flip: append_assoc)
    ultimately show ?thesis using go(2) by (fastforce simp: searched_ok_def split: option.splits)
  next
    case hit
    then have "mailbox (cm_farm c') = Some (x, int i)"
      using rest loop_keeps [of sha3 m ch acc t es l1 c1 r l' c'] by (auto split: if_splits)
    then show ?thesis using hit(2) by (simp add: searched_ok_def)
  qed
qed

text \<open>Without a throttle every iteration queues a batch.\<close>

lemma unthrottled_batches:
  "cl_ok l c \<Longrightarrow> ll_throttle l = 0 \<Longrightarrow> ll_bufferCount l = 2 \<Longrightarrow> \<forall>e \<in> set es. ce_throttle e = 0 \<Longrightarrow>
   cl_loop H m ch acc t es l c = Inr (r, l', c') \<Longrightarrow> r \<noteq> Interrupted \<Longrightarrow> cl_batches H m ch acc t es l c = map ce_nonce es"
proof (induction es arbitrary: l c)
  case (Cons e es)
  then obtain r1 l1 c1 where it: "cl_iteration H m ch acc t e l c = Inr (r1, l1, c1)"
    and rest: "(if r1 = Awake then cl_loop H m ch acc t es l1 c1 else Inr (r1, l1, c1)) = Inr (r, l', c')"
    by (auto simp: bindE_Inr_iff)
  from Cons.prems(4) have e: "ce_throttle e = 0" by simp
  from it obtain stop where read: "cl_read H m e l (cl_enqueue ch acc t e l c) = Inr (stop, l1, c1)"
    and r1: "r1 = (if stop then Interrupted else Awake)"
    unfolding unthrottled_iteration [OF e Cons.prems(2)] by (auto simp: bindE_Inr_iff)
  have awake: "r1 = Awake" using r1 rest Cons.prems(6) by (auto split: if_splits)
  have l1: "ll_throttle l1 = 0" "ll_bufferCount l1 = 2"
    using read by (cases rule: cl_read_cases; use Cons.prems(2,3) in simp)+
  have "checkThrottleChange (ce_throttle e) l = l" by (cases l) (use Cons.prems(2) e in \<open>simp add: checkThrottleChange_def\<close>)
  then have "cl_queued m e l c = [ce_nonce e]"
    using Cons.prems(1-3) by (auto simp: cl_queued_def cl_throttle_def cl_ok_def)
  then show ?case
    using Cons.IH [OF cl_iteration_ok [OF it Cons.prems(1)] l1] Cons.prems(4,6) rest awake it by simp
qed simp

text \<open>At 100 percent the batches under way are forgotten, and what their runs found stays in the buffers.\<close>

lemma full_throttle_drops:
  assumes "cl_throttle m e (checkThrottleChange 100 l) c = Inr (r, l', c')"
  shows "cm_pending c' = []" "cm_outputs c' = cm_outputs c" "mailbox (cm_farm c') = mailbox (cm_farm c)"
proof -
  have t: "ll_throttle (checkThrottleChange 100 l) = 100" by (simp add: checkThrottleChange_def Let_def)
  from assms have "cm_pending c' = [] \<and> cm_outputs c' = cm_outputs c \<and> mailbox (cm_farm c') = mailbox (cm_farm c)"
    by (cases rule: cl_throttle_cases) (use t view_same(1) [OF view_naps] in \<open>auto\<close>)
  then show "cm_pending c' = []" "cm_outputs c' = cm_outputs c" "mailbox (cm_farm c') = mailbox (cm_farm c)" by blast+
qed

section \<open>Lemmas: stopping\<close>

definition told_to_stop :: "cl_env \<Rightarrow> bool" where
  "told_to_stop e \<longleftrightarrow> ce_stop e \<and> (\<forall>(m_throttle, stop) \<in> set (ce_naps e). stop)"

lemma stopped_naps:
  assumes "cl_naps m d rs l f = (Awake, l', f')" "\<forall>(t, stop) \<in> set rs. stop"
  shows "d \<le> 0 \<and> l' = l"
proof (cases rs)
  case Nil
  then show ?thesis using assms by (simp split: if_splits)
next
  case (Cons x xs)
  then show ?thesis using assms by (cases x) (simp add: Let_def split: if_splits)
qed

lemma stopped_throttle:
  assumes thr: "cl_throttle m e l c = Inr (Awake, l', c')" and stop: "told_to_stop e"
  shows "l' = l \<and> cm_pending c' = cm_pending c"
proof (cases "ll_throttle l < 100")
  case True
  with thr show ?thesis
    by (cases rule: cl_throttle_cases) (use stopped_naps stop in \<open>force simp: told_to_stop_def\<close>)+
next
  case False
  then have "cl_throttle m e l c = (let (r, l1, f1) = cl_naps m 100 (ce_naps e) l (cm_farm c) in
      Inr (r, l1, c\<lparr>cm_pending := [], cm_farm := f1\<rparr>))"
    by (simp add: cl_throttle_def)
  with thr obtain f1 where "cl_naps m 100 (ce_naps e) l (cm_farm c) = (Awake, l', f1)" by (auto split: prod.splits)
  with stopped_naps [of m 100 "ce_naps e" l "cm_farm c" l' f1] stop show ?thesis by (simp add: told_to_stop_def)
qed

lemma stopped_iteration:
  assumes it: "cl_iteration H m ch acc t e l c = Inr (Awake, l', c')" and ok: "cl_ok l c" and stop: "told_to_stop e"
  shows "cm_pending c = []" "cm_pending c' \<noteq> []"
proof -
  let ?l = "checkThrottleChange (ce_throttle e) l"
  obtain r1 l1 c1 where thr: "cl_throttle m e ?l c = Inr (r1, l1, c1)"
    and rest: "(if r1 \<noteq> Awake then Inr (r1, l1, c1)
       else bindE (cl_read H m e l1 (cl_enqueue ch acc t e l1 c1)) (\<lambda>(stop, l, c). Inr (if stop then Interrupted else Awake, l, c))) = Inr (Awake, l', c')"
    using it by (auto simp: cl_iteration_def bindE_Inr_iff)
  from rest have awake: "r1 = Awake" by (auto split: if_splits)
  with rest obtain st where read: "cl_read H m e l1 (cl_enqueue ch acc t e l1 c1) = Inr (st, l', c')" "\<not> st"
    by (auto simp: bindE_Inr_iff split: if_splits)
  have same: "cm_pending c1 = cm_pending c" using stopped_throttle thr stop awake by blast
  have ok1: "cl_ok l1 c1"
    using cl_throttle_ok [OF thr] ok checkThrottle_count [of l "ce_throttle e"] by (simp add: cl_ok_def)
  from read(1) have wait: "length (cm_pending (cl_enqueue ch acc t e l1 c1)) \<noteq> ll_bufferCount l1 \<and> c' = cl_enqueue ch acc t e l1 c1"
    by (cases rule: cl_read_cases) (use read(2) stop in \<open>auto simp: told_to_stop_def\<close>)
  from ok1 show "cm_pending c = []"
  proof (cases rule: cl_enqueue_cases [where ch = ch and acc = acc and t = t and e = e])
    case one
    then show ?thesis using wait ok1 by (auto simp: cl_ok_def)
  qed (use same wait in auto)
  then show "cm_pending c' \<noteq> []"
    using wait ok1 same by (auto simp: cl_enqueue_def Let_def cl_ok_def)
qed

section \<open>Lemmas: example\<close>

text \<open>A device with one work item.\<close>

definition one_item :: device where
  "one_item precomp target output =
     (if item_solves ROL2 (replicate 25 (U2 0 0)) precomp target 0 then output[0 := 1, 1 := 0] else output)"

lemma one_item_ok: "device_ok 1 one_item"
  unfolding device_ok_def
proof (intro allI impI)
  fix p t and buf :: "u32 list"
  assume out: "length buf = 64 \<and> buf ! 0 = 0"
  let ?st = "\<lambda>gid :: u64. replicate 25 (U2 0 0)"
  let ?h = "\<lambda>gid. item_solves ROL2 (?st gid) p t gid"
  have todo: "{gid. gid < ucast (1 :: u32)} = {0 :: u64}" by (auto simp: word_less_nat_alt word_unat_eq_iff)
  have "\<exists>gids k. runs (item_step ?h) (kernel_start buf 1) gids k \<and> kernel_finished k \<and> one_item p t buf = k_output k"
  proof (cases "?h 0")
    case True
    let ?k1 = "item_inc 0 (kernel_start buf 1)" and ?k2 = "item_write 1 0 (item_inc 0 (kernel_start buf 1))"
    have "item_step ?h (kernel_start buf 1) 0 ?k1"
      by (rule item_step.found) (use True todo in \<open>simp_all add: kernel_start_def\<close>)
    moreover have k1: "k_writes ?k1 = {(1, 0)}" "k_todo ?k1 = {}" "k_output ?k1 = buf[0 := 1]"
      using out todo by (simp_all add: item_inc_def kernel_start_def Let_def MAX_OUTPUTS_def)
    then have "item_step ?h ?k1 0 ?k2" by (intro item_step.store) simp
    ultimately have "runs (item_step ?h) (kernel_start buf 1) [0, 0] ?k2" by auto
    moreover have "kernel_finished ?k2" "one_item p t buf = k_output ?k2"
      using k1 True by (simp_all add: kernel_finished_def item_write_def one_item_def)
    ultimately show ?thesis by blast
  next
    case False
    let ?k1 = "(kernel_start buf 1)\<lparr>k_todo := k_todo (kernel_start buf 1) - {0}\<rparr>"
    have "item_step ?h (kernel_start buf 1) 0 ?k1"
      by (rule item_step.miss) (use False todo in \<open>simp_all add: kernel_start_def\<close>)
    then have "runs (item_step ?h) (kernel_start buf 1) [0] ?k1" by auto
    moreover have "kernel_finished ?k1" "one_item p t buf = k_output ?k1"
      using False todo by (simp_all add: kernel_finished_def kernel_start_def one_item_def)
    ultimately show ?thesis by blast
  qed
  moreover have "platform_rotation ROL2" by (simp add: platform_rotation_def)
  ultimately show "\<exists>R st gids k. platform_rotation R \<and> (\<forall>gid. length (st gid) = 25) \<and>
      runs (item_step (\<lambda>gid. item_solves R (st gid) p t gid)) (kernel_start buf 1) gids k \<and>
      kernel_finished k \<and> one_item p t buf = k_output k"
    by (intro exI [of _ ROL2] exI [of _ ?st]) simp
qed

text \<open>In a pool's farm nothing stops a report.\<close>

definition reports_return :: "nat \<Rightarrow> farm \<Rightarrow> bool" where
  "reports_return m f \<longleftrightarrow> fm_opMode f = Pool \<and> 32 \<le> length (mn_challenge (fm_miners f ! m)) \<and>
     (\<exists>acc. length acc = 20 \<and> fh_of_string 20 (fm_hashingAcct f) FromHex FailIfDifferent = Inr acc)"

lemma pool_report: "reports_return m f \<Longrightarrow> \<exists>stop f'. gpu_report sha3 m n f = Inr (stop, f') \<and> reports_return m f'"
  by (auto simp: reports_return_def gpu_report_def keccak256_0xBitcoin_def mix84_def mn_submitProof_def fm_submitProof_def Let_def)

lemma pool_found: "reports_return m f \<Longrightarrow> \<exists>r. clhook_found sha3 m st ns f = Inr r"
proof (induction ns arbitrary: f)
  case (Cons n ns)
  obtain stop f1 where "gpu_report sha3 m n f = Inr (stop, f1)" "reports_return m f1" using pool_report [OF Cons.prems] by blast
  then show ?case using Cons.IH [of f1] by (cases stop) (simp_all del: split_paired_Ex)
qed simp

lemma pool_read:
  assumes "reports_return m (cm_farm c)"
  shows "\<exists>r. cl_read sha3 m e l c = Inr r"
proof (cases "length (cm_pending c) = ll_bufferCount l")
  case True
  obtain n buf where hd: "hd (cm_pending c) = (n, buf)" by fastforce
  let ?ns = "batch_nonces n (cm_outputs c ! buf)"
  obtain brk f where "?ns \<noteq> [] \<Longrightarrow> clhook_found sha3 m (ce_stop e) ?ns (cm_farm c) = Inr (brk, f)"
    using pool_found [OF assms, of "ce_stop e" ?ns] by auto
  then obtain brk c1 where "cl_report sha3 m (ce_stop e) buf ?ns (c\<lparr>cm_pending := tl (cm_pending c)\<rparr>) = Inr (brk, c1)"
    by (cases "?ns = []") (auto simp: cl_report_def)
  then show ?thesis using True hd by (simp add: cl_read_def Let_def [of "cm_pending_update _ _"] Let_def [of "ll_kernelTime_update _ _"] del: split_paired_Ex split: prod.splits)
qed (simp add: cl_read_def del: split_paired_Ex)

section \<open>Claims\<close>

text \<open>C6: The search of a GPU miner is sound and misses nothing as long as no iteration finds the throttle at
  100 percent when it starts: started with no batch under way, clean buffers and an empty mailbox, on devices that run
  the kernel in any interleaving, and with the throttle changing at will otherwise, a solution it has put
  in the mailbox has a digest below the target and carries the miner's number; and when it has put none
  there and goes on or naps, then in every batch it has queued but those still to be read, at most one,
  no work item's nonce has a digest whose upper 64 bits lie below those of the target. Without a throttle
  it has queued one batch with each iteration.\<close>

theorem gpu_search_complete:
  assumes run: "gpu_workLoop sha3 m m_throttle es c = Inr (ended, c')"
    and c: "cm_pending c = []" "cm_buf c < 2" "length (cm_outputs c) = 2" "\<forall>out \<in> set (cm_outputs c). idle out"
    and m: "m < length (fm_miners (cm_farm c))" and empty: "mailbox (cm_farm c) = None"
    and work: "32 \<le> length (mn_challenge (fm_miners (cm_farm c) ! m))" "length (mn_target (fm_miners (cm_farm c) ! m)) = 32"
    and acc: "fh_of_string 20 (fm_hashingAcct (cm_farm c)) FromHex FailIfDifferent = Inr account" "length account = 20"
    and es: "\<forall>e \<in> set es. ce_throttle e < 100 \<and> length (ce_nonce e) = 32 \<and> device_ok (cm_globalWorkSize c) (ce_run e)"
  shows "(case mailbox (cm_farm c') of
      Some (n, i) \<Rightarrow> i = int (mn_index (fm_miners (cm_farm c) ! m)) \<and>
        fh_less (sha3 (take 32 (mn_challenge (fm_miners (cm_farm c) ! m)) @ account @ n)) (mn_target (fm_miners (cm_farm c) ! m))
    | None \<Rightarrow> \<not> ended \<longrightarrow> (\<exists>done. gpu_batches sha3 m m_throttle account es c = done @ map fst (cm_pending c') \<and>
        length (cm_pending c') \<le> 1 \<and>
        (\<forall>n \<in> set done. \<forall>gid < ucast (cm_globalWorkSize c).
           upper64OfHash (mn_target (fm_miners (cm_farm c) ! m)) \<le>
           upper64OfHash (sha3 (take 32 (mn_challenge (fm_miners (cm_farm c) ! m)) @ account @ put_gid gid n))))) \<and>
    (\<not> ended \<and> m_throttle = 0 \<and> (\<forall>e \<in> set es. ce_throttle e = 0) \<longrightarrow> gpu_batches sha3 m m_throttle account es c = map ce_nonce es)"
proof -
  define T where "T = mn_target (fm_miners (cm_farm c) ! m)"
  define ch where "ch = take 32 (mn_challenge (fm_miners (cm_farm c) ! m))"
  define i where "i = mn_index (fm_miners (cm_farm c) ! m)"
  let ?c = "c\<lparr>cm_farm := (cm_farm c)\<lparr>fm_isMining := True\<rparr>\<rparr>" and ?t = "upper64OfHash T"
  let ?l = "\<lparr>ll_throttle = 0, ll_bufferCount = (if m_throttle = 0 then c_bufferCount else 1), ll_kernelTime = 100, ll_batchCount = 0\<rparr>"
  from run acc(1) work(1) obtain r l' c1 where loop: "cl_loop sha3 m ch account ?t es ?l ?c = Inr (r, l', c1)"
    and ended: "ended = (r = Interrupted)" and mb: "mailbox (cm_farm c') = mailbox (cm_farm c1)" "cm_pending c' = cm_pending c1"
    by (auto simp: gpu_workLoop_def cl_search_def Let_def bindE_Inr_iff T_def ch_def mailbox_def split: if_splits)
  have ok: "cl_ok ?l ?c" "filled ch account ?t ?c" using c by (auto simp: cl_ok_def c_bufferCount_def filled_def)
  have s: "searching m ch account ?t i (cm_farm ?c)"
    using m empty work acc(1) by (simp add: searching_def ch_def T_def i_def mailbox_def split: if_splits)
  have e: "\<forall>e \<in> set es. env_ok (cm_globalWorkSize ?c) e" using es by (simp add: env_ok_def)
  have len: "length ch = 32" using work by (simp add: ch_def)
  have bs: "gpu_batches sha3 m m_throttle account es c = cl_batches sha3 m ch account ?t es ?l ?c"
    by (simp add: gpu_batches_def Let_def ch_def T_def)
  have "searched_ok ch account ?t (cm_globalWorkSize c) i (gpu_batches sha3 m m_throttle account es c) r c1"
    using filled_search [OF ok e len acc(2) s loop] c(1) by (simp add: bs)
  moreover have "length (cm_pending c1) \<le> 1"
    using filled_loop [OF ok e len acc(2) loop] by (auto simp: cl_ok_def)
  moreover have "gpu_batches sha3 m m_throttle account es c = map ce_nonce es"
    if "\<not> ended" "m_throttle = 0" "\<forall>e \<in> set es. ce_throttle e = 0"
    unfolding bs using unthrottled_batches [OF ok(1) _ _ that(3) loop] that(1,2) by (simp add: ended c_bufferCount_def)
  moreover have "fh_less (sha3 (ch @ account @ x)) T" if "good_nonce ch account ?t x" for x
    using that work(2) by (intro upper64_less) (simp_all add: good_nonce_def T_def)
  ultimately show ?thesis
    unfolding mb ended searched_ok_def T_def [symmetric] ch_def [symmetric] i_def [symmetric]
    by (cases "mailbox (cm_farm c1)") (auto simp: barren_def good_nonce_def not_less)
qed

text \<open>A farm with one GPU miner, and what its search observes, for the witnesses.\<close>

definition demo_gpu :: cl_miner where
  "demo_gpu = \<lparr>cm_pending = [], cm_buf = 0, cm_outputs = [replicate 64 0, replicate 64 0], cm_globalWorkSize = 1,
     cm_farm = example_farm\<lparr>fm_miners := [(example_miner 0)\<lparr>mn_kind := GPU, mn_challenge := replicate 32 7, mn_target := replicate 32 0\<rparr>],
       fm_hashingAcct := toHex (replicate 20 1) 2 DontAdd\<rparr>\<rparr>"

definition demo_env :: cl_env where
  "demo_env = \<lparr>ce_throttle = 0, ce_naps = [], ce_nonce = replicate 32 5, ce_run = one_item, ce_ms = 0, ce_us = 0, ce_stop = False\<rparr>"

definition pool_gpu :: cl_miner where
  "pool_gpu = demo_gpu\<lparr>cm_farm := (cm_farm demo_gpu)\<lparr>fm_opMode := Pool,
     fm_miners := [(example_miner 0)\<lparr>mn_kind := GPU, mn_challenge := replicate 32 7, mn_target := replicate 32 200\<rparr>]\<rparr>\<rparr>"

lemma nap_50:
  "cl_throttle 0 (demo_env\<lparr>ce_throttle := 50, ce_naps := [(50, False)]\<rparr>)
     (checkThrottleChange 50 \<lparr>ll_throttle = 0, ll_bufferCount = 2, ll_kernelTime = 100, ll_batchCount = 0\<rparr>) c =
   Inr (Awake, \<lparr>ll_throttle = 50, ll_bufferCount = 1, ll_kernelTime = 100, ll_batchCount = 0\<rparr>, c)"
proof -
  have "fp_to_int (- (2 ^ 31)) (2 ^ 31 - 1) (fdiv dbl (dbl_of_int 5000) (fsub dbl (Fin 100) (dbl_of_int 50))) = Inr 100"
    by (simp add: dbl_of_int_def fsub_def fp_to_int_def Let_def trunc_rat_def)
  then show ?thesis by (simp add: cl_throttle_def checkThrottleChange_def demo_env_def Let_def int32_def)
qed

lemma gpu_search_complete_witness:
  "\<exists>ended c'. gpu_workLoop sha3 0 0 [demo_env, demo_env\<lparr>ce_throttle := 50, ce_naps := [(50, False)]\<rparr>] pool_gpu = Inr (ended, c') \<and>
    (case mailbox (cm_farm c') of
       Some (n, i) \<Rightarrow> i = 0 \<and> fh_less (sha3 (replicate 32 7 @ replicate 20 1 @ n)) (replicate 32 200)
     | None \<Rightarrow> \<not> ended \<longrightarrow> 0xC8C8C8C8C8C8C8C8 \<le> upper64OfHash (sha3 (replicate 32 7 @ replicate 20 1 @ put_gid 0 (replicate 32 5))))"
proof -
  let ?e = "demo_env\<lparr>ce_throttle := 50, ce_naps := [(50, False)]\<rparr>"
  have acc: "fh_of_string 20 (toHex (replicate 20 1) 2 DontAdd) FromHex FailIfDifferent = Inr (replicate 20 1)"
    by (rule fh_of_string_toHex) simp
  have first: "\<exists>c1. cl_iteration sha3 0 ch acc t demo_env \<lparr>ll_throttle = 0, ll_bufferCount = 2, ll_kernelTime = 100, ll_batchCount = 0\<rparr> c =
      Inr (Awake, \<lparr>ll_throttle = 0, ll_bufferCount = 2, ll_kernelTime = 100, ll_batchCount = 0\<rparr>, c1) \<and> cm_farm c1 = cm_farm c \<and>
      length (cm_pending c1) = 1"
    if "cm_pending c = []" for ch acc t c
    using that by (simp add: demo_env_def unthrottled_iteration cl_enqueue_def cl_read_def Let_def)
  have second: "\<exists>r l' c'. cl_iteration sha3 0 ch acc t ?e \<lparr>ll_throttle = 0, ll_bufferCount = 2, ll_kernelTime = 100, ll_batchCount = 0\<rparr> c =
      Inr (r, l', c') \<and> cm_pending c' = []"
    if "reports_return 0 (cm_farm c)" "length (cm_pending c) = 1" for ch acc t c
  proof -
    have "\<exists>r. cl_read sha3 0 ?e l (cl_enqueue ch acc t ?e l c) = Inr r" for l by (rule pool_read) (use that in simp)
    then obtain stop l' c' where read:
      "cl_read sha3 0 ?e \<lparr>ll_throttle = 50, ll_bufferCount = 1, ll_kernelTime = 100, ll_batchCount = 0\<rparr>
         (cl_enqueue ch acc t ?e \<lparr>ll_throttle = 50, ll_bufferCount = 1, ll_kernelTime = 100, ll_batchCount = 0\<rparr> c) = Inr (stop, l', c')"
      by (metis prod_cases3)
    then show ?thesis using cl_read_shape(4) [OF read] that(2) by (auto simp: cl_iteration_def nap_50 cl_enqueue_def length_Suc_conv)
  qed
  define c0 where "c0 = pool_gpu\<lparr>cm_farm := (cm_farm pool_gpu)\<lparr>fm_isMining := True\<rparr>\<rparr>"
  let ?l = "\<lparr>ll_throttle = 0, ll_bufferCount = 2, ll_kernelTime = 100, ll_batchCount = 0\<rparr>"
  have c0: "reports_return 0 (cm_farm c0)" "cm_pending c0 = []"
    using acc by (simp_all add: reports_return_def c0_def pool_gpu_def demo_gpu_def)
  have pg: "fm_hashingAcct (cm_farm pool_gpu) = toHex (replicate 20 1) 2 DontAdd"
    "mn_challenge (fm_miners (cm_farm pool_gpu) ! 0) = replicate 32 7" "mn_target (fm_miners (cm_farm pool_gpu) ! 0) = replicate 32 200"
    "mn_index (fm_miners (cm_farm pool_gpu) ! 0) = 0" "length (fm_miners (cm_farm pool_gpu)) = 1" "mailbox (cm_farm pool_gpu) = None"
    "cm_pending pool_gpu = []" "cm_buf pool_gpu = 0" "cm_outputs pool_gpu = [replicate 64 0, replicate 64 0]" "cm_globalWorkSize pool_gpu = 1"
    by (simp_all add: pool_gpu_def demo_gpu_def example_miner_def mailbox_def example_farm_def)
  define t where "t = upper64OfHash (replicate 32 200)"
  obtain c1 where c1: "cl_iteration sha3 0 (replicate 32 7) (replicate 20 1) t demo_env ?l c0 = Inr (Awake, ?l, c1)"
      "cm_farm c1 = cm_farm c0" "length (cm_pending c1) = 1"
    using first [OF c0(2)] by blast
  then obtain r l' c2 where c2: "cl_iteration sha3 0 (replicate 32 7) (replicate 20 1) t ?e ?l c1 = Inr (r, l', c2)" "cm_pending c2 = []"
    using second [of c1] c0(1) by metis
  have loop: "cl_loop sha3 0 (replicate 32 7) (replicate 20 1) t [demo_env, ?e] ?l c0 = Inr (r, l', c2)"
    using c1(1) c2(1) by simp
  have "\<exists>ended c'. gpu_workLoop sha3 0 0 [demo_env, ?e] pool_gpu = Inr (ended, c') \<and> cm_pending c' = []"
    using acc loop c2(2)
    by (simp add: gpu_workLoop_def cl_search_def Let_def c_bufferCount_def pg c0_def [symmetric] t_def [symmetric] del: cl_loop.simps)
  then obtain ended c' where run: "gpu_workLoop sha3 0 0 [demo_env, ?e] pool_gpu = Inr (ended, c')" and p: "cm_pending c' = []" by blast
  have "cl_queued 0 demo_env ?l c0 = [replicate 32 5]"
    using c0(2) by (simp add: cl_queued_def demo_env_def checkThrottleChange_def cl_throttle_def)
  moreover have "cl_queued 0 ?e ?l c1 = []" using c1(3) by (auto simp: cl_queued_def nap_50)
  ultimately have b: "gpu_batches sha3 0 0 (replicate 20 1) [demo_env, ?e] pool_gpu = [replicate 32 5]"
    using c1(1) c2(1) by (simp add: gpu_batches_def Let_def pg c0_def [symmetric] t_def [symmetric] c_bufferCount_def)
  have "replicate 8 (200 :: byte) = [200, 200, 200, 200, 200, 200, 200, 200]" by (simp add: numeral_eq_Suc)
  then have "unat (upper64OfHash (replicate 32 200)) = 0xC8C8C8C8C8C8C8C8"
    using upper64OfHash_eq [of "replicate 32 200"] by (simp add: be_val_def)
  then have "upper64OfHash (replicate 32 200) = 0xC8C8C8C8C8C8C8C8" by (simp add: word_unat_eq_iff)
  then show ?thesis
    using gpu_search_complete [OF run, of "replicate 20 1"] acc one_item_ok b run p
    by (auto simp: pg idle_def demo_env_def split: option.splits)
qed

text \<open>C7: However the work items of a kernel run interleave - the increment of the shared counter is atomic,
  the write that follows is not - the finished run has left in the buffer: as many solutions as items
  found one, up to 63, each of them the number of such an item, and all of them when there are no
  more than 63. No solution is lost to a race, and none is invented.\<close>

theorem gpu_run_results:
  assumes "length output = 64" and "output ! 0 = 0"
    and "runs (item_step hits) (kernel_start output work_size) gids k" and "kernel_finished k"
  shows "length (read_solutions (k_output k)) = min (card {gid. gid < ucast work_size \<and> hits gid}) 63 \<and>
    set (read_solutions (k_output k)) \<subseteq> ucast ` {gid. gid < ucast work_size \<and> hits gid} \<and>
    (card {gid. gid < ucast work_size \<and> hits gid} \<le> 63 \<longrightarrow>
       set (read_solutions (k_output k)) = ucast ` {gid. gid < ucast work_size \<and> hits gid})"
proof -
  have "kernel_inv {gid. gid < ucast work_size} hits k"
    using kernel.inv_reachable [OF _ assms(3)] assms(1,2) by blast
  moreover have "unat work_size < 2 ^ 32" using unsigned_less [of work_size, where 'a = nat] by simp
  ultimately show ?thesis
    using kernel_results [of "{gid. gid < ucast work_size}" hits k] assms(4) work_items [of work_size] by simp
qed

lemma gpu_run_results_witness:
  "\<exists>k. runs (item_step (\<lambda>gid. True)) (kernel_start (replicate 64 0) 1) [0, 0] k \<and> set (read_solutions (k_output k)) = {0}"
proof -
  let ?k0 = "kernel_start (replicate 64 0) 1"
  let ?k1 = "item_inc 0 ?k0" and ?k2 = "item_write 1 0 (item_inc 0 ?k0)"
  have todo: "{gid. gid < ucast (1 :: u32)} = {0 :: u64}" by (auto simp: word_less_nat_alt word_unat_eq_iff)
  have k1: "k_writes ?k1 = {(1, 0)}" "k_todo ?k1 = {}"
    using todo by (simp_all add: item_inc_def kernel_start_def Let_def MAX_OUTPUTS_def)
  have "item_step (\<lambda>gid. True) ?k0 0 ?k1" by (rule item_step.found) (simp_all add: kernel_start_def todo)
  moreover have "item_step (\<lambda>gid. True) ?k1 0 ?k2" using k1 by (intro item_step.store) simp
  ultimately have run: "runs (item_step (\<lambda>gid. True)) ?k0 [0, 0] ?k2" by auto
  moreover have "kernel_finished ?k2" using k1 by (simp add: kernel_finished_def item_write_def)
  ultimately show ?thesis
    using gpu_run_results [OF _ _ run] by (intro exI [of _ ?k2]) (simp add: todo)
qed

text \<open>C31: The two buffers never clash as long as no iteration finds the throttle at 100 percent when it starts
  (one that does drops the batches whose runs are under way). Started with no batch under way and clean
  buffers, on devices that run the kernel, after any number of iterations: at most one batch is still
  to be read; its buffer holds what the kernel made of this batch - good nonces only, and some if there
  are any; the buffer that is used next is the other one; and every buffer that belongs to no batch counts
  no solution, so that a kernel run never starts on leftovers and never on a buffer still to be read.\<close>

theorem gpu_buffers_safe:
  assumes c: "cm_pending c = []" "cm_buf c < 2" "length (cm_outputs c) = 2" "\<forall>out \<in> set (cm_outputs c). idle out"
    and l: "ll_bufferCount l \<in> {1, 2}" and len: "length challenge = 32" "length account = 20"
    and es: "\<forall>e \<in> set es. ce_throttle e < 100 \<and> length (ce_nonce e) = 32 \<and> device_ok (cm_globalWorkSize c) (ce_run e)"
    and run: "cl_loop H m challenge account target es l c = Inr (r, l', c')"
  shows "length (cm_pending c') \<le> 1 \<and> cm_buf c' < 2 \<and> idle (cm_outputs c' ! cm_buf c') \<and>
    (\<forall>(n, b) \<in> set (cm_pending c'). b = 1 - cm_buf c' \<and> batch_ok challenge account target (cm_globalWorkSize c) n (cm_outputs c' ! b)) \<and>
    (cm_pending c' = [] \<longrightarrow> idle (cm_outputs c' ! (1 - cm_buf c')))"
proof -
  have "cl_ok l c" "filled challenge account target c" using c l by (auto simp: cl_ok_def filled_def)
  from filled_loop [OF this _ len run] have "cl_ok l' c'" "filled challenge account target c'" "cm_globalWorkSize c' = cm_globalWorkSize c"
    using es by (simp_all add: env_ok_def)
  then show ?thesis by (auto simp: cl_ok_def filled_def less_Suc_eq numeral_2_eq_2)
qed

lemma gpu_buffers_safe_witness:
  "\<exists>r l' c'. cl_loop sha3 0 (replicate 32 7) (replicate 20 1) 0 [demo_env]
     \<lparr>ll_throttle = 0, ll_bufferCount = 2, ll_kernelTime = 100, ll_batchCount = 0\<rparr> demo_gpu = Inr (r, l', c') \<and>
     length (cm_pending c') = 1 \<and> idle (cm_outputs c' ! cm_buf c')"
proof -
  let ?l = "\<lparr>ll_throttle = 0, ll_bufferCount = 2, ll_kernelTime = 100, ll_batchCount = 0\<rparr>"
  have same: "one_item p 0 out = out" for p out by (simp add: one_item_def item_solves_def)
  obtain r l' c' where run: "cl_loop sha3 0 (replicate 32 7) (replicate 20 1) 0 [demo_env] ?l demo_gpu = Inr (r, l', c')"
    and p: "length (cm_pending c') = 1"
    by (simp add: demo_gpu_def demo_env_def unthrottled_iteration cl_enqueue_def cl_read_def same batch_nonces_def
        read_solutions_def cl_report_def cl_searched_def Let_def)
  have "idle (cm_outputs c' ! cm_buf c')"
    using gpu_buffers_safe [OF _ _ _ _ _ _ _ _ run] one_item_ok by (simp add: demo_gpu_def demo_env_def idle_def)
  then show ?thesis using run p by blast
qed

text \<open>C32: A GPU search ends when it is told to: from any state it can be in, whatever the throttle does, if
  the hook asks it to stop whenever it is asked then it has stopped - or is in the middle of a nap -
  after two iterations.\<close>

theorem gpu_search_stops:
  assumes "cl_ok l c" and "told_to_stop e1" and "told_to_stop e2"
    and "cl_loop H m challenge account target [e1, e2] l c = Inr (r, l', c')"
  shows "r \<noteq> Awake"
proof
  assume "r = Awake"
  with assms(4) obtain l1 c1 where it: "cl_iteration H m challenge account target e1 l c = Inr (Awake, l1, c1)"
    "cl_iteration H m challenge account target e2 l1 c1 = Inr (Awake, l', c')"
    by (auto simp: bindE_Inr_iff split: if_splits)
  show False
    using stopped_iteration(2) [OF it(1) assms(1,2)] stopped_iteration(1) [OF it(2) cl_iteration_ok [OF it(1) assms(1)] assms(3)] by simp
qed

lemma gpu_search_stops_witness:
  "\<exists>r l' c'. cl_loop sha3 0 (replicate 32 7) (replicate 20 1) 0 [demo_env\<lparr>ce_stop := True\<rparr>, demo_env\<lparr>ce_stop := True\<rparr>]
     \<lparr>ll_throttle = 0, ll_bufferCount = 2, ll_kernelTime = 100, ll_batchCount = 0\<rparr> demo_gpu = Inr (r, l', c') \<and> r \<noteq> Awake"
proof -
  let ?l = "\<lparr>ll_throttle = 0, ll_bufferCount = 2, ll_kernelTime = 100, ll_batchCount = 0\<rparr>" and ?e = "demo_env\<lparr>ce_stop := True\<rparr>"
  have same: "one_item p 0 out = out" for p out by (simp add: one_item_def item_solves_def)
  obtain r l' c' where run: "cl_loop sha3 0 (replicate 32 7) (replicate 20 1) 0 [?e, ?e] ?l demo_gpu = Inr (r, l', c')"
    by (simp add: demo_gpu_def demo_env_def unthrottled_iteration cl_enqueue_def cl_read_def same batch_nonces_def
        read_solutions_def cl_report_def cl_searched_def Let_def)
  moreover have "cl_ok ?l demo_gpu" "told_to_stop ?e" by (simp_all add: cl_ok_def demo_gpu_def told_to_stop_def demo_env_def)
  ultimately show ?thesis using gpu_search_stops [OF _ _ _ run] by blast
qed

end

