(* ===== verification/GpuSetup.thy ===== *)
theory GpuSetup
  imports GpuSearch
begin

text \<open>
  What comes before the search of a GPU miner: \<open>configureGPU\<close> and the choice of devices
  (\<open>libethcore/EthashGPUMiner\<close>), \<open>ethash_cl_miner::init\<close>, the comparison of the kernel with the host's
  hash in \<open>verifyHashes\<close>, and the numbers of \<open>DivMagic\<close> (\<open>libethash-cl/ethash_cl_miner.cpp\<close>).
  The OpenCL platform is a record of its answers; an error it throws is its code.
\<close>

section \<open>The OpenCL platform\<close>

record cl_device =
  dv_version :: string
  dv_computeMajor :: u32
  dv_computeMinor :: u32

record cl_platform =
  pl_name :: string
  pl_devices :: "bool \<Rightarrow> int + cl_device list"

text \<open>
  The platforms; whether a context with its queues can be created on a device, whether a program text
  builds with its options, the buffers that are allocated, and how many of the writes that \<open>init\<close> puts on
  the first queue without waiting, one per buffer, the device has carried out when the search starts.
\<close>

record opencl =
  ocl_platforms :: "int + cl_platform list"
  ocl_context :: "cl_device \<Rightarrow> bool"
  ocl_build :: "string \<Rightarrow> string \<Rightarrow> bool"
  ocl_buffers :: "u32 list list option"
  ocl_landed :: nat

text \<open>The static members of \<open>ethash_cl_miner\<close> and \<open>EthashGPUMiner\<close>.\<close>

record gpu_statics =
  s_workgroupSize :: u32
  s_initialGlobalWorkSize :: u32
  s_allowCPU :: bool
  s_extraRequiredGPUMem :: u32
  s_platformId :: u32
  s_deviceId :: u32
  s_dagLoadMode :: u32
  s_dagCreateDevice :: u32
  s_numInstances :: u32
  s_devices :: "int list"

definition gpu_statics0 :: gpu_statics where
  "gpu_statics0 = \<lparr>s_workgroupSize = 128, s_initialGlobalWorkSize = 196608 * 128, s_allowCPU = False, s_extraRequiredGPUMem = 0,
     s_platformId = 0, s_deviceId = 0, s_dagLoadMode = 0, s_dagCreateDevice = 0, s_numInstances = 0, s_devices = replicate 16 (-1)\<rparr>"

definition cl_configureGPU :: "u32 \<Rightarrow> u32 \<Rightarrow> u32 \<Rightarrow> bool \<Rightarrow> u32 \<Rightarrow> u64 \<Rightarrow> gpu_statics \<Rightarrow> bool \<times> gpu_statics" where
  "cl_configureGPU platformId localWorkSize globalWorkSize allowCPU extraGPUMemory currentBlock s =
     (True, s\<lparr>s_workgroupSize := localWorkSize, s_initialGlobalWorkSize := globalWorkSize, s_allowCPU := allowCPU,
              s_extraRequiredGPUMem := extraGPUMemory\<rparr>)"

definition configureGPU ::
    "u32 \<Rightarrow> u32 \<Rightarrow> u32 \<Rightarrow> u32 \<Rightarrow> bool \<Rightarrow> u32 \<Rightarrow> u64 \<Rightarrow> u32 \<Rightarrow> u32 \<Rightarrow> gpu_statics \<Rightarrow> bool \<times> gpu_statics" where
  "configureGPU localWorkSize workSizeMultiplier platformId deviceId allowCPU extraGPUMemory currentBlock dagLoadMode dagCreateDevice s =
     (let s = s\<lparr>s_dagLoadMode := dagLoadMode, s_dagCreateDevice := dagCreateDevice, s_platformId := platformId, s_deviceId := deviceId\<rparr>;
          localWorkSize = ((localWorkSize + 7) div 8) * 8;
          (ok, s) = cl_configureGPU platformId localWorkSize (workSizeMultiplier * localWorkSize) allowCPU extraGPUMemory currentBlock s
      in if \<not> ok then (False, s) else (True, s))"

definition getPlatforms :: "opencl \<Rightarrow> cl_platform list" where
  "getPlatforms E = (case ocl_platforms E of Inl err \<Rightarrow> [] | Inr ps \<Rightarrow> ps)"

definition platform_num :: "u32 \<Rightarrow> 'a list \<Rightarrow> u32" where
  "platform_num platformId xs = min platformId (word_of_int (int (length xs) - 1))"

definition getDevices :: "bool \<Rightarrow> cl_platform list \<Rightarrow> u32 \<Rightarrow> cl_device list result" where
  "getDevices allowCPU ps platformId =
     (let n = unat (platform_num platformId ps) in
      if n < length ps then Inr (case pl_devices (ps ! n) allowCPU of Inl err \<Rightarrow> [] | Inr ds \<Rightarrow> ds)
      else Inl UndefinedBehaviour)"

definition getNumPlatforms :: "opencl \<Rightarrow> u32" where
  "getNumPlatforms E = (let ps = getPlatforms E in if ps = [] then 0 else word_of_nat (length ps))"

definition getNumDevices :: "opencl \<Rightarrow> gpu_statics \<Rightarrow> u32 \<Rightarrow> u32 result" where
  "getNumDevices E s platformId =
     (let ps = getPlatforms E in
      if ps = [] then Inr 0
      else bindE (getDevices (s_allowCPU s) ps platformId) (\<lambda>ds. Inr (if ds = [] then 0 else word_of_nat (length ds))))"

text \<open>\<open>searchForAllDevices\<close>: whether the callback accepts a device, of one platform and of all of them.\<close>

definition searchForAllDevicesOf :: "opencl \<Rightarrow> gpu_statics \<Rightarrow> u32 \<Rightarrow> (cl_device \<Rightarrow> bool) \<Rightarrow> bool result" where
  "searchForAllDevicesOf E s platformId callback =
     (let ps = getPlatforms E in
      if ps = [] then Inr False
      else if unat platformId \<ge> length ps then Inr False
      else bindE (getDevices (s_allowCPU s) ps platformId) (\<lambda>ds. Inr (list_ex callback ds)))"

fun searchPlatforms :: "opencl \<Rightarrow> gpu_statics \<Rightarrow> (cl_device \<Rightarrow> bool) \<Rightarrow> u32 list \<Rightarrow> bool result" where
  "searchPlatforms E s callback [] = Inr False"
| "searchPlatforms E s callback (i # is) =
     bindE (searchForAllDevicesOf E s i callback) (\<lambda>found. if found then Inr True else searchPlatforms E s callback is)"

definition searchForAllDevices :: "opencl \<Rightarrow> gpu_statics \<Rightarrow> (cl_device \<Rightarrow> bool) \<Rightarrow> bool result" where
  "searchForAllDevices E s callback = searchPlatforms E s callback (map word_of_nat [0..<length (getPlatforms E)])"

definition setNumInstances :: "opencl \<Rightarrow> u32 \<Rightarrow> gpu_statics \<Rightarrow> gpu_statics result" where
  "setNumInstances E n s =
     bindE (getNumDevices E s (s_platformId s)) (\<lambda>k. Inr (s\<lparr>s_numInstances := min n k\<rparr>))"

definition instances :: "gpu_statics \<Rightarrow> u32" where
  "instances s = (if s_numInstances s > 0 then s_numInstances s else 1)"

text \<open>The entries beyond the array's 16 are undefined behaviour.\<close>

definition setDevices :: "u32 list \<Rightarrow> gpu_statics \<Rightarrow> gpu_statics result" where
  "setDevices ds s =
     (if length ds > length (s_devices s) then Inl UndefinedBehaviour
      else Inr (s\<lparr>s_devices := map sint ds @ drop (length ds) (s_devices s)\<rparr>))"

definition miner_device :: "gpu_statics \<Rightarrow> nat \<Rightarrow> u32 result" where
  "miner_device s i =
     (if i < length (s_devices s)
      then Inr (if s_devices s ! i > -1 then word_of_int (s_devices s ! i) else word_of_nat i)
      else Inl UndefinedBehaviour)"

section \<open>init\<close>

definition addDefinition :: "string \<Rightarrow> u32 \<Rightarrow> string \<Rightarrow> string" where
  "addDefinition name val source = ''#define '' @ name @ '' '' @ showNat (unat val) @ ''u'' @ [CHR 0x0A] @ source"

definition c_str :: "string \<Rightarrow> string" where
  "c_str s = takeWhile (\<lambda>c. c \<noteq> CHR 0x00) s"

definition opencl_platform :: "string \<Rightarrow> u32" where
  "opencl_platform platformName =
     (if platformName = ''NVIDIA CUDA'' then 1
      else if platformName = ''AMD Accelerated Parallel Processing'' then 2
      else if platformName = ''Intel(R) OpenCL'' then 3
      else 0)"

text \<open>\<open>computeCapability\<close>, and the compiler's options.\<close>

definition compute_capability :: "u32 \<Rightarrow> cl_device \<Rightarrow> u32" where
  "compute_capability platform d = (if platform = 1 then dv_computeMajor d * 10 + dv_computeMinor d else 0)"

definition build_options :: "u32 \<Rightarrow> u32 \<Rightarrow> string" where
  "build_options platform capability =
     (if platform = 1 then ''-cl-nv-maxrregcount='' @ showInt (if sint capability \<ge> 35 then 72 else 63) else [])"

definition rounded_work_size :: "gpu_statics \<Rightarrow> u32 result" where
  "rounded_work_size s =
     (let n = s_initialGlobalWorkSize s; g = s_workgroupSize s in
      if g = 0 then Inl UndefinedBehaviour
      else Inr (if n mod g \<noteq> 0 then (n div g + 1) * g else n))"

definition patched_source :: "gpu_statics \<Rightarrow> u32 \<Rightarrow> u32 \<Rightarrow> string \<Rightarrow> string" where
  "patched_source s platform capability kernel_text =
     addDefinition ''COMPUTE'' capability (addDefinition ''PLATFORM'' platform (addDefinition ''MAX_OUTPUTS'' 63
       (addDefinition ''ACCESSES'' 64 (addDefinition ''GROUP_SIZE'' (s_workgroupSize s) kernel_text))))"

record cl_setup =
  su_device :: u32
  su_openclOnePointOne :: bool
  su_globalWorkSize :: u32
  su_source :: string
  su_outputs :: "u32 list list"

text \<open>
  The buffers after the writes of their counters: a queue works in order, so the writes that have been
  carried out are the first ones; the other buffers still hold what was in their memory.
\<close>

definition zero_counters :: "nat \<Rightarrow> u32 list list \<Rightarrow> u32 list list" where
  "zero_counters landed buffers = map (\<lambda>out. out[0 := 0]) (take landed buffers) @ drop landed buffers"

text \<open>\<open>None\<close> is that \<open>init\<close> returns false, also when an OpenCL call throws.\<close>

definition cl_init :: "opencl \<Rightarrow> gpu_statics \<Rightarrow> string \<Rightarrow> u32 \<Rightarrow> u32 \<Rightarrow> cl_setup option result" where
  "cl_init E s kernel_text platformId deviceId =
     (let ps = getPlatforms E in
      if ps = [] then Inr None
      else
        let platformId = platform_num platformId ps;
            platform = opencl_platform (c_str (pl_name (ps ! unat platformId)))
        in bindE (getDevices (s_allowCPU s) ps platformId) (\<lambda>ds.
           if ds = [] then Inr None
           else
             let d = ds ! unat (platform_num deviceId ds) in
             if take 10 (dv_version d) = ''OpenCL 1.0'' then Inr None
             else
               let onePointOne = (take 10 (dv_version d) = ''OpenCL 1.1''); capability = compute_capability platform d in
               if \<not> ocl_context E d then Inr None
               else bindE (rounded_work_size s) (\<lambda>work_size.
                 let code = patched_source s platform capability kernel_text in
                 if \<not> ocl_build E code (build_options platform capability) then Inr None
                 else case ocl_buffers E of
                   None \<Rightarrow> Inr None
                 | Some buffers \<Rightarrow>
                     Inr (Some \<lparr>su_device = deviceId, su_openclOnePointOne = onePointOne, su_globalWorkSize = work_size,
                                su_source = code, su_outputs = zero_counters (ocl_landed E) buffers\<rparr>))))"

text \<open>
  The first part of \<open>workLoop\<close>: a miner without a device creates one. When \<open>init\<close> fails the error is
  caught, the device deleted, and the thread ends without having mined.
\<close>

definition gpu_create :: "opencl \<Rightarrow> gpu_statics \<Rightarrow> string \<Rightarrow> nat \<Rightarrow> farm \<Rightarrow> cl_miner option result" where
  "gpu_create E s kernel_text i f =
     bindE (miner_device s i) (\<lambda>device.
     bindE (cl_init E s kernel_text (s_platformId s) device) (\<lambda>r.
     Inr (case r of None \<Rightarrow> None
       | Some su \<Rightarrow> Some \<lparr>cm_pending = [], cm_buf = 0, cm_outputs = su_outputs su, cm_globalWorkSize = su_globalWorkSize su, cm_farm = f\<rparr>)))"

definition gpu_first_workLoop ::
    "opencl \<Rightarrow> gpu_statics \<Rightarrow> string \<Rightarrow> (bytes \<Rightarrow> h256) \<Rightarrow> nat \<Rightarrow> int \<Rightarrow> cl_env list \<Rightarrow> farm \<Rightarrow> (cl_miner option \<times> farm) result" where
  "gpu_first_workLoop E s kernel_text H m m_throttle es f =
     bindE (gpu_create E s kernel_text (mn_index (fm_miners f ! m)) f) (\<lambda>r.
     case r of
       None \<Rightarrow> Inr (None, f\<lparr>fm_miners := (fm_miners f)[m := (fm_miners f ! m)\<lparr>mn_running := False\<rparr>]\<rparr>)
     | Some c \<Rightarrow> bindE (gpu_workLoop H m m_throttle es c) (\<lambda>(ended, c). Inr (Some c, cm_farm c)))"

text \<open>
  \<open>nextNonceIndex\<close>: the next index, or the first random one that has not been used; \<open>None\<close> when all draws
  given have been used before.
\<close>

fun unused_index :: "u64 list \<Rightarrow> u32 set \<Rightarrow> (u64 \<times> u32 set) option" where
  "unused_index [] used = None"
| "unused_index (r # rs) used =
     (let (stored, used) = storeNonceIndex r False used in if stored then Some (r, used) else unused_index rs used)"

definition nextNonceIndex :: "bool \<Rightarrow> bool \<Rightarrow> u64 \<Rightarrow> u64 list \<Rightarrow> u32 set \<Rightarrow> (u64 \<times> u64 \<times> u32 set) option" where
  "nextNonceIndex lin overrideRandom nonceIndex draws used =
     (if lin \<and> \<not> overrideRandom then Some (nonceIndex, nonceIndex + 1, used)
      else map_option (\<lambda>(r, used). (r, r, used)) (unused_index draws used))"

section \<open>verifyHashes\<close>

text \<open>
  One comparison: whether the hashes differ. The run of \<open>test_keccak\<close> gets the number of work items, the
  prepared words and the number of the item that is to write.
\<close>

definition put_word8 :: "u64 \<Rightarrow> bytes \<Rightarrow> bytes" where
  "put_word8 w message = take 64 message @ le8 w @ drop 72 message"

definition verifyHash ::
    "(bytes \<Rightarrow> h256) \<Rightarrow> (u32 \<Rightarrow> u64 list \<Rightarrow> u32 \<Rightarrow> uint2) \<Rightarrow> nat \<Rightarrow> h256 \<times> h160 \<times> h256 \<Rightarrow> bool" where
  "verifyHash H run i = (\<lambda>(challenge, sender, nonce).
     let message = challenge @ sender @ nonce @ replicate 4 0;
         precomp = keccak_precomp (message_words challenge sender nonce);
         kernelhash = le8 (lane (run (word_of_nat (i + 1)) precomp (word_of_nat i)));
         hash = take 8 (H (take 84 (put_word8 (word_of_nat i) message)))
     in hash \<noteq> kernelhash)"

text \<open>The number of times that the hashes are found not to be equal, for 50 random messages.\<close>

definition verifyHashes ::
    "(bytes \<Rightarrow> h256) \<Rightarrow> (u32 \<Rightarrow> u64 list \<Rightarrow> u32 \<Rightarrow> uint2) \<Rightarrow> (nat \<Rightarrow> h256 \<times> h160 \<times> h256) \<Rightarrow> nat" where
  "verifyHashes H run rand = length (filter (\<lambda>i. verifyHash H run i (rand i)) [0..<50])"

section \<open>DivMagic\<close>

function clz_loop :: "u32 \<Rightarrow> u32 \<Rightarrow> int \<Rightarrow> int" where
  "clz_loop val hi r = (if NOT val AND hi \<noteq> 0 then clz_loop val (drop_bit 1 hi) (r + 1) else r)"
  by pat_completeness auto
termination
proof (relation "measure (\<lambda>(val, hi, r). unat hi)", goal_cases)
  case (2 val hi r)
  then have "0 < unat hi" by (auto simp: unat_gt_0)
  moreover have "unat (drop_bit 1 hi) = unat hi div 2" by (simp add: drop_bit_Suc unat_div)
  ultimately show ?case by simp
qed simp

declare clz_loop.simps [simp del]

definition count_leading_zeros :: "u32 \<Rightarrow> int" where
  "count_leading_zeros val = clz_loop val (push_bit 31 1) 0"

definition makeMagic :: "u32 \<Rightarrow> u32 \<Rightarrow> (u32 \<times> u32) result" where
  "makeMagic shift divisor =
     (if unat shift \<ge> 32 \<or> divisor = 0 then Inl UndefinedBehaviour
      else
        let m = push_bit (unat shift) 1 :: u32;
            n = push_bit 32 (ucast m) :: u64;
            r = ucast (n div ucast divisor) :: u32
        in Inr (r, ucast (n - ucast r * ucast divisor)))"

text \<open>\<open>DivMagic\<close>: \<open>ALGO_STEPS\<close>, \<open>SHIFT2\<close> and \<open>MAGIC\<close>, and the flags that are made of them.\<close>

definition div_magic :: "u32 \<Rightarrow> (nat \<times> int \<times> u32) result" where
  "div_magic dagSize128 =
     (let leadingZeros = word_of_int (31 - count_leading_zeros dagSize128) :: u32 in
      bindE (makeMagic leadingZeros dagSize128) (\<lambda>(magic, rem).
      let e = dagSize128 - rem in
      Inr (if e < push_bit (unat leadingZeros) 1 then (1, uint leadingZeros, magic + 1)
           else
             let magic = magic + magic;
                 twice_rem = rem + rem;
                 magic = (if twice_rem \<ge> dagSize128 \<or> twice_rem < rem then magic + 1 else magic)
             in (2, uint leadingZeros, magic + 1))))"

definition DivMagic :: "u32 \<Rightarrow> string \<Rightarrow> string result" where
  "DivMagic dagSize128 flags =
     bindE (div_magic dagSize128) (\<lambda>(steps, shift2, magic).
     Inr (flags @ '' -D ALGO_STEPS='' @ showNat steps @ '' '' @ '' -D SHIFT2='' @ showInt shift2 @ '' -D MAGIC='' @ showNat (unat magic)))"

text \<open>
  The division that the flags are for, after libdivide: the upper half of the product with the magic
  number, shifted; with two steps the number has a 33rd bit, which is added without an overflow.
\<close>

definition magic_divide :: "nat \<times> int \<times> u32 \<Rightarrow> u32 \<Rightarrow> u32" where
  "magic_divide = (\<lambda>(steps, shift2, magic) n.
     let q = ucast (drop_bit 32 (ucast n * ucast magic :: u64)) :: u32 in
     if steps = 1 then drop_bit (nat shift2) q else drop_bit (nat shift2) (drop_bit 1 (n - q) + q))"

section \<open>Lemmas: the magic numbers\<close>

lemma top_bit_clear:
  assumes "unat (val :: u32) < 2 ^ (j + 1)" and "j < 32"
  shows "NOT val AND push_bit j 1 \<noteq> 0 \<longleftrightarrow> unat val < 2 ^ j"
proof -
  have "NOT val AND push_bit j 1 \<noteq> 0 \<longleftrightarrow> \<not> bit val j"
  proof
    assume "NOT val AND push_bit j 1 \<noteq> 0"
    then obtain n where "n < 32" "bit (NOT val AND push_bit j 1) n" by (auto simp: bit_eq_iff bit_simps)
    then show "\<not> bit val j" by (auto simp: bit_simps)
  next
    assume "\<not> bit val j"
    then have "bit (NOT val AND push_bit j 1) j" using assms(2) by (simp add: bit_simps)
    then show "NOT val AND push_bit j 1 \<noteq> 0" by (auto simp: bit_simps simp del: bit_and_iff)
  qed
  also have "\<not> bit val j \<longleftrightarrow> even (unat val div 2 ^ j)"
  proof -
    have "bit (unat val) j = bit val j" by (simp add: bit_unsigned_iff)
    then show ?thesis by (simp add: bit_iff_odd)
  qed
  also have "\<dots> \<longleftrightarrow> unat val < 2 ^ j"
  proof -
    have "unat val div 2 ^ j < 2" using assms(1) by (simp add: less_mult_imp_div_less)
    then have "unat val div 2 ^ j = 0 \<or> unat val div 2 ^ j = 1" by auto
    then show ?thesis by (auto simp: div_eq_0_iff)
  qed
  finally show ?thesis .
qed

lemma clz_loop_power:
  assumes "2 ^ k \<le> unat val" and "unat val < 2 ^ (k + 1)" and "k \<le> j" and "j < 32"
  shows "clz_loop val (push_bit j 1) r = r + int (j - k)"
  using assms(3,4)
proof (induction "j - k" arbitrary: j r)
  case 0
  then have "j = k" by simp
  with top_bit_clear [OF assms(2)] 0 assms(1) have "\<not> NOT val AND push_bit j 1 \<noteq> 0" by simp
  then show ?case using \<open>j = k\<close> by (subst clz_loop.simps) simp
next
  case (Suc n)
  then obtain j' where j: "j = Suc j'" by (cases j) auto
  have "unat val < 2 ^ j" using assms(2) power_increasing [of "k + 1" j "2 :: nat"] Suc(2) by linarith
  then have "unat val < 2 ^ (j + 1)" by simp
  with top_bit_clear [OF this] Suc.prems \<open>unat val < 2 ^ j\<close> have "NOT val AND push_bit j 1 \<noteq> 0" by simp
  moreover have "drop_bit 1 (push_bit j 1 :: u32) = push_bit j' 1"
    using Suc.prems j by (intro bit_word_eqI) (auto simp: bit_simps)
  ultimately have "clz_loop val (push_bit j 1) r = clz_loop val (push_bit j' 1) (r + 1)" by (subst clz_loop.simps) simp
  also have "\<dots> = r + 1 + int (j' - k)" by (rule Suc.hyps) (use Suc j in auto)
  finally show ?case using Suc(2) j by simp
qed

lemma leading_bit:
  assumes "(val :: u32) \<noteq> 0"
  obtains k where "k < 32" "2 ^ k \<le> unat val" "unat val < 2 ^ (k + 1)" "count_leading_zeros val = 31 - int k"
proof -
  have pos: "0 < unat val" using assms by (simp add: unat_gt_0)
  obtain k where k: "2 ^ k \<le> unat val" "unat val < 2 ^ (k + 1)" using ex_power_ivl1 [of 2 "unat val"] pos by auto
  have "2 ^ k < (2 :: nat) ^ 32" using k(1) unsigned_less [of val, where 'a = nat] by simp
  then have "k < 32" by (simp only: power_strict_increasing_iff one_less_numeral_iff semiring_norm)
  moreover have "count_leading_zeros val = 31 - int k"
    using clz_loop_power [OF k, of 31 0] \<open>k < 32\<close> by (simp add: count_leading_zeros_def of_nat_diff)
  ultimately show thesis using that k by blast
qed

text \<open>
  The quotient with a number slightly above the reciprocal: \<open>M * d = 2 ^ (32 + s) + e\<close> with \<open>e\<close> at most \<open>2 ^ s\<close>.
\<close>

lemma reciprocal_div:
  fixes n d M e s :: nat
  assumes "M * d = 2 ^ (32 + s) + e" and "e \<le> 2 ^ s" and "n < 2 ^ 32" and "0 < d"
  shows "n * M div 2 ^ (32 + s) = n div d"
proof (rule div_nat_eqI)
  let ?P = "2 ^ (32 + s) :: nat"
  have "?P * (n div d) * d \<le> n * (M * d)"
  proof -
    have "?P * (n div d * d) \<le> ?P * n" by (intro mult_le_mono2 div_times_less_eq_dividend)
    also have "\<dots> \<le> (?P + e) * n" by simp
    finally show ?thesis by (simp only: assms(1) mult.assoc mult.commute [of n])
  qed
  then have "?P * (n div d) * d \<le> n * M * d" by (simp only: mult.assoc)
  then show "?P * (n div d) \<le> n * M" using assms(4) by simp
  have small: "e * n < ?P"
  proof -
    have "e * n \<le> 2 ^ s * n" using assms(2) by simp
    also have "\<dots> < 2 ^ s * 2 ^ 32" using assms(3) by simp
    finally show ?thesis by (simp add: power_add)
  qed
  have "n * (M * d) = ?P * n + e * n" by (simp add: assms(1) algebra_simps)
  also have "\<dots> < ?P * n + ?P" using small by simp
  also have "\<dots> = ?P * Suc n" by simp
  also have "\<dots> \<le> ?P * (d * Suc (n div d))"
  proof -
    have "n < d * Suc (n div d)" using assms(4) dividend_less_times_div [of d n] by simp
    then show ?thesis by (intro mult_le_mono2) simp
  qed
  finally have "(n * M) * d < (?P * Suc (n div d)) * d" by (simp only: mult_ac)
  then show "n * M < ?P * Suc (n div d)" by (simp only: mult_less_cancel2)
qed

lemma makeMagic_value:
  fixes k :: nat
  assumes "k < 32" and "2 ^ k < unat d"
  shows "makeMagic (word_of_nat k) d = Inr (word_of_nat (2 ^ (32 + k) div unat d), word_of_nat (2 ^ (32 + k) mod unat d))"
proof -
  define D where "D = unat d"
  define P where "P = (2 :: nat) ^ (32 + k)"
  have D: "2 ^ k < D" "0 < D" "D < 2 ^ 32" using assms(2) unsigned_less [of d, where 'a = nat] by (auto simp: D_def)
  have nz: "d \<noteq> 0" using D by (auto simp: D_def)
  have k: "unat (word_of_nat k :: u32) = k" using assms(1) by (simp add: unat_of_nat)
  have P64: "P < 2 ^ 64" using assms(1) power_strict_increasing [of "32 + k" 64 "2 :: nat"] by (simp add: P_def)
  have "(push_bit 32 (ucast (push_bit k 1 :: u32)) :: u64) = word_of_nat P"
    using assms(1) by (intro bit_word_eqI) (auto simp: bit_simps P_def of_nat_power push_bit_of_1)
  then obtain N where N: "push_bit 32 (ucast (push_bit k 1 :: u32)) = (N :: u64)" "unat N = P"
    using P64 by (simp add: unat_of_nat)
  obtain c :: u64 where c: "ucast d = c" "unat c = D" by (simp add: D_def unat_ucast_u64)
  have q: "P div D < 2 ^ 32"
  proof -
    have "P = 2 ^ 32 * 2 ^ k" by (simp add: P_def power_add)
    also have "\<dots> < 2 ^ 32 * D" using D(1) by simp
    finally show ?thesis by (simp add: less_mult_imp_div_less)
  qed
  have div: "unat (N div c) = P div D" by (simp only: unat_div N c)
  have r: "ucast (N div c) = (word_of_nat (P div D) :: u32)" by (metis div of_nat_unat)
  have r64: "ucast (word_of_nat (P div D) :: u32) = N div c"
    using q by (intro word_unat_eq_iff [THEN iffD2]) (simp add: unat_ucast_u64 unat_of_nat div)
  have "unat (N mod c) = P mod D" by (simp only: unat_mod N c)
  then have "ucast (N - (N div c) * c) = (word_of_nat (P mod D) :: u32)" by (metis of_nat_unat minus_div_mult_eq_mod)
  then show ?thesis
    using assms(1) nz unfolding makeMagic_def Let_def k N c r r64 by (simp add: P_def D_def)
qed

lemma upper_half:
  "unat (ucast (drop_bit 32 (ucast (n :: u32) * ucast (m :: u32) :: u64)) :: u32) = unat n * unat m div 2 ^ 32"
proof -
  have lt: "unat n < 2 ^ 32" "unat m < 2 ^ 32"
    using unsigned_less [of n, where 'a = nat] unsigned_less [of m, where 'a = nat] by simp_all
  have "unat n * unat m < 2 ^ 32 * 2 ^ 32" using lt by (intro mult_strict_mono) simp_all
  then have prod: "unat (ucast n * ucast m :: u64) = unat n * unat m"
    by (simp add: unat_word_ariths unat_ucast_u64)
  have "unat n * unat m div 2 ^ 32 < 2 ^ 32"
    using \<open>unat n * unat m < 2 ^ 32 * 2 ^ 32\<close> by (intro less_mult_imp_div_less) simp
  then show ?thesis
    by (simp add: unsigned_ucast_eq take_bit_nat_eq_self drop_bit_eq_div unat_div prod)
qed

lemma two_step_quotient: "(n + n * m div 2 ^ 32) div 2 div 2 ^ k = n * (2 ^ 32 + m) div 2 ^ (32 + (k + 1))" for n m k :: nat
proof -
  have "n + n * m div 2 ^ 32 = n * (2 ^ 32 + m) div 2 ^ 32" by (simp add: distrib_left)
  then have "(n + n * m div 2 ^ 32) div 2 div 2 ^ k = n * (2 ^ 32 + m) div (2 ^ 32 * 2 * 2 ^ k)"
    by (simp only: div_mult2_eq)
  also have "(2 :: nat) ^ 32 * 2 * 2 ^ k = 2 ^ (32 + (k + 1))" by (simp add: power_add)
  finally show ?thesis .
qed

lemma twice_or_overflow:
  fixes r d :: u32
  assumes "unat r < unat d"
  shows "(r + r \<ge> d \<or> r + r < r) \<longleftrightarrow> 2 * unat r \<ge> unat d"
proof -
  have lt: "unat d < 4294967296" using unsigned_less [of d, where 'a = nat] by simp
  have sum: "unat (r + r) = (if unat r + unat r < 4294967296 then unat r + unat r else unat r + unat r - 4294967296)"
    using unat_plus_if_size [of r r] by (simp add: word_size)
  show ?thesis unfolding word_le_nat_alt word_less_nat_alt sum using assms lt by (simp split: if_splits) linarith
qed

text \<open>The three shapes of the result, from the position \<open>k\<close> of the leading bit.\<close>

lemma div_magic_value:
  fixes k :: nat and d :: u32
  defines "D \<equiv> unat d" and "P \<equiv> (2 :: nat) ^ (32 + k)"
  assumes k: "k < 32" "2 ^ k < D" "D < 2 ^ (k + 1)" "count_leading_zeros d = 31 - int k"
  shows "div_magic d = Inr (if D - P mod D < 2 ^ k then (1, int k, word_of_nat (P div D + 1))
    else (2, int k, word_of_nat (2 * P div D + 1)))"
proof -
  let ?r = "P mod D"
  have D: "0 < D" "D < 2 ^ 32" using k(2) unsigned_less [of d, where 'a = nat] by (auto simp: D_def)
  have r: "?r < D" using D by simp
  have lead: "(word_of_int (31 - count_leading_zeros d) :: u32) = word_of_nat k" by (simp add: k)
  have kk: "unat (word_of_nat k :: u32) = k" "uint (word_of_nat k :: u32) = int k" using k(1) by (simp_all add: unat_of_nat uint_nat)
  have ru: "unat (word_of_nat ?r :: u32) = ?r"
  proof -
    have "?r < 2 ^ 32" using r D by linarith
    then show ?thesis by (simp add: unat_of_nat)
  qed
  have e: "unat (d - word_of_nat ?r) = D - ?r"
    using r ru by (simp add: unat_sub_if_size D_def word_le_nat_alt)
  have pw: "unat (push_bit k 1 :: u32) = 2 ^ k"
  proof -
    have "(2 :: nat) ^ k < 2 ^ 32" using k(1) by (intro power_strict_increasing) simp_all
    then have "unat (word_of_nat (2 ^ k) :: u32) = 2 ^ k" by (simp add: unat_of_nat del: of_nat_power of_nat_numeral)
    then show ?thesis by (simp add: push_bit_of_1)
  qed
  have less: "d - word_of_nat ?r < push_bit k 1 \<longleftrightarrow> D - ?r < 2 ^ k" by (simp only: word_less_nat_alt e pw)
  have twice: "(word_of_nat ?r + word_of_nat ?r \<ge> d \<or> word_of_nat ?r + word_of_nat ?r < (word_of_nat ?r :: u32)) \<longleftrightarrow> 2 * ?r \<ge> D"
    using twice_or_overflow [of "word_of_nat ?r" d] ru r by (simp only: D_def)
  have two: "2 * P div D = 2 * (P div D) + (if 2 * ?r \<ge> D then 1 else 0)"
  proof -
    have "2 * P = 2 * (P div D) * D + 2 * ?r"
      by (metis distrib_left div_mult_mod_eq mult.assoc)
    moreover have "(2 * x) div D = (if 2 * x \<ge> D then 1 else 0)" if "x < D" for x using that by (auto intro!: div_nat_eqI)
    note this [OF r]
    ultimately show ?thesis using D by simp
  qed
  have mm: "makeMagic (word_of_nat k) d = Inr (word_of_nat (P div D), word_of_nat ?r)"
    using makeMagic_value [OF k(1)] k(2) by (simp add: D_def P_def)
  show ?thesis
    unfolding div_magic_def Let_def lead mm bindE_simps prod.case less kk twice two by (simp add: algebra_simps)
qed

lemma magic_bound: "(2 :: nat) ^ k < D \<Longrightarrow> k < 32 \<Longrightarrow> c * 2 ^ (32 + k) div D + 1 < c * 2 ^ 32" if "0 < c"
proof -
  assume D: "2 ^ k < D" and "k < 32"
  have "(2 :: nat) ^ k \<le> 2 ^ 31" using \<open>k < 32\<close> by (intro power_increasing) simp_all
  then have small: "2 ^ k + 1 < (2 :: nat) ^ 32" by simp
  have "c * 2 ^ (32 + k) + (2 ^ k + 1) < c * 2 ^ (32 + k) + c * 2 ^ 32"
    using small that by (metis add_strict_left_mono less_le_trans mult_1 mult_le_mono1 less_eq_Suc_le One_nat_def)
  also have "\<dots> = c * 2 ^ 32 * (2 ^ k + 1)" by (simp add: power_add algebra_simps)
  finally have "c * 2 ^ (32 + k) < (c * 2 ^ 32 - 1) * (2 ^ k + 1)" by (simp add: diff_mult_distrib)
  also have "\<dots> \<le> (c * 2 ^ 32 - 1) * D" using D by (intro mult_le_mono2) simp
  finally have "c * 2 ^ (32 + k) div D < c * 2 ^ 32 - 1" by (rule less_mult_imp_div_less)
  then show ?thesis by simp
qed

lemma next_multiple: "0 < D \<Longrightarrow> (P div D + 1) * D = P + (D - P mod D)" for P D :: nat
  using mod_less_divisor [of D P] div_mult_mod_eq [of P D] distrib_right [of "P div D" 1 D] by linarith

lemma magic_step1:
  assumes k: "k < 32" "2 ^ k < unat d" and e: "unat d - 2 ^ (32 + k) mod unat d < 2 ^ k"
  shows "magic_divide (1, int k, word_of_nat (2 ^ (32 + k) div unat d + 1)) n = n div d"
proof -
  let ?D = "unat d" and ?P = "(2 :: nat) ^ (32 + k)"
  let ?M = "?P div ?D + 1"
  have D: "0 < ?D" using k by linarith
  have M: "unat (word_of_nat ?M :: u32) = ?M" using magic_bound [OF _ k(2,1), of 1] by (simp add: unat_of_nat del: of_nat_Suc of_nat_add)
  have "unat n * ?M div 2 ^ (32 + k) = unat n div ?D"
    by (rule reciprocal_div [OF next_multiple [OF D]]) (use e D unsigned_less [of n, where 'a = nat] in simp_all)
  then have "unat n * ?M div 2 ^ 32 div 2 ^ k = unat n div ?D" by (simp only: power_add div_mult2_eq)
  then have "unat (drop_bit k (ucast (drop_bit 32 (ucast n * ucast (word_of_nat ?M :: u32) :: u64)) :: u32)) = unat (n div d)"
    unfolding unat_drop_bit_eq upper_half M unat_div by (simp only: drop_bit_eq_div)
  then have "unat (magic_divide (1, int k, word_of_nat ?M) n) = unat (n div d)"
    by (simp only: magic_divide_def prod.case Let_def if_True simp_thms nat_int)
  then show ?thesis by (simp only: word_unat_eq_iff)
qed

lemma magic_step2:
  assumes k: "k < 32" "2 ^ k < unat d" "unat d < 2 ^ (k + 1)"
  shows "magic_divide (2, int k, word_of_nat (2 * 2 ^ (32 + k) div unat d + 1)) n = n div d"
proof -
  let ?D = "unat d" and ?P = "(2 :: nat) ^ (32 + (k + 1))"
  let ?M = "2 * 2 ^ (32 + k) div ?D + 1"
  have D: "0 < ?D" using k by linarith
  have P: "2 * 2 ^ (32 + k) = ?P" by (simp add: power_add)
  have up: "?M < 2 * 2 ^ 32" using magic_bound [OF _ k(2,1), of 2] by simp
  have "2 ^ 32 * ?D \<le> ?P" using k(3) by (simp add: power_add)
  then have low: "2 ^ 32 \<le> ?M" unfolding P using D by (simp add: less_eq_div_iff_mult_less_eq le_SucI)
  then obtain m where m: "?M = 2 ^ 32 + m" using le_Suc_ex by blast
  with up have "m < 2 ^ 32" by simp
  have M: "unat (word_of_nat ?M :: u32) = m" using \<open>m < 2 ^ 32\<close> by (simp only: m unat_of_nat) simp
  let ?q = "ucast (drop_bit 32 (ucast n * ucast (word_of_nat ?M :: u32) :: u64)) :: u32"
  have q: "unat ?q = unat n * m div 2 ^ 32" by (simp only: upper_half M)
  have nlt: "unat n < 2 ^ 32" using unsigned_less [of n, where 'a = nat] by simp
  have qn: "unat ?q \<le> unat n"
    unfolding q using \<open>m < 2 ^ 32\<close> by (metis div_le_mono div_mult_self_is_m less_imp_le mult_le_mono2 zero_less_numeral zero_less_power)
  have sub: "unat (n - ?q) = unat n - unat ?q" using qn by (simp only: unat_sub word_le_nat_alt)
  have half: "unat (drop_bit 1 (n - ?q)) = (unat n - unat ?q) div 2"
    unfolding unat_drop_bit_eq sub by (simp only: drop_bit_eq_div power_one_right)
  have "(unat n - unat ?q) div 2 + unat ?q = (unat n + unat ?q) div 2" using qn by linarith
  moreover have "(unat n + unat ?q) div 2 < 2 ^ 32" using qn nlt by simp
  ultimately have sum: "unat (drop_bit 1 (n - ?q) + ?q) = (unat n + unat ?q) div 2"
    by (simp only: unat_word_ariths half) simp
  have "unat n * ?M div ?P = unat n div ?D"
    unfolding P by (rule reciprocal_div [OF next_multiple [OF D]]) (use k(3) nlt D in simp_all)
  then have "(unat n + unat n * m div 2 ^ 32) div 2 div 2 ^ k = unat n div ?D"
    unfolding two_step_quotient m .
  then have "unat (drop_bit k (drop_bit 1 (n - ?q) + ?q)) = unat (n div d)"
    unfolding unat_drop_bit_eq sum q unat_div by (simp only: drop_bit_eq_div)
  then have "unat (magic_divide (2, int k, word_of_nat ?M) n) = unat (n div d)"
    by (simp only: magic_divide_def prod.case Let_def if_False nat_int) simp
  then show ?thesis by (simp only: word_unat_eq_iff)
qed

section \<open>Lemmas: a new device\<close>

lemma cl_init_Some:
  assumes "cl_init E s kernel_text platformId deviceId = Inr (Some su)"
  obtains n buffers where "rounded_work_size s = Inr n" "ocl_buffers E = Some buffers" "su_globalWorkSize su = n"
    "su_outputs su = zero_counters (ocl_landed E) buffers"
  using assms by (auto simp: cl_init_def Let_def bindE_Inr_iff split: if_splits option.splits)

lemma zero_counters_length: "length (zero_counters landed buffers) = length buffers"
  by (simp add: zero_counters_def)

lemma zero_counters_nth:
  "b < length buffers \<Longrightarrow> zero_counters landed buffers ! b = (if b < landed then (buffers ! b)[0 := 0] else buffers ! b)"
  by (auto simp: zero_counters_def nth_append)

lemma configureGPU_sizes:
  assumes "configureGPU lws mult p d cpu mem block mode dev s0 = (True, s)"
  shows "s_workgroupSize s = (lws + 7) div 8 * 8" "s_initialGlobalWorkSize s = mult * ((lws + 7) div 8 * 8)"
  using assms by (auto simp: configureGPU_def cl_configureGPU_def Let_def)

lemma rounded_exact:
  assumes "s_initialGlobalWorkSize s = mult * s_workgroupSize s" and "unat mult * unat (s_workgroupSize s) < 2 ^ 32"
    and "s_workgroupSize s \<noteq> 0"
  shows "rounded_work_size s = Inr (mult * s_workgroupSize s)"
proof -
  have "unat (mult * s_workgroupSize s) = unat mult * unat (s_workgroupSize s)"
    using assms(2) by (simp add: unat_word_ariths)
  then have "unat (mult * s_workgroupSize s mod s_workgroupSize s) = 0" by (simp only: unat_mod) simp
  then have "mult * s_workgroupSize s mod s_workgroupSize s = 0" by (simp only: unat_eq_0)
  then show ?thesis using assms by (simp add: rounded_work_size_def)
qed

text \<open>Every device is asked for when all are selected in turn.\<close>

lemma setDevices_selects:
  assumes "setDevices ds s = Inr s'" and "i < length ds" and "sint (ds ! i) \<ge> 0"
  shows "miner_device s' i = Inr (ds ! i)"
  using assms by (auto simp: setDevices_def miner_device_def nth_append split: if_splits)

lemma verifyHash_agrees:
  assumes "rotates R" and "length challenge = 32" "length sender = 20" "length nonce = 32" and "\<And>gid. length (st gid) = 25"
    and "i < 2 ^ 32"
  shows "\<not> verifyHash sha3 (\<lambda>n precomp isolate. test_keccak R (st (ucast isolate)) precomp isolate (ucast isolate) out) i (challenge, sender, nonce)"
proof -
  have "take 84 (put_word8 g (challenge @ sender @ nonce @ replicate 4 0)) = challenge @ sender @ put_gid g nonce" for g
    using assms(2-4) by (simp add: put_word8_def put_gid_def)
  moreover have "(ucast (word_of_nat i :: u32) :: u64) = word_of_nat i"
    using assms(6) by (intro word_unat_eq_iff [THEN iffD2]) (simp add: unat_ucast_u64 unat_of_nat)
  ultimately show ?thesis
    using kernel_bytes [OF assms(1) assms(5) assms(2-4)] by (simp add: verifyHash_def test_keccak_def Let_def)
qed

section \<open>Claims\<close>

text \<open>C34: A GPU miner starts ready: if it gets its device at all, then the device was configured so that it hashes
  exactly as many nonces per batch as the command line's multiplier says, a multiple of the workgroup size,
  unless that product exceeds 32 bits; no batch is under way, and of the two output buffers exactly those
  count no solution, as the search expects them, whose write the device has carried out by then: nothing
  waits for the writes, and a buffer whose write is still queued holds what was in its memory.\<close>

theorem gpu_starts_ready:
  assumes "configureGPU lws mult p d cpu mem block mode dev s0 = (True, s)"
    and "(lws + 7) div 8 * 8 \<noteq> 0" and "unat mult * unat ((lws + 7) div 8 * 8) < 2 ^ 32"
    and "ocl_buffers E = Some [out1, out2]" "length out1 = 64" "length out2 = 64"
    and "gpu_create E s kernel_text i f = Inr (Some c)"
  shows "unat (cm_globalWorkSize c) = unat mult * unat (s_workgroupSize s) \<and> s_workgroupSize s = (lws + 7) div 8 * 8 \<and>
    cm_pending c = [] \<and> cm_buf c = 0 \<and> length (cm_outputs c) = 2 \<and> cm_farm c = f \<and>
    (\<forall>b < 2. if b < ocl_landed E then idle (cm_outputs c ! b) else cm_outputs c ! b = [out1, out2] ! b)"
proof -
  note sizes = configureGPU_sizes [OF assms(1)]
  from assms(7) obtain dvc su where su: "cl_init E s kernel_text (s_platformId s) dvc = Inr (Some su)"
    and c: "c = \<lparr>cm_pending = [], cm_buf = 0, cm_outputs = su_outputs su, cm_globalWorkSize = su_globalWorkSize su, cm_farm = f\<rparr>"
    by (auto simp: gpu_create_def bindE_Inr_iff split: option.splits)
  have "rounded_work_size s = Inr (mult * s_workgroupSize s)"
    by (rule rounded_exact) (use sizes assms(2,3) in simp_all)
  with cl_init_Some [OF su] assms(4) have "su_globalWorkSize su = mult * s_workgroupSize s \<and>
    su_outputs su = zero_counters (ocl_landed E) [out1, out2]" by fastforce
  moreover have "unat (mult * s_workgroupSize s) = unat mult * unat (s_workgroupSize s)"
    using assms(3) by (simp add: sizes(1) unat_word_ariths)
  ultimately show ?thesis using c assms(5,6) sizes(1) zero_counters_nth [of _ "[out1, out2]"]
    by (auto simp: zero_counters_length idle_def nth_Cons' less_2_cases_iff)
qed

text \<open>A computer with one platform and one device, for the witness.\<close>

definition demo_opencl :: opencl where
  "demo_opencl = \<lparr>ocl_platforms = Inr [\<lparr>pl_name = ''NVIDIA CUDA'' @ [CHR 0x00],
       pl_devices = (\<lambda>all. Inr [\<lparr>dv_version = ''OpenCL 1.2'', dv_computeMajor = 6, dv_computeMinor = 1\<rparr>])\<rparr>],
     ocl_context = (\<lambda>d. True), ocl_build = (\<lambda>code options. options = ''-cl-nv-maxrregcount=72''),
     ocl_buffers = Some [replicate 64 9, replicate 64 9], ocl_landed = 1\<rparr>"

lemma gpu_starts_ready_witness:
  "\<exists>c. gpu_create demo_opencl (snd (configureGPU 121 1000 0 0 False 0 0 0 0 gpu_statics0)) [] 0 example_farm = Inr (Some c) \<and>
     unat (cm_globalWorkSize c) = 128000 \<and> idle (cm_outputs c ! 0) \<and> cm_outputs c ! 1 = replicate 64 9"
proof -
  let ?s = "snd (configureGPU 121 1000 0 0 False 0 0 0 0 gpu_statics0)"
  have config: "configureGPU 121 1000 0 0 False 0 0 0 0 gpu_statics0 = (True, ?s)"
    by (simp add: configureGPU_def cl_configureGPU_def Let_def)
  have "\<exists>c. gpu_create demo_opencl ?s [] 0 example_farm = Inr (Some c)"
    by (simp add: gpu_create_def miner_device_def cl_init_def getPlatforms_def getDevices_def platform_num_def demo_opencl_def
        gpu_statics0_def configureGPU_def cl_configureGPU_def c_str_def opencl_platform_def compute_capability_def
        build_options_def rounded_work_size_def showInt_def showNat.simps hexDigit_def Let_def)
  then obtain c where c: "gpu_create demo_opencl ?s [] 0 example_farm = Inr (Some c)" by blast
  have "s_workgroupSize ?s = 128" by (simp add: configureGPU_def cl_configureGPU_def Let_def)
  with gpu_starts_ready [OF config _ _ _ _ _ c, of "replicate 64 9" "replicate 64 9"] c show ?thesis
    by (auto simp: demo_opencl_def)
qed

text \<open>The self-test agrees: on every platform, \<open>verifyHashes\<close> finds no difference between what \<open>test_keccak\<close>
  computes and the host's Keccak-256, whatever the messages are.\<close>

theorem verifyHashes_agrees:
  assumes "platform_rotation R" and "\<forall>gid. length (st gid) = 25"
    and "\<forall>i < 50. case rand i of (challenge, sender, nonce) \<Rightarrow> length challenge = 32 \<and> length sender = 20 \<and> length nonce = 32"
  shows "verifyHashes sha3 (\<lambda>n precomp isolate. test_keccak R (st (ucast isolate)) precomp isolate (ucast isolate) out) rand = 0"
proof -
  have "\<not> verifyHash sha3 (\<lambda>n precomp isolate. test_keccak R (st (ucast isolate)) precomp isolate (ucast isolate) out) i (rand i)"
    if "i < 50" for i
  proof -
    obtain challenge sender nonce where r: "rand i = (challenge, sender, nonce)" by (metis surj_pair)
    with assms(3) that have "length challenge = 32 \<and> length sender = 20 \<and> length nonce = 32" by fastforce
    then show ?thesis
      unfolding r using assms(2) that by (intro verifyHash_agrees platform_rotates [OF assms(1)]) simp_all
  qed
  then show ?thesis by (simp add: verifyHashes_def filter_False)
qed

lemma verifyHashes_agrees_witness:
  "verifyHashes sha3 (\<lambda>n precomp isolate. test_keccak ROL2 (replicate 25 (U2 0 0)) precomp isolate (ucast isolate) (U2 0 0))
     (\<lambda>i. (replicate 32 7, replicate 20 1, replicate 32 5)) = 0"
  by (rule verifyHashes_agrees [where st = "\<lambda>gid. replicate 25 (U2 0 0)"]) (simp_all add: platform_rotation_def)

text \<open>C35: \<open>DivMagic\<close> is right: for every divisor that is not a power of two - and the sizes of the DAG, being primes,
  are not - the multiplication and the shift that its flags ask for divide every 32-bit number exactly.\<close>

theorem div_magic_divides:
  assumes "d \<noteq> 0" and "\<forall>k. unat d \<noteq> 2 ^ k"
  shows "\<exists>r. div_magic d = Inr r \<and> (\<forall>n. magic_divide r n = n div d)"
proof -
  obtain k where k: "k < 32" "2 ^ k \<le> unat d" "unat d < 2 ^ (k + 1)" "count_leading_zeros d = 31 - int k"
    using leading_bit [OF assms(1)] by blast
  then have lt: "2 ^ k < unat d" using assms(2) by (metis le_neq_implies_less)
  show ?thesis
    unfolding div_magic_value [OF k(1) lt k(3,4)] using magic_step1 [OF k(1) lt] magic_step2 [OF k(1) lt k(3)] by auto
qed

lemma div_magic_divides_witness: "\<exists>r. div_magic 8388593 = Inr r \<and> (\<forall>n. magic_divide r n = n div 8388593)"
proof (rule div_magic_divides)
  show "\<forall>k. unat (8388593 :: u32) \<noteq> 2 ^ k"
  proof
    fix k
    show "unat (8388593 :: u32) \<noteq> 2 ^ k" by (cases k) (simp_all, presburger)
  qed
qed simp

end
