(* ===== verification/TrieCommon.thy ===== *)
theory TrieCommon
  imports RlpReader
begin

text \<open>
  \<open>libdevcore/TrieCommon\<close>: nibbles, views on the nibbles of a byte string, and the hex-prefix encoding
  of the keys in a trie's nodes. An \<open>unsigned\<close> is a 32-bit word; reading beyond a view is undefined
  behaviour.
\<close>

section \<open>Nibbles\<close>

definition nibble :: "bytes \<Rightarrow> nat \<Rightarrow> byte result" where
  "nibble d i =
     (if i div 2 < length d then Inr (if odd i then d ! (i div 2) AND 15 else drop_bit 4 (d ! (i div 2)))
      else Inl UndefinedBehaviour)"

function sharedNibbles :: "bytes \<Rightarrow> nat \<Rightarrow> nat \<Rightarrow> bytes \<Rightarrow> nat \<Rightarrow> nat \<Rightarrow> nat result" where
  "sharedNibbles first b1 e1 second b2 e2 =
     (if b1 < e1 \<and> b2 < e2 then
        bindE (nibble first b1) (\<lambda>x. bindE (nibble second b2) (\<lambda>y.
        if x = y then bindE (sharedNibbles first (b1 + 1) e1 second (b2 + 1) e2) (\<lambda>n. Inr (n + 1)) else Inr 0))
      else Inr 0)"
  by pat_completeness auto
termination by (relation "measure (\<lambda>(first, b1, e1, second, b2, e2). e1 - b1)") auto

declare sharedNibbles.simps [simp del]

record nibble_slice =
  ns_data :: bytes
  ns_offset :: u32

definition NibbleSlice :: "bytes \<Rightarrow> u32 \<Rightarrow> nibble_slice" where
  "NibbleSlice d off = \<lparr>ns_data = d, ns_offset = off\<rparr>"

definition ns_at :: "nibble_slice \<Rightarrow> u32 \<Rightarrow> byte result" where
  "ns_at s i = nibble (ns_data s) (unat (ns_offset s + i))"

definition ns_size :: "nibble_slice \<Rightarrow> u32" where
  "ns_size s = word_of_nat (length (ns_data s) * 2) - ns_offset s"

definition ns_empty :: "nibble_slice \<Rightarrow> bool" where
  "ns_empty s = (ns_size s = 0)"

definition ns_mid :: "nibble_slice \<Rightarrow> u32 \<Rightarrow> nibble_slice" where
  "ns_mid s i = NibbleSlice (ns_data s) (ns_offset s + i)"

definition ns_shared :: "nibble_slice \<Rightarrow> nibble_slice \<Rightarrow> u32 result" where
  "ns_shared s k =
     bindE (sharedNibbles (ns_data s) (unat (ns_offset s)) (unat (ns_offset s + ns_size s))
              (ns_data k) (unat (ns_offset k)) (unat (ns_offset k + ns_size k))) (\<lambda>n. Inr (word_of_nat n))"

definition ns_contains :: "nibble_slice \<Rightarrow> nibble_slice \<Rightarrow> bool result" where
  "ns_contains s k = bindE (ns_shared s k) (\<lambda>n. Inr (n = ns_size k))"

definition ns_eq :: "nibble_slice \<Rightarrow> nibble_slice \<Rightarrow> bool result" where
  "ns_eq s k = (if ns_size k = ns_size s then bindE (ns_shared s k) (\<lambda>n. Inr (n = ns_size k)) else Inr False)"

function earlier_loop :: "nibble_slice \<Rightarrow> nibble_slice \<Rightarrow> u32 \<Rightarrow> bool result" where
  "earlier_loop s k i =
     (if i < ns_size k \<and> i < ns_size s then
        bindE (ns_at s i) (\<lambda>x. bindE (ns_at k i) (\<lambda>y.
        if x < y then Inr True else if x > y then Inr False else earlier_loop s k (i + 1)))
      else Inr (i < ns_size k))"
  by pat_completeness auto
termination
proof (relation "measure (\<lambda>(s, k, i). unat (ns_size k) - unat i)", goal_cases)
  case (2 s k i x y)
  then have "unat i < unat (ns_size k)" by (simp add: word_less_nat_alt)
  moreover from this have "unat (i + 1) = unat i + 1"
    using unsigned_less [of "ns_size k", where 'a = nat] by (simp add: unat_word_ariths)
  ultimately show ?case by simp
qed simp

declare earlier_loop.simps [simp del]

definition isEarlierThan :: "nibble_slice \<Rightarrow> nibble_slice \<Rightarrow> bool result" where
  "isEarlierThan s k = earlier_loop s k 0"

section \<open>Keys of nodes\<close>

text \<open>An item of an RLP list, by a fresh view: the cache of \<open>operator[]\<close> does not change what is read.\<close>

definition rlp_nth :: "bytes \<Rightarrow> nat \<Rightarrow> bytes result" where
  "rlp_nth d i = bindE (rlp_at d i rlp_cache0) (\<lambda>(r, c). Inr r)"

definition isLeaf :: "bytes \<Rightarrow> bool result" where
  "isLeaf two =
     bindE (rlp_nth two 0) (\<lambda>r. bindE (rlp_payload r) (\<lambda>pl.
     if pl = [] then Inl UndefinedBehaviour else Inr (pl ! 0 AND 0x20 \<noteq> 0)))"

definition keyOf :: "bytes \<Rightarrow> nibble_slice" where
  "keyOf hpe =
     (if length hpe = 0 then NibbleSlice hpe 0
      else if hpe ! 0 AND 0x10 \<noteq> 0 then NibbleSlice hpe 1
      else NibbleSlice hpe 2)"

definition keyOf_node :: "bytes \<Rightarrow> nibble_slice result" where
  "keyOf_node two = bindE (rlp_nth two 0) (\<lambda>r. bindE (rlp_payload r) (\<lambda>pl. Inr (keyOf pl)))"

text \<open>\<open>uniqueInUse\<close>: the loop over the 17 items, with what it has found so far.\<close>

fun unique_loop :: "bytes \<Rightarrow> byte \<Rightarrow> nat list \<Rightarrow> byte \<Rightarrow> byte result" where
  "unique_loop orig ex [] used = Inr used"
| "unique_loop orig ex (i # is) used =
     (if i \<noteq> unat ex then
        bindE (rlp_nth orig i) (\<lambda>r.
        if \<not> rlp_isEmpty r then (if used = 255 then unique_loop orig ex is (word_of_nat i) else Inr 255)
        else unique_loop orig ex is used)
      else unique_loop orig ex is used)"

definition uniqueInUse :: "bytes \<Rightarrow> byte \<Rightarrow> byte result" where
  "uniqueInUse orig ex = unique_loop orig ex [0..<17] 255"

section \<open>The hex-prefix encoding\<close>

definition hp_flags :: "bool \<Rightarrow> bool \<Rightarrow> byte" where
  "hp_flags leaf odd_count = ((if leaf then 2 else 0) OR (if odd_count then 1 else 0)) * 16"

text \<open>Of a vector of nibbles; the string's characters are bytes.\<close>

function hp_pairs :: "bytes \<Rightarrow> nat \<Rightarrow> nat \<Rightarrow> bytes \<Rightarrow> bytes result" where
  "hp_pairs hv i e ret =
     (if i < e then
        if i + 1 < length hv then hp_pairs hv (i + 2) e (ret @ [hv ! i * 16 + hv ! (i + 1)]) else Inl UndefinedBehaviour
      else Inr ret)"
  by pat_completeness auto
termination by (relation "measure (\<lambda>(hv, i, e, ret). e - i)") auto

declare hp_pairs.simps [simp del]

definition hexPrefixEncode_vec :: "bytes \<Rightarrow> bool \<Rightarrow> int \<Rightarrow> int \<Rightarrow> bytes result" where
  "hexPrefixEncode_vec hv leaf begin0 end0 =
     (let b = word_of_int begin0 :: u32;
          e = (if end0 < 0 then word_of_int (int (length hv) + 1 + end0) else word_of_int end0) :: u32;
          odd_count = (e - b) mod 2 \<noteq> 0;
          ret = hp_flags leaf odd_count
      in if odd_count
         then (if unat b < length hv then hp_pairs hv (unat (b + 1)) (unat e) [ret OR hv ! unat b] else Inl UndefinedBehaviour)
         else hp_pairs hv (unat b) (unat e) [ret])"

text \<open>
  Of the nibbles \<open>i\<close> to \<open>e\<close> of a byte string, onto what has been written: with an odd count \<open>d\<close> the nibble
  goes onto the last byte, with an even one it opens a new byte.
\<close>

function hp_nibbles :: "bytes \<Rightarrow> nat \<Rightarrow> nat \<Rightarrow> nat \<Rightarrow> bytes \<Rightarrow> (bytes \<times> nat) result" where
  "hp_nibbles dat i e d ret =
     (if i < e then
        bindE (nibble dat i) (\<lambda>n.
        hp_nibbles dat (i + 1) e (d + 1) (if odd d then butlast ret @ [last ret OR n] else ret @ [push_bit 4 n]))
      else Inr (ret, d))"
  by pat_completeness auto
termination by (relation "measure (\<lambda>(dat, i, e, d, ret). e - i)") auto

declare hp_nibbles.simps [simp del]

definition hexPrefixEncode_bits :: "bytes \<Rightarrow> bool \<Rightarrow> int \<Rightarrow> int \<Rightarrow> u32 \<Rightarrow> bytes result" where
  "hexPrefixEncode_bits dat leaf beginNibble endNibble off =
     (let b = word_of_int beginNibble + off;
          e = (if endNibble < 0 then word_of_int (sint (word_of_nat (length dat * 2) - off) + 1 + endNibble)
               else word_of_int endNibble) + off;
          odd_count = (e - b) AND 1 \<noteq> 0
      in bindE (hp_nibbles dat (unat b) (unat e) (if odd_count then 1 else 2) [hp_flags leaf odd_count]) (\<lambda>(ret, d). Inr ret))"

definition hexPrefixEncode_two :: "bytes \<Rightarrow> u32 \<Rightarrow> bytes \<Rightarrow> u32 \<Rightarrow> bool \<Rightarrow> bytes result" where
  "hexPrefixEncode_two d1 o1 d2 o2 leaf =
     (let end1 = word_of_nat (length d1 * 2) :: u32; end2 = word_of_nat (length d2 * 2) :: u32;
          odd_count = (end1 - o1 + end2 - o2) AND 1 \<noteq> 0
      in bindE (hp_nibbles d1 (unat o1) (unat end1) (if odd_count then 1 else 2) [hp_flags leaf odd_count]) (\<lambda>(ret, d).
         bindE (hp_nibbles d2 (unat o2) (unat end2) d ret) (\<lambda>(ret, d). Inr ret)))"

definition hexPrefixEncode :: "nibble_slice \<Rightarrow> bool \<Rightarrow> int \<Rightarrow> int \<Rightarrow> bytes result" where
  "hexPrefixEncode s leaf begin0 end0 = hexPrefixEncode_bits (ns_data s) leaf begin0 end0 (ns_offset s)"

definition hexPrefixEncode2 :: "nibble_slice \<Rightarrow> nibble_slice \<Rightarrow> bool \<Rightarrow> bytes result" where
  "hexPrefixEncode2 s1 s2 leaf = hexPrefixEncode_two (ns_data s1) (ns_offset s1) (ns_data s2) (ns_offset s2) leaf"

section \<open>Lemmas: slices are lists of nibbles\<close>

text \<open>The nibbles a slice stands for, when it lies within its data and the counts fit 32 bits.\<close>

definition nibs :: "nibble_slice \<Rightarrow> bytes" where
  "nibs s = drop (unat (ns_offset s)) (asNibbles (ns_data s))"

definition ns_ok :: "nibble_slice \<Rightarrow> bool" where
  "ns_ok s \<longleftrightarrow> unat (ns_offset s) \<le> 2 * length (ns_data s) \<and> 2 * length (ns_data s) < 2 ^ 31"

lemma length_asNibbles [simp]: "length (asNibbles d) = 2 * length d"
  by (induction d rule: asNibbles.induct) simp_all

lemma nth_asNibbles: "i < 2 * length d \<Longrightarrow> asNibbles d ! i = (if odd i then d ! (i div 2) AND 15 else drop_bit 4 (d ! (i div 2)))"
proof (induction d arbitrary: i rule: asNibbles.induct)
  case (2 b d)
  have hi: "b div 16 = drop_bit 4 b" by (simp add: drop_bit_eq_div)
  have lo: "b mod 16 = b AND 15"
    using take_bit_eq_mod [of 4 b] take_bit_eq_mask [of 4 b] by (simp add: mask_eq_exp_minus_1)
  show ?case
  proof (cases i)
    case 0
    then show ?thesis using hi by simp
  next
    case (Suc j)
    show ?thesis
    proof (cases j)
      case 0
      then show ?thesis using Suc lo by simp
    next
      case (Suc l)
      then show ?thesis using 2 \<open>i = Suc j\<close> by simp
    qed
  qed
qed simp

lemma nibble_eq: "i < 2 * length d \<Longrightarrow> nibble d i = Inr (asNibbles d ! i)"
  by (auto simp: nibble_def nth_asNibbles)

fun lcp :: "'a list \<Rightarrow> 'a list \<Rightarrow> nat" where
  "lcp (x # xs) (y # ys) = (if x = y then Suc (lcp xs ys) else 0)"
| "lcp xs ys = 0"

lemma lcp_le: "lcp xs ys \<le> length xs" "lcp xs ys \<le> length ys"
  by (induction xs ys rule: lcp.induct) auto

lemma lcp_take: "take (lcp xs ys) xs = take (lcp xs ys) ys"
  by (induction xs ys rule: lcp.induct) auto

lemma lcp_prefix: "lcp xs ys = length ys \<longleftrightarrow> take (length ys) xs = ys"
  by (induction xs ys rule: lcp.induct) auto

lemma lcp_differ: "lcp xs ys < length xs \<Longrightarrow> lcp xs ys < length ys \<Longrightarrow> xs ! lcp xs ys \<noteq> ys ! lcp xs ys"
  by (induction xs ys rule: lcp.induct) auto

lemma sharedNibbles_lcp:
  assumes "e1 \<le> 2 * length d1" "e2 \<le> 2 * length d2"
  shows "sharedNibbles d1 b1 e1 d2 b2 e2 =
    Inr (lcp (drop b1 (take e1 (asNibbles d1))) (drop b2 (take e2 (asNibbles d2))))"
proof (induction "e1 - b1" arbitrary: b1 b2)
  case 0
  then show ?case by (subst sharedNibbles.simps) simp
next
  case (Suc n)
  then have b1: "b1 < e1" by simp
  then have d1: "drop b1 (take e1 (asNibbles d1)) = asNibbles d1 ! b1 # drop (Suc b1) (take e1 (asNibbles d1))"
    using assms(1) by (simp flip: Cons_nth_drop_Suc)
  show ?case
  proof (cases "b2 < e2")
    case True
    then have d2: "drop b2 (take e2 (asNibbles d2)) = asNibbles d2 ! b2 # drop (Suc b2) (take e2 (asNibbles d2))"
      using assms(2) by (simp flip: Cons_nth_drop_Suc)
    have "sharedNibbles d1 (b1 + 1) e1 d2 (b2 + 1) e2 =
        Inr (lcp (drop (b1 + 1) (take e1 (asNibbles d1))) (drop (b2 + 1) (take e2 (asNibbles d2))))"
      by (rule Suc.hyps(1)) (use Suc.hyps(2) in simp)
    then show ?thesis
      using True b1 assms unfolding d1 d2 by (subst sharedNibbles.simps) (simp add: nibble_eq)
  next
    case False
    then show ?thesis by (subst sharedNibbles.simps) simp
  qed
qed

lemma ns_ok_bounds:
  assumes "ns_ok s"
  shows "length (nibs s) = 2 * length (ns_data s) - unat (ns_offset s)"
    and "unat (ns_size s) = length (nibs s)"
    and "unat (ns_offset s + ns_size s) = 2 * length (ns_data s)"
    and "length (nibs s) < 2 ^ 31"
proof -
  let ?n = "2 * length (ns_data s)" and ?o = "ns_offset s"
  have n: "?n < 2 ^ 31" "unat ?o \<le> ?n" using assms by (simp_all add: ns_ok_def)
  have w: "unat (word_of_nat ?n :: u32) = ?n" using n(1) by (simp add: unat_of_nat del: of_nat_mult)
  have le: "?o \<le> word_of_nat ?n" using n(2) by (simp only: word_le_nat_alt w)
  have sum: "?o + ns_size s = word_of_nat ?n" by (simp add: ns_size_def mult.commute)
  show len: "length (nibs s) = ?n - unat ?o" by (simp add: nibs_def)
  show "unat (ns_size s) = length (nibs s)"
    using unat_sub [OF le] w len by (simp add: ns_size_def mult.commute del: of_nat_mult)
  show "unat (?o + ns_size s) = ?n" unfolding sum by (rule w)
  show "length (nibs s) < 2 ^ 31" using len n(1) by linarith
qed

lemma small_u32: "n < 2 ^ 31 \<Longrightarrow> unat (word_of_nat n :: u32) = n"
  by (simp add: unat_of_nat)

lemma ns_shared_lcp:
  assumes "ns_ok s" "ns_ok k"
  shows "ns_shared s k = Inr (word_of_nat (lcp (nibs s) (nibs k)))"
  using sharedNibbles_lcp [of "2 * length (ns_data s)" "ns_data s" "2 * length (ns_data k)" "ns_data k"]
  by (simp add: ns_shared_def ns_ok_bounds(3) [OF assms(1)] ns_ok_bounds(3) [OF assms(2)] nibs_def)

lemma lcp_u32:
  assumes "ns_ok s"
  shows "unat (word_of_nat (lcp (nibs s) ks) :: u32) = lcp (nibs s) ks"
  by (rule small_u32) (use lcp_le(1) [of "nibs s" ks] ns_ok_bounds(4) [OF assms] in linarith)

lemma ns_contains_prefix:
  assumes "ns_ok s" "ns_ok k"
  shows "ns_contains s k = Inr (take (length (nibs k)) (nibs s) = nibs k)"
proof -
  have "word_of_nat (lcp (nibs s) (nibs k)) = ns_size k \<longleftrightarrow> lcp (nibs s) (nibs k) = length (nibs k)"
    unfolding word_unat_eq_iff [of _ "ns_size k"] lcp_u32 [OF assms(1)] ns_ok_bounds(2) [OF assms(2)] ..
  then show ?thesis by (simp add: ns_contains_def ns_shared_lcp [OF assms] lcp_prefix)
qed

lemma ns_eq_nibs:
  assumes "ns_ok s" "ns_ok k"
  shows "ns_eq s k = Inr (nibs s = nibs k)"
proof (cases "length (nibs k) = length (nibs s)")
  case True
  then have "ns_size k = ns_size s" by (simp only: word_unat_eq_iff ns_ok_bounds(2) [OF assms(1)] ns_ok_bounds(2) [OF assms(2)])
  then have "ns_eq s k = ns_contains s k" by (simp only: ns_eq_def ns_contains_def if_True simp_thms)
  then show ?thesis using ns_contains_prefix [OF assms] True by simp
next
  case False
  then have "ns_size k \<noteq> ns_size s" using ns_ok_bounds(2) [OF assms(1)] ns_ok_bounds(2) [OF assms(2)] by metis
  then show ?thesis using False by (auto simp: ns_eq_def)
qed

lemma ns_at_nth:
  assumes "ns_ok s" "unat i < length (nibs s)"
  shows "ns_at s i = Inr (nibs s ! unat i)"
proof -
  note b = ns_ok_bounds [OF assms(1)]
  have "unat (ns_offset s) + unat i < 2 * length (ns_data s)" using assms(2) b(1) by linarith
  moreover from this have "unat (ns_offset s + i) = unat (ns_offset s) + unat i"
    using assms(1) by (simp add: ns_ok_def unat_word_ariths)
  ultimately show ?thesis by (simp add: ns_at_def nibble_eq nibs_def)
qed

lemma ns_mid_nibs:
  assumes "ns_ok s" "unat i \<le> length (nibs s)"
  shows "ns_ok (ns_mid s i)" and "nibs (ns_mid s i) = drop (unat i) (nibs s)"
proof -
  note b = ns_ok_bounds [OF assms(1)]
  have le: "unat (ns_offset s) + unat i \<le> 2 * length (ns_data s)"
    using assms(2) b(1) assms(1) unfolding ns_ok_def by linarith
  moreover from this have "unat (ns_offset s + i) = unat (ns_offset s) + unat i"
    using assms(1) by (simp add: ns_ok_def unat_word_ariths)
  ultimately show "ns_ok (ns_mid s i)" "nibs (ns_mid s i) = drop (unat i) (nibs s)"
    using assms(1) by (simp_all add: ns_ok_def ns_mid_def NibbleSlice_def nibs_def add.commute)
qed

definition nibbles_ok :: "bytes \<Rightarrow> bool" where
  "nibbles_ok ks \<longleftrightarrow> (\<forall>n \<in> set ks. n < 16)"

lemma nibbles_ok_simps [simp]:
  "nibbles_ok []" "nibbles_ok (n # ks) \<longleftrightarrow> n < 16 \<and> nibbles_ok ks" "nibbles_ok (xs @ ys) \<longleftrightarrow> nibbles_ok xs \<and> nibbles_ok ys"
  by (auto simp: nibbles_ok_def)

lemma nibbles_ok_take [simp]: "nibbles_ok ks \<Longrightarrow> nibbles_ok (take n ks)"
  and nibbles_ok_drop [simp]: "nibbles_ok ks \<Longrightarrow> nibbles_ok (drop n ks)"
  by (auto simp: nibbles_ok_def dest: in_set_takeD in_set_dropD)

lemma nibbles_ok_tl [simp]: "nibbles_ok ks \<Longrightarrow> nibbles_ok (tl ks)"
  by (cases ks) auto

lemma nibbles_ok_asNibbles [simp]: "nibbles_ok (asNibbles d)"
proof (induction d rule: asNibbles.induct)
  case (2 b d)
  have "unat b div 16 < 16" using unat_byte_lt [of b] by (simp add: less_mult_imp_div_less)
  with 2 show ?case by (simp add: word_less_nat_alt unat_div unat_mod)
qed simp

lemma nibbles_ok_nibs [simp]: "nibbles_ok (nibs s)"
  by (simp add: nibs_def)

section \<open>Lemmas: the hex-prefix encoding\<close>

fun hp_push :: "bytes \<Rightarrow> nat \<Rightarrow> bytes \<Rightarrow> bytes" where
  "hp_push ret d [] = ret"
| "hp_push ret d (n # ns) = hp_push (if odd d then butlast ret @ [last ret OR n] else ret @ [push_bit 4 n]) (d + 1) ns"

fun hp_pack :: "bytes \<Rightarrow> bytes" where
  "hp_pack (a # b # ks) = (push_bit 4 a OR b) # hp_pack ks"
| "hp_pack ks = []"

definition hp :: "bytes \<Rightarrow> bool \<Rightarrow> bytes" where
  "hp ks leaf =
     (if even (length ks) then hp_flags leaf False # hp_pack ks else (hp_flags leaf True OR hd ks) # hp_pack (tl ks))"

lemma hp_push_append: "hp_push ret d (xs @ ys) = hp_push (hp_push ret d xs) (d + length xs) ys"
  by (induction ret d xs rule: hp_push.induct) simp_all

lemma hp_push_even: "even d \<Longrightarrow> even (length ks) \<Longrightarrow> hp_push ret d ks = ret @ hp_pack ks"
  by (induction ks arbitrary: ret d rule: hp_pack.induct) simp_all

lemma hp_push_hp:
  "hp_push [hp_flags leaf (odd (length ks))] (if odd (length ks) then 1 else 2) ks = hp ks leaf"
proof (cases "even (length ks)")
  case False
  then obtain n ns where ks: "ks = n # ns" "even (length ns)" by (cases ks) auto
  then show ?thesis by (simp add: hp_def hp_push_even)
qed (simp add: hp_def hp_push_even)

lemma hp_nibbles_push:
  "e \<le> 2 * length dat \<Longrightarrow>
   hp_nibbles dat i e d ret = Inr (hp_push ret d (drop i (take e (asNibbles dat))), d + (e - i))"
proof (induction "e - i" arbitrary: i d ret)
  case 0
  then show ?case by (subst hp_nibbles.simps) simp
next
  case (Suc n)
  then have "i < e" by simp
  then have "drop i (take e (asNibbles dat)) = asNibbles dat ! i # drop (Suc i) (take e (asNibbles dat))"
    using Suc.prems by (simp flip: Cons_nth_drop_Suc)
  then show ?case
    using Suc \<open>i < e\<close> by (subst hp_nibbles.simps) (simp add: nibble_eq Suc_diff_le [symmetric] Suc_diff_Suc)
qed

lemma odd_u32: "(w :: u32) AND 1 \<noteq> 0 \<longleftrightarrow> odd (unat w)"
  by (simp add: and_one_eq even_iff_mod_2_eq_zero [symmetric] odd_iff_mod_2_eq_one word_unat_eq_iff unat_mod)

lemma hexPrefixEncode_range:
  assumes "ns_ok s" "b \<le> e" "e \<le> length (nibs s)"
  shows "hexPrefixEncode s leaf (int b) (int e) = Inr (hp (drop b (take e (nibs s))) leaf)"
proof -
  note bd = ns_ok_bounds [OF assms(1)]
  let ?o = "ns_offset s"
  have be: "unat (word_of_nat b + ?o) = unat ?o + b" "unat (word_of_nat e + ?o) = unat ?o + e"
    using assms bd(1) by (auto simp: ns_ok_def unat_word_ariths unat_of_nat)
  have "word_of_nat b + ?o \<le> word_of_nat e + ?o" using assms(2) by (simp only: word_le_nat_alt be add_left_mono)
  from unat_sub [OF this] have diff: "unat (word_of_nat e + ?o - (word_of_nat b + ?o)) = e - b" using be by simp
  have len: "length (drop b (take e (nibs s))) = e - b" using assms(3) by simp
  have sub: "drop (unat ?o + b) (take (unat ?o + e) (asNibbles (ns_data s))) = drop b (take e (nibs s))"
    by (simp add: nibs_def drop_take add.commute)
  have "unat ?o + e \<le> 2 * length (ns_data s)" using assms(1,3) bd(1) unfolding ns_ok_def by linarith
  note push = hp_nibbles_push [OF this]
  show ?thesis
    unfolding hexPrefixEncode_def hexPrefixEncode_bits_def Let_def
    by (simp only: negative_zle of_nat_less_0_iff if_False of_int_of_nat_eq odd_u32 diff be push sub len [symmetric] bindE_simps prod.case hp_push_hp)
qed

lemma hexPrefixEncode_default: "hexPrefixEncode s leaf b (-1) = hexPrefixEncode s leaf b (int (length (nibs s)))" if "ns_ok s"
proof -
  note bd = ns_ok_bounds [OF that]
  have "uint (ns_size s) = int (length (nibs s))" using bd(2) by (metis uint_nat)
  moreover have "sint (ns_size s) = int (length (nibs s))"
    using bd(4) \<open>uint (ns_size s) = int (length (nibs s))\<close> by (simp add: sint_uint signed_take_bit_int_eq_self)
  ultimately show ?thesis
    by (simp add: hexPrefixEncode_def hexPrefixEncode_bits_def ns_size_def mult.commute)
qed

lemma hexPrefixEncode_all:
  assumes "ns_ok s" "b \<le> length (nibs s)"
  shows "hexPrefixEncode s leaf (int b) (-1) = Inr (hp (drop b (nibs s)) leaf)"
  using hexPrefixEncode_range [OF assms order_refl] hexPrefixEncode_default [OF assms(1)] by simp

lemma hexPrefixEncode2_append:
  assumes "ns_ok s" "ns_ok k" "length (nibs s) + length (nibs k) < 2 ^ 31"
  shows "hexPrefixEncode2 s k leaf = Inr (hp (nibs s @ nibs k) leaf)"
proof -
  note bs = ns_ok_bounds [OF assms(1)] and bk = ns_ok_bounds [OF assms(2)]
  have e1: "word_of_nat (length (ns_data s) * 2) - ns_offset s = ns_size s" "word_of_nat (length (ns_data k) * 2) - ns_offset k = ns_size k"
    by (simp_all add: ns_size_def)
  have u: "unat (word_of_nat (length (ns_data s) * 2) :: u32) = 2 * length (ns_data s)"
    "unat (word_of_nat (length (ns_data k) * 2) :: u32) = 2 * length (ns_data k)"
    using assms(1,2) by (simp_all add: ns_ok_def unat_of_nat mult.commute del: of_nat_mult)
  have split: "a - o1 + b - o2 = (a - o1) + (b - o2)" for a o1 b o2 :: u32 by simp
  have "unat (ns_size s + ns_size k) = length (nibs s @ nibs k)"
    using bs(2) bk(2) assms(3) by (simp add: unat_word_ariths)
  then have odd: "(ns_size s + ns_size k) AND 1 \<noteq> 0 \<longleftrightarrow> odd (length (nibs s @ nibs k))" by (simp only: odd_u32)
  have n1: "drop (unat (ns_offset s)) (take (2 * length (ns_data s)) (asNibbles (ns_data s))) = nibs s"
    "drop (unat (ns_offset k)) (take (2 * length (ns_data k)) (asNibbles (ns_data k))) = nibs k"
    by (simp_all add: nibs_def)
  have A: "hp_nibbles (ns_data s) (unat (ns_offset s)) (2 * length (ns_data s)) e ret = Inr (hp_push ret e (nibs s), e + length (nibs s))" for e ret
    by (simp only: hp_nibbles_push [OF order_refl] n1 bs(1))
  have B: "hp_nibbles (ns_data k) (unat (ns_offset k)) (2 * length (ns_data k)) e ret = Inr (hp_push ret e (nibs k), e + length (nibs k))" for e ret
    by (simp only: hp_nibbles_push [OF order_refl] n1 bk(1))
  show ?thesis
    unfolding hexPrefixEncode2_def hexPrefixEncode_two_def Let_def split e1 odd u A B bindE_simps prod.case hp_push_append [symmetric]
    by (simp only: hp_push_hp)
qed

text \<open>What the decoder finds in an encoded key.\<close>

lemma nibble_pair:
  assumes "a < 16" "b < (16 :: byte)"
  shows "(push_bit 4 a OR b) div 16 = a" "(push_bit 4 a OR b) mod 16 = b"
proof -
  have lt: "unat a < 16" "unat b < 16" using assms by (simp_all add: word_less_nat_alt)
  have b4: "take_bit 4 b = b" using lt(2) by (simp add: take_bit_eq_mod word_unat_eq_iff unat_mod)
  have "\<not> (bit (push_bit 4 a) n \<and> bit b n)" for n
    using bit_take_bit_iff [of 4 b n] unfolding b4 by (auto simp: bit_simps)
  then have "push_bit 4 a AND b = 0" by (intro bit_word_eqI) (simp add: bit_and_iff)
  then have "push_bit 4 a OR b = push_bit 4 a + b" by (simp add: disjunctive_add_eq_or)
  moreover have "unat (push_bit 4 a) = unat a * 16" using lt(1) by (simp add: push_bit_eq_mult unat_word_ariths)
  ultimately have "unat (push_bit 4 a OR b) = unat a * 16 + unat b" using lt by (simp add: unat_word_ariths)
  then show "(push_bit 4 a OR b) div 16 = a" "(push_bit 4 a OR b) mod 16 = b"
    using lt by (simp_all add: word_unat_eq_iff unat_div unat_mod)
qed

lemma asNibbles_pack: "nibbles_ok ks \<Longrightarrow> even (length ks) \<Longrightarrow> asNibbles (hp_pack ks) = ks"
  by (induction ks rule: hp_pack.induct) (simp_all add: nibble_pair)

lemma length_hp_pack: "length (hp_pack ks) = length ks div 2"
  by (induction ks rule: hp_pack.induct) simp_all

lemma length_hp: "length (hp ks leaf) = length ks div 2 + 1"
proof (cases "even (length ks)")
  case False
  then show ?thesis by (cases ks) (simp_all add: hp_def length_hp_pack)
qed (simp add: hp_def length_hp_pack)

lemma hp_nonempty [simp]: "hp ks leaf \<noteq> []"
  by (simp add: hp_def)

lemma hp_flags_bits:
  assumes "n < 16"
  shows "(hp_flags leaf o1 OR n) mod 16 = n" "(hp_flags leaf o1 OR n) AND 0x10 \<noteq> 0 \<longleftrightarrow> o1"
    "(hp_flags leaf o1 OR n) AND 0x20 \<noteq> 0 \<longleftrightarrow> leaf"
proof -
  let ?f = "(if leaf then 2 else 0) OR (if o1 then 1 else 0) :: byte"
  have f: "hp_flags leaf o1 = push_bit 4 ?f" by (simp add: hp_flags_def push_bit_eq_mult)
  have f16: "?f < 16" by simp
  show "(hp_flags leaf o1 OR n) mod 16 = n" unfolding f by (rule nibble_pair(2) [OF f16 assms])
  have n4: "take_bit 4 n = n" using assms by (simp add: take_bit_eq_mod word_unat_eq_iff unat_mod word_less_nat_alt)
  have b: "\<not> bit n 4" "\<not> bit n 5" using bit_take_bit_iff [of 4 n 4] bit_take_bit_iff [of 4 n 5] unfolding n4 by simp_all
  have "x AND 0x10 \<noteq> 0 \<longleftrightarrow> bit x 4" "x AND 0x20 \<noteq> 0 \<longleftrightarrow> bit x 5" for x :: byte
    using and_exp_eq_0_iff_not_bit [of x 4] and_exp_eq_0_iff_not_bit [of x 5] by simp_all
  then show "(hp_flags leaf o1 OR n) AND 0x10 \<noteq> 0 \<longleftrightarrow> o1" "(hp_flags leaf o1 OR n) AND 0x20 \<noteq> 0 \<longleftrightarrow> leaf"
    using b unfolding f by (simp_all add: bit_simps)
qed

lemma keyOf_hp:
  assumes "nibbles_ok ks" "length ks < 2 ^ 30"
  shows "ns_ok (keyOf (hp ks leaf))" "nibs (keyOf (hp ks leaf)) = ks" "hp ks leaf ! 0 AND 0x20 \<noteq> 0 \<longleftrightarrow> leaf"
proof -
  have "ns_ok (keyOf (hp ks leaf)) \<and> nibs (keyOf (hp ks leaf)) = ks \<and> (hp ks leaf ! 0 AND 0x20 \<noteq> 0 \<longleftrightarrow> leaf)"
  proof (cases "even (length ks)")
    case True
    then have "keyOf (hp ks leaf) = NibbleSlice (hp ks leaf) 2"
      using hp_flags_bits(2) [of 0 leaf False] by (simp add: keyOf_def hp_def)
    moreover have "asNibbles (hp_pack ks) = ks" using assms(1) True by (rule asNibbles_pack)
    ultimately show ?thesis
      using True assms(2) hp_flags_bits(3) [of 0 leaf False]
      by (simp add: ns_ok_def nibs_def NibbleSlice_def hp_def length_hp_pack)
  next
    case False
    then obtain n ns where ks: "ks = n # ns" "n < 16" "nibbles_ok ns" "even (length ns)" using assms(1) by (cases ks) auto
    then have "keyOf (hp ks leaf) = NibbleSlice (hp ks leaf) 1"
      using hp_flags_bits(2) [of n leaf True] by (simp add: keyOf_def hp_def)
    moreover have "asNibbles (hp_pack ns) = ns" using ks(3,4) by (rule asNibbles_pack)
    ultimately show ?thesis
      using ks assms(2) hp_flags_bits(1,3) [of n leaf True]
      by (simp add: ns_ok_def nibs_def NibbleSlice_def hp_def length_hp_pack)
  qed
  then show "ns_ok (keyOf (hp ks leaf))" "nibs (keyOf (hp ks leaf)) = ks" "hp ks leaf ! 0 AND 0x20 \<noteq> 0 \<longleftrightarrow> leaf" by simp_all
qed

text \<open>The encoding of a vector of nibbles.\<close>

lemma hp_pairs_pack:
  "even (e - i) \<Longrightarrow> e \<le> length hv \<Longrightarrow> i \<le> e \<Longrightarrow> nibbles_ok hv \<Longrightarrow> hp_pairs hv i e ret = Inr (ret @ hp_pack (drop i (take e hv)))"
proof (induction "(e - i) div 2" arbitrary: i ret)
  case 0
  then have "i = e" by (metis dvd_mult_div_cancel le_antisym diff_is_0_eq mult_0_right)
  then show ?case by (simp add: hp_pairs.simps)
next
  case (Suc n)
  then have lt: "i + 1 < e" by (metis One_nat_def Suc_eq_plus1 Suc_lessI add_diff_cancel_left' div_less dvd_1_left even_Suc_div_two le_add_diff_inverse less_add_one nat.distinct(1) odd_one zero_less_diff linorder_not_le one_less_numeral_iff semiring_norm(76) even_diff_nat order_le_less diff_is_0_eq div_0)
  then have "drop i (take e hv) = hv ! i # hv ! (i + 1) # drop (i + 2) (take e hv)"
    using Suc.prems(2) Cons_nth_drop_Suc [of i "take e hv"] Cons_nth_drop_Suc [of "i + 1" "take e hv"] by simp
  moreover have "hv ! i * 16 + hv ! (i + 1) = push_bit 4 (hv ! i) OR hv ! (i + 1)"
  proof -
    have n: "hv ! i < 16" "hv ! (i + 1) < 16" using Suc.prems(2,4) lt by (simp_all add: nibbles_ok_def)
    have "(hv ! i * 16 + hv ! (i + 1)) = (push_bit 4 (hv ! i) OR hv ! (i + 1)) div 16 * 16 + (push_bit 4 (hv ! i) OR hv ! (i + 1)) mod 16"
      by (simp only: nibble_pair [OF n])
    then show ?thesis by (simp only: div_mult_mod_eq)
  qed
  moreover have "hp_pairs hv (i + 2) e (ret @ [x]) = Inr ((ret @ [x]) @ hp_pack (drop (i + 2) (take e hv)))" for x
    by (rule Suc.hyps(1)) (use Suc lt in auto)
  ultimately show ?case using lt Suc.prems(2) by (subst hp_pairs.simps) simp
qed

lemma hexPrefixEncode_vec_range:
  assumes "nibbles_ok hv" "b \<le> e" "e \<le> length hv" "length hv < 2 ^ 31"
  shows "hexPrefixEncode_vec hv leaf (int b) (int e) = Inr (hp (drop b (take e hv)) leaf)"
proof -
  let ?ks = "drop b (take e hv)"
  have u: "unat (word_of_nat b :: u32) = b" "unat (word_of_nat e :: u32) = e" using assms by (simp_all add: small_u32)
  have "(word_of_nat b :: u32) \<le> word_of_nat e" using assms(2) by (simp only: word_le_nat_alt u)
  from unat_sub [OF this] have diff: "unat (word_of_nat e - word_of_nat b :: u32) = e - b" by (simp only: u)
  have "(word_of_nat e - word_of_nat b :: u32) mod 2 \<noteq> 0 \<longleftrightarrow> odd (e - b)"
    unfolding word_unat_eq_iff unat_mod diff unsigned_0 unat_numeral odd_iff_mod_2_eq_one by (simp add: parity_cases)
  then have odd: "(word_of_nat e - word_of_nat b :: u32) mod 2 \<noteq> 0 \<longleftrightarrow> odd (length ?ks)" using assms(3) by simp
  show ?thesis
  proof (cases "odd (length ?ks)")
    case True
    then have lt: "b < e" using assms(2,3) by (cases "b = e") auto
    then have ks: "?ks = hv ! b # drop (Suc b) (take e hv)" using assms(3) by (simp flip: Cons_nth_drop_Suc)
    have "unat (word_of_nat b + 1 :: u32) = Suc b" using u(1) lt assms(3,4) by (simp add: unat_word_ariths)
    moreover have "hp_pairs hv (Suc b) e [x] = Inr (x # hp_pack (drop (Suc b) (take e hv)))" for x
      using hp_pairs_pack [of e "Suc b" hv "[x]"] True lt assms by (simp add: even_diff_nat)
    moreover have "even (length (drop (Suc b) (take e hv)))" using True unfolding ks by simp
    ultimately show ?thesis
      using True odd u lt assms(3) unfolding hexPrefixEncode_vec_def Let_def ks
      by (simp only: of_int_of_nat_eq negative_zle of_nat_less_0_iff if_True if_False u hp_def) simp
  next
    case False
    then have "hp_pairs hv b e [x] = Inr (x # hp_pack ?ks)" for x
      using hp_pairs_pack [of e b hv "[x]"] assms by simp
    then show ?thesis
      using False odd u unfolding hexPrefixEncode_vec_def Let_def
      by (simp only: of_int_of_nat_eq negative_zle of_nat_less_0_iff if_True if_False u hp_def) simp
  qed
qed

lemma hexPrefixEncode_vec_all:
  assumes "nibbles_ok hv" "b \<le> length hv" "length hv < 2 ^ 31"
  shows "hexPrefixEncode_vec hv leaf (int b) (-1) = Inr (hp (drop b hv) leaf)"
proof -
  have "hexPrefixEncode_vec hv leaf (int b) (-1) = hexPrefixEncode_vec hv leaf (int b) (int (length hv))"
    by (simp add: hexPrefixEncode_vec_def)
  then show ?thesis using hexPrefixEncode_vec_range [OF assms(1,2) order_refl assms(3)] by simp
qed

section \<open>Claims\<close>

text \<open>C30: The hex-prefix encoding is read back: the key and the leaf flag that a node carries are those that were
  encoded, for every list of nibbles, empty, odd or even, and the encoding takes half a byte per nibble and
  one byte of flags.\<close>

theorem hex_prefix_roundtrip:
  assumes "nibbles_ok ks" and "length ks < 2 ^ 30"
  shows "\<exists>e. hexPrefixEncode_vec ks leaf 0 (-1) = Inr e \<and> length e = length ks div 2 + 1 \<and>
    nibs (keyOf e) = ks \<and> (e ! 0 AND 0x20 \<noteq> 0 \<longleftrightarrow> leaf)"
  using hexPrefixEncode_vec_all [OF assms(1), of 0 leaf] keyOf_hp [OF assms, of leaf] length_hp [of ks leaf] assms(2) by simp

theorem hex_prefix_roundtrip_witness:
  "\<exists>e. hexPrefixEncode_vec [1, 2, 3] True 0 (-1) = Inr e \<and> nibs (keyOf e) = [1, 2, 3]"
  using hex_prefix_roundtrip [of "[1, 2, 3]" True] by auto

end
