(* ===== verification/MemoryDB.thy ===== *)
theory MemoryDB
  imports FixedHash
begin

text \<open>
  \<open>libdevcore/MemoryDB\<close>: the reference-counted store of a trie's nodes, and the interface that
  \<open>GenericTrieDB\<close>, a template over its database, uses. The mutexes make each call one step.
\<close>

section \<open>MemoryDB\<close>

record memory_db =
  md_main :: "h256 \<Rightarrow> (bytes \<times> u32) option"
  md_aux :: "h256 \<Rightarrow> (bytes \<times> bool) option"
  md_enforceRefs :: bool

definition MemoryDB0 :: memory_db where
  "MemoryDB0 = \<lparr>md_main = Map.empty, md_aux = Map.empty, md_enforceRefs = False\<rparr>"

text \<open>The copy leaves \<open>m_enforceRefs\<close> alone.\<close>

definition md_assign :: "memory_db \<Rightarrow> memory_db \<Rightarrow> memory_db" where
  "md_assign c m = m\<lparr>md_main := md_main c, md_aux := md_aux c\<rparr>"

definition md_clear :: "memory_db \<Rightarrow> memory_db" where
  "md_clear m = m\<lparr>md_main := Map.empty\<rparr>"

definition md_get :: "memory_db \<Rightarrow> h256 \<Rightarrow> bytes option" where
  "md_get m h =
     (case md_main m h of None \<Rightarrow> None
      | Some (s, n) \<Rightarrow> if \<not> md_enforceRefs m \<or> n > 0 then Some s else None)"

definition md_lookup :: "memory_db \<Rightarrow> h256 \<Rightarrow> bytes" where
  "md_lookup m h =
     (case md_main m h of None \<Rightarrow> []
      | Some (s, n) \<Rightarrow> if \<not> md_enforceRefs m \<or> n > 0 then s else [])"

definition md_exists :: "memory_db \<Rightarrow> h256 \<Rightarrow> bool" where
  "md_exists m h =
     (case md_main m h of None \<Rightarrow> False | Some (s, n) \<Rightarrow> \<not> md_enforceRefs m \<or> n > 0)"

definition md_insert :: "h256 \<Rightarrow> bytes \<Rightarrow> memory_db \<Rightarrow> memory_db" where
  "md_insert h v m =
     (case md_main m h of
        None \<Rightarrow> m\<lparr>md_main := (md_main m)(h \<mapsto> (v, 1))\<rparr>
      | Some (s, n) \<Rightarrow> m\<lparr>md_main := (md_main m)(h \<mapsto> (v, n + 1))\<rparr>)"

definition md_kill :: "h256 \<Rightarrow> memory_db \<Rightarrow> bool \<times> memory_db" where
  "md_kill h m =
     (case md_main m h of
        None \<Rightarrow> (False, m)
      | Some (s, n) \<Rightarrow> if n > 0 then (True, m\<lparr>md_main := (md_main m)(h \<mapsto> (s, n - 1))\<rparr>) else (False, m))"

definition md_lookupAux :: "memory_db \<Rightarrow> h256 \<Rightarrow> bytes" where
  "md_lookupAux m h =
     (case md_aux m h of None \<Rightarrow> [] | Some (v, used) \<Rightarrow> if \<not> md_enforceRefs m \<or> used then v else [])"

definition md_removeAux :: "h256 \<Rightarrow> memory_db \<Rightarrow> memory_db" where
  "md_removeAux h m =
     (let v = (case md_aux m h of None \<Rightarrow> [] | Some (v, used) \<Rightarrow> v) in m\<lparr>md_aux := (md_aux m)(h \<mapsto> (v, False))\<rparr>)"

definition md_insertAux :: "h256 \<Rightarrow> bytes \<Rightarrow> memory_db \<Rightarrow> memory_db" where
  "md_insertAux h v m = m\<lparr>md_aux := (md_aux m)(h \<mapsto> (v, True))\<rparr>"

definition md_purge :: "memory_db \<Rightarrow> memory_db" where
  "md_purge m = m\<lparr>md_main := (\<lambda>h. case md_main m h of None \<Rightarrow> None | Some (s, n) \<Rightarrow> if n \<noteq> 0 then Some (s, n) else None)\<rparr>"

definition md_keys :: "memory_db \<Rightarrow> h256 set" where
  "md_keys m = {h. \<exists>s n. md_main m h = Some (s, n) \<and> n \<noteq> 0}"

definition EnforceRefs :: "bool \<Rightarrow> memory_db \<Rightarrow> memory_db" where
  "EnforceRefs r m = m\<lparr>md_enforceRefs := r\<rparr>"

section \<open>The database of a trie\<close>

record 'd db_ops =
  do_lookup :: "'d \<Rightarrow> h256 \<Rightarrow> bytes"
  do_exists :: "'d \<Rightarrow> h256 \<Rightarrow> bool"
  do_insert :: "h256 \<Rightarrow> bytes \<Rightarrow> 'd \<Rightarrow> 'd"
  do_kill :: "h256 \<Rightarrow> 'd \<Rightarrow> 'd"

definition memory_ops :: "memory_db db_ops" where
  "memory_ops = \<lparr>do_lookup = md_lookup, do_exists = md_exists, do_insert = md_insert, do_kill = (\<lambda>h m. snd (md_kill h m))\<rparr>"

text \<open>
  What a trie relies on: a string that has been inserted under a hash is found there until another one is
  inserted under the same hash; a killed node can still be read, as its other users may need it.
\<close>

locale node_store =
  fixes D :: "'d db_ops" and ok :: "'d \<Rightarrow> bool"
  assumes lookup_insert: "ok d \<Longrightarrow> do_lookup D (do_insert D h v d) h' = (if h' = h then v else do_lookup D d h')"
    and lookup_kill: "ok d \<Longrightarrow> do_lookup D (do_kill D h d) h' = do_lookup D d h'"
    and exists_lookup: "ok d \<Longrightarrow> do_lookup D d h \<noteq> [] \<Longrightarrow> do_exists D d h"
    and ok_insert: "ok d \<Longrightarrow> ok (do_insert D h v d)"
    and ok_kill: "ok d \<Longrightarrow> ok (do_kill D h d)"
begin

text \<open>The strings of \<open>W\<close> are stored under their hashes.\<close>

definition holds :: "(bytes \<Rightarrow> h256) \<Rightarrow> 'd \<Rightarrow> bytes set \<Rightarrow> bool" where
  "holds H d W \<longleftrightarrow> ok d \<and> (\<forall>x \<in> W. do_lookup D d (H x) = x)"

lemma holds_lookup: "holds H d W \<Longrightarrow> x \<in> W \<Longrightarrow> do_lookup D d (H x) = x"
  by (simp add: holds_def)

lemma holds_insert: "holds H d W \<Longrightarrow> inj_on H (insert x W) \<Longrightarrow> holds H (do_insert D (H x) x d) (insert x W)"
  by (auto simp: holds_def lookup_insert ok_insert inj_on_def)

lemma holds_kill: "holds H d W \<Longrightarrow> holds H (do_kill D h d) W"
  by (simp add: holds_def lookup_kill ok_kill)

lemma holds_mono: "holds H d W \<Longrightarrow> V \<subseteq> W \<Longrightarrow> holds H d V"
  by (auto simp: holds_def)

end

interpretation memory_store: node_store memory_ops "\<lambda>m. \<not> md_enforceRefs m"
  by unfold_locales
    (auto simp: memory_ops_def md_lookup_def md_insert_def md_kill_def md_exists_def split: option.splits prod.splits if_splits)

section \<open>Reference counts\<close>

definition md_count :: "memory_db \<Rightarrow> h256 \<Rightarrow> nat" where
  "md_count m h = (case md_main m h of None \<Rightarrow> 0 | Some (s, n) \<Rightarrow> unat n)"

lemma md_count_insert: "md_count m h + 1 < 2 ^ 32 \<Longrightarrow> md_count (md_insert h v m) h' = md_count m h' + (if h' = h then 1 else 0)"
  by (auto simp: md_count_def md_insert_def unat_word_ariths split: option.splits)

lemma md_count_kill: "md_count (snd (md_kill h m)) h' = md_count m h' - (if h' = h then 1 else 0)"
proof (cases "md_main m h")
  case (Some p)
  obtain s n where p: "p = (s, n)" by fastforce
  show ?thesis
  proof (cases "n > 0")
    case True
    then have "unat (n - 1) = unat n - 1" by (metis unat_minus_one word_neq_0_conv)
    then show ?thesis using Some True p by (simp add: md_count_def md_kill_def)
  next
    case False
    then have "n = 0" using word_greater_zero_iff [of n] by blast
    then show ?thesis using Some p by (simp add: md_count_def md_kill_def)
  qed
qed (simp add: md_count_def md_kill_def)

text \<open>A purge removes what nobody counts and keeps the rest.\<close>

lemma md_lookup_purge: "0 < md_count m h \<Longrightarrow> md_lookup (md_purge m) h = md_lookup m h"
  by (auto simp: md_count_def md_purge_def md_lookup_def unat_gt_0 split: option.splits)

end
