(* ===== verification/TrieDB.thy ===== *)
theory TrieDB
  imports TrieCommon MemoryDB
begin

text \<open>
  \<open>libdevcore/TrieDB.h\<close>: \<open>GenericTrieDB\<close>, the Merkle Patricia tree over a database \<open>D\<close>, with \<open>H\<close> the hash
  function (\<open>sha3\<close>). A node is the bytes of its RLP encoding, as in the code. A function that descends
  the tree returns \<open>None\<close> when it would never end, which only a corrupt database can cause; an
  exception drops the state, and an assertion that fails is undefined behaviour.
\<close>

section \<open>Functions that need not end\<close>

definition bindO :: "'a result option \<Rightarrow> ('a \<Rightarrow> 'b result option) \<Rightarrow> 'b result option" where
  "bindO m f = Option.bind m (\<lambda>r. case r of Inl e \<Rightarrow> Some (Inl e) | Inr x \<Rightarrow> f x)"

definition bindR :: "'a result \<Rightarrow> ('a \<Rightarrow> 'b result option) \<Rightarrow> 'b result option" where
  "bindR r f = (case r of Inl e \<Rightarrow> Some (Inl e) | Inr x \<Rightarrow> f x)"

lemma bindO_simps [simp]:
  "bindO None f = None" "bindO (Some (Inl e)) f = Some (Inl e)" "bindO (Some (Inr x)) f = f x"
  by (simp_all add: bindO_def)

lemma bindR_simps [simp]: "bindR (Inl e) f = Some (Inl e)" "bindR (Inr x) f = f x"
  by (simp_all add: bindR_def)

lemma mono_bindO [partial_function_mono]:
  assumes "mono_option m" and "\<And>x. mono_option (\<lambda>F. f x F)"
  shows "mono_option (\<lambda>F. bindO (m F) (\<lambda>x. f x F))"
  unfolding bindO_def
proof (rule bind_mono [OF assms(1)])
  fix r
  show "mono_option (\<lambda>F. case r of Inl e \<Rightarrow> Some (Inl e) | Inr x \<Rightarrow> f x F)"
    using assms(2) by (cases r) (simp_all add: option.const_mono)
qed

lemma mono_bindR [partial_function_mono]:
  "(\<And>x. mono_option (\<lambda>F. f x F)) \<Longrightarrow> mono_option (\<lambda>F. bindR r (\<lambda>x. f x F))"
  by (cases r) (simp_all add: option.const_mono)

definition require :: "bool \<Rightarrow> unit result" where
  "require b = (if b then Inr () else Inl UndefinedBehaviour)"

section \<open>Nodes of the database\<close>

type_synonym hash_fun = "bytes \<Rightarrow> h256"

definition RLPNull :: bytes where "RLPNull = [0x80]"

definition c_shaNull :: "hash_fun \<Rightarrow> h256" where "c_shaNull H = H RLPNull"

definition forceInsertNode :: "'d db_ops \<Rightarrow> hash_fun \<Rightarrow> bytes \<Rightarrow> 'd \<Rightarrow> h256 \<times> 'd" where
  "forceInsertNode D H v d = (let h = H v in (h, do_insert D h v d))"

definition killNode_hash :: "'d db_ops \<Rightarrow> bytes \<Rightarrow> h256 \<Rightarrow> 'd \<Rightarrow> 'd" where
  "killNode_hash D node h d = (if length node \<ge> 32 then do_kill D h d else d)"

definition killNode :: "'d db_ops \<Rightarrow> hash_fun \<Rightarrow> bytes \<Rightarrow> 'd \<Rightarrow> 'd" where
  "killNode D H node d = (if length node \<ge> 32 then do_kill D (H node) d else d)"

text \<open>A view on the node that an item refers to: \<open>RLP(node(r.toHash<h256>()))\<close>.\<close>

definition node_of :: "'d db_ops \<Rightarrow> bytes \<Rightarrow> 'd \<Rightarrow> bytes result" where
  "node_of D r d = bindE (rlp_toHash 32 Strict r) (\<lambda>h. RLP (do_lookup D d h) VeryStrict)"

definition isTwoItemNode :: "'d db_ops \<Rightarrow> bytes \<Rightarrow> 'd \<Rightarrow> bool result" where
  "isTwoItemNode D n d =
     (if rlp_isData n then bindE (node_of D n d) (\<lambda>r. bindE (rlp_itemCount r) (\<lambda>c. Inr (c = 2)))
      else if rlp_isList n then bindE (rlp_itemCount n) (\<lambda>c. Inr (c = 2))
      else Inr False)"

definition deref :: "'d db_ops \<Rightarrow> bytes \<Rightarrow> 'd \<Rightarrow> bytes result" where
  "deref D n d = (if rlp_isList n then Inr n else bindE (rlp_toHash 32 Strict n) (\<lambda>h. Inr (do_lookup D d h)))"

section \<open>Writing nodes\<close>

definition streamNode :: "'d db_ops \<Rightarrow> hash_fun \<Rightarrow> rlp_stream \<Rightarrow> bytes \<Rightarrow> 'd \<Rightarrow> (rlp_stream \<times> 'd) result" where
  "streamNode D H s b d =
     (if length b < 32 then bindE (appendRaw b 1 s) (\<lambda>s. Inr (s, d))
      else let (h, d) = forceInsertNode D H b d in bindE (appendHash h False False s) (\<lambda>s. Inr (s, d)))"

definition appendItem :: "bytes \<Rightarrow> nat \<Rightarrow> rlp_stream \<Rightarrow> rlp_stream result" where
  "appendItem orig i s = bindE (rlp_nth orig i) (\<lambda>r. appendRaw r 1 s)"

definition rlpList2 :: "bytes \<Rightarrow> (rlp_stream \<Rightarrow> rlp_stream result) \<Rightarrow> bytes result" where
  "rlpList2 key app = bindE (appendList 2 rlp_empty) (\<lambda>s. bindE (appendBytes key False s) (\<lambda>s. bindE (app s) rlp_out))"

text \<open>\<open>place\<close>: the value for the key, in an empty node, a leaf with this key, or a branch.\<close>

definition place :: "'d db_ops \<Rightarrow> hash_fun \<Rightarrow> bytes \<Rightarrow> nibble_slice \<Rightarrow> bytes \<Rightarrow> 'd \<Rightarrow> (bytes \<times> 'd) result" where
  "place D H orig k v d =
     (let d = killNode D H orig d in
      if rlp_isEmpty orig then
        bindE (hexPrefixEncode k True 0 (-1)) (\<lambda>key. bindE (rlpList2 key (appendBytes v False)) (\<lambda>b. Inr (b, d)))
      else
        bindE (rlp_itemCount orig) (\<lambda>n.
        bindE (require (rlp_isList orig \<and> (n = 2 \<or> n = 17))) (\<lambda>_.
        bindE (appendList n rlp_empty) (\<lambda>s.
        bindE (foldE (appendItem orig) [0..<n - 1] s) (\<lambda>s. bindE (appendBytes v False s) (\<lambda>s. bindE (rlp_out s) (\<lambda>b. Inr (b, d))))))))"

text \<open>\<open>remove\<close> of a node's value, which the class declares and does not use.\<close>

definition remove_node :: "'d db_ops \<Rightarrow> hash_fun \<Rightarrow> bytes \<Rightarrow> 'd \<Rightarrow> (bytes \<times> 'd) result" where
  "remove_node D H orig d =
     (let d = killNode D H orig d in
      bindE (rlp_itemCount orig) (\<lambda>n.
      bindE (require (rlp_isList orig \<and> (n = 2 \<or> n = 17))) (\<lambda>_.
      if n = 2 then Inr (RLPNull, d)
      else
        bindE (appendList 17 rlp_empty) (\<lambda>s. bindE (foldE (appendItem orig) [0..<16] s) (\<lambda>s.
        bindE (appendBytes [] False s) (\<lambda>s. bindE (rlp_out s) (\<lambda>b. Inr (b, d))))))))"

text \<open>\<open>cleve\<close>: a node of two items, split after \<open>n\<close> nibbles.\<close>

definition cleve :: "'d db_ops \<Rightarrow> hash_fun \<Rightarrow> bytes \<Rightarrow> u32 \<Rightarrow> 'd \<Rightarrow> (bytes \<times> 'd) result" where
  "cleve D H orig n d =
     (let d = killNode D H orig d in
      bindE (rlp_itemCount orig) (\<lambda>c. bindE (require (rlp_isList orig \<and> c = 2)) (\<lambda>_.
      bindE (keyOf_node orig) (\<lambda>k. bindE (require (n \<noteq> 0 \<and> n \<le> ns_size k)) (\<lambda>_.
      bindE (isLeaf orig) (\<lambda>leaf.
      bindE (hexPrefixEncode k leaf (sint n) (-1)) (\<lambda>key.
      bindE (rlpList2 key (appendItem orig 1)) (\<lambda>bottom.
      bindE (hexPrefixEncode k False 0 (sint n)) (\<lambda>key.
      bindE (appendList 2 rlp_empty) (\<lambda>top. bindE (appendBytes key False top) (\<lambda>top.
      bindE (streamNode D H top bottom d) (\<lambda>(top, d).
      bindE (rlp_out top) (\<lambda>b. Inr (b, d))))))))))))))"

text \<open>\<open>graft\<close>: two nodes of two items, joined.\<close>

definition graft :: "'d db_ops \<Rightarrow> bytes \<Rightarrow> 'd \<Rightarrow> (bytes \<times> 'd) result" where
  "graft D orig d =
     bindE (rlp_itemCount orig) (\<lambda>c. bindE (require (rlp_isList orig \<and> c = 2)) (\<lambda>_.
     bindE (rlp_nth orig 1) (\<lambda>r.
     bindE (if rlp_isList r then Inr (r, d)
            else bindE (rlp_toHash 32 Strict r) (\<lambda>lh. bindE (RLP (do_lookup D d lh) VeryStrict) (\<lambda>n. Inr (n, do_kill D lh d)))) (\<lambda>(n, d).
     bindE (rlp_itemCount n) (\<lambda>c. bindE (require (c = 2)) (\<lambda>_.
     bindE (keyOf_node orig) (\<lambda>k1. bindE (keyOf_node n) (\<lambda>k2. bindE (isLeaf n) (\<lambda>leaf.
     bindE (hexPrefixEncode2 k1 k2 leaf) (\<lambda>key.
     bindE (rlpList2 key (appendItem n 1)) (\<lambda>b. Inr (b, d))))))))))))"

text \<open>\<open>merge\<close>: the only item of a branch that is in use, as a node of two items.\<close>

definition merge :: "bytes \<Rightarrow> byte \<Rightarrow> bytes result" where
  "merge orig i =
     bindE (rlp_itemCount orig) (\<lambda>c. bindE (require (rlp_isList orig \<and> c = 17)) (\<lambda>_.
     bindE (if i \<noteq> 16 then
              bindE (rlp_nth orig (unat i)) (\<lambda>r. bindE (require (\<not> rlp_isEmpty r)) (\<lambda>_. hexPrefixEncode_bits [i] False 1 2 0))
            else hexPrefixEncode_vec [] True 0 (-1)) (\<lambda>key.
     rlpList2 key (appendItem orig (unat i)))))"

text \<open>\<open>branch\<close>: a node of two items as a branch.\<close>

definition appendEmpties :: "nat \<Rightarrow> rlp_stream \<Rightarrow> rlp_stream result" where
  "appendEmpties n s = foldE (\<lambda>i s. appendBytes [] False s) [0..<n] s"

definition branch :: "'d db_ops \<Rightarrow> hash_fun \<Rightarrow> bytes \<Rightarrow> 'd \<Rightarrow> (bytes \<times> 'd) result" where
  "branch D H orig d =
     bindE (rlp_itemCount orig) (\<lambda>c. bindE (require (rlp_isList orig \<and> c = 2)) (\<lambda>_.
     let d = killNode D H orig d in
     bindE (keyOf_node orig) (\<lambda>k. bindE (isLeaf orig) (\<lambda>leaf.
     bindE (appendList 17 rlp_empty) (\<lambda>r.
     if ns_size k = 0 then
       bindE (require leaf) (\<lambda>_.
       bindE (appendEmpties 16 r) (\<lambda>r. bindE (appendItem orig 1 r) (\<lambda>r. bindE (rlp_out r) (\<lambda>b. Inr (b, d)))))
     else
       bindE (ns_at k 0) (\<lambda>b.
       bindE (appendEmpties (unat b) r) (\<lambda>r.
       bindE (if leaf \<or> ns_size k > 1 then
                bindE (hexPrefixEncode (ns_mid k 1) leaf 0 (-1)) (\<lambda>key.
                bindE (rlpList2 key (appendItem orig 1)) (\<lambda>n. streamNode D H r n d))
              else bindE (appendItem orig 1 r) (\<lambda>r. Inr (r, d))) (\<lambda>(r, d).
       bindE (appendEmpties (15 - unat b) r) (\<lambda>r. bindE (appendBytes [] False r) (\<lambda>r. bindE (rlp_out r) (\<lambda>b. Inr (b, d))))))))))))"

section \<open>Reading\<close>

partial_function (option) atAux :: "'d db_ops \<Rightarrow> 'd \<Rightarrow> bytes \<Rightarrow> nibble_slice \<Rightarrow> bytes result option" where
  "atAux D d here key =
     (if rlp_isEmpty here \<or> rlp_isNull here then Some (Inr [])
      else
        bindR (rlp_itemCount here) (\<lambda>c.
        bindR (require (rlp_isList here \<and> (c = 2 \<or> c = 17))) (\<lambda>_.
        if c = 2 then
          bindR (keyOf_node here) (\<lambda>k. bindR (ns_eq key k) (\<lambda>eq. bindR (isLeaf here) (\<lambda>leaf. bindR (ns_contains key k) (\<lambda>pre.
          if eq \<and> leaf then bindR (rlp_nth here 1) (\<lambda>r. Some (rlp_toBytes r))
          else if pre \<and> \<not> leaf then
            bindR (rlp_nth here 1) (\<lambda>r. bindR (if rlp_isList r then Inr r else node_of D r d) (\<lambda>n. atAux D d n (ns_mid key (ns_size k))))
          else Some (Inr [])))))
        else if ns_size key = 0 then bindR (rlp_nth here 16) (\<lambda>r. Some (rlp_toBytes r))
        else
          bindR (ns_at key 0) (\<lambda>b. bindR (rlp_nth here (unat b)) (\<lambda>r.
          if rlp_isEmpty r then Some (Inr [])
          else bindR (if rlp_isList r then Inr r else node_of D r d) (\<lambda>n. atAux D d n (ns_mid key 1)))))))"

section \<open>Inserting\<close>

text \<open>\<open>mergeAtAux\<close> continues in the node that an item is or refers to, by \<open>rec\<close>, and streams the result.\<close>

definition mergeAtAux ::
    "'d db_ops \<Rightarrow> hash_fun \<Rightarrow> (bytes \<Rightarrow> bool \<Rightarrow> 'd \<Rightarrow> (bytes \<times> 'd) result option) \<Rightarrow> rlp_stream \<Rightarrow> bytes \<Rightarrow> 'd \<Rightarrow>
     (rlp_stream \<times> 'd) result option" where
  "mergeAtAux D H rec out orig d =
     bindR (if \<not> rlp_isList orig \<and> \<not> rlp_isEmpty orig
            then bindE (node_of D orig d) (\<lambda>r. bindE (require (\<not> rlp_isNull r)) (\<lambda>_. Inr (r, True)))
            else Inr (orig, False)) (\<lambda>(r, isRemovable).
     bindO (rec r (\<not> isRemovable) d) (\<lambda>(b, d). Some (streamNode D H out b d)))"

lemma mono_mergeAtAux [partial_function_mono]:
  assumes "\<And>r i e. mono_option (\<lambda>F. m F r i e)"
  shows "mono_option (\<lambda>F. mergeAtAux D H (m F) out orig d)"
proof -
  have "mono_option (\<lambda>F. case x of (r, isRemovable) \<Rightarrow> bindO (m F r (\<not> isRemovable) d) (\<lambda>(b, d). Some (streamNode D H out b d)))" for x
    by (cases x) (auto intro!: mono_bindO assms option.const_mono)
  then show ?thesis unfolding mergeAtAux_def by (rule mono_bindR)
qed

partial_function (option) mergeAt ::
    "'d db_ops \<Rightarrow> hash_fun \<Rightarrow> nibble_slice \<Rightarrow> bytes \<Rightarrow> bytes \<Rightarrow> h256 \<Rightarrow> bool \<Rightarrow> 'd \<Rightarrow> (bytes \<times> 'd) result option" where
  "mergeAt D H key v orig origHash inLine d =
     (if rlp_isEmpty orig then Some (place D H orig key v d)
      else
        bindR (rlp_itemCount orig) (\<lambda>c.
        bindR (require (rlp_isList orig \<and> (c = 2 \<or> c = 17))) (\<lambda>_.
        if c = 2 then
          bindR (keyOf_node orig) (\<lambda>k. bindR (ns_eq k key) (\<lambda>eq. bindR (isLeaf orig) (\<lambda>leaf. bindR (ns_contains key k) (\<lambda>pre.
          if eq \<and> leaf then Some (place D H orig key v d)
          else if pre \<and> \<not> leaf then
            let d = (if \<not> inLine then killNode_hash D orig origHash d else d) in
            bindR (bindE (appendList 2 rlp_empty) (appendItem orig 0)) (\<lambda>s. bindR (rlp_nth orig 1) (\<lambda>r.
            bindO (mergeAtAux D H (\<lambda>r i e. mergeAt D H (ns_mid key (ns_size k)) v r (H r) i e) s r d) (\<lambda>(s, d).
            bindR (rlp_out s) (\<lambda>b. Some (Inr (b, d))))))
          else
            bindR (ns_shared key k) (\<lambda>sh.
            if sh \<noteq> 0 then bindR (bindE (cleve D H orig sh d) (\<lambda>(b, d). bindE (RLP b VeryStrict) (\<lambda>b. Inr (b, d)))) (\<lambda>(b, d). mergeAt D H key v b (H b) True d)
            else bindR (bindE (branch D H orig d) (\<lambda>(b, d). bindE (RLP b VeryStrict) (\<lambda>b. Inr (b, d)))) (\<lambda>(b, d). mergeAt D H key v b (H b) True d))))))
        else if ns_size key = 0 then Some (place D H orig key v d)
        else
          let d = (if \<not> inLine then killNode_hash D orig origHash d else d) in
          bindR (ns_at key 0) (\<lambda>n.
          bindR (bindE (appendList 17 rlp_empty) (foldE (appendItem orig) [0..<unat n])) (\<lambda>r. bindR (rlp_nth orig (unat n)) (\<lambda>it.
          bindO (mergeAtAux D H (\<lambda>r i e. mergeAt D H (ns_mid key 1) v r (H r) i e) r it d) (\<lambda>(r, d).
          bindR (bindE (foldE (appendItem orig) [unat n + 1..<17] r) rlp_out) (\<lambda>b. Some (Inr (b, d))))))))))"

section \<open>Removing\<close>

text \<open>\<open>deleteAtAux\<close>: whether the key was there; an empty result of \<open>rec\<close> says that it was not.\<close>

definition deleteAtAux ::
    "'d db_ops \<Rightarrow> hash_fun \<Rightarrow> (bytes \<Rightarrow> 'd \<Rightarrow> (bytes \<times> 'd) result option) \<Rightarrow> rlp_stream \<Rightarrow> bytes \<Rightarrow> 'd \<Rightarrow>
     (bool \<times> rlp_stream \<times> 'd) result option" where
  "deleteAtAux D H rec out orig d =
     bindO (if rlp_isEmpty orig then Some (Inr ([], d))
            else bindR (if rlp_isList orig then Inr orig else node_of D orig d) (\<lambda>r. rec r d)) (\<lambda>(b, d).
     if b = [] then Some (Inr (False, out, d))
     else bindR (streamNode D H out b d) (\<lambda>(out, d). Some (Inr (True, out, d))))"

lemma mono_deleteAtAux [partial_function_mono]:
  assumes "\<And>r e. mono_option (\<lambda>F. m F r e)"
  shows "mono_option (\<lambda>F. deleteAtAux D H (m F) out orig d)"
proof -
  have "mono_option (\<lambda>F. if rlp_isEmpty orig then Some (Inr ([], d))
      else bindR (if rlp_isList orig then Inr orig else node_of D orig d) (\<lambda>r. m F r d))"
    by (cases "rlp_isEmpty orig") (auto intro!: mono_bindR assms option.const_mono)
  then show ?thesis unfolding deleteAtAux_def by (rule mono_bindO) (rule option.const_mono)
qed

text \<open>The node that is left when only one item of a branch is in use.\<close>

definition collapse :: "'d db_ops \<Rightarrow> bytes \<Rightarrow> byte \<Rightarrow> 'd \<Rightarrow> (bytes \<times> 'd) result" where
  "collapse D orig used d =
     bindE (rlp_nth orig (unat used)) (\<lambda>r. bindE (isTwoItemNode D r d) (\<lambda>two.
     bindE (merge orig used) (\<lambda>merged.
     if two then bindE (RLP merged VeryStrict) (\<lambda>m. graft D m d) else Inr (merged, d))))"

definition delete_value :: "'d db_ops \<Rightarrow> hash_fun \<Rightarrow> bytes \<Rightarrow> 'd \<Rightarrow> (bytes \<times> 'd) result" where
  "delete_value D H orig d =
     (let d = killNode D H orig d in
      bindE (uniqueInUse orig 16) (\<lambda>used.
      if used \<noteq> 255 then collapse D orig used d
      else
        bindE (appendList 17 rlp_empty) (\<lambda>r. bindE (foldE (appendItem orig) [0..<16] r) (\<lambda>r.
        bindE (appendBytes [] False r) (\<lambda>r. bindE (rlp_out r) (\<lambda>b. Inr (b, d)))))))"

partial_function (option) deleteAt ::
    "'d db_ops \<Rightarrow> hash_fun \<Rightarrow> nibble_slice \<Rightarrow> bytes \<Rightarrow> 'd \<Rightarrow> (bytes \<times> 'd) result option" where
  "deleteAt D H key orig d =
     (if rlp_isEmpty orig then Some (Inr ([], d))
      else
        bindR (rlp_itemCount orig) (\<lambda>c.
        bindR (require (rlp_isList orig \<and> (c = 2 \<or> c = 17))) (\<lambda>_.
        if c = 2 then
          bindR (keyOf_node orig) (\<lambda>k. bindR (ns_eq k key) (\<lambda>eq. bindR (isLeaf orig) (\<lambda>leaf. bindR (ns_contains key k) (\<lambda>pre.
          if eq \<and> leaf then Some (Inr (RLPNull, killNode D H orig d))
          else if pre then
            bindR (bindE (appendList 2 rlp_empty) (appendItem orig 0)) (\<lambda>s. bindR (rlp_nth orig 1) (\<lambda>r.
            bindO (deleteAtAux D H (\<lambda>r e. deleteAt D H (ns_mid key (ns_size k)) r e) s r d) (\<lambda>(found, s, d).
            if \<not> found then Some (Inr ([], d))
            else
              let d = killNode D H orig d in
              bindR (rlp_out s) (\<lambda>b. bindR (RLP b VeryStrict) (\<lambda>r. bindR (rlp_nth r 1) (\<lambda>r1. bindR (isTwoItemNode D r1 d) (\<lambda>two.
              if two then Some (graft D r d) else Some (Inr (b, d)))))))))
          else Some (Inr ([], d))))))
        else
          bindR (rlp_nth orig 16) (\<lambda>value.
          if ns_size key = 0 \<and> \<not> rlp_isEmpty value then Some (delete_value D H orig d)
          else
            bindR (ns_at key 0) (\<lambda>n.
            bindR (bindE (appendList 17 rlp_empty) (foldE (appendItem orig) [0..<unat n])) (\<lambda>r. bindR (rlp_nth orig (unat n)) (\<lambda>it.
            bindO (deleteAtAux D H (\<lambda>r e. deleteAt D H (ns_mid key 1) r e) r it d) (\<lambda>(found, r, d).
            if \<not> found then Some (Inr ([], d))
            else
              bindR (foldE (appendItem orig) [unat n + 1..<17] r) (\<lambda>r.
              let d = killNode D H orig d in
              bindR (rlp_out r) (\<lambda>b. bindR (RLP b VeryStrict) (\<lambda>rlp. bindR (uniqueInUse rlp 255) (\<lambda>used.
              if used = 255 then Some (Inr (b, d)) else Some (collapse D rlp used d)))))))))))))"

section \<open>The trie\<close>

record 'd trie =
  tr_root :: h256
  tr_db :: 'd

text \<open>\<open>setRoot\<close>, with \<open>init\<close> in it: they call each other until the empty node exists.\<close>

partial_function (option) setRoot :: "'d db_ops \<Rightarrow> hash_fun \<Rightarrow> bool \<Rightarrow> h256 \<Rightarrow> 'd trie \<Rightarrow> 'd trie result option" where
  "setRoot D H normal root t =
     (if normal \<and> root = c_shaNull H \<and> \<not> do_exists D (tr_db t) root then
        let (h, d) = forceInsertNode D H RLPNull (tr_db t) in setRoot D H True h (t\<lparr>tr_root := root, tr_db := d\<rparr>)
      else if do_lookup D (tr_db t) root = [] then Some (Inl RootNotFound)
      else Some (Inr (t\<lparr>tr_root := root\<rparr>)))"

definition trie_init :: "'d db_ops \<Rightarrow> hash_fun \<Rightarrow> 'd trie \<Rightarrow> 'd trie result option" where
  "trie_init D H t = (let (h, d) = forceInsertNode D H RLPNull (tr_db t) in setRoot D H True h (t\<lparr>tr_db := d\<rparr>))"

definition trie_open :: "'d db_ops \<Rightarrow> hash_fun \<Rightarrow> 'd \<Rightarrow> h256 \<Rightarrow> bool \<Rightarrow> 'd trie \<Rightarrow> 'd trie result option" where
  "trie_open D H db root normal t = setRoot D H normal root (t\<lparr>tr_db := db\<rparr>)"

definition trie_isNull :: "'d db_ops \<Rightarrow> 'd trie \<Rightarrow> bool" where
  "trie_isNull D t \<longleftrightarrow> do_lookup D (tr_db t) (tr_root t) = []"

definition trie_isEmpty :: "'d db_ops \<Rightarrow> hash_fun \<Rightarrow> 'd trie \<Rightarrow> bool" where
  "trie_isEmpty D H t \<longleftrightarrow> tr_root t = c_shaNull H \<and> do_lookup D (tr_db t) (tr_root t) \<noteq> []"

definition trie_root :: "'d db_ops \<Rightarrow> 'd trie \<Rightarrow> h256 result" where
  "trie_root D t = (if do_lookup D (tr_db t) (tr_root t) = [] then Inl (BadRoot (tr_root t)) else Inr (tr_root t))"

definition trie_at :: "'d db_ops \<Rightarrow> 'd trie \<Rightarrow> bytes \<Rightarrow> bytes result option" where
  "trie_at D t key =
     bindR (RLP (do_lookup D (tr_db t) (tr_root t)) VeryStrict) (\<lambda>r. atAux D (tr_db t) r (NibbleSlice key 0))"

definition trie_contains :: "'d db_ops \<Rightarrow> 'd trie \<Rightarrow> bytes \<Rightarrow> bool result option" where
  "trie_contains D t key = bindO (trie_at D t key) (\<lambda>v. Some (Inr (v \<noteq> [])))"

definition trie_insert :: "'d db_ops \<Rightarrow> hash_fun \<Rightarrow> bytes \<Rightarrow> bytes \<Rightarrow> 'd trie \<Rightarrow> 'd trie result option" where
  "trie_insert D H key v t =
     (let rootValue = do_lookup D (tr_db t) (tr_root t) in
      bindR (require (rootValue \<noteq> [])) (\<lambda>_.
      bindR (RLP rootValue VeryStrict) (\<lambda>r.
      bindO (mergeAt D H (NibbleSlice key 0) v r (tr_root t) False (tr_db t)) (\<lambda>(b, d).
      let d = (if length rootValue < 32 then do_kill D (tr_root t) d else d);
          (h, d) = forceInsertNode D H b d
      in Some (Inr (t\<lparr>tr_root := h, tr_db := d\<rparr>))))))"

definition trie_remove :: "'d db_ops \<Rightarrow> hash_fun \<Rightarrow> bytes \<Rightarrow> 'd trie \<Rightarrow> 'd trie result option" where
  "trie_remove D H key t =
     (let rv = do_lookup D (tr_db t) (tr_root t) in
      bindR (RLP rv VeryStrict) (\<lambda>r.
      bindO (deleteAt D H (NibbleSlice key 0) r (tr_db t)) (\<lambda>(b, d).
      if b \<noteq> [] then
        let d = (if length rv < 32 then do_kill D (tr_root t) d else d);
            (h, d) = forceInsertNode D H b d
        in Some (Inr (t\<lparr>tr_root := h, tr_db := d\<rparr>))
      else Some (Inr (t\<lparr>tr_db := d\<rparr>)))))"

text \<open>\<open>HashedGenericTrieDB\<close>: the keys are hashed.\<close>

definition hashed_at :: "'d db_ops \<Rightarrow> hash_fun \<Rightarrow> 'd trie \<Rightarrow> bytes \<Rightarrow> bytes result option" where
  "hashed_at D H t key = trie_at D t (H key)"

definition hashed_contains :: "'d db_ops \<Rightarrow> hash_fun \<Rightarrow> 'd trie \<Rightarrow> bytes \<Rightarrow> bool result option" where
  "hashed_contains D H t key = trie_contains D t (H key)"

definition hashed_insert :: "'d db_ops \<Rightarrow> hash_fun \<Rightarrow> bytes \<Rightarrow> bytes \<Rightarrow> 'd trie \<Rightarrow> 'd trie result option" where
  "hashed_insert D H key v t = trie_insert D H (H key) v t"

definition hashed_remove :: "'d db_ops \<Rightarrow> hash_fun \<Rightarrow> bytes \<Rightarrow> 'd trie \<Rightarrow> 'd trie result option" where
  "hashed_remove D H key t = trie_remove D H (H key) t"

end
