(* ===== verification/TrieHash.thy ===== *)
theory TrieHash
  imports TrieDB
begin

text \<open>
  \<open>libdevcore/TrieHash\<close>: the root of the trie for a map, computed from the sorted map without a
  database. A \<open>std::map\<close> is the list of its pairs in the order of their keys; iterators are the lists
  that they delimit.
\<close>

section \<open>Maps of byte strings\<close>

type_synonym bytes_map = "(bytes \<times> bytes) list"

fun lex_less :: "bytes \<Rightarrow> bytes \<Rightarrow> bool" where
  "lex_less [] ys \<longleftrightarrow> ys \<noteq> []"
| "lex_less (x # xs) [] \<longleftrightarrow> False"
| "lex_less (x # xs) (y # ys) \<longleftrightarrow> x < y \<or> x = y \<and> lex_less xs ys"

text \<open>\<open>m[k] = v\<close>.\<close>

fun map_put :: "bytes \<Rightarrow> bytes \<Rightarrow> bytes_map \<Rightarrow> bytes_map" where
  "map_put k v [] = [(k, v)]"
| "map_put k v ((l, w) # m) =
     (if k = l then (k, v) # m else if lex_less k l then (k, v) # (l, w) # m else (l, w) # map_put k v m)"

section \<open>The hash of a range\<close>

function shared_loop :: "bytes \<Rightarrow> bytes \<Rightarrow> u32 \<Rightarrow> u32 \<Rightarrow> u32" where
  "shared_loop a b x shared =
     (if shared < x \<and> a ! unat shared = b ! unat shared then shared_loop a b x (shared + 1) else shared)"
  by pat_completeness auto
termination
proof (relation "measure (\<lambda>(a, b, x, shared). unat x - unat shared)", goal_cases)
  case (2 a b x shared)
  then have "unat shared < unat x" by (simp add: word_less_nat_alt)
  moreover from this have "unat (shared + 1) = unat shared + 1"
    using unsigned_less [of x, where 'a = nat] by (simp add: unat_word_ariths)
  ultimately show ?case by simp
qed simp

declare shared_loop.simps [simp del]

text \<open>The number of nibbles that the first key shares with all others; the loop stops at 0.\<close>

fun shared_prefix :: "u32 \<Rightarrow> bytes \<Rightarrow> bytes_map \<Rightarrow> u32 \<Rightarrow> u32" where
  "shared_prefix preLen first [] sharedPre = sharedPre"
| "shared_prefix preLen first ((k, v) # m) sharedPre =
     (if sharedPre = 0 then sharedPre
      else
        let x = min sharedPre (min (word_of_nat (length first)) (word_of_nat (length k)))
        in shared_prefix preLen first m (min (shared_loop first k x preLen) sharedPre))"

text \<open>\<open>for (; n != _end && n->first[_preLen] == i; ++n) {}\<close>: the pairs before \<open>n\<close> and those from \<open>n\<close> on.\<close>

fun nibble_run :: "u32 \<Rightarrow> byte \<Rightarrow> bytes_map \<Rightarrow> (bytes_map \<times> bytes_map) result" where
  "nibble_run preLen i [] = Inr ([], [])"
| "nibble_run preLen i ((k, v) # m) =
     (if unat preLen < length k then
        if k ! unat preLen = i then bindE (nibble_run preLen i m) (\<lambda>(b, n). Inr ((k, v) # b, n)) else Inr ([], (k, v) # m)
      else Inl UndefinedBehaviour)"

primrec foldO :: "('a \<Rightarrow> 's \<Rightarrow> 's result option) \<Rightarrow> 'a list \<Rightarrow> 's \<Rightarrow> 's result option" where
  "foldO f [] s = Some (Inr s)"
| "foldO f (x # xs) s = bindO (f x s) (foldO f xs)"

lemma mono_foldO [partial_function_mono]:
  "(\<And>x s. mono_option (\<lambda>F. f F x s)) \<Longrightarrow> mono_option (\<lambda>F. foldO (f F) xs s)"
proof (induction xs arbitrary: s)
  case (Cons x xs)
  then show ?case by (auto intro!: mono_bindO)
qed (simp add: option.const_mono)

definition hash256aux ::
    "hash_fun \<Rightarrow> (bytes_map \<Rightarrow> u32 \<Rightarrow> rlp_stream \<Rightarrow> rlp_stream result option) \<Rightarrow> bytes_map \<Rightarrow> u32 \<Rightarrow> rlp_stream \<Rightarrow>
     rlp_stream result option" where
  "hash256aux H rec s preLen rlp =
     bindO (rec s preLen rlp_empty) (\<lambda>r. bindR (rlp_out r) (\<lambda>b.
     Some (if length b < 32 then appendRaw b 1 rlp else appendHash (H b) False False rlp)))"

lemma mono_hash256aux [partial_function_mono]:
  assumes "\<And>s p r. mono_option (\<lambda>F. m F s p r)"
  shows "mono_option (\<lambda>F. hash256aux H (m F) s preLen rlp)"
  unfolding hash256aux_def by (rule mono_bindO [OF assms option.const_mono])

partial_function (option) hash256rlp :: "hash_fun \<Rightarrow> bytes_map \<Rightarrow> u32 \<Rightarrow> rlp_stream \<Rightarrow> rlp_stream result option" where
  "hash256rlp H s preLen rlp =
     (if s = [] then Some (appendBytes [] False rlp)
      else if tl s = [] then
        Some (bindE (appendList 2 rlp) (\<lambda>rlp.
              bindE (hexPrefixEncode_vec (fst (hd s)) True (sint preLen) (-1)) (\<lambda>key.
              bindE (appendBytes key False rlp) (appendBytes (snd (hd s)) False))))
      else
        let sharedPre = shared_prefix preLen (fst (hd s)) (tl s) (-1) in
        if sharedPre > preLen then
          bindR (bindE (appendList 2 rlp) (\<lambda>rlp.
                 bindE (hexPrefixEncode_vec (fst (hd s)) False (sint preLen) (sint sharedPre)) (\<lambda>key.
                 appendBytes key False rlp))) (\<lambda>rlp.
          hash256aux H (\<lambda>s p r. hash256rlp H s p r) s sharedPre rlp)
        else
          bindR (appendList 17 rlp) (\<lambda>rlp.
          bindO (foldO (\<lambda>i st.
                   bindR (nibble_run preLen i (fst st)) (\<lambda>run.
                   if fst run = [] then Some (bindE (appendBytes [] False (snd st)) (\<lambda>rlp. Inr (snd run, rlp)))
                   else bindO (hash256aux H (\<lambda>s p r. hash256rlp H s p r) (fst run) (preLen + 1) (snd st)) (\<lambda>rlp.
                        Some (Inr (snd run, rlp)))))
                 (map word_of_nat [0..<16]) (if unat preLen = length (fst (hd s)) then tl s else s, rlp)) (\<lambda>st.
          Some (appendBytes (if unat preLen = length (fst (hd s)) then snd (hd s) else []) False (snd st)))))"

definition rlp256 :: "hash_fun \<Rightarrow> bytes_map \<Rightarrow> bytes result option" where
  "rlp256 H s =
     (if s = [] then Some (bindE (appendBytes [] False rlp_empty) rlp_out)
      else
        let hexMap = foldr (\<lambda>(k, v). map_put (asNibbles k) v) s []
        in bindO (hash256rlp H hexMap 0 rlp_empty) (\<lambda>r. Some (rlp_out r)))"

definition hash256 :: "hash_fun \<Rightarrow> bytes_map \<Rightarrow> h256 result option" where
  "hash256 H s = bindO (rlp256 H s) (\<lambda>b. Some (Inr (H b)))"

text \<open>\<open>trieRootOver\<close>, and \<open>orderedTrieRoot\<close>, whose keys are the encoded indices.\<close>

fun map_loop :: "(u32 \<Rightarrow> bytes result) \<Rightarrow> (u32 \<times> bytes) list \<Rightarrow> bytes_map \<Rightarrow> bytes_map result" where
  "map_loop getKey [] m = Inr m"
| "map_loop getKey ((i, v) # is) m = bindE (getKey i) (\<lambda>k. map_loop getKey is (map_put k v m))"

definition trieRootOver :: "hash_fun \<Rightarrow> u32 \<Rightarrow> (u32 \<Rightarrow> bytes result) \<Rightarrow> (u32 \<Rightarrow> bytes) \<Rightarrow> h256 result option" where
  "trieRootOver H itemCount getKey getValue =
     bindR (map_loop getKey (map (\<lambda>i. (word_of_nat i, getValue (word_of_nat i))) [0..<unat itemCount]) []) (hash256 H)"

definition orderedTrieRoot :: "hash_fun \<Rightarrow> bytes list \<Rightarrow> h256 result option" where
  "orderedTrieRoot H items =
     bindR (map_loop (\<lambda>j. bindE (appendInt (unat j) rlp_empty) rlp_out) (zip (map word_of_nat [0..<length items]) items) []) (hash256 H)"

end
