(* ===== verification/TrieItems.thy ===== *)
theory TrieItems
  imports TrieDB
begin

text \<open>
  The items of a node: what \<open>TrieDB\<close> reads from the encoding of an RLP list, and what its streams write,
  in terms of \<open>rlp_item\<close>. The rest of the development speaks of items only.
\<close>

section \<open>Reading\<close>

lemma rlp_isEmpty_item: "rlp_fits x \<Longrightarrow> rlp_isEmpty (rlp_encode x) \<longleftrightarrow> x = RStr [] \<or> x = RList []"
proof -
  assume f: "rlp_fits x"
  have r: "rlp_encode (RStr []) = [0x80]" "rlp_encode (RList []) = [0xc0]"
    by (simp_all add: rlp_string_def rlp_header_def)
  show ?thesis
  proof
    assume e: "rlp_isEmpty (rlp_encode x)"
    show "x = RStr [] \<or> x = RList []"
    proof (rule rlp_encode_cases [OF f])
      fix c assume "x = RStr [c]" "unat c < 0x80" "rlp_encode x = [c]"
      then show ?thesis using e by (simp add: rlp_isEmpty_def rlp_constants)
    next
      fix base
      assume h: "rlp_encode x = rlp_header base (length (rlp_payload_of x)) @ rlp_payload_of x"
        and b: "(base = 0xc0) = is_RList x" "(base = 0x80) = (\<not> is_RList x)"
        and ok: "\<And>r. header_ok base (length (rlp_payload_of x)) (rlp_payload_of x @ r)"
      have base: "base = 0x80 \<or> base = 0xc0" using b by blast
      have br: "bytesRequired (length (rlp_payload_of x)) \<le> 8"
        by (rule bytesRequired_le_8) (use ok [of "[]"] in \<open>simp add: header_ok_def rlp_max_size_def\<close>)
      have "length (rlp_payload_of x) = 0"
      proof (rule ccontr)
        assume n0: "length (rlp_payload_of x) \<noteq> 0"
        let ?n = "length (rlp_payload_of x)"
        have "unat (rlp_encode x ! 0) = (if ?n < 56 then base + ?n else base + 55 + bytesRequired ?n)"
          using base br unat_of_nat_lt [of "base + ?n"] unat_of_nat_lt [of "base + 55 + bytesRequired ?n"] unfolding h
          by (auto simp: rlp_header_def simp del: of_nat_add)
        moreover have "0 < bytesRequired ?n" using n0 by (simp add: bytesRequired_pos)
        ultimately show False using e n0 base br by (auto simp: rlp_isEmpty_def rlp_constants split: if_splits)
      qed
      then show ?thesis using f by (cases x) (auto simp: list_all_iff neq_Nil_conv)
    qed
  qed (use r in \<open>auto simp: rlp_isEmpty_def rlp_isNull_def rlp_constants simp del: rlp_encode.simps\<close>)
qed

lemma rlp_isNull_item [simp]: "rlp_fits x \<Longrightarrow> \<not> rlp_isNull (rlp_encode x)"
  by (simp add: rlp_isNull_def)

lemmas rlp_isList_item = rlp_read_item_nil(4) and rlp_isData_item = rlp_read_item_nil(5)

lemma rlp_itemCount_item: "rlp_fits (RList xs) \<Longrightarrow> rlp_itemCount (rlp_encode (RList xs)) = Inr (length xs)"
  using rlp_items_list [of xs] rlp_isList_item [of "RList xs"] by (simp add: rlp_itemCount_def del: rlp_encode.simps)

lemma rlp_nth_item:
  assumes "rlp_fits (RList xs)" "i < length xs" "i < 2 ^ 64 - 1"
  shows "rlp_nth (rlp_encode (RList xs)) i = Inr (rlp_encode (xs ! i))"
proof -
  have "cache_inv xs rlp_cache0" by (simp add: cache_inv_def)
  from rlp_at_cached [OF assms(1) this assms(3)] show ?thesis
    using assms(2) by (simp add: rlp_nth_def item_at_def del: rlp_encode.simps)
qed

lemma rlp_fits_nth: "rlp_fits (RList xs) \<Longrightarrow> i < length xs \<Longrightarrow> rlp_fits (xs ! i)"
  by (simp add: list_all_length)

lemma rlp_toHash_item: "length h = 32 \<Longrightarrow> rlp_toHash 32 Strict (rlp_encode (RStr h)) = Inr h"
proof -
  assume l: "length h = 32"
  have e: "rlp_encode (RStr h) = 0xa0 # h" using l by (simp add: rlp_string_def rlp_header_def)
  have f: "rlp_fits (RStr h)" using l by (simp add: rlp_max_size_def)
  have "rlp_requireGood (rlp_encode (RStr h)) = Inr ()" unfolding e by (simp add: rlp_requireGood_def rlp_isNull_def rlp_constants)
  then show ?thesis
    using rlp_read_item_nil(2,5) [OF f] l by (simp add: rlp_toHash_def del: rlp_encode.simps)
qed

lemma length_encode_hash: "length h = 32 \<Longrightarrow> length (rlp_encode (RStr h)) = 33"
  by (simp add: rlp_string_def rlp_header_def)

text \<open>The first item of a node of two items is an encoded key.\<close>

lemma keyOf_node_item:
  assumes "rlp_fits (RList (RStr (hp ks leaf) # xs))" "nibbles_ok ks" "length ks < 2 ^ 30"
  shows "\<exists>k. keyOf_node (rlp_encode (RList (RStr (hp ks leaf) # xs))) = Inr k \<and> ns_ok k \<and> nibs k = ks"
    and "isLeaf (rlp_encode (RList (RStr (hp ks leaf) # xs))) = Inr leaf"
proof -
  have "rlp_fits (RStr (hp ks leaf))" using assms(1) by simp
  note p = rlp_read_item_nil(2) [OF this]
  have n: "rlp_nth (rlp_encode (RList (RStr (hp ks leaf) # xs))) 0 = Inr (rlp_encode (RStr (hp ks leaf)))"
    using rlp_nth_item [OF assms(1), of 0] by simp
  note k = keyOf_hp [OF assms(2,3), of leaf]
  show "\<exists>k. keyOf_node (rlp_encode (RList (RStr (hp ks leaf) # xs))) = Inr k \<and> ns_ok k \<and> nibs k = ks"
    using n p k(1,2) by (simp add: keyOf_node_def del: rlp_encode.simps)
  show "isLeaf (rlp_encode (RList (RStr (hp ks leaf) # xs))) = Inr leaf"
    using n p k(3) by (simp add: isLeaf_def del: rlp_encode.simps)
qed

section \<open>Writing\<close>

text \<open>A stream into which \<open>xs\<close> of the \<open>n\<close> items of one list have been written.\<close>

definition part :: "nat \<Rightarrow> rlp_item list \<Rightarrow> rlp_stream" where
  "part n xs = (if length xs < n then \<lparr>m_out = encs xs, m_listStack = [(n - length xs, 0)]\<rparr>
     else \<lparr>m_out = rlp_encode (RList xs), m_listStack = []\<rparr>)"

lemma part_note:
  assumes "length xs < n" "length (encs (xs @ [x])) < 2 ^ 64"
  shows "noteAppended_loop 1 (encs (xs @ [x])) [(n - length xs, 0)] = Inr (part n (xs @ [x]))"
proof (cases "n - length xs = 1")
  case True
  then show ?thesis
    using noteAppended_loop_close [OF assms(2), of 1 "[]" "[]"] assms(1) by (simp add: part_def Let_def)
next
  case False
  then obtain m where m: "n - length xs = Suc (Suc m)" using assms(1) by (metis One_nat_def Suc_diff_Suc Suc_lessI diff_is_0_eq' not_le old.nat.exhaust)
  then have "n - Suc (length xs) = Suc m" "Suc (length xs) < n" by simp_all
  then show ?thesis using noteAppended_loop_open [of "encs (xs @ [x])" m 0] unfolding m by (simp add: part_def)
qed

lemma part_start: "0 < n \<Longrightarrow> appendList n rlp_empty = Inr (part n [])"
  by (simp add: appendList_def rlp_empty_def part_def)

lemma part_raw:
  assumes "length xs < n" "length (encs (xs @ [x])) < 2 ^ 64"
  shows "appendRaw (rlp_encode x) 1 (part n xs) = Inr (part n (xs @ [x]))"
  using part_note [OF assms] assms(1) by (simp add: appendRaw_def part_def del: noteAppended_loop.simps)

lemma part_bytes:
  assumes "length xs < n" "length (encs (xs @ [RStr b])) < 2 ^ 64" "length b < 2 ^ 64"
  shows "appendBytes b False (part n xs) = Inr (part n (xs @ [RStr b]))"
  using part_note [OF assms(1,2)] assms(1) by (simp add: appendBytes_eq [OF assms(3)] part_def del: noteAppended_loop.simps)

lemma part_out: "length xs = n \<Longrightarrow> rlp_out (part n xs) = Inr (rlp_encode (RList xs))"
  by (simp add: part_def rlp_out_def)

lemma length_encs_prefix: "length (encs (xs @ ys)) < n \<Longrightarrow> length (encs xs) < n"
  by simp

lemma length_RStr_le: "length b \<le> length (rlp_encode (RStr b))"
  by (simp add: rlp_string_def)

lemma part_items:
  assumes "rlp_fits (RList xs)" "length xs < 2 ^ 64 - 1"
  shows "j \<le> length xs \<Longrightarrow> i \<le> j \<Longrightarrow> length ys + (j - i) \<le> n \<Longrightarrow> length (encs (ys @ take (j - i) (drop i xs))) < 2 ^ 64 \<Longrightarrow>
    foldE (appendItem (rlp_encode (RList xs))) [i..<j] (part n ys) = Inr (part n (ys @ take (j - i) (drop i xs)))"
proof (induction "j - i" arbitrary: i ys)
  case (Suc m)
  then have ij: "i < j" by simp
  then have d: "take (j - i) (drop i xs) = xs ! i # take (j - Suc i) (drop (Suc i) xs)"
    using Suc.prems(1) by (simp add: Cons_nth_drop_Suc [symmetric] Suc_diff_Suc [symmetric])
  have "appendItem (rlp_encode (RList xs)) i (part n ys) = Inr (part n (ys @ [xs ! i]))"
  proof -
    have "length ys < n" "length (encs (ys @ [xs ! i])) < 2 ^ 64" using Suc.prems(3,4) ij unfolding d by simp_all
    from part_raw [OF this] show ?thesis
      using rlp_nth_item [OF assms(1), of i] assms(2) ij Suc.prems(1) by (simp add: appendItem_def del: rlp_encode.simps)
  qed
  moreover have "foldE (appendItem (rlp_encode (RList xs))) [Suc i..<j] (part n (ys @ [xs ! i])) =
      Inr (part n ((ys @ [xs ! i]) @ take (j - Suc i) (drop (Suc i) xs)))"
    by (rule Suc.hyps(1)) (use Suc ij in \<open>simp_all add: d\<close>)
  ultimately show ?case using ij by (simp add: upt_conv_Cons d del: rlp_encode.simps)
qed simp

lemma part_empties:
  "length ys + m \<le> n \<Longrightarrow> length (encs (ys @ replicate m (RStr []))) < 2 ^ 64 \<Longrightarrow>
   appendEmpties m (part n ys) = Inr (part n (ys @ replicate m (RStr [])))"
proof (induction m)
  case (Suc m)
  have r: "ys @ replicate (Suc m) (RStr []) = (ys @ replicate m (RStr [])) @ [RStr []]" by (simp add: replicate_append_same)
  have "appendEmpties m (part n ys) = Inr (part n (ys @ replicate m (RStr [])))"
    using Suc.IH Suc.prems unfolding r by simp
  moreover have "appendBytes [] False (part n (ys @ replicate m (RStr []))) = Inr (part n (ys @ replicate (Suc m) (RStr [])))"
    unfolding r by (rule part_bytes) (use Suc.prems in \<open>simp_all add: r del: replicate.simps\<close>)
  ultimately show ?case by (simp add: appendEmpties_def foldE_append del: replicate.simps)
qed (simp add: appendEmpties_def)

lemma rlpList2_eq:
  assumes "app (part 2 [RStr key]) = Inr (part 2 [RStr key, x])" "length (encs [RStr key]) < 2 ^ 64"
  shows "rlpList2 key app = Inr (rlp_encode (RList [RStr key, x]))"
proof -
  have "length key < 2 ^ 64" using length_RStr_le [of key] assms(2) by simp
  then have "appendBytes key False (part 2 []) = Inr (part 2 [RStr key])"
    using part_bytes [of "[]" 2 key] assms(2) by simp
  then show ?thesis using assms(1) by (simp add: rlpList2_def part_start part_out del: rlp_encode.simps)
qed

end
