(* ===== verification/TrieSpec.thy ===== *)
theory TrieSpec
  imports TrieItems
begin

text \<open>
  What the trie of \<open>TrieDB\<close> is: a tree of keys and values (\<open>ptrie\<close>), its encoding as nodes, and insertion
  and lookup on it. The nodes of \<open>TrieDB\<close> refine these trees.
\<close>

section \<open>Tries and their nodes\<close>

datatype ptrie =
    PEmpty
  | PLeaf bytes bytes
  | PExt bytes ptrie
  | PBranch "ptrie list" bytes

text \<open>A node as an item; a child of 32 bytes or more is referred to by its hash.\<close>

definition ref_of :: "hash_fun \<Rightarrow> rlp_item \<Rightarrow> rlp_item" where
  "ref_of H i = (if length (rlp_encode i) < 32 then i else RStr (H (rlp_encode i)))"

primrec item :: "hash_fun \<Rightarrow> ptrie \<Rightarrow> rlp_item" where
  "item H PEmpty = RStr []"
| "item H (PLeaf k v) = RList [RStr (hp k True), RStr v]"
| "item H (PExt k t) = RList [RStr (hp k False), ref_of H (item H t)]"
| "item H (PBranch ts v) = RList (map (ref_of H) (map (item H) ts) @ [RStr v])"

definition enc :: "hash_fun \<Rightarrow> ptrie \<Rightarrow> bytes" where
  "enc H t = rlp_encode (item H t)"

text \<open>The strings that have to be in the database: the node itself when it is hashed, and all below it.\<close>

definition cell :: "hash_fun \<Rightarrow> ptrie \<Rightarrow> bytes set" where
  "cell H t = (if length (enc H t) < 32 then {} else {enc H t})"

primrec below :: "hash_fun \<Rightarrow> ptrie \<Rightarrow> bytes set" where
  "below H PEmpty = {}"
| "below H (PLeaf k v) = {}"
| "below H (PExt k t) = cell H t \<union> below H t"
| "below H (PBranch ts v) = \<Union> (set (map (\<lambda>t. cell H t \<union> below H t) ts))"

text \<open>Nibbles, sixteen children, and sizes that a \<open>size_t\<close> and the \<open>unsigned\<close> counts can hold.\<close>

definition key_ok :: "bytes \<Rightarrow> bool" where
  "key_ok k \<longleftrightarrow> nibbles_ok k \<and> length k < 2 ^ 30"

definition val_ok :: "bytes \<Rightarrow> bool" where
  "val_ok v \<longleftrightarrow> length v < 2 ^ 60"

primrec pt_ok :: "ptrie \<Rightarrow> bool" where
  "pt_ok PEmpty = True"
| "pt_ok (PLeaf k v) = (key_ok k \<and> val_ok v)"
| "pt_ok (PExt k t) = (k \<noteq> [] \<and> key_ok k \<and> t \<noteq> PEmpty \<and> pt_ok t)"
| "pt_ok (PBranch ts v) = (length ts = 16 \<and> list_all pt_ok ts \<and> val_ok v)"

section \<open>Lookup\<close>

fun plook :: "ptrie \<Rightarrow> bytes \<Rightarrow> bytes" where
  "plook PEmpty ks = []"
| "plook (PLeaf k v) ks = (if ks = k then v else [])"
| "plook (PExt k t) ks = (if take (length k) ks = k then plook t (drop (length k) ks) else [])"
| "plook (PBranch ts v) [] = v"
| "plook (PBranch ts v) (n # ks) = (if unat n < length ts then plook (ts ! unat n) ks else [])"

section \<open>Insertion\<close>

text \<open>A pair is split after \<open>n\<close> nibbles, or spread out as a branch, as the code does it.\<close>

primrec pcleve :: "nat \<Rightarrow> ptrie \<Rightarrow> ptrie" where
  "pcleve n PEmpty = PEmpty"
| "pcleve n (PLeaf k v) = PExt (take n k) (PLeaf (drop n k) v)"
| "pcleve n (PExt k t) = PExt (take n k) (PExt (drop n k) t)"
| "pcleve n (PBranch ts v) = PBranch ts v"

fun pbranch :: "ptrie \<Rightarrow> ptrie" where
  "pbranch (PLeaf [] v) = PBranch (replicate 16 PEmpty) v"
| "pbranch (PLeaf (b # k) v) = PBranch ((replicate 16 PEmpty)[unat b := PLeaf k v]) []"
| "pbranch (PExt (b # k) t) = PBranch ((replicate 16 PEmpty)[unat b := (if k = [] then t else PExt k t)]) []"
| "pbranch t = PEmpty"

definition psplit :: "bytes \<Rightarrow> bytes \<Rightarrow> ptrie \<Rightarrow> ptrie" where
  "psplit ks k t = (if lcp ks k \<noteq> 0 then pcleve (lcp ks k) t else pbranch t)"

fun goes_down :: "bytes \<Rightarrow> ptrie \<Rightarrow> bool" where
  "goes_down ks (PLeaf k v) = (ks = k)"
| "goes_down ks (PExt k t) = (k \<noteq> [] \<and> take (length k) ks = k)"
| "goes_down ks t = True"

lemma goes_down_split:
  "\<not> goes_down ks (PLeaf k w) \<Longrightarrow> goes_down ks (psplit ks k (PLeaf k w))"
  "\<not> goes_down ks (PExt k t) \<Longrightarrow> goes_down ks (psplit ks k (PExt k t))"
proof -
  have "take (length (take (lcp ks k) k)) ks = take (lcp ks k) k"
    using lcp_take [of ks k] lcp_le(2) [of ks k] by (simp add: min_absorb2)
  then show "\<not> goes_down ks (PLeaf k w) \<Longrightarrow> goes_down ks (psplit ks k (PLeaf k w))"
    "\<not> goes_down ks (PExt k t) \<Longrightarrow> goes_down ks (psplit ks k (PExt k t))"
    by (cases k; auto simp: psplit_def)+
qed

lemma shorter_key: "k \<noteq> [] \<Longrightarrow> take (length k) ks = k \<Longrightarrow> length ks - length k < length ks"
  by (cases ks; cases k) auto

function pins :: "ptrie \<Rightarrow> bytes \<Rightarrow> bytes \<Rightarrow> ptrie" where
  "pins PEmpty ks v = PLeaf ks v"
| "pins (PLeaf k w) ks v = (if ks = k then PLeaf k v else pins (psplit ks k (PLeaf k w)) ks v)"
| "pins (PExt k t) ks v =
     (if k \<noteq> [] \<and> take (length k) ks = k then PExt k (pins t (drop (length k) ks) v)
      else pins (psplit ks k (PExt k t)) ks v)"
| "pins (PBranch ts w) [] v = PBranch ts v"
| "pins (PBranch ts w) (n # ks) v = PBranch (ts[unat n := pins (ts ! unat n) ks v]) w"
  by pat_completeness auto
termination
  by (relation "measures [\<lambda>(t, ks, v). length ks, \<lambda>(t, ks, v). if goes_down ks t then 0 else 1]")
    (use goes_down_split shorter_key in \<open>auto\<close>)

declare pins.simps(2,3) [simp del]

lemmas pins_split = pins.simps(2,3)

section \<open>Lemmas: insertion and lookup\<close>

lemma key_ok_simps [simp]: "key_ok []" "key_ok (n # ks) \<Longrightarrow> unat n < 16" "key_ok (n # ks) \<Longrightarrow> key_ok ks"
  by (simp_all add: key_ok_def word_less_nat_alt)

lemma key_ok_take [simp]: "key_ok k \<Longrightarrow> key_ok (take n k)" and key_ok_drop [simp]: "key_ok k \<Longrightarrow> key_ok (drop n k)"
  by (auto simp: key_ok_def)

lemma val_ok_Nil [simp]: "val_ok []"
  by (simp add: val_ok_def)

lemma pt_ok_replicate [simp]: "list_all pt_ok (replicate n PEmpty)"
  by (simp add: list_all_iff)

lemma list_all_set_nth: "list_all P xs \<Longrightarrow> P x \<Longrightarrow> list_all P (xs[i := x])"
  using set_update_subset_insert [of xs i x] by (auto simp: list_all_iff)

lemma lcp_pos: "lcp xs ys \<noteq> 0 \<Longrightarrow> ys \<noteq> []"
  by (cases xs; cases ys) auto

lemma pt_ok_pbranch: "pt_ok t \<Longrightarrow> pt_ok (pbranch t)"
  by (cases t rule: pbranch.cases) (auto intro!: list_all_set_nth)

lemma pt_ok_psplit:
  "pt_ok (PLeaf k w) \<Longrightarrow> pt_ok (psplit ks k (PLeaf k w))"
  "pt_ok (PExt k t) \<Longrightarrow> \<not> goes_down ks (PExt k t) \<Longrightarrow> pt_ok (psplit ks k (PExt k t))"
proof -
  show "pt_ok (PLeaf k w) \<Longrightarrow> pt_ok (psplit ks k (PLeaf k w))"
    using pt_ok_pbranch [of "PLeaf k w"] lcp_pos [of ks k] by (simp add: psplit_def)
  assume w: "pt_ok (PExt k t)" and "\<not> goes_down ks (PExt k t)"
  then have "lcp ks k \<noteq> length k" using lcp_prefix [of ks k] by simp
  then show "pt_ok (psplit ks k (PExt k t))"
    using pt_ok_pbranch [OF w] lcp_pos [of ks k] lcp_le(2) [of ks k] w by (simp add: psplit_def)
qed

lemma pins_nonempty: "pt_ok t \<Longrightarrow> key_ok ks \<Longrightarrow> pins t ks v \<noteq> PEmpty"
proof (induction t ks v rule: pins.induct)
  case (2 k w ks v)
  then show ?case using pt_ok_psplit(1) by (cases "ks = k") (simp_all add: pins_split)
next
  case (3 k t ks v)
  then show ?case using pt_ok_psplit(2) [of k t ks] by (cases "goes_down ks (PExt k t)") (simp_all add: pins_split)
qed simp_all

lemma pt_ok_pins: "pt_ok t \<Longrightarrow> key_ok ks \<Longrightarrow> val_ok v \<Longrightarrow> pt_ok (pins t ks v)"
proof (induction t ks v rule: pins.induct)
  case (2 k w ks v)
  then show ?case using pt_ok_psplit(1) by (cases "ks = k") (simp_all add: pins_split)
next
  case (3 k t ks v)
  then show ?case using pt_ok_psplit(2) [of k t ks] by (cases "goes_down ks (PExt k t)") (simp_all add: pins_split pins_nonempty)
next
  case (5 ts w n ks v)
  then have "pt_ok (ts ! unat n)" by (simp add: list_all_length)
  with 5 show ?case by (simp add: list_all_set_nth)
qed simp_all

lemma nth_replicate_update:
  "i < 16 \<Longrightarrow> ((replicate 16 PEmpty)[b := x]) ! i = (if i = b \<and> b < 16 then x else PEmpty)"
  by (simp add: nth_list_update)

lemma plook_pcleve:
  assumes "n \<le> length k"
  shows "plook (pcleve n (PLeaf k w)) ks = plook (PLeaf k w) ks" "plook (pcleve n (PExt k t)) ks = plook (PExt k t) ks"
proof -
  have l: "length (take n k) = n" using assms by simp
  have a: "ks = k \<longleftrightarrow> take n ks = take n k \<and> drop n ks = drop n k"
    by (metis append_take_drop_id)
  have b: "take (length k) ks = k \<longleftrightarrow> take n ks = take n k \<and> take (length k - n) (drop n ks) = drop n k"
  proof -
    have e: "take (length k) ks = take n ks @ take (length k - n) (drop n ks)"
      using assms take_add [of n "length k - n" ks] by simp
    show ?thesis
    proof
      assume k: "take (length k) ks = k"
      then show "take n ks = take n k \<and> take (length k - n) (drop n ks) = drop n k"
        using assms e by (metis drop_take min.absorb1 take_take)
    next
      assume "take n ks = take n k \<and> take (length k - n) (drop n ks) = drop n k"
      then show "take (length k) ks = k" unfolding e by simp
    qed
  qed
  show "plook (pcleve n (PLeaf k w)) ks = plook (PLeaf k w) ks" using l a by auto
  show "plook (pcleve n (PExt k t)) ks = plook (PExt k t) ks" using l b assms by auto
qed

lemma plook_pbranch:
  assumes "nibbles_ok ks" "pt_ok t" "\<exists>k w u. t = PLeaf k w \<or> t = PExt k u"
  shows "plook (pbranch t) ks = plook t ks"
proof -
  have "unat (hd ks) < 16" if "ks \<noteq> []" using that assms(1) by (cases ks) (simp_all add: word_less_nat_alt)
  then show ?thesis
    using assms(2,3) by (cases t rule: pbranch.cases; cases ks) (auto simp: nth_replicate_update dest!: word_unat_eq_iff [THEN iffD2])
qed

lemma plook_psplit:
  assumes "nibbles_ok ks'"
  shows "pt_ok (PLeaf k w) \<Longrightarrow> plook (psplit ks k (PLeaf k w)) ks' = plook (PLeaf k w) ks'"
    and "pt_ok (PExt k t) \<Longrightarrow> plook (psplit ks k (PExt k t)) ks' = plook (PExt k t) ks'"
  using plook_pcleve [OF lcp_le(2) [of ks k]] plook_pbranch [OF assms] by (simp_all add: psplit_def del: plook.simps pcleve.simps)

theorem plook_pins:
  "pt_ok t \<Longrightarrow> key_ok ks \<Longrightarrow> nibbles_ok ks' \<Longrightarrow> plook (pins t ks v) ks' = (if ks' = ks then v else plook t ks')"
proof (induction t ks v arbitrary: ks' rule: pins.induct)
  case (2 k w ks v)
  then show ?case using pt_ok_psplit(1) plook_psplit(1) [of ks'] by (cases "ks = k") (simp_all add: pins_split)
next
  case (3 k t ks v)
  show ?case
  proof (cases "goes_down ks (PExt k t)")
    case True
    then have "ks' = ks \<longleftrightarrow> take (length k) ks' = k \<and> drop (length k) ks' = drop (length k) ks"
      by (metis append_take_drop_id goes_down.simps(2))
    then show ?thesis using 3 True by (auto simp: pins_split)
  next
    case False
    then show ?thesis using 3 pt_ok_psplit(2) [of k t ks] plook_psplit(2) [of ks'] by (simp add: pins_split)
  qed
next
  case (4 ts w v)
  then show ?case by (cases ks') simp_all
next
  case (5 ts w n ks v)
  show ?case
  proof (cases ks')
    case (Cons m ms)
    then have "unat m < 16" "unat n < 16" "m = n \<longleftrightarrow> unat m = unat n" using 5 by (auto simp: word_unat_eq_iff word_less_nat_alt)
    then show ?thesis using 5 Cons by (auto simp: nth_list_update list_all_length)
  qed simp
qed simp_all

section \<open>What insertion writes\<close>

text \<open>The strings that are stored on the way, splits included.\<close>

function pw :: "hash_fun \<Rightarrow> ptrie \<Rightarrow> bytes \<Rightarrow> bytes \<Rightarrow> bytes set" where
  "pw H PEmpty ks v = {}"
| "pw H (PLeaf k w) ks v =
     (if ks = k then {} else below H (psplit ks k (PLeaf k w)) \<union> pw H (psplit ks k (PLeaf k w)) ks v)"
| "pw H (PExt k t) ks v =
     (if k \<noteq> [] \<and> take (length k) ks = k
      then pw H t (drop (length k) ks) v \<union> cell H (pins t (drop (length k) ks) v)
      else below H (psplit ks k (PExt k t)) \<union> pw H (psplit ks k (PExt k t)) ks v)"
| "pw H (PBranch ts w) [] v = {}"
| "pw H (PBranch ts w) (n # ks) v = pw H (ts ! unat n) ks v \<union> cell H (pins (ts ! unat n) ks v)"
  by pat_completeness auto
termination
  by (relation "measures [\<lambda>(H, t, ks, v). length ks, \<lambda>(H, t, ks, v). if goes_down ks t then 0 else 1]")
    (use goes_down_split shorter_key in \<open>auto\<close>)

declare pw.simps(2,3) [simp del]

lemmas pw_split = pw.simps(2,3)

lemma below_update: "below H (PBranch (ts[i := t]) w) \<subseteq> below H (PBranch ts w) \<union> cell H t \<union> below H t"
proof -
  have "set (ts[i := t]) \<subseteq> insert t (set ts)" by (rule set_update_subset_insert)
  then show ?thesis by auto
qed

lemma below_child: "i < length ts \<Longrightarrow> cell H (ts ! i) \<union> below H (ts ! i) \<subseteq> below H (PBranch ts w)"
  by (auto intro!: bexI [OF _ nth_mem])

lemma below_pins: "pt_ok t \<Longrightarrow> key_ok ks \<Longrightarrow> below H (pins t ks v) \<subseteq> below H t \<union> pw H t ks v"
proof (induction t ks v rule: pins.induct)
  case (2 k w ks v)
  then show ?case using pt_ok_psplit(1) by (cases "ks = k") (auto simp: pins_split pw_split)
next
  case (3 k t ks v)
  show ?case
  proof (cases "goes_down ks (PExt k t)")
    case True
    then show ?thesis using 3 by (auto simp: pins_split pw_split)
  next
    case False
    then show ?thesis using 3 pt_ok_psplit(2) [of k t ks] by (auto simp: pins_split pw_split)
  qed
next
  case (5 ts w n ks v)
  then have n: "unat n < length ts" by simp
  then have "below H (pins (ts ! unat n) ks v) \<subseteq> below H (ts ! unat n) \<union> pw H (ts ! unat n) ks v"
    using 5 by (simp add: list_all_length)
  then show ?case
    using below_update [of H ts "unat n" "pins (ts ! unat n) ks v" w] below_child [OF n, of H w] by (simp del: below.simps) blast
qed simp_all

section \<open>Sizes\<close>

lemma length_rlp_string: "length b < 2 ^ 64 \<Longrightarrow> length (rlp_encode (RStr b)) \<le> length b + 9"
  using bytesRequired_le_8 [of "length b"] by (simp add: rlp_string_def length_rlp_header)

lemma length_rlp_list: "length (encs xs) < 2 ^ 64 \<Longrightarrow> length (rlp_encode (RList xs)) \<le> length (encs xs) + 9"
  using bytesRequired_le_8 [of "length (encs xs)"] by (simp add: Let_def length_rlp_header)

definition hash_ok :: "hash_fun \<Rightarrow> bool" where
  "hash_ok H \<longleftrightarrow> (\<forall>x. length (H x) = 32)"

lemma hash_ok [simp]: "hash_ok H \<Longrightarrow> length (H x) = 32"
  by (simp add: hash_ok_def)

lemma length_ref_of: "hash_ok H \<Longrightarrow> length (rlp_encode (ref_of H i)) \<le> 33"
  using length_encode_hash [of "H (rlp_encode i)"] by (auto simp: ref_of_def simp del: rlp_encode.simps)

lemma fits_ref_of: "hash_ok H \<Longrightarrow> rlp_fits i \<Longrightarrow> rlp_fits (ref_of H i)"
  by (simp add: ref_of_def rlp_max_size_def)

lemma length_refs: "hash_ok H \<Longrightarrow> length (encs (map (ref_of H) is)) \<le> 33 * length is"
proof (induction "is")
  case (Cons i "is")
  then show ?case using length_ref_of [of H i] by simp
qed simp

lemma length_hp_le: "key_ok k \<Longrightarrow> length (hp k leaf) \<le> 2 ^ 29"
  by (auto simp: key_ok_def length_hp)

lemma length_enc_hp: "key_ok k \<Longrightarrow> length (rlp_encode (RStr (hp k leaf))) \<le> 2 ^ 30"
  using length_rlp_string [of "hp k leaf"] length_hp_le [of k leaf] by (simp del: rlp_encode.simps)

lemma length_enc_val: "val_ok v \<Longrightarrow> length (rlp_encode (RStr v)) \<le> 2 ^ 60 + 9"
  using length_rlp_string [of v] by (simp add: val_ok_def del: rlp_encode.simps)

lemma fits_hp: "key_ok k \<Longrightarrow> rlp_fits (RStr (hp k leaf))"
  using length_hp_le [of k leaf] by (simp add: rlp_max_size_def)

lemma fits_val: "val_ok v \<Longrightarrow> rlp_fits (RStr v)"
  by (simp add: val_ok_def rlp_max_size_def)

text \<open>A node of two items or of 17 has room to spare.\<close>

definition small :: "rlp_item list \<Rightarrow> bool" where
  "small xs \<longleftrightarrow> length (encs xs) < 2 ^ 61 \<and> list_all rlp_fits xs"

lemma small_fits: "small xs \<Longrightarrow> rlp_fits (RList xs)"
  by (simp add: small_def rlp_max_size_def)

lemma small_64: "small xs \<Longrightarrow> length (encs xs) < 2 ^ 64"
  by (simp add: small_def)

lemma small_two:
  assumes "key_ok k"
  shows "hash_ok H \<Longrightarrow> rlp_fits i \<Longrightarrow> small [RStr (hp k leaf), ref_of H i]"
    and "val_ok v \<Longrightarrow> small [RStr (hp k leaf), RStr v]"
  using length_enc_hp [OF assms, of leaf] fits_hp [OF assms, of leaf] length_ref_of [of H i] fits_ref_of [of H i] length_enc_val [of v] fits_val [of v]
  by (simp_all add: small_def del: rlp_encode.simps)

lemma small_branch:
  assumes "hash_ok H" "val_ok v" "length is \<le> 16" "list_all rlp_fits is"
  shows "small (map (ref_of H) is @ [RStr v])"
  using length_refs [OF assms(1), of "is"] assms length_enc_val [OF assms(2)] fits_ref_of [OF assms(1)] fits_val [OF assms(2)]
  by (simp add: small_def list_all_iff del: rlp_encode.simps)

lemma fits_item: "hash_ok H \<Longrightarrow> pt_ok t \<Longrightarrow> rlp_fits (item H t)"
proof (induction t)
  case PEmpty
  then show ?case by (simp add: rlp_max_size_def)
next
  case (PLeaf k v)
  then show ?case using small_fits [OF small_two(2) [of k v True]] by simp
next
  case (PExt k t)
  then show ?case using small_fits [OF small_two(1) [of k H "item H t" False]] by simp
next
  case (PBranch ts v)
  then have "list_all rlp_fits (map (item H) ts)" by (simp add: list_all_iff)
  then show ?case using small_fits [OF small_branch [of H v "map (item H) ts"]] PBranch.prems by simp
qed

end
