(* ===== verification/TrieCanon.thy ===== *)
theory TrieCanon
  imports TrieSpec
begin

text \<open>
  The canonical form of a trie: no value is empty, an extension leads to a branch, and a branch has at
  least two items in use. A canonical trie is determined by what is looked up in it, and insertion of
  values that are not empty keeps tries canonical: the root does not depend on how a trie came about.
\<close>

section \<open>Canonical tries\<close>

fun is_branch :: "ptrie \<Rightarrow> bool" where
  "is_branch (PBranch ts v) = True"
| "is_branch t = False"

definition in_use :: "ptrie list \<Rightarrow> bytes \<Rightarrow> nat" where
  "in_use ts v = length (filter (\<lambda>t. t \<noteq> PEmpty) ts) + (if v = [] then 0 else 1)"

primrec canon :: "ptrie \<Rightarrow> bool" where
  "canon PEmpty = True"
| "canon (PLeaf k v) = (v \<noteq> [])"
| "canon (PExt k t) = (is_branch t \<and> canon t)"
| "canon (PBranch ts v) = (list_all canon ts \<and> 2 \<le> in_use ts v)"

text \<open>The keys of a trie.\<close>

definition keys_of :: "ptrie \<Rightarrow> bytes set" where
  "keys_of t = {ks. nibbles_ok ks \<and> plook t ks \<noteq> []}"

lemma keys_of_ext: "k \<noteq> [] \<Longrightarrow> nibbles_ok k \<Longrightarrow> keys_of (PExt k t) = (\<lambda>x. k @ x) ` keys_of t"
proof -
  assume k: "nibbles_ok k"
  show ?thesis
  proof (intro set_eqI iffI)
    fix x assume x: "x \<in> keys_of (PExt k t)"
    then have "take (length k) x = k" by (simp add: keys_of_def split: if_splits)
    then have "x = k @ drop (length k) x" by (metis append_take_drop_id)
    moreover have "drop (length k) x \<in> keys_of t" using x by (simp add: keys_of_def split: if_splits)
    ultimately show "x \<in> (\<lambda>x. k @ x) ` keys_of t" by blast
  qed (use k in \<open>auto simp: keys_of_def\<close>)
qed

lemma in_use_two:
  assumes "2 \<le> in_use ts v"
  shows "(v \<noteq> [] \<and> (\<exists>i < length ts. ts ! i \<noteq> PEmpty)) \<or> (\<exists>i j. i < j \<and> j < length ts \<and> ts ! i \<noteq> PEmpty \<and> ts ! j \<noteq> PEmpty)"
proof -
  let ?I = "{i. i < length ts \<and> ts ! i \<noteq> PEmpty}"
  have c: "length (filter (\<lambda>t. t \<noteq> PEmpty) ts) = card ?I" by (rule length_filter_conv_card)
  have fin: "finite ?I" by simp
  show ?thesis
  proof (cases "v = []")
    case True
    then have "2 \<le> card ?I" using assms c by (simp add: in_use_def)
    then obtain i where i: "i \<in> ?I" by (metis (no_types, lifting) card.empty equals0I not_numeral_le_zero)
    have "1 \<le> card (?I - {i})" using \<open>2 \<le> card ?I\<close> i fin by simp
    then obtain j where j: "j \<in> ?I" "j \<noteq> i" by (metis (no_types, lifting) card.empty equals0I not_one_le_zero DiffE singletonI)
    have "i < j \<or> j < i" using j(2) by linarith
    then show ?thesis using i j(1) by blast
  next
    case False
    then have "1 \<le> card ?I" using assms c by (simp add: in_use_def)
    then have "?I \<noteq> {}" by (metis card.empty not_one_le_zero)
    then show ?thesis using False by blast
  qed
qed

lemma keys_child:
  "length ts = 16 \<Longrightarrow> i < 16 \<Longrightarrow> ks \<in> keys_of (ts ! i) \<Longrightarrow> word_of_nat i # ks \<in> keys_of (PBranch ts v)"
  by (simp add: keys_of_def unat_of_nat word_less_nat_alt)

lemma keys_value: "v \<noteq> [] \<Longrightarrow> [] \<in> keys_of (PBranch ts v)"
  by (simp add: keys_of_def)

lemma keys_nonempty: "canon t \<Longrightarrow> pt_ok t \<Longrightarrow> t \<noteq> PEmpty \<Longrightarrow> keys_of t \<noteq> {}"
proof (induction t)
  case (PLeaf k v)
  then have "k \<in> keys_of (PLeaf k v)" by (simp add: keys_of_def key_ok_def)
  then show ?case by blast
next
  case (PExt k t)
  then show ?case by (simp add: keys_of_ext key_ok_def)
next
  case (PBranch ts v)
  show ?case
  proof (cases "v = []")
    case True
    then obtain i where i: "i < length ts" "ts ! i \<noteq> PEmpty" using in_use_two [of ts v] PBranch.prems(1) by auto
    then have "keys_of (ts ! i) \<noteq> {}" using PBranch by (simp add: list_all_length)
    then show ?thesis using keys_child [of ts i _ v] i PBranch.prems(2) by auto
  next
    case False
    then show ?thesis using keys_value [of v ts] by blast
  qed
qed simp

text \<open>The keys of a branch do not all begin with the same nibble.\<close>

definition diverge :: "bytes set \<Rightarrow> bool" where
  "diverge S \<longleftrightarrow> (\<exists>x \<in> S. \<exists>y \<in> S. x \<noteq> y \<and> lcp x y = 0)"

lemma branch_diverge:
  assumes "canon (PBranch ts v)" "pt_ok (PBranch ts v)"
  shows "diverge (keys_of (PBranch ts v))"
proof -
  have ex: "\<exists>ks. word_of_nat i # ks \<in> keys_of (PBranch ts v)" if "i < length ts" "ts ! i \<noteq> PEmpty" for i
    using keys_nonempty [of "ts ! i"] keys_child [of ts i _ v] that assms by (auto simp: list_all_length)
  from in_use_two [of ts v] assms(1) consider
    i where "v \<noteq> []" "i < length ts" "ts ! i \<noteq> PEmpty"
    | i j where "i < j" "j < length ts" "ts ! i \<noteq> PEmpty" "ts ! j \<noteq> PEmpty" by auto
  then show ?thesis
  proof cases
    case 1
    then obtain ks where "word_of_nat i # ks \<in> keys_of (PBranch ts v)" using ex by blast
    then show ?thesis using keys_value [OF 1(1), of ts] unfolding diverge_def by (intro bexI [of _ "[]"] bexI [of _ "word_of_nat i # ks"]) auto
  next
    case 2
    then obtain x y where xy: "word_of_nat i # x \<in> keys_of (PBranch ts v)" "word_of_nat j # y \<in> keys_of (PBranch ts v)"
      using ex [of i] ex [of j] by auto
    have "(word_of_nat i :: byte) \<noteq> word_of_nat j"
      using 2(1,2) assms(2) by (simp add: word_unat_eq_iff unat_of_nat)
    then show ?thesis using xy unfolding diverge_def by (intro bexI [of _ "word_of_nat i # x"] bexI [of _ "word_of_nat j # y"]) auto
  qed
qed

lemma diverge_prefix:
  assumes "diverge S"
  shows "\<not> (\<exists>n. \<forall>x \<in> S. \<exists>y. x = n # y)"
proof
  assume "\<exists>n. \<forall>x \<in> S. \<exists>y. x = n # y"
  then obtain n where n: "\<And>x. x \<in> S \<Longrightarrow> \<exists>y. x = n # y" by blast
  obtain x y where "x \<in> S" "y \<in> S" "lcp x y = 0" using assms by (auto simp: diverge_def)
  then show False using n [of x] n [of y] by auto
qed

section \<open>A canonical trie is determined by its contents\<close>

lemma same_keys: "(\<And>ks. nibbles_ok ks \<Longrightarrow> plook t ks = plook u ks) \<Longrightarrow> keys_of t = keys_of u"
  by (auto simp: keys_of_def)

lemma ext_prefix:
  assumes "keys_of (PExt k t) = keys_of (PExt l u)" "canon (PExt k t)" "pt_ok (PExt k t)" "pt_ok (PExt l u)"
  shows "length l \<le> length k"
proof (rule ccontr)
  assume lt: "\<not> length l \<le> length k"
  have k: "k \<noteq> []" "nibbles_ok k" "l \<noteq> []" "nibbles_ok l" using assms(3,4) by (simp_all add: key_ok_def)
  have "\<exists>y. x = l ! length k # y" if "x \<in> keys_of t" for x
  proof -
    have "k @ x \<in> keys_of (PExt l u)" using that assms(1) keys_of_ext [OF k(1,2), of t] by auto
    then obtain y where y: "k @ x = l @ y" using keys_of_ext [OF k(3,4), of u] by auto
    then have "x = drop (length k) (l @ y)" by (metis append_eq_conv_conj)
    then have "x = drop (length k) l @ y" using lt by simp
    moreover have "drop (length k) l = l ! length k # drop (Suc (length k)) l" using lt by (simp add: Cons_nth_drop_Suc)
    ultimately show ?thesis by simp
  qed
  moreover have "diverge (keys_of t)" using assms(2,3) branch_diverge by (cases t) auto
  ultimately show False using diverge_prefix by blast
qed

lemma ext_key:
  assumes "keys_of (PExt k t) = keys_of (PExt l u)" "canon (PExt k t)" "pt_ok (PExt k t)" "canon (PExt l u)" "pt_ok (PExt l u)"
  shows "k = l"
proof -
  have len: "length k = length l"
    using ext_prefix [OF assms(1-3,5)] ext_prefix [OF assms(1) [symmetric] assms(4,5,3)] by simp
  obtain x where "x \<in> keys_of (PExt k t)" using keys_nonempty [OF assms(2,3)] by blast
  moreover have "nibbles_ok k" "nibbles_ok l" "k \<noteq> []" "l \<noteq> []" using assms(3,5) by (simp_all add: key_ok_def)
  ultimately obtain y z where "x = k @ y" "x = l @ z" using assms(1) keys_of_ext by (metis (no_types, lifting) imageE)
  then show ?thesis using len by simp
qed

text \<open>The shape of the root shows in the keys.\<close>

lemma keys_shape:
  assumes "canon t" "pt_ok t"
  shows "keys_of t = {} \<longleftrightarrow> t = PEmpty"
    and "is_branch t \<longleftrightarrow> diverge (keys_of t)"
    and "(\<exists>x. keys_of t = {x}) \<longleftrightarrow> (\<exists>k v. t = PLeaf k v)"
proof -
  have leaf: "keys_of (PLeaf k v) = {k}" if "t = PLeaf k v" for k v using assms that by (auto simp: keys_of_def key_ok_def)
  have none: "keys_of PEmpty = {}" by (simp add: keys_of_def)
  have ext: "\<not> diverge (keys_of (PExt k u))" "\<not> (\<exists>x. keys_of (PExt k u) = {x})" if "t = PExt k u" for k u
  proof -
    have k: "k \<noteq> []" "nibbles_ok k" using assms(2) that by (simp_all add: key_ok_def)
    then obtain n ns where n: "k = n # ns" by (cases k) auto
    have "\<exists>y. x = n # y" if "x \<in> keys_of (PExt k u)" for x using that keys_of_ext [OF k] n by auto
    then show "\<not> diverge (keys_of (PExt k u))" using diverge_prefix by blast
    have "diverge (keys_of u)" using assms that branch_diverge by (cases u) auto
    then obtain x y where "x \<in> keys_of u" "y \<in> keys_of u" "x \<noteq> y" unfolding diverge_def by blast
    then have "k @ x \<in> keys_of (PExt k u)" "k @ y \<in> keys_of (PExt k u)" "k @ x \<noteq> k @ y" using keys_of_ext [OF k] by auto
    then show "\<not> (\<exists>x. keys_of (PExt k u) = {x})" by (metis singletonD)
  qed
  have br: "diverge (keys_of (PBranch ts v))" if "t = PBranch ts v" for ts v using assms that branch_diverge by blast
  have one: "\<not> diverge {x}" "\<not> diverge {}" for x by (simp_all add: diverge_def)
  show "keys_of t = {} \<longleftrightarrow> t = PEmpty" using keys_nonempty [OF assms] none by auto
  show "is_branch t \<longleftrightarrow> diverge (keys_of t)" using leaf none ext br one by (cases t) auto
  show "(\<exists>x. keys_of t = {x}) \<longleftrightarrow> (\<exists>k v. t = PLeaf k v)"
  proof (cases t)
    case (PBranch ts v)
    then show ?thesis using br [OF PBranch] one(1) by auto
  qed (use leaf none ext in auto)
qed

theorem canon_unique:
  assumes "\<And>ks. nibbles_ok ks \<Longrightarrow> plook t ks = plook u ks"
  shows "canon t \<Longrightarrow> pt_ok t \<Longrightarrow> canon u \<Longrightarrow> pt_ok u \<Longrightarrow> t = u"
  using assms
proof (induction t arbitrary: u)
  case PEmpty
  have "keys_of PEmpty = {}" by (simp add: keys_of_def)
  moreover have "keys_of PEmpty = keys_of u" by (rule same_keys) (rule PEmpty.prems(5))
  ultimately have "keys_of u = {}" by (simp only:)
  then show ?case using keys_shape(1) [OF PEmpty.prems(3,4)] by simp
next
  case (PLeaf k v)
  have sk: "keys_of (PLeaf k v) = keys_of u" by (rule same_keys) (rule PLeaf.prems(5))
  obtain k' v' where u: "u = PLeaf k' v'"
    using keys_shape(3) [OF PLeaf.prems(1,2)] keys_shape(3) [OF PLeaf.prems(3,4)] unfolding sk by blast
  have "nibbles_ok k" "v \<noteq> []" using PLeaf.prems(1,2) by (simp_all add: key_ok_def)
  then show ?case using PLeaf.prems(5) [of k] unfolding u by (simp split: if_splits)
next
  case (PExt k t)
  have sk: "keys_of (PExt k t) = keys_of u" by (rule same_keys) (rule PExt.prems(5))
  have "\<not> is_branch u" "u \<noteq> PEmpty" "\<not> (\<exists>k v. u = PLeaf k v)"
    using keys_shape [OF PExt.prems(1,2)] keys_shape [OF PExt.prems(3,4)] unfolding sk by auto
  then obtain l t' where u: "u = PExt l t'" by (cases u) auto
  have l: "k = l" using ext_key sk PExt.prems unfolding u by blast
  have k: "nibbles_ok k" using PExt.prems(2) by (simp add: key_ok_def)
  have "plook t ks = plook t' ks" if "nibbles_ok ks" for ks
    using PExt.prems(5) [of "k @ ks"] k that unfolding u l by simp
  then have "t = t'" by (intro PExt.IH) (use PExt.prems u in auto)
  then show ?case unfolding u l by simp
next
  case (PBranch ts v)
  have sk: "keys_of (PBranch ts v) = keys_of u" by (rule same_keys) (rule PBranch.prems(5))
  have "is_branch u" using keys_shape(2) [OF PBranch.prems(1,2)] keys_shape(2) [OF PBranch.prems(3,4)] unfolding sk by simp
  then obtain us w where u: "u = PBranch us w" by (cases u) auto
  have v: "v = w" using PBranch.prems(5) [of "[]"] unfolding u by simp
  have len: "length ts = 16" "length us = 16" using PBranch.prems(2,4) unfolding u by simp_all
  have "ts ! i = us ! i" if i: "i < 16" for i
  proof (rule PBranch.IH)
    show "ts ! i \<in> set ts" using i len by simp
    show "canon (ts ! i)" "pt_ok (ts ! i)" "canon (us ! i)" "pt_ok (us ! i)"
      using PBranch.prems(1-4) i len unfolding u by (simp_all add: list_all_length)
    fix ks assume ks: "nibbles_ok ks"
    have "unat (word_of_nat i :: byte) = i" using i by (simp add: unat_of_nat)
    then show "plook (ts ! i) ks = plook (us ! i) ks"
      using PBranch.prems(5) [of "word_of_nat i # ks"] i ks len unfolding u by (simp add: word_less_nat_alt)
  qed
  then have "ts = us" using len by (simp add: list_eq_iff_nth_eq)
  then show ?case using u v by simp
qed

section \<open>Insertion keeps tries canonical\<close>

lemma in_use_update:
  assumes "i < length ts" "t \<noteq> PEmpty"
  shows "in_use (ts[i := t]) v = in_use ts v + (if ts ! i = PEmpty then 1 else 0)"
proof -
  have t: "ts = take i ts @ ts ! i # drop (Suc i) ts" using id_take_nth_drop [OF assms(1)] .
  have u: "ts[i := t] = take i ts @ t # drop (Suc i) ts" using upd_conv_take_nth_drop [OF assms(1)] .
  have "in_use (take i ts @ x # drop (Suc i) ts) v = in_use (take i ts @ drop (Suc i) ts) v + (if x = PEmpty then 0 else 1)" for x
    by (simp add: in_use_def)
  from this [of t] this [of "ts ! i"] show ?thesis unfolding u t [symmetric] using assms(2) by simp
qed

lemma in_use_replicate [simp]: "in_use (replicate n PEmpty) v = (if v = [] then 0 else 1)"
  by (simp add: in_use_def)

lemma in_use_value: "v \<noteq> [] \<Longrightarrow> in_use ts w \<le> in_use ts v"
  by (simp add: in_use_def)

lemma in_use_Nil: "v \<noteq> [] \<Longrightarrow> in_use ts v = Suc (in_use ts [])"
  by (simp add: in_use_def)

lemma canon_replicate [simp]: "list_all canon (replicate n PEmpty)"
  by (simp add: list_all_iff)

text \<open>Into a branch with one item, elsewhere.\<close>

lemma canon_second:
  assumes "canon u" "u \<noteq> PEmpty" "unat b < 16" "v \<noteq> []" "key_ok ks" "\<And>ks'. ks \<noteq> b # ks'"
  shows "canon (pins (PBranch ((replicate 16 PEmpty)[unat b := u]) []) ks v)"
proof (cases ks)
  case Nil
  then show ?thesis using assms by (simp add: list_all_set_nth in_use_update in_use_Nil [OF assms(4)])
next
  case (Cons n ks')
  then have n: "unat n < 16" "unat n \<noteq> unat b" using assms(5,6) by (auto simp: word_unat_eq_iff)
  then show ?thesis
    using assms Cons by (simp add: list_all_set_nth in_use_update)
qed

lemma is_branch_pins: "is_branch t \<Longrightarrow> is_branch (pins t ks v)"
  by (cases "(t, ks, v)" rule: pins.cases) simp_all

lemma split_canon:
  assumes "v \<noteq> []" "key_ok ks" "lcp ks k = 0" "ks \<noteq> k" "t = PLeaf k w \<or> t = PExt k u" "canon t" "pt_ok t"
  shows "canon (pins (psplit ks k t) ks v)" "is_branch (pins (psplit ks k t) ks v)"
proof -
  have p: "psplit ks k t = pbranch t" using assms(3) by (simp add: psplit_def)
  have "canon (pins (pbranch t) ks v) \<and> is_branch (pins (pbranch t) ks v)"
  proof (cases k)
    case Nil
    then have t: "t = PLeaf [] w" "w \<noteq> []" using assms(5-7) by auto
    obtain n ks' where ks: "ks = n # ks'" "unat n < 16" using assms(2,4) Nil by (cases ks) auto
    then show ?thesis using t assms(1) by (simp add: list_all_set_nth in_use_update)
  next
    case (Cons b k')
    have b: "unat b < 16" using assms(5,7) Cons by auto
    have ne: "ks \<noteq> b # ks'" for ks' using assms(3) Cons by auto
    obtain x where x: "pbranch t = PBranch ((replicate 16 PEmpty)[unat b := x]) []" "canon x" "x \<noteq> PEmpty"
      using assms(5-7) Cons by (cases "k' = []") auto
    then show ?thesis using canon_second [OF x(2,3) b assms(1,2) ne] is_branch_pins by simp
  qed
  then show "canon (pins (psplit ks k t) ks v)" "is_branch (pins (psplit ks k t) ks v)" by (simp_all add: p)
qed

lemma lcp_drop: "lcp (drop (lcp xs ys) xs) (drop (lcp xs ys) ys) = 0"
  by (induction xs ys rule: lcp.induct) auto

lemma pins_cleve:
  "lcp ks k \<noteq> 0 \<Longrightarrow> t = PLeaf k w \<and> b = PLeaf (drop (lcp ks k) k) w \<or> t = PExt k u \<and> b = PExt (drop (lcp ks k) k) u \<Longrightarrow>
   pins (psplit ks k t) ks v = PExt (take (lcp ks k) k) (pins b (drop (lcp ks k) ks) v)"
  using lcp_take [of ks k] lcp_le(2) [of ks k] lcp_pos [of ks k] by (auto simp: psplit_def pins_split min_absorb2)

lemma pair_canon:
  assumes "v \<noteq> []" "key_ok ks" "\<not> goes_down ks t" "t = PLeaf k w \<or> t = PExt k u" "canon t" "pt_ok t"
  shows "canon (pins t ks v)"
proof -
  have i: "pins t ks v = pins (psplit ks k t) ks v" using assms(3,4) by (auto simp: pins_split)
  show ?thesis
  proof (cases "lcp ks k = 0")
    case True
    have "ks \<noteq> k" using assms(3,4,6) by auto
    then show ?thesis using split_canon(1) [OF assms(1,2) True _ assms(4-6)] by (simp add: i)
  next
    case False
    let ?n = "lcp ks k"
    define b where "b = (if t = PLeaf k w then PLeaf (drop ?n k) w else PExt (drop ?n k) u)"
    have down: "\<not> goes_down (drop ?n ks) b"
    proof
      assume "goes_down (drop ?n ks) b"
      then have "take (length (drop ?n k)) (drop ?n ks) = drop ?n k" "t = PLeaf k w \<longrightarrow> drop ?n ks = drop ?n k"
        using assms(4) by (auto simp: b_def split: if_splits)
      moreover have "?n \<le> length k" "take ?n ks = take ?n k" by (rule lcp_le, rule lcp_take)
      ultimately have "take (length k) ks = k" "t = PLeaf k w \<longrightarrow> ks = k"
        by (metis append_take_drop_id length_drop le_add_diff_inverse take_add, metis append_take_drop_id)
      then show False using assms(3,4,6) by auto
    qed
    have ok: "pt_ok b" "canon b"
    proof -
      have "?n < length k" if "t = PExt k u"
        using assms(3,6) that lcp_prefix [of ks k] lcp_le(2) [of ks k] by (auto simp: le_less)
      then show "pt_ok b" "canon b" using assms(4-6) by (auto simp: b_def)
    qed
    have b: "pins b (drop ?n ks) v = pins (psplit (drop ?n ks) (drop ?n k) b) (drop ?n ks) v" "b = PLeaf (drop ?n k) w \<or> b = PExt (drop ?n k) u"
      using down by (auto simp: b_def pins_split)
    have "drop ?n ks \<noteq> drop ?n k" using down ok(1) b(2) by auto
    note sc = split_canon [OF assms(1) key_ok_drop [OF assms(2)] lcp_drop this b(2) ok(2,1)]
    have "pins (psplit ks k t) ks v = PExt (take ?n k) (pins b (drop ?n ks) v)"
      by (rule pins_cleve [OF False]) (use assms(4) in \<open>auto simp: b_def\<close>)
    then show ?thesis using sc b(1) i by simp
  qed
qed

theorem canon_pins: "canon t \<Longrightarrow> pt_ok t \<Longrightarrow> key_ok ks \<Longrightarrow> v \<noteq> [] \<Longrightarrow> canon (pins t ks v)"
proof (induction t arbitrary: ks)
  case (PLeaf k w)
  then show ?case using pair_canon [of v ks "PLeaf k w" k w PEmpty] by (cases "ks = k") (simp_all add: pins_split)
next
  case (PExt k t)
  show ?case
  proof (cases "goes_down ks (PExt k t)")
    case True
    then show ?thesis using PExt by (simp add: pins_split is_branch_pins)
  next
    case False
    then show ?thesis using PExt.prems pair_canon [of v ks "PExt k t" k "[]" t] by blast
  qed
next
  case (PBranch ts w)
  show ?case
  proof (cases ks)
    case Nil
    then show ?thesis using PBranch.prems in_use_value [of v ts w] by simp
  next
    case (Cons n ks')
    then have n: "unat n < length ts" using PBranch.prems(2,3) by simp
    then have c: "canon (pins (ts ! unat n) ks' v)" "pins (ts ! unat n) ks' v \<noteq> PEmpty"
      using PBranch Cons by (simp_all add: list_all_length pins_nonempty)
    then show ?thesis using PBranch.prems Cons n by (simp add: list_all_set_nth in_use_update)
  qed
qed simp

end
