(* ===== verification/TrieRefine.thy ===== *)
theory TrieRefine
  imports TrieSpec
begin

text \<open>
  \<open>TrieDB\<close> refines \<open>TrieSpec\<close>: over a store that holds the nodes of a trie, \<open>atAux\<close> is \<open>plook\<close> and \<open>mergeAt\<close>
  is \<open>pins\<close>, without an exception, and the store holds the nodes of the result.
\<close>

section \<open>Reading the nodes\<close>

lemma enc_simps:
  "enc H PEmpty = rlp_encode (RStr [])"
  "enc H (PLeaf k v) = rlp_encode (RList [RStr (hp k True), RStr v])"
  "enc H (PExt k t) = rlp_encode (RList [RStr (hp k False), ref_of H (item H t)])"
  "enc H (PBranch ts v) = rlp_encode (RList (map (ref_of H) (map (item H) ts) @ [RStr v]))"
  by (simp_all only: enc_def item.simps)

lemma pair_read:
  assumes "key_ok k" "small [RStr (hp k leaf), x]"
  defines "n \<equiv> rlp_encode (RList [RStr (hp k leaf), x])"
  shows "\<not> rlp_isEmpty n" "\<not> rlp_isNull n" "rlp_isList n" "rlp_itemCount n = Inr 2" "isLeaf n = Inr leaf"
    "rlp_nth n (Suc 0) = Inr (rlp_encode x)" "RLP n VeryStrict = Inr n"
    "\<exists>s. keyOf_node n = Inr s \<and> ns_ok s \<and> nibs s = k"
proof -
  note f = small_fits [OF assms(2)]
  have k: "nibbles_ok k" "length k < 2 ^ 30" using assms(1) by (auto simp: key_ok_def)
  show "\<not> rlp_isEmpty n" using rlp_isEmpty_item [OF f] by (simp add: n_def del: rlp_encode.simps)
  show "\<not> rlp_isNull n" unfolding n_def by (rule rlp_isNull_item [OF f])
  show "rlp_isList n" using rlp_isList_item [OF f] by (simp add: n_def del: rlp_encode.simps)
  show "rlp_itemCount n = Inr 2" using rlp_itemCount_item [OF f] by (simp add: n_def del: rlp_encode.simps)
  show "isLeaf n = Inr leaf" unfolding n_def by (rule keyOf_node_item(2) [OF f k])
  show "rlp_nth n (Suc 0) = Inr (rlp_encode x)" using rlp_nth_item [OF f, of 1] by (simp add: n_def del: rlp_encode.simps)
  show "RLP n VeryStrict = Inr n" unfolding n_def by (rule RLP_item [OF f])
  show "\<exists>s. keyOf_node n = Inr s \<and> ns_ok s \<and> nibs s = k" unfolding n_def by (rule keyOf_node_item(1) [OF f k])
qed

lemma branch_read:
  assumes "small (map (ref_of H) is @ [RStr v])" "length is = 16"
  defines "n \<equiv> rlp_encode (RList (map (ref_of H) is @ [RStr v]))"
  shows "\<not> rlp_isEmpty n" "\<not> rlp_isNull n" "rlp_isList n" "rlp_itemCount n = Inr 17" "RLP n VeryStrict = Inr n"
    "rlp_nth n 16 = Inr (rlp_encode (RStr v))" "i < 16 \<Longrightarrow> rlp_nth n i = Inr (rlp_encode (ref_of H (is ! i)))"
proof -
  note f = small_fits [OF assms(1)]
  have l: "length (map (ref_of H) is @ [RStr v]) = 17" using assms(2) by simp
  show "\<not> rlp_isEmpty n" using rlp_isEmpty_item [OF f] by (simp add: n_def del: rlp_encode.simps)
  show "\<not> rlp_isNull n" unfolding n_def by (rule rlp_isNull_item [OF f])
  show "rlp_isList n" using rlp_isList_item [OF f] by (simp add: n_def del: rlp_encode.simps)
  show "rlp_itemCount n = Inr 17" using rlp_itemCount_item [OF f] l by (simp add: n_def del: rlp_encode.simps)
  show "RLP n VeryStrict = Inr n" unfolding n_def by (rule RLP_item [OF f])
  show "rlp_nth n 16 = Inr (rlp_encode (RStr v))"
    using rlp_nth_item [OF f, of 16] assms(2) by (simp add: n_def nth_append del: rlp_encode.simps)
  show "i < 16 \<Longrightarrow> rlp_nth n i = Inr (rlp_encode (ref_of H (is ! i)))"
    using rlp_nth_item [OF f, of i] assms(2) by (simp add: n_def nth_append del: rlp_encode.simps)
qed

text \<open>The nodes of a trie have the sizes these lemmas ask for.\<close>

lemma small_leaf: "pt_ok (PLeaf k v) \<Longrightarrow> small [RStr (hp k True), RStr v]"
  by (simp add: small_two)

lemma small_ext: "hash_ok H \<Longrightarrow> pt_ok (PExt k t) \<Longrightarrow> small [RStr (hp k False), ref_of H (item H t)]"
  by (simp add: small_two fits_item)

lemma small_children: "hash_ok H \<Longrightarrow> pt_ok (PBranch ts v) \<Longrightarrow> small (map (ref_of H) (map (item H) ts) @ [RStr v])"
  by (rule small_branch) (auto simp: list_all_iff fits_item)

lemma enc_empty: "rlp_isEmpty (enc H PEmpty)"
  by (simp add: enc_simps rlp_isEmpty_def rlp_isNull_def rlp_string_def rlp_header_def rlp_constants)

lemmas leaf_read = pair_read [OF _ small_leaf, folded enc_simps(2) [of H]]
  and ext_read = pair_read [OF _ small_ext, folded enc_simps]
  and children_read = branch_read [OF small_children, folded enc_simps]
  for H

text \<open>The items of a node go into a stream one by one.\<close>

lemma part_item:
  "rlp_nth orig i = Inr (rlp_encode x) \<Longrightarrow> length xs < n \<Longrightarrow> length (encs (xs @ [x])) < 2 ^ 64 \<Longrightarrow>
   appendItem orig i (part n xs) = Inr (part n (xs @ [x]))"
  using part_raw by (simp add: appendItem_def)

lemma small_prefix: "small (xs @ ys) \<Longrightarrow> length (encs xs) < 2 ^ 64"
  by (simp add: small_def)

lemma pair_write:
  assumes "small [RStr key, x]" "rlp_nth orig i = Inr (rlp_encode x)"
  shows "rlpList2 key (appendItem orig i) = Inr (rlp_encode (RList [RStr key, x]))"
proof (rule rlpList2_eq)
  show "appendItem orig i (part 2 [RStr key]) = Inr (part 2 [RStr key, x])"
    using part_item [OF assms(2), of "[RStr key]" 2] small_64 [OF assms(1)] by simp
  show "length (encs [RStr key]) < 2 ^ 64" using small_prefix [of "[RStr key]" "[x]"] assms(1) by simp
qed

lemma pair_write_value:
  assumes "small [RStr key, RStr v]"
  shows "rlpList2 key (appendBytes v False) = Inr (rlp_encode (RList [RStr key, RStr v]))"
proof (rule rlpList2_eq)
  have "length v < 2 ^ 64" using length_RStr_le [of v] small_64 [OF assms] by simp
  then show "appendBytes v False (part 2 [RStr key]) = Inr (part 2 [RStr key, RStr v])"
    using part_bytes [of "[RStr key]" 2 v] small_64 [OF assms] by simp
  show "length (encs [RStr key]) < 2 ^ 64" using small_prefix [of "[RStr key]" "[RStr v]"] assms by simp
qed

lemma ref_of_empty [simp]: "ref_of H (RStr []) = RStr []"
  by (simp add: ref_of_def rlp_string_def rlp_header_def)

text \<open>What a reference is.\<close>

lemma ref_inline:
  "length (enc H t) < 32 \<Longrightarrow> rlp_encode (ref_of H (item H t)) = enc H t"
  "\<not> length (enc H t) < 32 \<Longrightarrow> rlp_encode (ref_of H (item H t)) = rlp_encode (RStr (H (enc H t)))"
  by (simp_all add: ref_of_def enc_def)

lemma inline_shape:
  assumes "hash_ok H" "pt_ok t"
  shows "rlp_isEmpty (enc H t) \<longleftrightarrow> t = PEmpty" "rlp_isList (enc H t) \<longleftrightarrow> t \<noteq> PEmpty"
  using rlp_isEmpty_item [OF fits_item [OF assms]] rlp_isList_item [OF fits_item [OF assms]]
  by (cases t; simp add: enc_def del: rlp_encode.simps)+

lemma ref_hash_shape:
  assumes "hash_ok H"
  shows "\<not> rlp_isEmpty (rlp_encode (RStr (H x)))" "\<not> rlp_isList (rlp_encode (RStr (H x)))"
proof -
  have f: "rlp_fits (RStr (H x))" using assms by (simp add: rlp_max_size_def)
  have "H x \<noteq> []" using hash_ok [OF assms, of x] by auto
  then show "\<not> rlp_isEmpty (rlp_encode (RStr (H x)))" using rlp_isEmpty_item [OF f] by (simp del: rlp_encode.simps)
  show "\<not> rlp_isList (rlp_encode (RStr (H x)))" using rlp_isList_item [OF f] by (simp del: rlp_encode.simps)
qed

lemma length_enc_Empty: "length (enc H PEmpty) < 32"
  by (simp add: enc_simps rlp_string_def rlp_header_def)

lemma ref_empty:
  assumes "hash_ok H" "pt_ok t"
  shows "rlp_isEmpty (rlp_encode (ref_of H (item H t))) \<longleftrightarrow> t = PEmpty"
  using inline_shape [OF assms] ref_hash_shape [OF assms(1)] length_enc_Empty [of H]
  by (cases "length (enc H t) < 32") (auto simp: ref_inline)

lemma ref_list:
  assumes "hash_ok H" "pt_ok t" "rlp_isList (rlp_encode (ref_of H (item H t)))"
  shows "rlp_encode (ref_of H (item H t)) = enc H t"
  using assms(3) ref_hash_shape(2) [OF assms(1)] by (cases "length (enc H t) < 32") (simp_all add: ref_inline)

lemma sint_small: "n < 2 ^ 31 \<Longrightarrow> sint (word_of_nat n :: u32) = int n"
  by (simp add: sint_uint uint_nat small_u32 signed_take_bit_int_eq_self)

context node_store
begin

lemma ref_node:
  assumes "hash_ok H" "pt_ok t" "holds H d W" "cell H t \<subseteq> W"
    and "\<not> rlp_isList (rlp_encode (ref_of H (item H t)))" "\<not> rlp_isEmpty (rlp_encode (ref_of H (item H t)))"
  shows "node_of D (rlp_encode (ref_of H (item H t))) d = Inr (enc H t)"
proof -
  have "t \<noteq> PEmpty" using assms(6) ref_empty [OF assms(1,2)] by blast
  then have big: "\<not> length (enc H t) < 32"
    using assms(5) inline_shape(2) [OF assms(1,2)] ref_inline(1) [of H t] by auto
  then have "do_lookup D d (H (enc H t)) = enc H t" using holds_lookup [OF assms(3)] assms(4) by (simp add: cell_def)
  moreover have "RLP (enc H t) VeryStrict = Inr (enc H t)" unfolding enc_def by (rule RLP_item [OF fits_item [OF assms(1,2)]])
  ultimately show ?thesis
    using big assms(1) by (simp add: node_of_def ref_inline rlp_toHash_item del: rlp_encode.simps)
qed

section \<open>Storing\<close>

lemma holds_killNode [simp]: "holds H d W \<Longrightarrow> holds H (killNode D H n d) W"
  by (simp add: killNode_def holds_kill)

lemma holds_killNode_hash [simp]: "holds H d W \<Longrightarrow> holds H (killNode_hash D n h d) W"
  by (simp add: killNode_hash_def holds_kill)

lemma streamNode_ref:
  assumes "hash_ok H" "holds H d W" "inj_on H (W \<union> cell H t)"
    and "length xs < n" "length (encs (xs @ [ref_of H (item H t)])) < 2 ^ 64"
  shows "\<exists>d'. streamNode D H (part n xs) (enc H t) d = Inr (part n (xs @ [ref_of H (item H t)]), d') \<and> holds H d' (W \<union> cell H t)"
proof (cases "length (enc H t) < 32")
  case True
  then have "ref_of H (item H t) = item H t" "cell H t = {}" by (simp_all add: ref_of_def cell_def enc_def)
  then show ?thesis using True assms part_raw [of xs n "item H t"] by (simp add: streamNode_def enc_def)
next
  case False
  then have r: "ref_of H (item H t) = RStr (H (enc H t))" and c: "cell H t = {enc H t}"
    by (simp_all add: ref_of_def cell_def enc_def)
  have "length (H (enc H t)) < 2 ^ 64" using assms(1) by simp
  then have "appendHash (H (enc H t)) False False (part n xs) = Inr (part n (xs @ [RStr (H (enc H t))]))"
    using part_bytes assms(4,5) unfolding r by (simp add: appendHash_def)
  moreover have "holds H (do_insert D (H (enc H t)) (enc H t) d) (insert (enc H t) W)"
    using holds_insert [OF assms(2)] assms(3) c by simp
  ultimately show ?thesis using False r c by (simp add: streamNode_def forceInsertNode_def Let_def)
qed

lemma mergeAtAux_ref:
  assumes "hash_ok H" "pt_ok t" "holds H d W" "cell H t \<subseteq> W"
    and rec: "\<And>i. \<exists>d'. rec (enc H t) i d = Some (Inr (enc H t', d')) \<and> holds H d' V"
    and "inj_on H (V \<union> cell H t')" "length xs < n" "length (encs (xs @ [ref_of H (item H t')])) < 2 ^ 64"
  shows "\<exists>d'. mergeAtAux D H rec (part n xs) (rlp_encode (ref_of H (item H t))) d = Some (Inr (part n (xs @ [ref_of H (item H t')]), d')) \<and>
    holds H d' (V \<union> cell H t')"
proof -
  let ?o = "rlp_encode (ref_of H (item H t))"
  have null: "\<not> rlp_isNull (enc H t)" unfolding enc_def by (rule rlp_isNull_item [OF fits_item [OF assms(1,2)]])
  have e: "\<exists>i. (if \<not> rlp_isList ?o \<and> \<not> rlp_isEmpty ?o
      then bindE (node_of D ?o d) (\<lambda>r. bindE (require (\<not> rlp_isNull r)) (\<lambda>_. Inr (r, True)))
      else Inr (?o, False)) = Inr (enc H t, i)"
  proof (cases "\<not> rlp_isList ?o \<and> \<not> rlp_isEmpty ?o")
    case True
    then show ?thesis using ref_node [OF assms(1-4)] null by (simp add: require_def) blast
  next
    case False
    then have "?o = enc H t"
      using ref_list [OF assms(1,2)] ref_empty [OF assms(1,2)] ref_inline(1) [of H t] length_enc_Empty [of H] by auto
    then show ?thesis using False by auto
  qed
  then obtain i where i: "(if \<not> rlp_isList ?o \<and> \<not> rlp_isEmpty ?o
      then bindE (node_of D ?o d) (\<lambda>r. bindE (require (\<not> rlp_isNull r)) (\<lambda>_. Inr (r, True)))
      else Inr (?o, False)) = Inr (enc H t, i)" by blast
  obtain d' where d': "rec (enc H t) (\<not> i) d = Some (Inr (enc H t', d'))" "holds H d' V" using rec by blast
  show ?thesis
    using streamNode_ref [OF assms(1) d'(2) assms(6-8)] d'(1) unfolding mergeAtAux_def i by simp
qed

section \<open>Placing a value\<close>

lemma place_empty:
  assumes "ns_ok key" "key_ok (nibs key)" "val_ok v"
  shows "place D H (enc H PEmpty) key v d = Inr (enc H (PLeaf (nibs key) v), killNode D H (enc H PEmpty) d)"
  using hexPrefixEncode_all [OF assms(1), of 0 True] pair_write_value [OF small_two(2) [OF assms(2,3)]] enc_empty [of H]
  by (simp add: place_def enc_simps del: rlp_encode.simps)

lemma place_leaf:
  assumes "pt_ok (PLeaf k w)" "val_ok v"
  shows "place D H (enc H (PLeaf k w)) key v d = Inr (enc H (PLeaf k v), killNode D H (enc H (PLeaf k w)) d)"
proof -
  have k: "key_ok k" using assms(1) by simp
  note r = leaf_read [where H = H, OF k assms(1)]
  note s = small_two(2) [OF k assms(2), of True]
  have n0: "rlp_nth (enc H (PLeaf k w)) 0 = Inr (rlp_encode (RStr (hp k True)))"
    using rlp_nth_item [OF small_fits [OF small_leaf [OF assms(1)]], of 0] by (simp add: enc_simps del: rlp_encode.simps)
  have v: "length v < 2 ^ 64" using assms(2) by (simp add: val_ok_def)
  have "appendItem (enc H (PLeaf k w)) 0 (part 2 []) = Inr (part 2 [RStr (hp k True)])"
    using part_item [OF n0, of "[]" 2] small_prefix [of "[RStr (hp k True)]" "[RStr v]"] s by (simp del: rlp_encode.simps)
  moreover have "appendBytes v False (part 2 [RStr (hp k True)]) = Inr (part 2 [RStr (hp k True), RStr v])"
    using part_bytes [of "[RStr (hp k True)]" 2 v] small_64 [OF s] v by simp
  moreover have "[0..<2 - 1] = [0]" by (simp add: upt_rec)
  ultimately show ?thesis
    using r unfolding place_def Let_def by (simp add: require_def part_start part_out enc_simps(2) [of H k v] del: rlp_encode.simps upt_Suc)
qed

lemma place_branch:
  assumes "hash_ok H" "pt_ok (PBranch ts w)" "val_ok v"
  shows "place D H (enc H (PBranch ts w)) key v d = Inr (enc H (PBranch ts v), killNode D H (enc H (PBranch ts w)) d)"
proof -
  let ?is = "map (ref_of H) (map (item H) ts)"
  have len: "length (map (item H) ts) = 16" using assms(2) by simp
  note r = children_read [OF assms(1,2) len]
  have new: "pt_ok (PBranch ts v)" using assms(2,3) by simp
  note s = small_children [OF assms(1) new]
  have v: "length v < 2 ^ 64" using assms(3) by (simp add: val_ok_def)
  have "foldE (appendItem (enc H (PBranch ts w))) [0..<16] (part 17 []) = Inr (part 17 ([] @ take (16 - 0) (drop 0 (?is @ [RStr w]))))"
    unfolding enc_simps
    by (rule part_items) (use len s small_fits [OF small_children [OF assms(1,2)]] small_prefix [of ?is "[RStr v]"] in auto)
  moreover have "appendBytes v False (part 17 ?is) = Inr (part 17 (?is @ [RStr v]))"
    by (rule part_bytes) (use len v small_64 [OF s] in simp_all)
  ultimately show ?thesis
    using r len unfolding place_def Let_def
    by (simp add: require_def part_start part_out enc_simps(4) [of H ts v] del: rlp_encode.simps upt_Suc upt_rec_numeral)
qed

section \<open>Splitting a pair\<close>

lemma cleve_eq:
  assumes "hash_ok H" "holds H d W" "inj_on H (W \<union> cell H b)"
    and nd: "nd = rlp_encode (RList [RStr (hp k leaf), x])" "key_ok k" "small [RStr (hp k leaf), x]" "0 < n" "n \<le> length k"
    and b: "item H b = RList [RStr (hp (drop n k) leaf), x]" "pt_ok b" "small [RStr (hp (drop n k) leaf), x]"
  shows "\<exists>d'. cleve D H nd (word_of_nat n) d = Inr (enc H (PExt (take n k) b), d') \<and> holds H d' (W \<union> cell H b)"
proof -
  note r = pair_read [OF nd(2,3), folded nd(1)]
  obtain s where s: "keyOf_node nd = Inr s" "ns_ok s" "nibs s = k" using r(8) by blast
  have n31: "n < 2 ^ 31" using nd(2,5) by (simp add: key_ok_def)
  have sz: "word_of_nat n \<noteq> (0 :: u32)" "word_of_nat n \<le> ns_size s"
    using nd(4,5) s(3) ns_ok_bounds(2) [OF s(2)] by (simp_all add: word_unat_eq_iff word_le_nat_alt small_u32 [OF n31])
  have keys: "hexPrefixEncode s leaf (int n) (-1) = Inr (hp (drop n k) leaf)" "hexPrefixEncode s False 0 (int n) = Inr (hp (take n k) False)"
    using hexPrefixEncode_all [OF s(2), of n leaf] hexPrefixEncode_range [OF s(2), of 0 n False] s(3) nd(5) by simp_all
  have bottom: "rlpList2 (hp (drop n k) leaf) (appendItem nd (Suc 0)) = Inr (enc H b)"
    unfolding enc_def b(1) by (rule pair_write [OF b(3) r(6)])
  have tk: "key_ok (take n k)" using nd(2) by simp
  note st = small_two(1) [OF tk assms(1) fits_item [OF assms(1) b(2)], of False]
  have top: "appendBytes (hp (take n k) False) False (part 2 []) = Inr (part 2 [RStr (hp (take n k) False)])"
    using part_bytes [of "[]" 2 "hp (take n k) False"] length_hp_le [OF tk, of False] small_prefix [of "[RStr (hp (take n k) False)]" "[ref_of H (item H b)]"] st
    by simp
  obtain d' where d': "streamNode D H (part 2 [RStr (hp (take n k) False)]) (enc H b) (killNode D H nd d) =
      Inr (part 2 [RStr (hp (take n k) False), ref_of H (item H b)], d')" "holds H d' (W \<union> cell H b)"
    using streamNode_ref [OF assms(1) holds_killNode [OF assms(2)] assms(3), of "[RStr (hp (take n k) False)]" 2 nd] small_64 [OF st] by auto
  show ?thesis
    using d' r s(1) sz keys bottom top
    by (simp add: cleve_def Let_def require_def sint_small [OF n31] part_start part_out enc_simps(3) del: rlp_encode.simps)
qed

lemma branch_value:
  assumes "hash_ok H" "val_ok v"
  shows "branch D H (enc H (PLeaf [] v)) d = Inr (enc H (pbranch (PLeaf [] v)), killNode D H (enc H (PLeaf [] v)) d)"
proof -
  have ok: "pt_ok (PLeaf [] v)" using assms(2) by simp
  note r = leaf_read [where H = H, OF key_ok_simps(1) ok]
  obtain s where s: "keyOf_node (enc H (PLeaf [] v)) = Inr s" "ns_ok s" "nibs s = []" using r(8) by blast
  have "ns_size s = 0" using ns_ok_bounds(2) [OF s(2)] s(3) by (simp add: word_unat_eq_iff)
  moreover have "small (map (ref_of H) (map (item H) (replicate 16 PEmpty)) @ [RStr v])"
    by (rule small_children [OF assms(1)]) (use assms(2) in simp)
  then have sm: "small (replicate 16 (RStr []) @ [RStr v])" by simp
  have "appendEmpties 16 (part 17 []) = Inr (part 17 (replicate 16 (RStr [])))"
    using part_empties [of "[]" 16 17] small_prefix [OF sm] by simp
  moreover have "appendItem (enc H (PLeaf [] v)) (Suc 0) (part 17 (replicate 16 (RStr []))) = Inr (part 17 (replicate 16 (RStr []) @ [RStr v]))"
    by (rule part_item [OF r(6)]) (use small_64 [OF sm] in simp_all)
  ultimately show ?thesis
    using r s(1) by (simp add: branch_def Let_def require_def part_start part_out enc_simps(4) del: rlp_encode.simps replicate.simps)
qed

lemma children_update:
  "i < 16 \<Longrightarrow> map (ref_of H) (map (item H) ((replicate 16 PEmpty)[i := t])) =
     replicate i (RStr []) @ ref_of H (item H t) # replicate (15 - i) (RStr [])"
  by (simp add: map_update upd_conv_take_nth_drop)

lemma branch_child:
  assumes "hash_ok H" "holds H d W" "inj_on H (W \<union> cell H t)"
    and nd: "nd = rlp_encode (RList [RStr (hp (c # k) leaf), x])" "key_ok (c # k)" "small [RStr (hp (c # k) leaf), x]"
    and t: "pt_ok t"
      "if leaf \<or> k \<noteq> [] then item H t = RList [RStr (hp k leaf), x] \<and> small [RStr (hp k leaf), x] else x = ref_of H (item H t) \<and> cell H t \<subseteq> W"
  shows "\<exists>d'. branch D H nd d = Inr (enc H (PBranch ((replicate 16 PEmpty)[unat c := t]) []), d') \<and> holds H d' (W \<union> cell H t)"
proof -
  note r = pair_read [OF nd(2,3), folded nd(1)]
  obtain s where s: "keyOf_node nd = Inr s" "ns_ok s" "nibs s = c # k" using r(8) by blast
  have c: "unat c < 16" using nd(2) by simp
  note b = ns_ok_bounds(2) [OF s(2), unfolded s(3)]
  have sz: "ns_size s \<noteq> 0" "ns_size s > 1 \<longleftrightarrow> k \<noteq> []" using b by (auto simp: word_less_nat_alt)
  have at0: "ns_at s 0 = Inr c" using ns_at_nth [OF s(2), of 0] s(3) by simp
  have mid: "ns_ok (ns_mid s 1)" "nibs (ns_mid s 1) = k" using ns_mid_nibs [OF s(2), of 1] s(3) by simp_all
  define pre where "pre = replicate (unat c) (RStr [])"
  define post where "post = replicate (15 - unat c) (RStr [])"
  let ?r = "ref_of H (item H t)"
  have lpre: "length pre = unat c" and lpost: "length post = 15 - unat c" by (simp_all add: pre_def post_def)
  have ch: "map (ref_of H) (map (item H) ((replicate 16 PEmpty)[unat c := t])) = pre @ ?r # post"
    unfolding pre_def post_def by (rule children_update [OF c])
  have "pt_ok (PBranch ((replicate 16 PEmpty)[unat c := t]) [])" using t(1) by (simp add: list_all_set_nth)
  note sm = small_children [OF assms(1) this, unfolded ch]
  have pr: "small (pre @ [?r])" "small (pre @ ?r # post)" using sm by (auto simp: small_def)
  have e1: "appendEmpties (unat c) (part 17 []) = Inr (part 17 pre)"
    using part_empties [of "[]" "unat c" 17] c small_64 [OF pr(1)] by (simp add: pre_def)
  have e2: "\<exists>d'. (if leaf \<or> ns_size s > 1 then
        bindE (hexPrefixEncode (ns_mid s 1) leaf 0 (-1)) (\<lambda>key.
        bindE (rlpList2 key (appendItem nd (Suc 0))) (\<lambda>n. streamNode D H (part 17 pre) n (killNode D H nd d)))
      else bindE (appendItem nd (Suc 0) (part 17 pre)) (\<lambda>r. Inr (r, killNode D H nd d))) = Inr (part 17 (pre @ [?r]), d') \<and>
      holds H d' (W \<union> cell H t)"
  proof (cases "leaf \<or> k \<noteq> []")
    case True
    then have i: "item H t = RList [RStr (hp k leaf), x]" "small [RStr (hp k leaf), x]" using t(2) by simp_all
    have "hexPrefixEncode (ns_mid s 1) leaf 0 (-1) = Inr (hp k leaf)" using hexPrefixEncode_all [OF mid(1), of 0 leaf] mid(2) by simp
    moreover have "rlpList2 (hp k leaf) (appendItem nd (Suc 0)) = Inr (enc H t)"
      unfolding enc_def i(1) by (rule pair_write [OF i(2) r(6)])
    moreover have "length pre < 17" using c lpre by simp
    note streamNode_ref [OF assms(1) holds_killNode [OF assms(2)] assms(3) this small_64 [OF pr(1)], of nd]
    ultimately show ?thesis using True sz(2) by simp
  next
    case False
    then have x: "x = ?r" "W \<union> cell H t = W" using t(2) by auto
    have "appendItem nd (Suc 0) (part 17 pre) = Inr (part 17 (pre @ [?r]))"
      using part_item [OF r(6), of pre 17] x(1) c lpre small_64 [OF pr(1)] by simp
    then show ?thesis using False sz(2) assms(2) x(2) by simp
  qed
  have e3: "appendEmpties (15 - unat c) (part 17 (pre @ [?r])) = Inr (part 17 (pre @ ?r # post))"
    using part_empties [of "pre @ [?r]" "15 - unat c" 17] c lpre small_64 [OF pr(2)] by (simp add: post_def)
  have e4: "appendBytes [] False (part 17 (pre @ ?r # post)) = Inr (part 17 (pre @ ?r # post @ [RStr []]))"
    using part_bytes [of "pre @ ?r # post" 17 "[]"] c lpre lpost small_64 [OF sm] by simp
  have out: "rlp_out (part 17 (pre @ ?r # post @ [RStr []])) = Inr (enc H (PBranch ((replicate 16 PEmpty)[unat c := t]) []))"
    unfolding enc_simps ch using part_out [of "pre @ ?r # post @ [RStr []]" 17] c lpre lpost by simp
  from e2 obtain d' where d': "(if leaf \<or> ns_size s > 1 then
        bindE (hexPrefixEncode (ns_mid s 1) leaf 0 (-1)) (\<lambda>key.
        bindE (rlpList2 key (appendItem nd (Suc 0))) (\<lambda>n. streamNode D H (part 17 pre) n (killNode D H nd d)))
      else bindE (appendItem nd (Suc 0) (part 17 pre)) (\<lambda>r. Inr (r, killNode D H nd d))) = Inr (part 17 (pre @ [?r]), d')"
      "holds H d' (W \<union> cell H t)" by blast
  have "branch D H nd d = Inr (enc H (PBranch ((replicate 16 PEmpty)[unat c := t]) []), d')"
    unfolding branch_def Let_def One_nat_def
    using r(3,4,5) s(1) sz(1) at0 e1 d'(1) e3 e4 out
    by (simp add: require_def part_start if_not_P del: rlp_encode.simps split del: if_split)
  then show ?thesis using d'(2) by blast
qed

section \<open>Lookup\<close>

lemma ref_view:
  assumes "hash_ok H" "pt_ok t" "t \<noteq> PEmpty" "holds H d W" "cell H t \<subseteq> W"
  shows "(if rlp_isList (rlp_encode (ref_of H (item H t))) then Inr (rlp_encode (ref_of H (item H t)))
    else node_of D (rlp_encode (ref_of H (item H t))) d) = Inr (enc H t)"
  using ref_list [OF assms(1,2)] ref_node [OF assms(1,2,4,5)] ref_empty [OF assms(1,2)] assms(3) by simp

theorem atAux_plook:
  assumes "hash_ok H" "holds H d W"
  shows "pt_ok t \<Longrightarrow> below H t \<subseteq> W \<Longrightarrow> ns_ok key \<Longrightarrow> atAux D d (enc H t) key = Some (Inr (plook t (nibs key)))"
proof (induction t arbitrary: key)
  case PEmpty
  then show ?case using enc_empty [of H] by (subst atAux.simps) simp
next
  case (PLeaf k v)
  then have k: "key_ok k" "rlp_fits (RStr v)" using fits_val [of v] by (simp_all only: pt_ok.simps)
  note r = leaf_read [where H = H, OF k(1) PLeaf.prems(1)]
  obtain s where s: "keyOf_node (enc H (PLeaf k v)) = Inr s" "ns_ok s" "nibs s = k" using r(8) by blast
  show ?case
    using r s PLeaf.prems rlp_toBytes_item [OF k(2)]
    by (subst atAux.simps) (simp add: require_def ns_eq_nibs ns_contains_prefix del: rlp_encode.simps)
next
  case (PExt k t)
  then have k: "key_ok k" "pt_ok t" "cell H t \<subseteq> W" "below H t \<subseteq> W" "t \<noteq> PEmpty" by simp_all
  note r = ext_read [OF k(1) assms(1) PExt.prems(1)]
  obtain s where s: "keyOf_node (enc H (PExt k t)) = Inr s" "ns_ok s" "nibs s = k" using r(8) by blast
  have sz: "unat (ns_size s) = length k" using ns_ok_bounds(2) [OF s(2)] s(3) by simp
  show ?case
  proof (cases "take (length k) (nibs key) = k")
    case True
    then have "length k \<le> length (nibs key)" by (metis length_take min.cobounded1 min.absorb_iff1 nat_le_linear take_all)
    note m = ns_mid_nibs [OF PExt.prems(3), of "ns_size s", unfolded sz, OF this]
    have "atAux D d (enc H t) (ns_mid key (ns_size s)) = Some (Inr (plook t (drop (length k) (nibs key))))"
      using PExt.IH [OF k(2,4) m(1)] m(2) by simp
    then show ?thesis
      using r s PExt.prems True ref_view [OF assms(1) k(2,5) assms(2) k(3)]
      by (subst atAux.simps) (simp add: require_def ns_eq_nibs ns_contains_prefix del: rlp_encode.simps)
  next
    case False
    then show ?thesis
      using r s PExt.prems by (subst atAux.simps) (simp add: require_def ns_eq_nibs ns_contains_prefix del: rlp_encode.simps)
  qed
next
  case (PBranch ts v)
  have len: "length (map (item H) ts) = 16" using PBranch.prems(1) by simp
  note r = children_read [OF assms(1) PBranch.prems(1) len]
  show ?case
  proof (cases "nibs key")
    case Nil
    then have "ns_size key = 0" using ns_ok_bounds(2) [OF PBranch.prems(3)] by (simp add: word_unat_eq_iff)
    moreover have "rlp_toBytes (rlp_encode (RStr v)) = Inr v"
      by (rule rlp_toBytes_item, rule fits_val) (use PBranch.prems(1) in simp)
    ultimately show ?thesis
      using r Nil by (subst atAux.simps) (simp add: require_def del: rlp_encode.simps)
  next
    case (Cons n ks)
    then have nz: "ns_size key \<noteq> 0" using ns_ok_bounds(2) [OF PBranch.prems(3)] by auto
    have n: "unat n < 16" using nibbles_ok_nibs [of key] Cons by (simp add: word_less_nat_alt)
    have at0: "ns_at key 0 = Inr n" using ns_at_nth [OF PBranch.prems(3), of 0] Cons by simp
    have mid: "ns_ok (ns_mid key 1)" "nibs (ns_mid key 1) = ks"
      using ns_mid_nibs [OF PBranch.prems(3), of 1] Cons by simp_all
    have c: "ts ! unat n \<in> set ts" "pt_ok (ts ! unat n)" "cell H (ts ! unat n) \<subseteq> W" "below H (ts ! unat n) \<subseteq> W"
      using n PBranch.prems(1,2) below_child [of "unat n" ts H v] by (auto simp: list_all_length simp del: below.simps)
    have rn: "rlp_nth (enc H (PBranch ts v)) (unat n) = Inr (rlp_encode (ref_of H (item H (ts ! unat n))))"
      using r(7) [OF n] n PBranch.prems(1) by simp
    show ?thesis
    proof (cases "ts ! unat n = PEmpty")
      case True
      then show ?thesis
        using r rn nz at0 Cons n PBranch.prems(1) ref_empty [OF assms(1) c(2)]
        by (subst atAux.simps) (simp add: require_def del: rlp_encode.simps)
    next
      case False
      then show ?thesis
        using r rn nz at0 Cons n PBranch.prems(1) ref_empty [OF assms(1) c(2)] ref_view [OF assms(1) c(2) False assms(2) c(3)]
          PBranch.IH [OF c(1,2,4) mid(1)] mid(2)
        by (subst atAux.simps) (simp add: require_def del: rlp_encode.simps)
    qed
  qed
qed

section \<open>Insertion\<close>

text \<open>A pair that does not lie on the key's path is split as \<open>psplit\<close> says.\<close>

definition split_node :: "hash_fun \<Rightarrow> bytes \<Rightarrow> bytes \<Rightarrow> bytes \<Rightarrow> 'd \<Rightarrow> (bytes \<times> 'd) result" where
  "split_node H ks k nd d = (if lcp ks k \<noteq> 0 then cleve D H nd (word_of_nat (lcp ks k)) d else branch D H nd d)"

lemma split_leaf:
  assumes "hash_ok H" "pt_ok (PLeaf k w)" "holds H d W" "inj_on H (W \<union> below H (psplit ks k (PLeaf k w)))"
  shows "\<exists>d'. split_node H ks k (enc H (PLeaf k w)) d = Inr (enc H (psplit ks k (PLeaf k w)), d') \<and>
    holds H d' (W \<union> below H (psplit ks k (PLeaf k w)))"
proof (cases "lcp ks k = 0")
  case False
  have k: "key_ok k" "pt_ok (PLeaf (drop (lcp ks k) k) w)" using assms(2) by simp_all
  then show ?thesis
    using False cleve_eq [OF assms(1,3), of "PLeaf (drop (lcp ks k) k) w" "enc H (PLeaf k w)" k True "RStr w" "lcp ks k" ]
      small_leaf [OF assms(2)] small_leaf [OF k(2)] lcp_le(2) [of ks k] assms(4)
    by (simp add: split_node_def psplit_def enc_simps del: rlp_encode.simps)
next
  case True
  show ?thesis
  proof (cases k)
    case Nil
    have "below H (pbranch (PLeaf [] w)) = {}" using length_enc_Empty [of H] by (simp add: cell_def)
    then show ?thesis
      using True Nil branch_value [OF assms(1), of w d] assms(2,3) by (simp add: split_node_def psplit_def)
  next
    case (Cons c k')
    have c: "pt_ok (PLeaf k' w)" "unat c < 16" using assms(2) Cons by auto
    have b: "below H (PBranch ((replicate 16 PEmpty)[unat c := PLeaf k' w]) []) = cell H (PLeaf k' w)"
      using c(2) length_enc_Empty [of H] by (auto simp: cell_def upd_conv_take_nth_drop)
    show ?thesis
      using True Cons branch_child [OF assms(1,3), of "PLeaf k' w" "enc H (PLeaf k w)" c k' True "RStr w"]
        small_leaf [OF assms(2)] small_leaf [OF c(1)] assms(2,4) c(1) b
      by (simp add: split_node_def psplit_def enc_simps(2) [of H "c # k'"] del: rlp_encode.simps below.simps)
  qed
qed

lemma split_ext:
  assumes "hash_ok H" "pt_ok (PExt k t)" "\<not> goes_down ks (PExt k t)" "holds H d W" "below H (PExt k t) \<subseteq> W"
    "inj_on H (W \<union> below H (psplit ks k (PExt k t)))"
  shows "\<exists>d'. split_node H ks k (enc H (PExt k t)) d = Inr (enc H (psplit ks k (PExt k t)), d') \<and>
    holds H d' (W \<union> below H (psplit ks k (PExt k t)))"
proof -
  have sub: "cell H t \<union> below H t \<subseteq> W" using assms(5) by simp
  show ?thesis
  proof (cases "lcp ks k = 0")
    case False
    have "lcp ks k < length k" using assms(2,3) lcp_prefix [of ks k] lcp_le(2) [of ks k] by simp
    then have k: "key_ok k" "pt_ok (PExt (drop (lcp ks k) k) t)" using assms(2) by simp_all
    have "W \<union> below H (psplit ks k (PExt k t)) = W \<union> cell H (PExt (drop (lcp ks k) k) t)"
      using False sub by (auto simp: psplit_def)
    then show ?thesis
      using False cleve_eq [OF assms(1,4), of "PExt (drop (lcp ks k) k) t" "enc H (PExt k t)" k False "ref_of H (item H t)" "lcp ks k"]
        small_ext [OF assms(1,2)] small_ext [OF assms(1) k(2)] lcp_le(2) [of ks k] assms(6) k
      by (simp add: split_node_def psplit_def enc_simps del: rlp_encode.simps below.simps)
  next
    case True
    obtain c k' where k: "k = c # k'" using assms(2) by (cases k) auto
    define u where "u = (if k' = [] then t else PExt k' t)"
    have c: "pt_ok u" "unat c < 16" using assms(2) k by (auto simp: u_def)
    have p: "psplit ks k (PExt k t) = PBranch ((replicate 16 PEmpty)[unat c := u]) []" using True k by (simp add: psplit_def u_def)
    have "below H (psplit ks k (PExt k t)) = cell H u \<union> below H u"
      using c(2) length_enc_Empty [of H] unfolding p by (auto simp: cell_def upd_conv_take_nth_drop)
    then have b: "W \<union> below H (psplit ks k (PExt k t)) = W \<union> cell H u" using sub by (auto simp: u_def)
    have x: "if False \<or> k' \<noteq> [] then item H u = RList [RStr (hp k' False), ref_of H (item H t)] \<and> small [RStr (hp k' False), ref_of H (item H t)]
        else ref_of H (item H t) = ref_of H (item H u) \<and> cell H u \<subseteq> W"
      using small_ext [OF assms(1), of k' t] c(1) sub by (auto simp: u_def)
    show ?thesis
      using True branch_child [OF assms(1,4), of u "enc H (PExt k t)" c k' False "ref_of H (item H t)"]
        small_ext [OF assms(1,2)] assms(2,6) c(1) x k unfolding b
      by (simp add: split_node_def p [unfolded k] enc_simps(3) [of H "c # k'"] del: rlp_encode.simps below.simps)
  qed
qed

lemma RLP_enc: "hash_ok H \<Longrightarrow> pt_ok t \<Longrightarrow> RLP (enc H t) VeryStrict = Inr (enc H t)"
  unfolding enc_def by (rule RLP_item [OF fits_item])

lemma mergeAt_split:
  assumes "hash_ok H" "pt_ok t" "ns_ok key" "key_ok k" "small [RStr (hp k leaf), x]"
    and nd: "nd = rlp_encode (RList [RStr (hp k leaf), x])"
    and "\<not> (nibs key = k \<and> leaf)" "\<not> (take (length k) (nibs key) = k \<and> \<not> leaf)"
    and sp: "split_node H (nibs key) k nd d = Inr (enc H t, d')"
  shows "mergeAt D H key v nd oh inl d = mergeAt D H key v (enc H t) (H (enc H t)) True d'"
proof -
  note r = pair_read [OF assms(4,5), folded nd]
  obtain s where s: "keyOf_node nd = Inr s" "ns_ok s" "nibs s = k" using r(8) by blast
  have sh: "word_of_nat (lcp (nibs key) k) \<noteq> (0 :: u32) \<longleftrightarrow> lcp (nibs key) k \<noteq> 0"
    using lcp_u32 [OF assms(3), of k] by (simp add: word_unat_eq_iff)
  show ?thesis
    using r s assms(3,7,8) sp RLP_enc [OF assms(1,2)] sh
    by (subst mergeAt.simps)
      (auto simp: require_def ns_eq_nibs ns_contains_prefix ns_shared_lcp split_node_def simp del: rlp_encode.simps)
qed

text \<open>A branch is copied but for one child.\<close>

lemma branch_stream:
  assumes "hash_ok H" "pt_ok (PBranch ts w)" "k < 16" "pt_ok t"
  obtains pre r where "length pre = k" "length (encs (pre @ [ref_of H (item H t)])) < 2 ^ 64"
    "foldE (appendItem (enc H (PBranch ts w))) [0..<k] (part 17 []) = Inr (part 17 pre)"
    "foldE (appendItem (enc H (PBranch ts w))) [Suc k..<17] (part 17 (pre @ [ref_of H (item H t)])) = Inr r"
    "rlp_out r = Inr (enc H (PBranch (ts[k := t]) w))"
proof -
  define pre where "pre = take k (map (ref_of H) (map (item H) ts))"
  define post where "post = drop (Suc k) (map (ref_of H) (map (item H) ts))"
  let ?r = "ref_of H (item H t)" and ?old = "ref_of H (item H (ts ! k))"
  have len: "length ts = 16" using assms(2) by simp
  have old: "map (ref_of H) (map (item H) ts) = pre @ ?old # post"
    unfolding pre_def post_def using assms(3) len id_take_nth_drop [of k "map (ref_of H) (map (item H) ts)"] by (simp add: take_map drop_map)
  have new: "map (ref_of H) (map (item H) (ts[k := t])) = pre @ ?r # post"
    unfolding pre_def post_def map_update by (rule upd_conv_take_nth_drop) (use assms(3) len in simp)
  have lens: "length pre = k" "length post = 15 - k" using assms(3) len by (simp_all add: pre_def post_def)
  have "pt_ok (PBranch (ts[k := t]) w)" using assms(2,4) by (simp add: list_all_set_nth)
  note sm = small_children [OF assms(1) this, unfolded new]
  have pr: "length (encs (pre @ [?r])) < 2 ^ 64" "length (encs pre) < 2 ^ 64" using sm by (auto simp: small_def)
  have ts: "enc H (PBranch ts w) = rlp_encode (RList (pre @ ?old # post @ [RStr w]))" unfolding enc_simps old by simp
  have fit: "rlp_fits (RList (pre @ ?old # post @ [RStr w]))"
    using small_fits [OF small_children [OF assms(1,2)]] unfolding old by simp
  have "foldE (appendItem (enc H (PBranch ts w))) [0..<k] (part 17 []) = Inr (part 17 pre)"
    using part_items [OF fit, of k 0 "[]" 17] assms(3) lens pr(2) unfolding ts by (simp del: rlp_encode.simps rlp_fits.simps upt_Suc)
  moreover have "foldE (appendItem (enc H (PBranch ts w))) [Suc k..<17] (part 17 (pre @ [?r])) = Inr (part 17 (pre @ ?r # post @ [RStr w]))"
    using part_items [OF fit, of 17 "Suc k" "pre @ [?r]" 17] assms(3) lens small_64 [OF sm] unfolding ts
    by (simp del: rlp_encode.simps rlp_fits.simps upt_Suc)
  moreover have "rlp_out (part 17 (pre @ ?r # post @ [RStr w])) = Inr (enc H (PBranch (ts[k := t]) w))"
    unfolding enc_simps new using part_out [of "pre @ ?r # post @ [RStr w]" 17] lens assms(3) by simp
  ultimately show ?thesis using that lens(1) pr(1) by blast
qed

theorem mergeAt_pins:
  assumes "hash_ok H"
  shows "pt_ok t \<Longrightarrow> ks = nibs key \<Longrightarrow> key_ok ks \<Longrightarrow> ns_ok key \<Longrightarrow> val_ok v \<Longrightarrow> holds H d W \<Longrightarrow> below H t \<subseteq> W \<Longrightarrow>
    inj_on H (W \<union> pw H t ks v) \<Longrightarrow>
    \<exists>d'. mergeAt D H key v (enc H t) oh inl d = Some (Inr (enc H (pins t ks v), d')) \<and> holds H d' (W \<union> pw H t ks v)"
proof (induction t ks v arbitrary: key d W oh inl rule: pins.induct)
  case (1 ks v)
  then show ?case using enc_empty [of H] by (subst mergeAt.simps) (simp add: place_empty)
next
  case (2 k w ks v)
  have k: "key_ok k" using "2.prems"(1) by simp
  note r = leaf_read [where H = H, OF k "2.prems"(1)]
  obtain s where s: "keyOf_node (enc H (PLeaf k w)) = Inr s" "ns_ok s" "nibs s = k" using r(8) by blast
  show ?case
  proof (cases "ks = k")
    case True
    then have "mergeAt D H key v (enc H (PLeaf k w)) oh inl d = Some (place D H (enc H (PLeaf k w)) key v d)"
      using r s "2.prems"(2,4) by (subst mergeAt.simps) (simp add: require_def ns_eq_nibs ns_contains_prefix)
    then show ?thesis using True place_leaf [OF "2.prems"(1,5)] "2.prems"(6) by (simp add: pins_split pw_split)
  next
    case False
    let ?t = "psplit ks k (PLeaf k w)"
    have inj: "inj_on H (W \<union> below H ?t)" "inj_on H (W \<union> below H ?t \<union> pw H ?t ks v)"
      using "2.prems"(8) False by (auto simp: pw_split Un_assoc elim!: inj_on_subset)
    note ok = pt_ok_psplit(1) [OF "2.prems"(1), of ks]
    obtain d' where d': "split_node H ks k (enc H (PLeaf k w)) d = Inr (enc H ?t, d')" "holds H d' (W \<union> below H ?t)"
      using split_leaf [OF assms "2.prems"(1,6) inj(1)] by blast
    have "mergeAt D H key v (enc H (PLeaf k w)) oh inl d = mergeAt D H key v (enc H ?t) (H (enc H ?t)) True d'"
      by (rule mergeAt_split [OF assms ok "2.prems"(4) k small_leaf [OF "2.prems"(1)] enc_simps(2)])
        (use False "2.prems"(2) d'(1) in auto)
    then show ?thesis
      using "2.IH" [OF False ok "2.prems"(2-5) d'(2) _ inj(2)] False by (simp add: pins_split pw_split Un_assoc)
  qed
next
  case (3 k t ks v)
  have k: "key_ok k" using "3.prems"(1) by simp
  note r = ext_read [OF k assms "3.prems"(1)]
  obtain s where s: "keyOf_node (enc H (PExt k t)) = Inr s" "ns_ok s" "nibs s = k" using r(8) by blast
  show ?case
  proof (cases "k \<noteq> [] \<and> take (length k) ks = k")
    case True
    let ?ks = "drop (length k) ks" and ?t = "pins t (drop (length k) ks) v"
    define d0 where "d0 = (if \<not> inl then killNode_hash D (enc H (PExt k t)) oh d else d)"
    have d0: "holds H d0 W" using "3.prems"(6) by (simp add: d0_def)
    have t: "pt_ok t" "cell H t \<subseteq> W" "below H t \<subseteq> W" using "3.prems"(1,7) by simp_all
    have inj: "inj_on H (W \<union> pw H t ?ks v)" "inj_on H (W \<union> pw H t ?ks v \<union> cell H ?t)"
      using "3.prems"(8) True by (auto simp: pw_split Un_assoc elim!: inj_on_subset)
    have sz: "unat (ns_size s) = length k" using ns_ok_bounds(2) [OF s(2)] s(3) by simp
    have "length k \<le> length (nibs key)" using True "3.prems"(2) by (metis length_take min.cobounded1 min.absorb_iff1 nat_le_linear take_all)
    note m = ns_mid_nibs [OF "3.prems"(4), of "ns_size s", unfolded sz, OF this]
    have rec: "\<exists>d'. (\<lambda>r i e. mergeAt D H (ns_mid key (ns_size s)) v r (H r) i e) (enc H t) i d0 = Some (Inr (enc H ?t, d')) \<and>
        holds H d' (W \<union> pw H t ?ks v)" for i
      by (rule "3.IH"(1) [OF True t(1) _ _ m(1) "3.prems"(5) d0 t(3) inj(1)]) (use m(2) "3.prems"(2,3) in simp_all)
    have ok: "pt_ok ?t" by (rule pt_ok_pins) (use t(1) "3.prems"(3,5) in simp_all)
    note sm = small_two(1) [OF k assms fits_item [OF assms ok], of False]
    obtain d' where d': "mergeAtAux D H (\<lambda>r i e. mergeAt D H (ns_mid key (ns_size s)) v r (H r) i e) (part 2 [RStr (hp k False)])
        (rlp_encode (ref_of H (item H t))) d0 = Some (Inr (part 2 [RStr (hp k False), ref_of H (item H ?t)], d'))"
      "holds H d' (W \<union> pw H t ?ks v \<union> cell H ?t)"
      using mergeAtAux_ref [where rec = "\<lambda>r i e. mergeAt D H (ns_mid key (ns_size s)) v r (H r) i e" and xs = "[RStr (hp k False)]" and n = 2,
          OF assms t(1) d0 t(2) rec inj(2)] small_64 [OF sm] by auto
    have "rlp_nth (enc H (PExt k t)) 0 = Inr (rlp_encode (RStr (hp k False)))"
      using rlp_nth_item [OF small_fits [OF small_ext [OF assms "3.prems"(1)]], of 0] by (simp add: enc_simps del: rlp_encode.simps)
    from part_item [OF this, of "[]" 2] have "appendItem (enc H (PExt k t)) 0 (part 2 []) = Inr (part 2 [RStr (hp k False)])"
      using small_prefix [of "[RStr (hp k False)]" "[ref_of H (item H ?t)]"] sm by simp
    then show ?thesis
      using True r s d' "3.prems"(2,4) by (subst mergeAt.simps)
        (simp add: require_def ns_eq_nibs ns_contains_prefix part_start part_out pins_split pw_split enc_simps(3) [of H k "pins t (drop (length k) (nibs key)) v"]
          d0_def [symmetric] Un_assoc del: rlp_encode.simps)
  next
    case False
    let ?t = "psplit ks k (PExt k t)"
    have g: "\<not> goes_down ks (PExt k t)" using False by simp
    have nt: "take (length k) ks \<noteq> k" using False "3.prems"(1) by simp
    have inj: "inj_on H (W \<union> below H ?t)" "inj_on H (W \<union> below H ?t \<union> pw H ?t ks v)"
      using "3.prems"(8) False by (auto simp: pw_split Un_assoc elim!: inj_on_subset)
    note ok = pt_ok_psplit(2) [OF "3.prems"(1) g]
    obtain d' where d': "split_node H ks k (enc H (PExt k t)) d = Inr (enc H ?t, d')" "holds H d' (W \<union> below H ?t)"
      using split_ext [OF assms "3.prems"(1) g "3.prems"(6,7) inj(1)] by blast
    have "mergeAt D H key v (enc H (PExt k t)) oh inl d = mergeAt D H key v (enc H ?t) (H (enc H ?t)) True d'"
      by (rule mergeAt_split [OF assms ok "3.prems"(4) k small_ext [OF assms "3.prems"(1)] enc_simps(3)])
        (use nt "3.prems"(2) d'(1) in auto)
    then show ?thesis
      using "3.IH"(2) [OF False ok "3.prems"(2-5) d'(2) _ inj(2)] nt by (simp add: pins_split pw_split Un_assoc)
  qed
next
  case (4 ts w v)
  have len: "length (map (item H) ts) = 16" using "4.prems"(1) by simp
  note r = children_read [OF assms "4.prems"(1) len]
  have "ns_size key = 0" using ns_ok_bounds(2) [OF "4.prems"(4)] "4.prems"(2) [symmetric] by (simp add: word_unat_eq_iff)
  then show ?case
    using r place_branch [OF assms "4.prems"(1,5), of key d] "4.prems"(6) by (subst mergeAt.simps) (simp add: require_def)
next
  case (5 ts w n ks v)
  let ?k = "unat n" and ?t = "pins (ts ! unat n) ks v"
  have n: "?k < 16" "?k < length ts" using "5.prems"(1,3) by simp_all
  have key: "nibs key = n # ks" using "5.prems"(2) by simp
  have len: "length (map (item H) ts) = 16" using "5.prems"(1) by simp
  note r = children_read [OF assms "5.prems"(1) len]
  have nz: "ns_size key \<noteq> 0" using ns_ok_bounds(2) [OF "5.prems"(4)] key by auto
  have at0: "ns_at key 0 = Inr n" using ns_at_nth [OF "5.prems"(4), of 0] key by simp
  have mid: "ns_ok (ns_mid key 1)" "ks = nibs (ns_mid key 1)" using ns_mid_nibs [OF "5.prems"(4), of 1] key by simp_all
  have t: "pt_ok (ts ! ?k)" "cell H (ts ! ?k) \<subseteq> W" "below H (ts ! ?k) \<subseteq> W"
    using n "5.prems"(1,7) below_child [OF n(2), of H w] by (auto simp: list_all_length simp del: below.simps)
  have kk: "key_ok ks" using "5.prems"(3) by simp
  have ok: "pt_ok ?t" by (rule pt_ok_pins [OF t(1) kk "5.prems"(5)])
  define d0 where "d0 = (if \<not> inl then killNode_hash D (enc H (PBranch ts w)) oh d else d)"
  have d0: "holds H d0 W" using "5.prems"(6) by (simp add: d0_def)
  have inj: "inj_on H (W \<union> pw H (ts ! ?k) ks v)" "inj_on H (W \<union> pw H (ts ! ?k) ks v \<union> cell H ?t)"
    using "5.prems"(8) by (auto simp: Un_assoc elim!: inj_on_subset)
  have rec: "\<exists>d'. (\<lambda>r i e. mergeAt D H (ns_mid key 1) v r (H r) i e) (enc H (ts ! ?k)) i d0 = Some (Inr (enc H ?t, d')) \<and>
      holds H d' (W \<union> pw H (ts ! ?k) ks v)" for i
    by (rule "5.IH" [OF t(1) mid(2) kk mid(1) "5.prems"(5) d0 t(3) inj(1)])
  let ?r = "ref_of H (item H ?t)"
  obtain pre r' where pre: "length pre = ?k" "length (encs (pre @ [?r])) < 2 ^ 64"
      "foldE (appendItem (enc H (PBranch ts w))) [0..<?k] (part 17 []) = Inr (part 17 pre)"
      "foldE (appendItem (enc H (PBranch ts w))) [Suc ?k..<17] (part 17 (pre @ [?r])) = Inr r'"
      "rlp_out r' = Inr (enc H (PBranch (ts[?k := ?t]) w))"
    using branch_stream [OF assms "5.prems"(1) n(1) ok] by blast
  obtain d' where d': "mergeAtAux D H (\<lambda>r i e. mergeAt D H (ns_mid key 1) v r (H r) i e) (part 17 pre)
      (rlp_encode (ref_of H (item H (ts ! ?k)))) d0 = Some (Inr (part 17 (pre @ [?r]), d'))"
    "holds H d' (W \<union> pw H (ts ! ?k) ks v \<union> cell H ?t)"
    using mergeAtAux_ref [where rec = "\<lambda>r i e. mergeAt D H (ns_mid key 1) v r (H r) i e" and xs = pre and n = 17,
        OF assms t(1) d0 t(2) rec inj(2) _ pre(2)] pre(1) n by auto
  have rn: "rlp_nth (enc H (PBranch ts w)) ?k = Inr (rlp_encode (ref_of H (item H (ts ! ?k))))"
    using r(7) [OF n(1)] n by simp
  show ?case
    using r(1-6) rn nz at0 pre(3-5) d'
    by (subst mergeAt.simps) (simp add: require_def part_start d0_def [symmetric] Un_assoc del: rlp_encode.simps upt_Suc upt_rec_numeral)
qed

end

end
