(* ===== verification/TrieClaims.thy ===== *)
theory TrieClaims
  imports TrieRefine
begin

text \<open>
  The trie's operations over \<open>MemoryDB\<close>: what a sequence of insertions leaves, and what is read back.
\<close>

section \<open>Keys\<close>

lemma nibbles_of_byte: "(a :: byte) div 16 = b div 16 \<Longrightarrow> a mod 16 = b mod 16 \<Longrightarrow> a = b"
  by (metis div_mult_mod_eq)

lemma asNibbles_inj [simp]: "asNibbles x = asNibbles y \<longleftrightarrow> x = y"
proof
  show "asNibbles x = asNibbles y \<Longrightarrow> x = y"
  proof (induction x arbitrary: y rule: asNibbles.induct)
    case 1
    then show ?case by (cases y) simp_all
  next
    case (2 b x)
    then show ?case by (cases y) (auto intro: nibbles_of_byte)
  qed
qed simp

definition key_fits :: "bytes \<Rightarrow> bool" where
  "key_fits key \<longleftrightarrow> length key < 2 ^ 29"

lemma key_slice:
  assumes "key_fits key"
  shows "ns_ok (NibbleSlice key 0)" "nibs (NibbleSlice key 0) = asNibbles key" "key_ok (asNibbles key)"
  using assms by (simp_all add: key_fits_def ns_ok_def nibs_def NibbleSlice_def key_ok_def)

section \<open>The trie as a whole\<close>

context node_store
begin

text \<open>A trie object stands for \<open>t\<close>, and its database holds \<open>W\<close>.\<close>

definition stands_for :: "hash_fun \<Rightarrow> ptrie \<Rightarrow> bytes set \<Rightarrow> 'd trie \<Rightarrow> bool" where
  "stands_for H t W u \<longleftrightarrow> pt_ok t \<and> tr_root u = H (enc H t) \<and> holds H (tr_db u) W \<and> insert (enc H t) (below H t) \<subseteq> W"

lemma stands_root: "stands_for H t W u \<Longrightarrow> do_lookup D (tr_db u) (tr_root u) = enc H t"
  using holds_lookup [of H "tr_db u" W "enc H t"] by (simp add: stands_for_def)

lemma enc_nonempty: "hash_ok H \<Longrightarrow> pt_ok t \<Longrightarrow> enc H t \<noteq> []"
  unfolding enc_def by (rule rlp_encode_nonempty [OF fits_item])

lemma trie_at_eq:
  assumes "hash_ok H" "stands_for H t W u" "key_fits key"
  shows "trie_at D u key = Some (Inr (plook t (asNibbles key)))"
proof -
  have t: "pt_ok t" "holds H (tr_db u) W" "below H t \<subseteq> W" using assms(2) by (simp_all add: stands_for_def)
  note k = key_slice [OF assms(3)]
  show ?thesis
    using atAux_plook [OF assms(1) t(2,1,3) k(1)] k(2) RLP_enc [OF assms(1) t(1)]
    by (simp add: trie_at_def stands_root [OF assms(2)])
qed

lemma trie_insert_eq:
  assumes "hash_ok H" "stands_for H t W u" "key_fits key" "val_ok v"
    and "inj_on H (W \<union> pw H t (asNibbles key) v \<union> {enc H (pins t (asNibbles key) v)})"
  shows "\<exists>u'. trie_insert D H key v u = Some (Inr u') \<and>
    stands_for H (pins t (asNibbles key) v) (W \<union> pw H t (asNibbles key) v \<union> {enc H (pins t (asNibbles key) v)}) u'"
proof -
  let ?t = "pins t (asNibbles key) v" and ?W = "W \<union> pw H t (asNibbles key) v"
  have t: "pt_ok t" "holds H (tr_db u) W" "below H t \<subseteq> W" using assms(2) by (simp_all add: stands_for_def)
  note k = key_slice [OF assms(3)]
  have inj: "inj_on H ?W" by (rule inj_on_subset [OF assms(5)]) auto
  obtain d where d: "mergeAt D H (NibbleSlice key 0) v (enc H t) (tr_root u) False (tr_db u) = Some (Inr (enc H ?t, d))" "holds H d ?W"
    using mergeAt_pins [OF assms(1) t(1) k(2) [symmetric] k(3,1) assms(4) t(2,3) inj] by blast
  define d0 where "d0 = (if length (enc H t) < 32 then do_kill D (tr_root u) d else d)"
  have "holds H d0 ?W" using d(2) by (simp add: d0_def holds_kill)
  then have h: "holds H (do_insert D (H (enc H ?t)) (enc H ?t) d0) (?W \<union> {enc H ?t})" using holds_insert assms(5) by simp
  have "trie_insert D H key v u = Some (Inr (u\<lparr>tr_root := H (enc H ?t), tr_db := do_insert D (H (enc H ?t)) (enc H ?t) d0\<rparr>))"
    using d(1) RLP_enc [OF assms(1) t(1)] enc_nonempty [OF assms(1) t(1)]
    by (simp add: trie_insert_def Let_def require_def stands_root [OF assms(2)] forceInsertNode_def d0_def)
  moreover have "pt_ok ?t" by (rule pt_ok_pins [OF t(1) k(3) assms(4)])
  moreover have "below H ?t \<subseteq> ?W \<union> {enc H ?t}" using below_pins [OF t(1) k(3), of H v] t(3) by blast
  ultimately show ?thesis using h by (simp add: stands_for_def)
qed

lemma trie_init_eq:
  assumes "hash_ok H" "ok (tr_db u)"
  shows "\<exists>u'. trie_init D H u = Some (Inr u') \<and> stands_for H PEmpty {RLPNull} u'"
proof -
  have e: "enc H PEmpty = RLPNull" by (simp add: enc_simps RLPNull_def rlp_string_def rlp_header_def)
  let ?d = "do_insert D (H RLPNull) RLPNull (tr_db u)"
  have l: "do_lookup D ?d (H RLPNull) = RLPNull" "ok ?d" using lookup_insert [OF assms(2)] ok_insert [OF assms(2)] by simp_all
  have "RLPNull \<noteq> []" by (simp add: RLPNull_def)
  with l have ex: "do_exists D ?d (H RLPNull)" using exists_lookup [of ?d "H RLPNull"] by metis
  have "trie_init D H u = Some (Inr (u\<lparr>tr_db := ?d, tr_root := H RLPNull\<rparr>))"
    using l(1) ex \<open>RLPNull \<noteq> []\<close> by (simp add: trie_init_def forceInsertNode_def) (subst setRoot.simps, simp add: Let_def)
  moreover have "holds H ?d {RLPNull}" using l by (simp add: holds_def)
  ultimately show ?thesis by (simp add: stands_for_def e)
qed

end

section \<open>Sequences of insertions\<close>

fun trie_inserts :: "'d db_ops \<Rightarrow> hash_fun \<Rightarrow> (bytes \<times> bytes) list \<Rightarrow> 'd trie \<Rightarrow> 'd trie result option" where
  "trie_inserts D H [] u = Some (Inr u)"
| "trie_inserts D H ((key, v) # kvs) u = bindO (trie_insert D H key v u) (trie_inserts D H kvs)"

fun pins_all :: "(bytes \<times> bytes) list \<Rightarrow> ptrie \<Rightarrow> ptrie" where
  "pins_all [] t = t"
| "pins_all ((key, v) # kvs) t = pins_all kvs (pins t (asNibbles key) v)"

fun stored_strings :: "hash_fun \<Rightarrow> ptrie \<Rightarrow> (bytes \<times> bytes) list \<Rightarrow> bytes set" where
  "stored_strings H t [] = {}"
| "stored_strings H t ((key, v) # kvs) =
     pw H t (asNibbles key) v \<union> {enc H (pins t (asNibbles key) v)} \<union> stored_strings H (pins t (asNibbles key) v) kvs"

definition pairs_ok :: "(bytes \<times> bytes) list \<Rightarrow> bool" where
  "pairs_ok kvs \<longleftrightarrow> list_all (\<lambda>(key, v). key_fits key \<and> val_ok v) kvs"

lemma pins_all_ok: "pairs_ok kvs \<Longrightarrow> pt_ok t \<Longrightarrow> pt_ok (pins_all kvs t)"
  by (induction kvs t rule: pins_all.induct) (simp_all add: pairs_ok_def pt_ok_pins key_slice(3))

lemma plook_pins_all:
  "pairs_ok kvs \<Longrightarrow> pt_ok t \<Longrightarrow> key_fits key \<Longrightarrow>
   plook (pins_all kvs t) (asNibbles key) = (case map_of (rev kvs) key of None \<Rightarrow> plook t (asNibbles key) | Some v \<Rightarrow> v)"
proof (induction kvs t rule: pins_all.induct)
  case (2 k v kvs t)
  then have k: "key_ok (asNibbles k)" "key_ok (asNibbles key)" "val_ok v" "pairs_ok kvs" by (simp_all add: pairs_ok_def key_slice(3))
  show ?case
    using "2.IH" [OF k(4) pt_ok_pins [OF "2.prems"(2) k(1,3)] "2.prems"(3)] plook_pins [OF "2.prems"(2) k(1), of "asNibbles key" v]
    by (auto simp: map_add_def split: option.splits)
qed simp

context node_store
begin

lemma trie_inserts_eq:
  assumes "hash_ok H"
  shows "pairs_ok kvs \<Longrightarrow> stands_for H t W u \<Longrightarrow> inj_on H (W \<union> stored_strings H t kvs) \<Longrightarrow>
    \<exists>u'. trie_inserts D H kvs u = Some (Inr u') \<and> stands_for H (pins_all kvs t) (W \<union> stored_strings H t kvs) u'"
proof (induction kvs arbitrary: t W u)
  case (Cons kv kvs)
  obtain key v where kv: "kv = (key, v)" by fastforce
  let ?t = "pins t (asNibbles key) v"
  let ?W = "W \<union> pw H t (asNibbles key) v \<union> {enc H ?t}"
  have k: "key_fits key" "val_ok v" "pairs_ok kvs" using Cons.prems(1) by (simp_all add: pairs_ok_def kv)
  have inj: "inj_on H ?W" "inj_on H (?W \<union> stored_strings H ?t kvs)"
    using Cons.prems(3) by (auto simp: kv Un_assoc elim!: inj_on_subset)
  obtain u' where u': "trie_insert D H key v u = Some (Inr u')" "stands_for H ?t ?W u'"
    using trie_insert_eq [OF assms Cons.prems(2) k(1,2) inj(1)] by blast
  show ?case using Cons.IH [OF k(3) u'(2) inj(2)] u'(1) by (simp add: kv Un_assoc)
qed simp

end

definition fresh_trie :: "memory_db trie" where
  "fresh_trie = \<lparr>tr_root = fh_zero 32, tr_db = MemoryDB0\<rparr>"

definition build_trie :: "hash_fun \<Rightarrow> (bytes \<times> bytes) list \<Rightarrow> memory_db trie result option" where
  "build_trie H kvs = bindO (trie_init memory_ops H fresh_trie) (trie_inserts memory_ops H kvs)"

lemma build_trie_eq:
  assumes "hash_ok H" "pairs_ok kvs" "inj_on H (insert RLPNull (stored_strings H PEmpty kvs))"
  shows "\<exists>u W. build_trie H kvs = Some (Inr u) \<and> memory_store.stands_for H (pins_all kvs PEmpty) W u"
proof -
  have "\<not> md_enforceRefs (tr_db fresh_trie)" by (simp add: fresh_trie_def MemoryDB0_def)
  from memory_store.trie_init_eq [OF assms(1) this] obtain u0 where
    u0: "trie_init memory_ops H fresh_trie = Some (Inr u0)" "memory_store.stands_for H PEmpty {RLPNull} u0" by blast
  show ?thesis
    using memory_store.trie_inserts_eq [OF assms(1,2) u0(2)] assms(3) u0(1) by (auto simp: build_trie_def)
qed

section \<open>Claims\<close>

text \<open>C27: The trie over \<open>MemoryDB\<close> is a map: whatever sequence of keys and values is inserted, no insertion
  throws, and afterwards every key, inserted or not, reads as the value that was last inserted under it or
  as the empty string, if the hash function has no collision among the nodes that were stored.\<close>

theorem trie_remembers:
  assumes "hash_ok H" "pairs_ok kvs" "inj_on H (insert RLPNull (stored_strings H PEmpty kvs))"
  shows "\<exists>u. build_trie H kvs = Some (Inr u) \<and>
    (\<forall>key. key_fits key \<longrightarrow> trie_at memory_ops u key = Some (Inr (case map_of (rev kvs) key of None \<Rightarrow> [] | Some v \<Rightarrow> v)))"
proof -
  obtain u W where u: "build_trie H kvs = Some (Inr u)" "memory_store.stands_for H (pins_all kvs PEmpty) W u"
    using build_trie_eq [OF assms] by blast
  have "trie_at memory_ops u key = Some (Inr (case map_of (rev kvs) key of None \<Rightarrow> [] | Some v \<Rightarrow> v))" if "key_fits key" for key
    using memory_store.trie_at_eq [OF assms(1) u(2) that] plook_pins_all [OF assms(2) _ that, of PEmpty] by (simp split: option.splits)
  then show ?thesis using u(1) by blast
qed

text \<open>A hash for the witnesses, the length and a checksum.\<close>

definition sample_hash :: hash_fun where
  "sample_hash x = word_of_nat (length x) # foldl (\<lambda>a b. 3 * a + b) 0 x # replicate 30 0"

definition sample_pairs :: "(bytes \<times> bytes) list" where
  "sample_pairs = [([0x12], replicate 33 5), ([0x13], replicate 40 6), ([0x13, 0x40], [7])]"

lemma sample_hash_ok: "hash_ok sample_hash"
  by (simp add: hash_ok_def sample_hash_def)

lemma sample_pairs_ok: "pairs_ok sample_pairs"
  by (simp add: pairs_ok_def sample_pairs_def key_fits_def val_ok_def)

lemma sample_inj: "inj_on sample_hash (insert RLPNull (stored_strings sample_hash PEmpty sample_pairs))"
proof -
  have "\<forall>x \<in> insert RLPNull (stored_strings sample_hash PEmpty sample_pairs).
      \<forall>y \<in> insert RLPNull (stored_strings sample_hash PEmpty sample_pairs). sample_hash x = sample_hash y \<longrightarrow> x = y"
    by code_simp
  then show ?thesis by (simp add: inj_on_def)
qed

theorem trie_remembers_witness:
  "\<exists>u. build_trie sample_hash sample_pairs = Some (Inr u) \<and>
    trie_at memory_ops u [0x13] = Some (Inr (replicate 40 6)) \<and> trie_at memory_ops u [0x14] = Some (Inr [])"
proof -
  obtain u where u: "build_trie sample_hash sample_pairs = Some (Inr u)"
    "\<And>key. key_fits key \<Longrightarrow> trie_at memory_ops u key =
      Some (Inr (case map_of (rev sample_pairs) key of None \<Rightarrow> [] | Some v \<Rightarrow> v))"
    using trie_remembers [OF sample_hash_ok sample_pairs_ok sample_inj] by blast
  then show ?thesis by (auto simp: key_fits_def sample_pairs_def)
qed

end
