(* ===== verification/TrieRoot.thy ===== *)
theory TrieRoot
  imports TrieHash TrieCanon TrieClaims
begin

text \<open>
  \<open>TrieHash\<close> computes the root of the canonical trie of a map, which is the root that \<open>TrieDB\<close> arrives at by
  insertions in any order.
\<close>

section \<open>Sorted maps\<close>

lemma lex_less_irrefl [simp]: "\<not> lex_less x x"
  by (induction x) simp_all

lemma lex_less_trans: "lex_less x y \<Longrightarrow> lex_less y z \<Longrightarrow> lex_less x z"
proof (induction x y arbitrary: z rule: lex_less.induct)
  case (1 ys)
  then show ?case by (cases z; cases ys) simp_all
next
  case (3 x xs y ys)
  then show ?case by (cases z) (auto intro: less_trans)
qed simp

lemma lex_less_total: "x \<noteq> y \<Longrightarrow> \<not> lex_less x y \<Longrightarrow> lex_less y x"
  by (induction x y rule: lex_less.induct) auto

lemma lex_less_append: "lex_less (p @ x) (p @ y) \<longleftrightarrow> lex_less x y"
  by (induction p) simp_all

definition sorted_map :: "bytes_map \<Rightarrow> bool" where
  "sorted_map m \<longleftrightarrow> sorted_wrt (\<lambda>a b. lex_less (fst a) (fst b)) m"

lemma sorted_map_simps [simp]:
  "sorted_map []" "sorted_map (a # m) \<longleftrightarrow> (\<forall>b \<in> set m. lex_less (fst a) (fst b)) \<and> sorted_map m"
  by (simp_all add: sorted_map_def)

lemma sorted_map_filter [simp]: "sorted_map m \<Longrightarrow> sorted_map (filter P m)"
  by (simp add: sorted_map_def sorted_wrt_filter)

lemma set_map_put: "set (map_put k v m) \<subseteq> insert (k, v) (set m)"
  by (induction k v m rule: map_put.induct) auto

lemma map_put_nonempty [simp]: "map_put k v m \<noteq> []"
  by (cases "(k, v, m)" rule: map_put.cases) simp_all

lemma sorted_map_put: "sorted_map m \<Longrightarrow> sorted_map (map_put k v m)"
proof (induction k v m rule: map_put.induct)
  case (2 k v l w m)
  show ?case
  proof (cases "k = l \<or> lex_less k l")
    case True
    then show ?thesis using 2 by (auto intro: lex_less_trans)
  next
    case False
    then have "lex_less l k" using lex_less_total [of k l] by blast
    then show ?thesis using 2 False set_map_put [of k v m] by auto
  qed
qed simp

lemma map_of_put: "map_of (map_put k v m) = (map_of m)(k \<mapsto> v)"
  by (induction k v m rule: map_put.induct) auto

definition lookup0 :: "bytes_map \<Rightarrow> bytes \<Rightarrow> bytes" where
  "lookup0 m k = (case map_of m k of None \<Rightarrow> [] | Some v \<Rightarrow> v)"

lemma map_of_filter_key: "P k \<Longrightarrow> map_of (filter (\<lambda>kv. P (fst kv)) m) k = map_of m k"
  by (induction m) auto

section \<open>The loops\<close>

lemma lcp_nth: "i < lcp xs ys \<Longrightarrow> xs ! i = ys ! i"
proof (induction xs ys arbitrary: i rule: lcp.induct)
  case (1 x xs y ys)
  then show ?case by (cases i) (auto split: if_splits)
qed auto

lemma lcp_append [simp]: "lcp (p @ x) (p @ y) = length p + lcp x y"
  by (induction p) simp_all

lemma shared_loop_eq:
  "unat n \<le> lcp a b \<Longrightarrow> unat n \<le> unat x \<Longrightarrow> unat x \<le> length a \<Longrightarrow> unat x \<le> length b \<Longrightarrow>
   unat (shared_loop a b x n) = min (unat x) (lcp a b)"
proof (induction a b x n rule: shared_loop.induct)
  case (1 a b x n)
  show ?case
  proof (cases "n < x \<and> a ! unat n = b ! unat n")
    case True
    then have n: "unat n < unat x" by (simp add: word_less_nat_alt)
    then have s: "unat (n + 1) = unat n + 1"
      using unsigned_less [of x, where 'a = nat] by (simp add: unat_word_ariths)
    have "unat n \<noteq> lcp a b" using True n "1.prems"(3,4) lcp_differ [of a b] by auto
    then show ?thesis using True 1 n s by (subst shared_loop.simps) simp
  next
    case False
    have "unat n = min (unat x) (lcp a b)"
    proof (cases "n < x")
      case True
      then have "unat n < unat x" "a ! unat n \<noteq> b ! unat n" using False by (simp_all add: word_less_nat_alt)
      then show ?thesis using lcp_nth [of "unat n" a b] "1.prems"(1) by (metis le_neq_implies_less min.absorb2 order.strict_implies_order)
    next
      case False
      then show ?thesis using "1.prems"(1,2) by (simp add: word_less_nat_alt)
    qed
    moreover have "shared_loop a b x n = n" using False by (subst shared_loop.simps) auto
    ultimately show ?thesis by simp
  qed
qed

lemma unat_min: "unat (min a b) = min (unat a) (unat b)"
  by (simp add: min_def word_le_nat_alt)

lemma shared_prefix_eq:
  assumes "length f < 2 ^ 32"
  shows "\<forall>(k, v) \<in> set m. length k < 2 ^ 32 \<and> unat pl \<le> lcp f k \<Longrightarrow> unat pl \<le> unat sp \<Longrightarrow>
    unat (shared_prefix pl f m sp) = fold (\<lambda>kv. min (lcp f (fst kv))) m (unat sp)"
proof (induction m arbitrary: sp)
  case (Cons kv m)
  obtain k v where kv: "kv = (k, v)" by fastforce
  have zero: "fold (\<lambda>kv. min (lcp f (fst kv))) m 0 = 0" for m :: bytes_map by (induction m) simp_all
  show ?case
  proof (cases "sp = 0")
    case True
    then show ?thesis using zero by (simp add: kv)
  next
    case False
    define x where "x = min sp (min (word_of_nat (length f)) (word_of_nat (length k)))"
    have l: "unat (word_of_nat (length f) :: u32) = length f" "unat (word_of_nat (length k) :: u32) = length k"
      using assms Cons.prems(1) by (simp_all add: kv unat_of_nat)
    have x: "unat x = min (unat sp) (min (length f) (length k))" by (simp add: x_def unat_min l)
    have pl: "unat pl \<le> lcp f k" using Cons.prems(1) by (simp add: kv)
    then have "unat pl \<le> unat x" unfolding x using Cons.prems(2) lcp_le [of f k] by linarith
    then have "unat (shared_loop f k x pl) = min (unat x) (lcp f k)" by (rule shared_loop_eq [OF pl]) (simp_all add: x)
    then have s: "unat (min (shared_loop f k x pl) sp) = min (lcp f k) (unat sp)"
      using lcp_le [of f k] by (simp add: unat_min x)
    have "unat (shared_prefix pl f m (min (shared_loop f k x pl) sp)) =
        fold (\<lambda>kv. min (lcp f (fst kv))) m (unat (min (shared_loop f k x pl) sp))"
      by (rule Cons.IH) (use Cons.prems pl s in auto)
    then show ?thesis using False by (simp add: kv x_def [symmetric] Let_def s)
  qed
qed simp

text \<open>What the minimum is: a bound for all, attained by one.\<close>

lemma fold_min_le: "fold (\<lambda>kv. min (g kv)) m n \<le> (n :: nat)"
proof (induction m arbitrary: n)
  case (Cons b m)
  show ?case using Cons [of "min (g b) n"] by simp
qed simp

lemma fold_min:
  "m \<noteq> [] \<Longrightarrow> \<forall>kv \<in> set m. g kv \<le> n \<Longrightarrow> (\<forall>kv \<in> set m. fold (\<lambda>kv. min (g kv)) m n \<le> g kv) \<and> (\<exists>kv \<in> set m. fold (\<lambda>kv. min (g kv)) m n = (g kv :: nat))"
proof (induction m arbitrary: n)
  case (Cons a m)
  have att: "fold (\<lambda>kv. min (g kv)) m n = n \<or> (\<exists>kv \<in> set m. fold (\<lambda>kv. min (g kv)) m n = g kv)" for n
  proof (induction m arbitrary: n)
    case (Cons b m)
    show ?case using Cons [of "min (g b) n"] by (auto simp: min_def split: if_splits)
  qed simp
  have all: "kv \<in> set m \<Longrightarrow> fold (\<lambda>kv. min (g kv)) m n \<le> g kv" for kv n
  proof (induction m arbitrary: n)
    case (Cons b m)
    show ?case using Cons fold_min_le [of g m "min (g b) n"] by auto
  qed simp
  have "min (g a) n = g a" using Cons.prems(2) by simp
  then show ?case using fold_min_le [of g m "g a"] att [of "g a"] all [of _ "g a"] by auto
qed simp

lemma nibble_run_eq:
  "\<forall>kv \<in> set m. unat pl < length (fst kv) \<Longrightarrow>
   nibble_run pl i m = Inr (takeWhile (\<lambda>kv. fst kv ! unat pl = i) m, dropWhile (\<lambda>kv. fst kv ! unat pl = i) m)"
  by (induction pl i m rule: nibble_run.induct) auto

lemma take_run:
  fixes f :: "'a \<Rightarrow> nat"
  assumes "sorted_wrt (\<lambda>a b. f a \<le> f b) m"
  shows "takeWhile (\<lambda>x. f x = j) (filter (\<lambda>x. j \<le> f x) m) = filter (\<lambda>x. f x = j) m"
    and "dropWhile (\<lambda>x. f x = j) (filter (\<lambda>x. j \<le> f x) m) = filter (\<lambda>x. Suc j \<le> f x) m"
proof -
  have none: "filter (\<lambda>x. f x = j) m = []" "filter (\<lambda>x. j \<le> f x) m = m" "filter (\<lambda>x. Suc j \<le> f x) m = m"
    if "\<forall>x \<in> set m. j < f x" for m using that by (auto simp: filter_empty_conv filter_id_conv)
  show "takeWhile (\<lambda>x. f x = j) (filter (\<lambda>x. j \<le> f x) m) = filter (\<lambda>x. f x = j) m"
    using assms
  proof (induction m)
    case (Cons a m)
    then have "j < f a \<Longrightarrow> filter (\<lambda>x. f x = j) m = []" by (intro none) auto
    with Cons show ?case by (cases "f a" j rule: linorder_cases) auto
  qed simp
  show "dropWhile (\<lambda>x. f x = j) (filter (\<lambda>x. j \<le> f x) m) = filter (\<lambda>x. Suc j \<le> f x) m"
    using assms
  proof (induction m)
    case (Cons a m)
    then have "j < f a \<Longrightarrow> filter (\<lambda>x. j \<le> f x) m = m" "j < f a \<Longrightarrow> filter (\<lambda>x. Suc j \<le> f x) m = m" by (intro none; auto)+
    with Cons show ?case by (cases "f a" j rule: linorder_cases) auto
  qed simp
qed

section \<open>The nodes of a range\<close>

text \<open>The pairs of a range, whose keys share \<open>p\<close>; and the trie of the rests of their keys.\<close>

definition range_ok :: "bytes \<Rightarrow> bytes_map \<Rightarrow> bool" where
  "range_ok p s \<longleftrightarrow> sorted_map s \<and> (\<forall>kv \<in> set s. take (length p) (fst kv) = p \<and> key_ok (fst kv) \<and> val_ok (snd kv) \<and> snd kv \<noteq> [])"

definition trie_of :: "bytes \<Rightarrow> bytes_map \<Rightarrow> ptrie \<Rightarrow> bool" where
  "trie_of p s t \<longleftrightarrow> canon t \<and> pt_ok t \<and> (\<forall>ks. nibbles_ok ks \<longrightarrow> plook t ks = lookup0 s (p @ ks))"

definition writes_node :: "hash_fun \<Rightarrow> u32 \<Rightarrow> bytes_map \<Rightarrow> ptrie \<Rightarrow> bool" where
  "writes_node H pl s t \<longleftrightarrow> (\<exists>r. hash256rlp H s pl rlp_empty = Some (Inr r) \<and> rlp_out r = Inr (enc H t))"

lemma range_key: "range_ok p s \<Longrightarrow> kv \<in> set s \<Longrightarrow> \<exists>k'. fst kv = p @ k'"
  unfolding range_ok_def by (metis append_take_drop_id)

lemma range_ok_filter [simp]: "range_ok p s \<Longrightarrow> range_ok p (filter P s)"
  by (auto simp: range_ok_def)

lemma aux_ref:
  assumes "hash_ok H" "writes_node H pl s t" "length xs < n" "length (encs (xs @ [ref_of H (item H t)])) < 2 ^ 64"
  shows "hash256aux H (\<lambda>s p r. hash256rlp H s p r) s pl (part n xs) = Some (Inr (part n (xs @ [ref_of H (item H t)])))"
proof -
  obtain r where r: "hash256rlp H s pl rlp_empty = Some (Inr r)" "rlp_out r = Inr (enc H t)" using assms(2) by (auto simp: writes_node_def)
  show ?thesis
  proof (cases "length (enc H t) < 32")
    case True
    then have "ref_of H (item H t) = item H t" by (simp add: ref_of_def enc_def)
    then show ?thesis using r True part_raw [of xs n "item H t"] assms(3,4) by (simp add: hash256aux_def enc_def)
  next
    case False
    then have "ref_of H (item H t) = RStr (H (enc H t))" by (simp add: ref_of_def enc_def)
    moreover have "length (H (enc H t)) < 2 ^ 64" using assms(1) by simp
    ultimately show ?thesis using r False part_bytes [of xs n "H (enc H t)"] assms(3,4) by (simp add: hash256aux_def appendHash_def)
  qed
qed

lemma hash_empty: "writes_node H pl [] PEmpty" "trie_of p [] PEmpty"
proof -
  have "appendBytes [] False rlp_empty = Inr \<lparr>m_out = rlp_encode (RStr []), m_listStack = []\<rparr>"
    by (simp add: appendBytes_eq rlp_empty_def)
  then show "writes_node H pl [] PEmpty"
    unfolding writes_node_def by (subst hash256rlp.simps) (simp add: rlp_out_def enc_simps del: rlp_encode.simps)
  show "trie_of p [] PEmpty" by (simp add: trie_of_def lookup0_def)
qed

lemma hash_single:
  assumes "range_ok p [(p @ k, v)]" "length p < 2 ^ 30"
  shows "writes_node H (word_of_nat (length p)) [(p @ k, v)] (PLeaf k v)" "trie_of p [(p @ k, v)] (PLeaf k v)"
proof -
  have k: "key_ok (p @ k)" "key_ok k" "val_ok v" "v \<noteq> []" using assms(1) by (auto simp: range_ok_def key_ok_def)
  have key: "hexPrefixEncode_vec (p @ k) True (int (length p)) (-1) = Inr (hp k True)"
    using hexPrefixEncode_vec_all [of "p @ k" "length p" True] k(1) by (simp add: key_ok_def)
  have pl: "sint (word_of_nat (length p) :: u32) = int (length p)" by (rule sint_small) (use assms(2) in simp)
  note sm = small_two(2) [OF k(2,3), of True]
  have "appendBytes (hp k True) False (part 2 []) = Inr (part 2 [RStr (hp k True)])"
    using part_bytes [of "[]" 2 "hp k True"] length_hp_le [OF k(2), of True] small_prefix [of "[RStr (hp k True)]" "[RStr v]"] sm by simp
  moreover have "appendBytes v False (part 2 [RStr (hp k True)]) = Inr (part 2 [RStr (hp k True), RStr v])"
    using part_bytes [of "[RStr (hp k True)]" 2 v] small_64 [OF sm] k(3) by (simp add: val_ok_def)
  ultimately show "writes_node H (word_of_nat (length p)) [(p @ k, v)] (PLeaf k v)"
    unfolding writes_node_def using key pl
    by (subst hash256rlp.simps) (simp add: part_start part_out enc_simps del: rlp_encode.simps)
  show "trie_of p [(p @ k, v)] (PLeaf k v)" using k by (simp add: trie_of_def lookup0_def)
qed

text \<open>Two keys that part after \<open>p\<close>, if \<open>p\<close> is all that they share.\<close>

lemma range_branch:
  assumes "trie_of p s t" "range_ok p s" "(p @ x, v) \<in> set s" "(p @ y, w) \<in> set s" "x \<noteq> y" "lcp x y = 0"
  shows "is_branch t"
proof -
  have look: "plook t z \<noteq> [] \<and> nibbles_ok z" if "(p @ z, u) \<in> set s" for z u
  proof -
    have z: "nibbles_ok z" "u \<noteq> []" using assms(2) that by (auto simp: range_ok_def key_ok_def)
    have "map_of s (p @ z) \<noteq> None" using that by (metis map_of_eq_None_iff image_eqI fst_conv)
    then obtain u' where u': "map_of s (p @ z) = Some u'" by blast
    then have "u' \<noteq> []" using assms(2) map_of_SomeD [OF u'] by (auto simp: range_ok_def)
    then show ?thesis using z u' assms(1) by (simp add: trie_of_def lookup0_def)
  qed
  have "diverge (keys_of t)" using look [OF assms(3)] look [OF assms(4)] assms(5,6) by (auto simp: diverge_def keys_of_def)
  then show ?thesis using keys_shape(2) [of t] assms(1) by (simp add: trie_of_def)
qed

lemma hash_shared:
  assumes "hash_ok H" "range_ok (p @ q) s" "q \<noteq> []" "(p @ q @ x, v) = hd s" "tl s \<noteq> []" "length (p @ q) < 2 ^ 30"
    and c: "shared_prefix (word_of_nat (length p)) (p @ q @ x) (tl s) (-1) = word_of_nat (length (p @ q))"
    and t: "writes_node H (word_of_nat (length (p @ q))) s t" "trie_of (p @ q) s t" "is_branch t"
  shows "writes_node H (word_of_nat (length p)) s (PExt q t)" "trie_of p s (PExt q t)"
proof -
  have s: "s \<noteq> []" using assms(5) by auto
  then have "(p @ q @ x, v) \<in> set s" using assms(4) hd_in_set by metis
  then have k: "key_ok (p @ q @ x)" "key_ok q" using assms(2) by (auto simp: range_ok_def key_ok_def)
  have "take (length (p @ q)) (p @ q @ x) = p @ q" by simp
  then have key: "hexPrefixEncode_vec (p @ q @ x) False (int (length p)) (int (length (p @ q))) = Inr (hp q False)"
    using hexPrefixEncode_vec_range [of "p @ q @ x" "length p" "length (p @ q)" False] k(1) by (simp add: key_ok_def)
  have pl: "sint (word_of_nat (length p) :: u32) = int (length p)" "sint (word_of_nat (length (p @ q)) :: u32) = int (length (p @ q))"
    using assms(6) by (simp_all add: sint_small del: of_nat_add)
  have "length p < length (p @ q)" using assms(3) by simp
  then have gt: "(word_of_nat (length p) :: u32) < word_of_nat (length (p @ q))"
    using assms(6) by (simp add: word_less_nat_alt small_u32 del: length_append)
  have fit: "rlp_fits (item H t)" using fits_item [OF assms(1)] t(2) by (simp add: trie_of_def)
  note sm = small_two(1) [OF k(2) assms(1) fit, of False]
  have "appendBytes (hp q False) False (part 2 []) = Inr (part 2 [RStr (hp q False)])"
    using part_bytes [of "[]" 2 "hp q False"] length_hp_le [OF k(2), of False] small_prefix [of "[RStr (hp q False)]" "[ref_of H (item H t)]"] sm by simp
  moreover have "hash256aux H (\<lambda>s p r. hash256rlp H s p r) s (word_of_nat (length (p @ q))) (part 2 [RStr (hp q False)]) =
      Some (Inr (part 2 [RStr (hp q False), ref_of H (item H t)]))"
    using aux_ref [OF assms(1) t(1), of "[RStr (hp q False)]" 2] small_64 [OF sm] by simp
  ultimately show "writes_node H (word_of_nat (length p)) s (PExt q t)"
    unfolding writes_node_def using key pl gt s assms(5) c
    by (subst hash256rlp.simps) (simp add: assms(4) [symmetric] part_start part_out enc_simps del: rlp_encode.simps length_append of_nat_add)
  have "lookup0 s (p @ ks) = []" if "take (length q) ks \<noteq> q" for ks
  proof -
    have "p @ ks \<notin> fst ` set s"
    proof
      assume "p @ ks \<in> fst ` set s"
      then obtain k' where "p @ ks = (p @ q) @ k'" using range_key [OF assms(2)] by (metis imageE)
      then show False using that by simp
    qed
    then show ?thesis by (simp add: lookup0_def map_of_eq_None_iff [symmetric])
  qed
  moreover have "lookup0 s (p @ ks) = plook t (drop (length q) ks)" if "take (length q) ks = q" "nibbles_ok ks" for ks
  proof -
    have "p @ ks = (p @ q) @ drop (length q) ks" using that(1) by (metis append_assoc append_take_drop_id)
    then show ?thesis using t(2) that(2) by (simp add: trie_of_def)
  qed
  ultimately show "trie_of p s (PExt q t)" using t(2,3) k(2) assms(3) by (auto simp: trie_of_def)
qed

section \<open>The branch of a range\<close>

text \<open>The pairs without the one whose key is \<open>p\<close> itself, and the next nibble of a key.\<close>

definition rest_of :: "bytes \<Rightarrow> bytes_map \<Rightarrow> bytes_map" where
  "rest_of p s = (if fst (hd s) = p then tl s else s)"

definition value_of :: "bytes \<Rightarrow> bytes_map \<Rightarrow> bytes" where
  "value_of p s = (if fst (hd s) = p then snd (hd s) else [])"

definition nib :: "bytes \<Rightarrow> bytes \<times> bytes \<Rightarrow> nat" where
  "nib p kv = unat (fst kv ! length p)"

definition seg :: "bytes \<Rightarrow> bytes_map \<Rightarrow> nat \<Rightarrow> bytes_map" where
  "seg p s i = filter (\<lambda>kv. nib p kv = i) (rest_of p s)"

lemma rest_subset: "set (rest_of p s) \<subseteq> set s"
  by (cases s) (auto simp: rest_of_def)

lemma rest_key:
  assumes "range_ok p s" "kv \<in> set (rest_of p s)"
  obtains n k where "fst kv = p @ n # k" "unat n < 16" "nib p kv = unat n"
proof -
  obtain a m where s: "s = a # m" using assms(2) by (cases s) (auto simp: rest_of_def)
  have kv: "kv \<in> set s" using assms(2) rest_subset by blast
  then obtain k' where k': "fst kv = p @ k'" using range_key [OF assms(1)] by blast
  have less: "kv \<in> set m \<Longrightarrow> lex_less (fst a) (fst kv)" using assms(1) s by (simp add: range_ok_def)
  have "k' \<noteq> []"
  proof
    assume "k' = []"
    then have p: "fst kv = p" using k' by simp
    show False
    proof (cases "fst a = p")
      case True
      then show ?thesis using assms(2) s less p by (simp add: rest_of_def)
    next
      case False
      obtain x where "fst a = p @ x" using range_key [OF assms(1), of a] s by auto
      moreover have "kv \<in> set m" using kv s p False by auto
      ultimately have "lex_less (p @ x) (p @ [])" using less p by simp
      then show ?thesis unfolding lex_less_append by (cases x) simp_all
    qed
  qed
  then obtain n k where n: "k' = n # k" by (cases k') auto
  have "key_ok (p @ n # k)" using assms(1) kv k' n by (auto simp: range_ok_def)
  then have "unat n < 16" by (simp add: key_ok_def word_less_nat_alt)
  then show ?thesis using that k' n by (simp add: nib_def)
qed

lemma rest_sorted:
  assumes "range_ok p s"
  shows "sorted_wrt (\<lambda>a b. nib p a \<le> nib p b) (rest_of p s)"
proof -
  have "sorted_map (rest_of p s)" using assms by (cases s) (auto simp: rest_of_def range_ok_def)
  moreover have "nib p a \<le> nib p b" if ab: "a \<in> set (rest_of p s)" "b \<in> set (rest_of p s)" "lex_less (fst a) (fst b)" for a b
  proof -
    obtain n k where a: "fst a = p @ n # k" "nib p a = unat n" by (rule rest_key [OF assms ab(1)])
    obtain l j where b: "fst b = p @ l # j" "nib p b = unat l" by (rule rest_key [OF assms ab(2)])
    show ?thesis using ab(3) unfolding a b lex_less_append by (auto simp: word_less_nat_alt)
  qed
  ultimately show ?thesis unfolding sorted_map_def by (rule sorted_wrt_mono_rel [rotated])
qed

lemma range_seg:
  assumes "range_ok p s" "i < 16"
  shows "range_ok (p @ [word_of_nat i]) (seg p s i)"
proof -
  have "take (length (p @ [word_of_nat i])) (fst kv) = p @ [word_of_nat i]" if "kv \<in> set (seg p s i)" for kv
  proof -
    have "kv \<in> set (rest_of p s)" "nib p kv = i" using that by (simp_all add: seg_def)
    then obtain n k where "fst kv = p @ n # k" "unat n = i" using rest_key [OF assms(1)] by metis
    then have "fst kv = p @ word_of_nat i # k" by auto
    then show ?thesis by simp
  qed
  moreover have "sorted_map (seg p s i)" using assms(1) by (cases s) (auto simp: seg_def rest_of_def range_ok_def)
  moreover have "set (seg p s i) \<subseteq> set s" using rest_subset [of p s] by (auto simp: seg_def)
  ultimately show ?thesis using assms(1) unfolding range_ok_def by blast
qed

lemma lookup_seg:
  assumes "range_ok p s" "s \<noteq> []" "unat n < 16"
  shows "lookup0 s (p @ n # ks) = lookup0 (seg p s (unat n)) (p @ n # ks)" "lookup0 s p = value_of p s"
proof -
  obtain a m where s: "s = a # m" using assms(2) by (cases s) auto
  have "map_of s (p @ n # ks) = map_of (rest_of p s) (p @ n # ks)"
    unfolding s rest_of_def by (cases a) auto
  also have "\<dots> = map_of (filter (\<lambda>kv. (\<lambda>k. unat (k ! length p) = unat n) (fst kv)) (rest_of p s)) (p @ n # ks)"
    by (rule map_of_filter_key [symmetric]) simp
  finally show "lookup0 s (p @ n # ks) = lookup0 (seg p s (unat n)) (p @ n # ks)" by (simp add: lookup0_def seg_def nib_def)
  have "p \<notin> fst ` set (rest_of p s)" using rest_key [OF assms(1)] by (metis append_self_conv imageE list.distinct(1))
  then have "map_of (rest_of p s) p = None" by (simp add: map_of_eq_None_iff)
  then show "lookup0 s p = value_of p s" unfolding s by (cases a) (auto simp: lookup0_def value_of_def rest_of_def split: if_splits)
qed

lemma run_seg:
  assumes "range_ok p s" "i < 16" "length p < 2 ^ 30"
  shows "nibble_run (word_of_nat (length p)) (word_of_nat i) (filter (\<lambda>kv. i \<le> nib p kv) (rest_of p s)) =
    Inr (seg p s i, filter (\<lambda>kv. Suc i \<le> nib p kv) (rest_of p s))"
proof -
  have pl: "unat (word_of_nat (length p) :: u32) = length p" using assms(3) by (simp add: small_u32)
  have eq: "(\<lambda>kv :: bytes \<times> bytes. fst kv ! length p = word_of_nat i) = (\<lambda>kv. nib p kv = i)"
    using assms(2) by (intro ext) (auto simp: nib_def unat_of_nat)
  have "\<forall>kv \<in> set (filter (\<lambda>kv. i \<le> nib p kv) (rest_of p s)). unat (word_of_nat (length p) :: u32) < length (fst kv)"
  proof -
    have "length p < length (fst kv)" if "kv \<in> set (rest_of p s)" for kv by (rule rest_key [OF assms(1) that]) simp
    then show ?thesis unfolding pl by simp
  qed
  from nibble_run_eq [OF this, of "word_of_nat i"] show ?thesis
    unfolding pl eq seg_def take_run [OF rest_sorted [OF assms(1)]] .
qed

abbreviation child_items :: "hash_fun \<Rightarrow> ptrie list \<Rightarrow> rlp_item list" where
  "child_items H ts \<equiv> map (ref_of H) (map (item H) ts)"

lemma hash_children:
  assumes "hash_ok H" "range_ok p s" "length p < 2 ^ 30" "small (child_items H ts @ [RStr w])" "length ts = 16"
    and T: "\<And>i. i < 16 \<Longrightarrow> seg p s i = [] \<Longrightarrow> ts ! i = PEmpty"
      "\<And>i. i < 16 \<Longrightarrow> seg p s i \<noteq> [] \<Longrightarrow> writes_node H (word_of_nat (Suc (length p))) (seg p s i) (ts ! i)"
  shows "j \<le> 16 \<Longrightarrow> foldO (\<lambda>i st.
         bindR (nibble_run (word_of_nat (length p)) i (fst st)) (\<lambda>run.
         if fst run = [] then Some (bindE (appendBytes [] False (snd st)) (\<lambda>rlp. Inr (snd run, rlp)))
         else bindO (hash256aux H (\<lambda>s p r. hash256rlp H s p r) (fst run) (word_of_nat (length p) + 1) (snd st)) (\<lambda>rlp.
              Some (Inr (snd run, rlp)))))
       (map word_of_nat [j..<16]) (filter (\<lambda>kv. j \<le> nib p kv) (rest_of p s), part 17 (take j (child_items H ts))) =
     Some (Inr (filter (\<lambda>kv. 16 \<le> nib p kv) (rest_of p s), part 17 (child_items H ts)))"
proof (induction j rule: inc_induct)
  case base
  then show ?case using assms(5) by simp
next
  case (step j)
  let ?r = "ref_of H (item H (ts ! j))"
  have j: "j < 16" using step.hyps by simp
  have tk: "take (Suc j) (child_items H ts) = take j (child_items H ts) @ [?r]" using j assms(5) by (simp add: take_Suc_conv_app_nth)
  have pl: "word_of_nat (length p) + 1 = (word_of_nat (Suc (length p)) :: u32)" by simp
  have "encs (child_items H ts @ [RStr w]) = encs (take (Suc j) (child_items H ts)) @ encs (drop (Suc j) (child_items H ts) @ [RStr w])"
    by (metis append_take_drop_id append_assoc concat_append map_append)
  then have sz: "length (encs (take j (child_items H ts) @ [?r])) < 2 ^ 64"
    using small_64 [OF assms(4)] unfolding tk [symmetric] by simp
  have len: "length (take j (child_items H ts)) < 17" using j assms(5) by simp
  note run = run_seg [OF assms(2) j assms(3)]
  have next0: "(if seg p s j = [] then Some (bindE (appendBytes [] False (part 17 (take j (child_items H ts)))) (\<lambda>rlp. Inr (x, rlp)))
      else bindO (hash256aux H (\<lambda>s p r. hash256rlp H s p r) (seg p s j) (word_of_nat (length p) + 1) (part 17 (take j (child_items H ts)))) (\<lambda>rlp.
        Some (Inr (x, rlp)))) = Some (Inr (x, part 17 (take (Suc j) (child_items H ts))))" for x :: bytes_map
  proof (cases "seg p s j = []")
    case True
    then have "?r = RStr []" using T(1) [OF j] by simp
    then show ?thesis using True part_bytes [OF len, of "[]"] sz unfolding tk by simp
  next
    case False
    then show ?thesis using aux_ref [OF assms(1) T(2) [OF j False] len sz] unfolding pl tk by simp
  qed
  have "[j..<16] = j # [Suc j..<16]" using j by (rule upt_conv_Cons)
  then show ?case using step.IH next0 by (simp add: run cong: if_cong del: map_map take_Suc split del: if_split)
qed

lemma hash_branch:
  assumes "hash_ok H" "range_ok p s" "length p < 2 ^ 30" "tl s \<noteq> []" "pt_ok (PBranch ts (value_of p s))"
    and c: "\<not> shared_prefix (word_of_nat (length p)) (fst (hd s)) (tl s) (-1) > word_of_nat (length p)"
    and T: "\<And>i. i < 16 \<Longrightarrow> seg p s i = [] \<Longrightarrow> ts ! i = PEmpty"
      "\<And>i. i < 16 \<Longrightarrow> seg p s i \<noteq> [] \<Longrightarrow> writes_node H (word_of_nat (Suc (length p))) (seg p s i) (ts ! i)"
  shows "writes_node H (word_of_nat (length p)) s (PBranch ts (value_of p s))"
proof -
  have ts: "length ts = 16" "val_ok (value_of p s)" using assms(5) by simp_all
  note sm = small_children [OF assms(1,5)]
  note ch = hash_children [OF assms(1-3) sm ts(1) T, of 0, simplified]
  have s: "s \<noteq> []" using assms(4) by auto
  have pl: "unat (word_of_nat (length p) :: u32) = length p" using assms(3) by (simp add: small_u32)
  have k: "length p = length (fst (hd s)) \<longleftrightarrow> fst (hd s) = p"
    using range_key [OF assms(2), of "hd s"] s by auto
  have st: "(if unat (word_of_nat (length p) :: u32) = length (fst (hd s)) then tl s else s) = rest_of p s"
    "(if unat (word_of_nat (length p) :: u32) = length (fst (hd s)) then snd (hd s) else []) = value_of p s"
    unfolding pl k rest_of_def value_of_def by simp_all
  have "appendBytes (value_of p s) False (part 17 (child_items H ts)) = Inr (part 17 (child_items H ts @ [RStr (value_of p s)]))"
    by (rule part_bytes) (use ts small_64 [OF sm] in \<open>simp_all add: val_ok_def\<close>)
  moreover have "rlp_out (part 17 (child_items H ts @ [RStr (value_of p s)])) = Inr (enc H (PBranch ts (value_of p s)))"
    unfolding enc_simps by (rule part_out) (use ts(1) in simp)
  ultimately show ?thesis
    unfolding writes_node_def using s assms(4) c ch
    by (subst hash256rlp.simps) (simp only: Let_def st if_False if_True part_start bindR_simps bindO_simps snd_conv option.inject simp_thms sum.inject, simp)
qed

lemma in_use_ge:
  assumes "(v \<noteq> [] \<and> i < length ts \<and> ts ! i \<noteq> PEmpty) \<or> (i \<noteq> j \<and> i < length ts \<and> j < length ts \<and> ts ! i \<noteq> PEmpty \<and> ts ! j \<noteq> PEmpty)"
  shows "2 \<le> in_use ts v"
proof -
  let ?I = "{i. i < length ts \<and> ts ! i \<noteq> PEmpty}"
  have c: "length (filter (\<lambda>t. t \<noteq> PEmpty) ts) = card ?I" by (rule length_filter_conv_card)
  have fin: "finite ?I" by simp
  from assms show ?thesis
  proof
    assume a: "v \<noteq> [] \<and> i < length ts \<and> ts ! i \<noteq> PEmpty"
    then have "card {i} \<le> card ?I" by (intro card_mono) auto
    then show ?thesis using a c by (simp add: in_use_def)
  next
    assume a: "i \<noteq> j \<and> i < length ts \<and> j < length ts \<and> ts ! i \<noteq> PEmpty \<and> ts ! j \<noteq> PEmpty"
    then have "card {i, j} \<le> card ?I" by (intro card_mono) auto
    then show ?thesis using a c by (simp add: in_use_def)
  qed
qed

text \<open>The trie of a range whose keys part right after \<open>p\<close>.\<close>

lemma trie_of_branch:
  assumes "range_ok p s" "length ts = 16"
    and T: "\<And>i. i < 16 \<Longrightarrow> trie_of (p @ [word_of_nat i]) (seg p s i) (ts ! i)"
    and two: "(p @ x, v) \<in> set s" "(p @ y, w) \<in> set s" "x \<noteq> y" "lcp x y = 0"
  shows "trie_of p s (PBranch ts (value_of p s))"
proof -
  have s: "s \<noteq> []" using two(1) by auto
  then have hd: "hd s \<in> set s" by simp
  have val: "val_ok (value_of p s)" using assms(1) hd by (auto simp: value_of_def range_ok_def)
  have look: "plook (PBranch ts (value_of p s)) ks = lookup0 s (p @ ks)" if ks: "nibbles_ok ks" for ks
  proof (cases ks)
    case Nil
    then show ?thesis using lookup_seg(2) [OF assms(1) s, of 0] by simp
  next
    case (Cons n ns)
    then have n: "unat n < 16" "nibbles_ok ns" using ks by (simp_all add: word_less_nat_alt)
    have "plook (ts ! unat n) ns = lookup0 (seg p s (unat n)) ((p @ [n]) @ ns)"
      using T [OF n(1)] n(2) by (simp add: trie_of_def)
    then show ?thesis using Cons n assms(2) lookup_seg(1) [OF assms(1) s n(1)] by simp
  qed
  have used: "z = [] \<and> value_of p s \<noteq> [] \<or> (\<exists>n ns. z = n # ns \<and> unat n < 16 \<and> ts ! unat n \<noteq> PEmpty)" if z: "(p @ z, u) \<in> set s" for z u
  proof -
    have zok: "nibbles_ok z" using assms(1) z by (auto simp: range_ok_def key_ok_def)
    obtain u' where u': "map_of s (p @ z) = Some u'" using z by (metis map_of_eq_None_iff not_Some_eq image_eqI fst_conv)
    then have "u' \<noteq> []" using assms(1) map_of_SomeD [OF u'] by (auto simp: range_ok_def)
    then have ne: "plook (PBranch ts (value_of p s)) z \<noteq> []" using look [OF zok] u' by (simp add: lookup0_def)
    show ?thesis
    proof (cases z)
      case (Cons n ns)
      then have "unat n < 16" using zok by (simp add: word_less_nat_alt)
      then show ?thesis using ne Cons assms(2) by (auto simp del: not_Cons_self)
    qed (use ne in simp)
  qed
  have "2 \<le> in_use ts (value_of p s)"
  proof (cases x; cases y)
    fix n ns m ms
    assume xy: "x = n # ns" "y = m # ms"
    then have "unat n \<noteq> unat m" using two(4) by (auto simp: word_unat_eq_iff)
    then show ?thesis
      using used [OF two(1)] used [OF two(2)] xy assms(2) in_use_ge [of "value_of p s" "unat n" ts "unat m"] by auto
  next
    fix n ns assume "x = []" "y = n # ns"
    then show ?thesis using used [OF two(1)] used [OF two(2)] assms(2) in_use_ge [of "value_of p s" "unat n" ts] by auto
  next
    fix n ns assume "x = n # ns" "y = []"
    then show ?thesis using used [OF two(1)] used [OF two(2)] assms(2) in_use_ge [of "value_of p s" "unat n" ts] by auto
  qed (use two(3) in simp)
  then show ?thesis using T look val assms(2) by (auto simp: trie_of_def list_all_length)
qed

text \<open>What the loop over the keys finds.\<close>

lemma shared_prefix_range:
  assumes "range_ok p (a # m)" "m \<noteq> []" "length p < 2 ^ 30"
  obtains q x y v w where "fst a = p @ q @ x" "range_ok (p @ q) (a # m)" "x \<noteq> y" "lcp x y = 0"
    "(p @ q @ x, v) \<in> set (a # m)" "((p @ q) @ y, w) \<in> set (a # m)" "length (p @ q) < 2 ^ 30"
    "shared_prefix (word_of_nat (length p)) (fst a) m (-1) = word_of_nat (length (p @ q))"
proof -
  let ?f = "fst a" and ?sp = "shared_prefix (word_of_nat (length p)) (fst a) m (-1)"
  have ok: "key_ok (fst kv)" if "kv \<in> set (a # m)" for kv using assms(1) that unfolding range_ok_def by blast
  then have len: "length (fst kv) < 2 ^ 30" if "kv \<in> set (a # m)" for kv using that unfolding key_ok_def by blast
  have pl: "unat (word_of_nat (length p) :: u32) = length p" using assms(3) by (simp add: small_u32)
  have unat_minus_one_word: "unat (-1 :: u32) = 2 ^ 32 - 1" by (simp add: unsigned_minus_1_eq_mask mask_eq_exp_minus_1)
  obtain f' where f': "?f = p @ f'" using range_key [OF assms(1), of a] by auto
  have lcp: "length p \<le> lcp ?f (fst kv)" if kv: "kv \<in> set m" for kv
  proof -
    obtain k' where "fst kv = p @ k'" using range_key [OF assms(1), of kv] kv by auto
    then show ?thesis unfolding f' by simp
  qed
  have "unat ?sp = fold (\<lambda>kv. min (lcp ?f (fst kv))) m (unat (-1 :: u32))"
  proof (rule shared_prefix_eq)
    have l32: "length (fst kv) < 2 ^ 32" if "kv \<in> set (a # m)" for kv using len [OF that] by simp
    show "length ?f < 2 ^ 32" by (rule l32) simp
    have "length (fst kv) < 2 ^ 32 \<and> unat (word_of_nat (length p) :: u32) \<le> lcp ?f (fst kv)" if "kv \<in> set m" for kv
      using l32 lcp that unfolding pl by simp
    then show "\<forall>(k, v) \<in> set m. length k < 2 ^ 32 \<and> unat (word_of_nat (length p) :: u32) \<le> lcp ?f k" by fastforce
    show "unat (word_of_nat (length p) :: u32) \<le> unat (-1 :: u32)" unfolding pl unat_minus_one_word using assms(3) by simp
  qed
  moreover have "\<forall>kv \<in> set m. lcp ?f (fst kv) \<le> unat (-1 :: u32)"
  proof
    fix kv
    show "lcp ?f (fst kv) \<le> unat (-1 :: u32)" using lcp_le(1) [of ?f "fst kv"] len [of a] unfolding unat_minus_one_word by simp
  qed
  ultimately have n: "\<forall>kv \<in> set m. unat ?sp \<le> lcp ?f (fst kv)" "\<exists>kv \<in> set m. unat ?sp = lcp ?f (fst kv)"
    using fold_min [OF assms(2), of "\<lambda>kv. lcp ?f (fst kv)" "unat (-1 :: u32)"] by simp_all
  obtain b where b: "b \<in> set m" "unat ?sp = lcp ?f (fst b)" using n(2) by blast
  let ?n = "unat ?sp"
  have nf: "?n \<le> length ?f" "?n \<le> length (fst b)" using b lcp_le [of ?f "fst b"] by simp_all
  have np: "length p \<le> ?n" using lcp [OF b(1)] b(2) by simp
  define q where "q = drop (length p) (take ?n ?f)"
  have pq: "p @ q = take ?n ?f" using np f' unfolding q_def by simp
  have lpq: "length (p @ q) = ?n" unfolding pq using nf by simp
  have rng: "range_ok (p @ q) (a # m)"
  proof -
    have "take ?n (fst kv) = take ?n ?f" if "kv \<in> set (a # m)" for kv
    proof (cases "kv = a")
      case False
      then have "?n \<le> lcp ?f (fst kv)" using n(1) that by simp
      moreover have "take ?n (take (lcp ?f (fst kv)) ?f) = take ?n (take (lcp ?f (fst kv)) (fst kv))" by (rule arg_cong [OF lcp_take])
      ultimately show ?thesis by (simp add: min_absorb1)
    qed simp
    then show ?thesis using assms(1) unfolding range_ok_def lpq unfolding pq by blast
  qed
  obtain x where x: "?f = (p @ q) @ x" using range_key [OF rng, of a] by auto
  obtain y where y: "fst b = (p @ q) @ y" using range_key [OF rng, of b] b(1) by auto
  have "lcp ((p @ q) @ x) ((p @ q) @ y) = ?n" using b(2) unfolding x y by simp
  then have xy: "lcp x y = 0" unfolding lcp_append using lpq by simp
  have "lex_less ?f (fst b)" using assms(1) b(1) by (simp add: range_ok_def)
  then have "x \<noteq> y" using x y by auto
  moreover have "?sp = word_of_nat (length (p @ q))" unfolding lpq by simp
  moreover have "length (p @ q) < 2 ^ 30" using lpq nf(1) len [of a] by simp
  moreover have "(p @ q @ x, snd a) \<in> set (a # m)" "((p @ q) @ y, snd b) \<in> set (a # m)"
    using x [symmetric] y [symmetric] b(1) by simp_all
  ultimately show ?thesis using that [of q x y "snd a" "snd b"] rng x xy by simp
qed

text \<open>What is left of the keys: the measure of the recursion.\<close>

definition rests :: "bytes \<Rightarrow> bytes_map \<Rightarrow> nat" where
  "rests p s = sum_list (map (\<lambda>kv. length (fst kv) - length p) s)"

lemma rests_shared:
  assumes "range_ok (p @ q) s" "q \<noteq> []" "s \<noteq> []"
  shows "rests (p @ q) s < rests p s"
  unfolding rests_def
proof (rule sum_list_strict_mono [OF assms(3)])
  fix kv assume "kv \<in> set s"
  then obtain k where "fst kv = (p @ q) @ k" using range_key [OF assms(1)] by blast
  then show "length (fst kv) - length (p @ q) < length (fst kv) - length p" using assms(2) by simp
qed

lemma rests_seg:
  assumes "range_ok p s" "seg p s i \<noteq> []" "i < 16"
  shows "rests (p @ [word_of_nat i]) (seg p s i) < rests p s"
proof -
  have "rests (p @ [word_of_nat i]) (seg p s i) < rests p (seg p s i)"
    by (rule rests_shared [OF range_seg [OF assms(1,3)] _ assms(2)]) simp
  also have "\<dots> \<le> rests p (rest_of p s)" unfolding rests_def seg_def by (rule sum_list_filter_le_nat)
  also have "\<dots> \<le> rests p s" by (cases s) (simp_all add: rests_def rest_of_def)
  finally show ?thesis .
qed

theorem hash_range:
  assumes "hash_ok H"
  shows "range_ok p s \<Longrightarrow> length p < 2 ^ 30 \<Longrightarrow> \<exists>t. writes_node H (word_of_nat (length p)) s t \<and> trie_of p s t"
proof (induction "rests p s" arbitrary: p s rule: less_induct)
  case less
  consider "s = []" | a where "s = [a]" | a m where "s = a # m" "m \<noteq> []" by (cases s; cases "tl s") auto
  then show ?case
  proof cases
    case 1
    then show ?thesis using hash_empty by blast
  next
    case (2 a)
    obtain k where "fst a = p @ k" using range_key [OF less.prems(1), of a] 2 by auto
    then have "s = [(p @ k, snd a)]" using 2 by (cases a) simp
    then show ?thesis using hash_single less.prems by metis
  next
    case (3 a m)
    obtain q x y v w where q: "fst a = p @ q @ x" "range_ok (p @ q) s" "x \<noteq> y" "lcp x y = 0"
      "(p @ q @ x, v) \<in> set s" "((p @ q) @ y, w) \<in> set s" "length (p @ q) < 2 ^ 30"
      "shared_prefix (word_of_nat (length p)) (fst a) m (-1) = word_of_nat (length (p @ q))"
      using shared_prefix_range [of p a m] less.prems 3 by metis
    show ?thesis
    proof (cases "q = []")
      case False
      have "s \<noteq> []" using 3 by simp
      then obtain t where t: "writes_node H (word_of_nat (length (p @ q))) s t" "trie_of (p @ q) s t"
        using less.hyps [OF rests_shared [OF q(2) False] q(2,7)] by blast
      have "is_branch t" by (rule range_branch [OF t(2) q(2) _ q(6,3,4)]) (use q(5) in simp)
      from hash_shared [OF assms q(2) False _ _ q(7) _ t this] q(1,8) 3 show ?thesis by (metis list.sel(1,3) prod.collapse)
    next
      case True
      have "\<exists>t. (seg p s i = [] \<longrightarrow> t = PEmpty) \<and> (seg p s i \<noteq> [] \<longrightarrow> writes_node H (word_of_nat (Suc (length p))) (seg p s i) t) \<and>
          trie_of (p @ [word_of_nat i]) (seg p s i) t" if i: "i < 16" for i
      proof (cases "seg p s i = []")
        case True
        then show ?thesis using hash_empty(2) by auto
      next
        case False
        then obtain kv where kv: "kv \<in> set (seg p s i)" by (metis list.set_intros(1) neq_Nil_conv)
        then have "kv \<in> set (rest_of p s)" by (simp add: seg_def)
        then obtain n k where nk: "fst kv = p @ n # k" using rest_key [OF less.prems(1)] by metis
        have "key_ok (fst kv)" using range_seg [OF less.prems(1) i] kv unfolding range_ok_def by blast
        then have "length (p @ [word_of_nat i]) < 2 ^ 30" unfolding nk by (simp add: key_ok_def)
        then show ?thesis
          using less.hyps [OF rests_seg [OF less.prems(1) False i] range_seg [OF less.prems(1) i]] False by (metis length_append_singleton)
      qed
      then obtain T where T: "\<And>i. i < 16 \<Longrightarrow> (seg p s i = [] \<longrightarrow> T i = PEmpty) \<and>
          (seg p s i \<noteq> [] \<longrightarrow> writes_node H (word_of_nat (Suc (length p))) (seg p s i) (T i)) \<and> trie_of (p @ [word_of_nat i]) (seg p s i) (T i)"
        by metis
      let ?ts = "map T [0..<16]"
      have tr: "trie_of p s (PBranch ?ts (value_of p s))"
        by (rule trie_of_branch [OF less.prems(1), of _ x v y w]) (use T q True in \<open>auto simp del: upt_Suc upt_rec_numeral\<close>)
      moreover have "writes_node H (word_of_nat (length p)) s (PBranch ?ts (value_of p s))"
        by (rule hash_branch [OF assms less.prems]) (use T tr q(8) True 3 in \<open>auto simp: trie_of_def simp del: upt_Suc upt_rec_numeral\<close>)
      ultimately show ?thesis by blast
    qed
  qed
qed

section \<open>Whole maps\<close>

abbreviation with_nibbles :: "bytes_map \<Rightarrow> bytes_map" where
  "with_nibbles \<equiv> map (\<lambda>(k, v). (asNibbles k, v))"

lemma map_of_nibbles:
  "map_of (with_nibbles m) (asNibbles k) = map_of m k"
  "ks \<notin> range asNibbles \<Longrightarrow> map_of (with_nibbles m) ks = None"
  by (induction m) auto

lemma map_of_with_nibbles_cong: "map_of m = map_of n \<Longrightarrow> map_of (with_nibbles m) = map_of (with_nibbles n)"
proof
  fix ks
  assume "map_of m = map_of n"
  then show "map_of (with_nibbles m) ks = map_of (with_nibbles n) ks"
    using map_of_nibbles [where m = m] map_of_nibbles [where m = n] by (cases "ks \<in> range asNibbles") auto
qed

definition hexMap :: "bytes_map \<Rightarrow> bytes_map" where
  "hexMap s = foldr (\<lambda>(k, v). map_put (asNibbles k) v) s []"

lemma map_of_hexMap: "map_of (hexMap s) = map_of (with_nibbles s)"
  by (induction s) (auto simp: hexMap_def map_of_put)

lemma hexMap_nonempty: "s \<noteq> [] \<Longrightarrow> hexMap s \<noteq> []"
  by (cases s) (auto simp: hexMap_def)

definition full_pairs :: "bytes_map \<Rightarrow> bool" where
  "full_pairs m \<longleftrightarrow> (\<forall>kv \<in> set m. key_fits (fst kv) \<and> val_ok (snd kv) \<and> snd kv \<noteq> [])"

lemma range_hexMap: "full_pairs s \<Longrightarrow> range_ok [] (hexMap s)"
proof (induction s)
  case (Cons kv s)
  obtain k v where kv: "kv = (k, v)" by fastforce
  have r: "range_ok [] (hexMap s)" using Cons by (simp add: full_pairs_def)
  have "hexMap (kv # s) = map_put (asNibbles k) v (hexMap s)" by (simp add: hexMap_def kv)
  moreover have "key_ok (asNibbles k)" "val_ok v" "v \<noteq> []" using Cons.prems by (simp_all add: full_pairs_def kv key_slice(3))
  ultimately show ?case
    using r set_map_put [of "asNibbles k" v "hexMap s"] sorted_map_put [of "hexMap s" "asNibbles k" v]
    unfolding range_ok_def by fastforce
qed (simp add: hexMap_def range_ok_def)

text \<open>\<open>rlp256\<close> is the canonical trie of the map.\<close>

lemma rlp256_trie:
  assumes "hash_ok H" "full_pairs s"
  shows "\<exists>t. rlp256 H s = Some (Inr (enc H t)) \<and> trie_of [] (with_nibbles s) t"
proof (cases "s = []")
  case True
  have "appendBytes [] False rlp_empty = Inr \<lparr>m_out = rlp_encode (RStr []), m_listStack = []\<rparr>"
    by (simp add: appendBytes_eq rlp_empty_def)
  then have "rlp256 H s = Some (Inr (enc H PEmpty))" using True by (simp add: rlp256_def rlp_out_def enc_simps del: rlp_encode.simps)
  then show ?thesis using True hash_empty(2) by auto
next
  case False
  obtain t where t: "writes_node H 0 (hexMap s) t" "trie_of [] (hexMap s) t"
    using hash_range [OF assms(1) range_hexMap [OF assms(2)]] by auto
  then have "rlp256 H s = Some (Inr (enc H t))"
    using False by (auto simp: writes_node_def rlp256_def hexMap_def)
  moreover have "trie_of [] (with_nibbles s) t" using t(2) by (simp add: trie_of_def lookup0_def map_of_hexMap)
  ultimately show ?thesis by blast
qed

lemma full_pairs_ok: "full_pairs kvs \<Longrightarrow> pairs_ok kvs"
  by (auto simp: full_pairs_def pairs_ok_def list_all_iff)

text \<open>Insertions lead to it, too.\<close>

lemma trie_of_pins_all:
  assumes "full_pairs kvs"
  shows "trie_of [] (with_nibbles (rev kvs)) (pins_all kvs PEmpty)"
proof -
  have "canon (pins_all kvs t) \<and> (\<forall>ks. nibbles_ok ks \<longrightarrow>
      plook (pins_all kvs t) ks = (case map_of (with_nibbles (rev kvs)) ks of None \<Rightarrow> plook t ks | Some v \<Rightarrow> v))"
    if "canon t" "pt_ok t" for t
    using assms that
  proof (induction kvs arbitrary: t)
    case (Cons kv kvs)
    obtain k v where kv: "kv = (k, v)" by fastforce
    have k: "key_ok (asNibbles k)" "val_ok v" "v \<noteq> []" "full_pairs kvs"
      using Cons.prems(1) by (simp_all add: full_pairs_def kv key_slice(3))
    have "canon (pins t (asNibbles k) v)" "pt_ok (pins t (asNibbles k) v)"
      using canon_pins pt_ok_pins k Cons.prems(2,3) by blast+
    from Cons.IH [OF k(4) this] show ?case
      using plook_pins [OF Cons.prems(3) k(1), of _ v] by (auto simp: kv map_add_def split: option.splits)
  qed simp
  from this [of PEmpty] show ?thesis
    using pins_all_ok [OF full_pairs_ok [OF assms], of PEmpty] by (auto simp: trie_of_def lookup0_def split: option.splits)
qed

section \<open>Claims\<close>

text \<open>C28: \<open>TrieDB\<close> and \<open>TrieHash\<close> agree: after any sequence of insertions of values that are not empty, in any
  order and with overwriting, the root of the trie is the hash that \<open>hash256\<close> computes without a database
  from the sorted map of what has been inserted. The hash is any function to 32 bytes that has no collision
  among the nodes stored on the way.\<close>

theorem trie_root_is_hash256:
  assumes "hash_ok H" "full_pairs kvs" "inj_on H (insert RLPNull (stored_strings H PEmpty kvs))"
    and "sorted_map m" "map_of m = map_of (rev kvs)"
  shows "\<exists>u. build_trie H kvs = Some (Inr u) \<and> trie_root memory_ops u = Inr (tr_root u) \<and> hash256 H m = Some (Inr (tr_root u))"
proof -
  from build_trie_eq [OF assms(1) full_pairs_ok [OF assms(2)] assms(3)] obtain u W where
    u: "build_trie H kvs = Some (Inr u)" "memory_store.stands_for H (pins_all kvs PEmpty) W u" by blast
  have "distinct (map fst m)" using assms(4) by (induction m) auto
  then have "kv \<in> set kvs" if "kv \<in> set m" for kv
    using that assms(5) map_of_is_SomeI [of m "fst kv" "snd kv"] map_of_SomeD [of "rev kvs" "fst kv" "snd kv"] by simp
  then have "full_pairs m" using assms(2) by (auto simp: full_pairs_def)
  from rlp256_trie [OF assms(1) this] obtain t where t: "rlp256 H m = Some (Inr (enc H t))" "trie_of [] (with_nibbles m) t" by blast
  have "plook t ks = plook (pins_all kvs PEmpty) ks" if "nibbles_ok ks" for ks
    using t(2) trie_of_pins_all [OF assms(2)] map_of_with_nibbles_cong [OF assms(5)] that
    by (simp add: trie_of_def lookup0_def)
  then have "t = pins_all kvs PEmpty"
    using canon_unique [of t "pins_all kvs PEmpty"] t(2) trie_of_pins_all [OF assms(2)] by (simp add: trie_of_def)
  moreover have "trie_root memory_ops u = Inr (tr_root u)"
    using memory_store.stands_root [OF u(2)] memory_store.enc_nonempty [OF assms(1)] u(2)
    by (simp add: trie_root_def memory_store.stands_for_def)
  ultimately show ?thesis using u t(1) by (simp add: hash256_def memory_store.stands_for_def)
qed

theorem trie_root_is_hash256_witness:
  "\<exists>u. build_trie sample_hash sample_pairs = Some (Inr u) \<and> hash256 sample_hash sample_pairs = Some (Inr (tr_root u))"
proof -
  have "full_pairs sample_pairs" by (simp add: full_pairs_def sample_pairs_def key_fits_def val_ok_def)
  moreover have "sorted_map sample_pairs" by (simp add: sample_pairs_def)
  moreover have "map_of sample_pairs = map_of (rev sample_pairs)" by (rule ext) (simp add: sample_pairs_def)
  ultimately show ?thesis using trie_root_is_hash256 [OF sample_hash_ok _ sample_inj] by blast
qed

end
