(* ===== verification/TrieDelete.thy ===== *)
theory TrieDelete
  imports TrieRoot
begin

text \<open>
  Removal from a trie whose keys all have the same length, as the hashed keys of \<open>HashedGenericTrieDB\<close>
  have: on abstract tries, and its refinement by \<open>deleteAt\<close>.
\<close>

section \<open>Keys of one length\<close>

primrec uniform :: "ptrie \<Rightarrow> nat \<Rightarrow> bool" where
  "uniform PEmpty n = True"
| "uniform (PLeaf k v) n = (length k = n)"
| "uniform (PExt k t) n = (length k < n \<and> uniform t (n - length k))"
| "uniform (PBranch ts v) n = (v = [] \<and> 0 < n \<and> list_all (\<lambda>t. uniform t (n - 1)) ts)"

lemma uniform_plook: "uniform t n \<Longrightarrow> length ks \<noteq> n \<Longrightarrow> plook t ks = []"
proof (induction t arbitrary: n ks)
  case (PExt k t)
  show ?case
  proof (cases "take (length k) ks = k")
    case True
    then have "length k \<le> length ks" by (metis length_take min.cobounded1 min.absorb_iff1 nat_le_linear take_all)
    then have "length (drop (length k) ks) \<noteq> n - length k" using PExt.prems by auto
    then show ?thesis using PExt.IH [of "n - length k" "drop (length k) ks"] PExt.prems by auto
  qed simp
next
  case (PBranch ts v)
  show ?case
  proof (cases ks)
    case (Cons m ms)
    then show ?thesis using PBranch by (auto simp: list_all_length)
  qed (use PBranch.prems in simp)
qed auto

lemma uniform_replicate [simp]: "list_all (\<lambda>t. uniform t n) (replicate m PEmpty)"
  by (simp add: list_all_iff)

lemma lcp_lt: "length xs = length ys \<Longrightarrow> xs \<noteq> ys \<Longrightarrow> lcp xs ys < length ys"
  by (induction xs ys rule: lcp.induct) (auto split: if_splits)

lemma uniform_psplit:
  "uniform (PLeaf k w) n \<Longrightarrow> length ks = n \<Longrightarrow> ks \<noteq> k \<Longrightarrow> uniform (psplit ks k (PLeaf k w)) n"
  "uniform (PExt k t) n \<Longrightarrow> k \<noteq> [] \<Longrightarrow> length ks = n \<Longrightarrow> take (length k) ks \<noteq> k \<Longrightarrow> uniform (psplit ks k (PExt k t)) n"
proof -
  assume a: "uniform (PLeaf k w) n" "length ks = n" "ks \<noteq> k"
  then have "lcp ks k < n" using lcp_lt [of ks k] by simp
  moreover have "k \<noteq> []" using a by auto
  ultimately show "uniform (psplit ks k (PLeaf k w)) n"
    using a(1) by (cases k) (auto simp: psplit_def intro!: list_all_set_nth)
next
  assume a: "uniform (PExt k t) n" "k \<noteq> []" "length ks = n" "take (length k) ks \<noteq> k"
  then have "lcp ks k < length k" using lcp_prefix [of ks k] lcp_le(2) [of ks k] by (simp add: le_less)
  then show "uniform (psplit ks k (PExt k t)) n"
    using a(1,2) by (cases k) (auto simp: psplit_def intro!: list_all_set_nth)
qed

lemma uniform_pins: "pt_ok t \<Longrightarrow> key_ok ks \<Longrightarrow> uniform t n \<Longrightarrow> length ks = n \<Longrightarrow> uniform (pins t ks v) n"
proof (induction t ks v arbitrary: n rule: pins.induct)
  case (2 k w ks v)
  then show ?case using pt_ok_psplit(1) [of k w ks] uniform_psplit(1) by (cases "ks = k") (simp_all add: pins_split)
next
  case (3 k t ks v)
  show ?case
  proof (cases "goes_down ks (PExt k t)")
    case True
    then show ?thesis using 3 by (simp add: pins_split)
  next
    case False
    then show ?thesis using 3 pt_ok_psplit(2) [of k t ks] uniform_psplit(2) [of k t n ks] by (simp add: pins_split)
  qed
next
  case (5 ts w n ks v m)
  then have "uniform (pins (ts ! unat n) ks v) (m - 1)" by (auto simp: list_all_length)
  with 5 show ?case by (simp add: list_all_set_nth)
qed simp_all

section \<open>Removal\<close>

text \<open>An extension is joined with a pair that follows it.\<close>

fun pjoin :: "bytes \<Rightarrow> ptrie \<Rightarrow> ptrie" where
  "pjoin k (PLeaf l v) = PLeaf (k @ l) v"
| "pjoin k (PExt l t) = PExt (k @ l) t"
| "pjoin k t = PExt k t"

definition used_children :: "ptrie list \<Rightarrow> nat list" where
  "used_children ts = filter (\<lambda>i. ts ! i \<noteq> PEmpty) [0..<16]"

definition pshrink :: "ptrie list \<Rightarrow> bytes \<Rightarrow> ptrie" where
  "pshrink ts v = (case used_children ts of [i] \<Rightarrow> pjoin [word_of_nat i] (ts ! i) | _ \<Rightarrow> PBranch ts v)"

fun pdel :: "ptrie \<Rightarrow> bytes \<Rightarrow> ptrie" where
  "pdel PEmpty ks = PEmpty"
| "pdel (PLeaf k v) ks = (if ks = k then PEmpty else PLeaf k v)"
| "pdel (PExt k t) ks = (if take (length k) ks = k then pjoin k (pdel t (drop (length k) ks)) else PExt k t)"
| "pdel (PBranch ts v) [] = PBranch ts v"
| "pdel (PBranch ts v) (n # ks) = (if unat n < length ts then pshrink (ts[unat n := pdel (ts ! unat n) ks]) v else PBranch ts v)"

lemma length_used: "length ts = 16 \<Longrightarrow> in_use ts [] = length (used_children ts)"
proof -
  assume l: "length ts = 16"
  have "length (filter (\<lambda>t. t \<noteq> PEmpty) ts) = length (filter (\<lambda>t. t \<noteq> PEmpty) (map ((!) ts) [0..<16]))"
    using map_nth [of ts] l by simp
  also have "\<dots> = length (used_children ts)" by (simp only: filter_map length_map used_children_def comp_def)
  finally show ?thesis by (simp add: in_use_def)
qed

lemma used_iff: "i \<in> set (used_children ts) \<longleftrightarrow> i < 16 \<and> ts ! i \<noteq> PEmpty"
  by (auto simp: used_children_def)

lemma take_append_iff:
  "take (length k + length l) ks = k @ l \<longleftrightarrow> take (length k) ks = k \<and> take (length l) (drop (length k) ks) = l"
proof
  assume a: "take (length k + length l) ks = k @ l"
  then have "length (take (length k + length l) ks) = length k + length l" by simp
  then have "length (take (length k) ks) = length k" by simp
  moreover have "take (length k) ks @ take (length l) (drop (length k) ks) = k @ l" using a by (simp add: take_add)
  ultimately show "take (length k) ks = k \<and> take (length l) (drop (length k) ks) = l" by simp
qed (simp add: take_add)

text \<open>What is looked up, and the well-formedness of the result.\<close>

lemma plook_pjoin: "plook (pjoin k t) ks = (if take (length k) ks = k then plook t (drop (length k) ks) else [])"
proof (cases t)
  case (PLeaf l v)
  have "ks = k @ l \<longleftrightarrow> take (length k) ks = k \<and> drop (length k) ks = l" by (metis append_eq_conv_conj append_take_drop_id)
  then show ?thesis using PLeaf by simp
next
  case (PExt l u)
  show ?thesis using PExt take_append_iff [of k l ks] by (simp add: add.commute)
qed simp_all

lemma plook_pshrink:
  assumes "length ts = 16" "nibbles_ok ks"
  shows "plook (pshrink ts []) ks = plook (PBranch ts []) ks"
proof (cases "\<exists>i. used_children ts = [i]")
  case True
  then obtain i where i: "used_children ts = [i]" by blast
  then have i16: "i < 16" using used_iff [of i ts] by simp
  have other: "ts ! j = PEmpty" if "j < 16" "j \<noteq> i" for j using used_iff [of j ts] i that by simp
  show ?thesis
  proof (cases ks)
    case Nil
    then show ?thesis by (simp add: pshrink_def i plook_pjoin)
  next
    case (Cons n ns)
    then have n: "unat n < 16" using assms(2) by (simp add: word_less_nat_alt)
    have "n = word_of_nat i \<longleftrightarrow> unat n = i" using i16 by (auto simp: unat_of_nat)
    then show ?thesis using Cons n other [of "unat n"] assms(1) by (auto simp: pshrink_def i plook_pjoin)
  qed
next
  case False
  then have "pshrink ts [] = PBranch ts []" by (auto simp: pshrink_def split: list.splits)
  then show ?thesis by simp
qed

lemma pjoin_ok:
  assumes "t \<noteq> PEmpty" "canon t" "pt_ok t" "uniform t n" "k \<noteq> []" "key_ok k" "length k + n < 2 ^ 30"
  shows "canon (pjoin k t)" "pt_ok (pjoin k t)" "uniform (pjoin k t) (length k + n)"
  using assms by (cases t; simp add: key_ok_def)+

lemma other_child:
  assumes "2 \<le> in_use ts []" "length ts = 16"
  shows "\<exists>i < 16. i \<noteq> n \<and> ts ! i \<noteq> PEmpty"
proof -
  obtain i j where "i < j" "j < 16" "ts ! i \<noteq> PEmpty" "ts ! j \<noteq> PEmpty" using in_use_two [OF assms(1)] assms(2) by auto
  then show ?thesis by (metis less_trans nat_neq_iff)
qed

text \<open>What is left of a branch after one of its children has been replaced.\<close>

lemma pshrink_ok:
  assumes ts: "canon (PBranch ts [])" "pt_ok (PBranch ts [])" "uniform (PBranch ts []) n" "n < 2 ^ 30" "i < 16"
    and u: "canon u" "pt_ok u" "uniform u (n - 1)"
  shows "canon (pshrink (ts[i := u]) [])" "pt_ok (pshrink (ts[i := u]) [])" "uniform (pshrink (ts[i := u]) []) n"
    "pshrink (ts[i := u]) [] \<noteq> PEmpty"
proof -
  let ?ts = "ts[i := u]"
  have len: "length ?ts = 16" using ts(2) by simp
  have all: "list_all canon ?ts" "list_all pt_ok ?ts" "list_all (\<lambda>t. uniform t (n - 1)) ?ts"
    using ts(1-3) u by (auto intro!: list_all_set_nth)
  obtain j where j: "j < 16" "j \<noteq> i" "ts ! j \<noteq> PEmpty" using other_child [of ts i] ts(1,2) by auto
  then have ju: "j \<in> set (used_children ?ts)" by (simp add: used_iff)
  have "canon (pshrink ?ts []) \<and> pt_ok (pshrink ?ts []) \<and> uniform (pshrink ?ts []) n \<and> pshrink ?ts [] \<noteq> PEmpty"
  proof (cases "\<exists>x. used_children ?ts = [x]")
    case True
    then have x: "used_children ?ts = [j]" using ju by auto
    have c: "?ts ! j \<noteq> PEmpty" "canon (?ts ! j)" "pt_ok (?ts ! j)" "uniform (?ts ! j) (n - 1)"
      using ju used_iff [of j ?ts] all len j(1) by (simp_all add: list_all_length)
    have k: "key_ok [word_of_nat j]" using j(1) by (simp add: key_ok_def word_less_nat_alt unat_of_nat)
    have n: "length [word_of_nat j :: byte] + (n - 1) = n" using ts(3) by simp
    have "pjoin [word_of_nat j] t \<noteq> PEmpty" for t by (cases t) simp_all
    then show ?thesis using pjoin_ok [OF c _ k, unfolded n] ts(4) by (simp add: pshrink_def x)
  next
    case False
    then have "length (used_children ?ts) \<noteq> 1" by (metis One_nat_def length_0_conv length_Suc_conv)
    moreover have "used_children ?ts \<noteq> []" using ju by auto
    ultimately have "2 \<le> length (used_children ?ts)" by (metis One_nat_def Suc_leI length_0_conv less_one linorder_neqE_nat not_less_eq_eq numeral_2_eq_2 not_less_zero le_neq_implies_less)
    then have "2 \<le> in_use ?ts []" using length_used [OF len] by simp
    moreover have "pshrink ?ts [] = PBranch ?ts []" using False by (auto simp: pshrink_def split: list.splits)
    ultimately show ?thesis using all len ts(3) by simp
  qed
  then show "canon (pshrink ?ts [])" "pt_ok (pshrink ?ts [])" "uniform (pshrink ?ts []) n" "pshrink ?ts [] \<noteq> PEmpty" by simp_all
qed

lemma pdel_ok:
  "canon t \<Longrightarrow> pt_ok t \<Longrightarrow> uniform t n \<Longrightarrow> n < 2 ^ 30 \<Longrightarrow> nibbles_ok ks \<Longrightarrow>
   canon (pdel t ks) \<and> pt_ok (pdel t ks) \<and> uniform (pdel t ks) n \<and> (is_branch t \<longrightarrow> pdel t ks \<noteq> PEmpty)"
proof (induction t ks arbitrary: n rule: pdel.induct)
  case (3 k t ks)
  show ?case
  proof (cases "take (length k) ks = k")
    case True
    have a: "canon t" "pt_ok t" "uniform t (n - length k)" "n - length k < 2 ^ 30" "nibbles_ok (drop (length k) ks)" "is_branch t" "k \<noteq> []" "key_ok k" "length k < n"
      using "3.prems" by auto
    from "3.IH" [OF True a(1-5)] a(6-9) "3.prems"(4) pjoin_ok [of "pdel t (drop (length k) ks)" "n - length k" k] True
    show ?thesis by simp
  next
    case False
    then show ?thesis using "3.prems" by simp
  qed
next
  case (5 ts v m ks)
  have v: "v = []" using "5.prems"(3) by simp
  have m: "unat m < length ts" "unat m < 16" using "5.prems"(2,5) by (simp_all add: word_less_nat_alt)
  have c: "canon (ts ! unat m)" "pt_ok (ts ! unat m)" "uniform (ts ! unat m) (n - 1)" "n - 1 < 2 ^ 30" "nibbles_ok ks"
    using "5.prems" m by (auto simp: list_all_length)
  from "5.IH" [OF m(1) c] pshrink_ok [OF "5.prems"(1-4) [unfolded v] m(2)] m(1) v show ?case by simp
qed simp_all

theorem plook_pdel:
  "canon t \<Longrightarrow> pt_ok t \<Longrightarrow> uniform t n \<Longrightarrow> nibbles_ok ks \<Longrightarrow> length ks = n \<Longrightarrow> nibbles_ok ks' \<Longrightarrow>
   plook (pdel t ks) ks' = (if ks' = ks then [] else plook t ks')"
proof (induction t ks arbitrary: n ks' rule: pdel.induct)
  case (3 k t ks)
  show ?case
  proof (cases "take (length k) ks = k")
    case True
    have "length (drop (length k) ks) = n - length k" using "3.prems"(5) by simp
    then have IH: "plook (pdel t (drop (length k) ks)) x = (if x = drop (length k) ks then [] else plook t x)" if "nibbles_ok x" for x
      using "3.IH" [OF True _ _ _ _ _ that, of "n - length k"] "3.prems" by auto
    have "ks' = ks \<longleftrightarrow> take (length k) ks' = k \<and> drop (length k) ks' = drop (length k) ks" using True by (metis append_take_drop_id)
    then show ?thesis using IH [of "drop (length k) ks'"] "3.prems"(6) True by (auto simp: plook_pjoin)
  next
    case False
    then show ?thesis by auto
  qed
next
  case (4 ts v)
  then show ?case by simp
next
  case (5 ts v m ks)
  have v: "v = []" using "5.prems"(3) by simp
  have m: "unat m < length ts" "unat m < 16" "length ts = 16" using "5.prems"(2,4) by (simp_all add: word_less_nat_alt)
  have c: "canon (ts ! unat m)" "pt_ok (ts ! unat m)" "uniform (ts ! unat m) (n - 1)" "nibbles_ok ks" "length ks = n - 1"
    using "5.prems" m by (auto simp: list_all_length)
  have "plook (pdel (PBranch ts v) (m # ks)) ks' = plook (PBranch (ts[unat m := pdel (ts ! unat m) ks]) []) ks'"
    using plook_pshrink [of "ts[unat m := pdel (ts ! unat m) ks]" ks'] "5.prems"(6) m v by simp
  then show ?case using "5.IH" [OF m(1) c] "5.prems"(6) m v
    by (cases ks') (auto simp: nth_list_update word_unat_eq_iff)
qed auto

section \<open>What removal writes\<close>

fun dw :: "hash_fun \<Rightarrow> ptrie \<Rightarrow> bytes \<Rightarrow> bytes set" where
  "dw H (PExt k t) ks =
     (if plook (PExt k t) ks = [] then {} else dw H t (drop (length k) ks) \<union> cell H (pdel t (drop (length k) ks)))"
| "dw H (PBranch ts v) (n # ks) =
     (if plook (PBranch ts v) (n # ks) = [] then {} else dw H (ts ! unat n) ks \<union> cell H (pdel (ts ! unat n) ks))"
| "dw H t ks = {}"

lemma dw_absent [simp]: "plook t ks = [] \<Longrightarrow> dw H t ks = {}"
  by (cases "(H, t, ks)" rule: dw.cases) auto

lemma below_pjoin: "below H (pjoin k t) \<subseteq> cell H t \<union> below H t"
  by (cases t) auto

lemma below_pshrink:
  assumes "length ts = 16"
  shows "below H (pshrink ts v) \<subseteq> below H (PBranch ts v)"
proof (cases "\<exists>i. used_children ts = [i]")
  case True
  then obtain i where i: "used_children ts = [i]" by blast
  then have "i < length ts" using used_iff [of i ts] assms by simp
  then show ?thesis
    using below_pjoin [of H "[word_of_nat i]" "ts ! i"] below_child [of i ts H v] by (auto simp: pshrink_def i simp del: below.simps)
next
  case False
  then have "pshrink ts v = PBranch ts v" by (auto simp: pshrink_def split: list.splits)
  then show ?thesis by simp
qed

lemma below_pdel: "pt_ok t \<Longrightarrow> nibbles_ok ks \<Longrightarrow> plook t ks \<noteq> [] \<Longrightarrow> below H (pdel t ks) \<subseteq> below H t \<union> dw H t ks"
proof (induction t ks rule: pdel.induct)
  case (3 k t ks)
  then have k: "take (length k) ks = k" "plook t (drop (length k) ks) \<noteq> []" by (auto split: if_splits)
  then have "below H (pdel t (drop (length k) ks)) \<subseteq> below H t \<union> dw H t (drop (length k) ks)" using 3 by simp
  then show ?case using k below_pjoin [of H k "pdel t (drop (length k) ks)"] by auto
next
  case (5 ts v n ks)
  let ?u = "pdel (ts ! unat n) ks"
  have n: "unat n < length ts" "length ts = 16" "plook (ts ! unat n) ks \<noteq> []" using "5.prems" by (simp_all add: word_less_nat_alt)
  have "below H ?u \<subseteq> below H (ts ! unat n) \<union> dw H (ts ! unat n) ks"
    by (rule "5.IH") (use "5.prems" n in \<open>simp_all add: list_all_length\<close>)
  moreover have "below H (pshrink (ts[unat n := ?u]) v) \<subseteq> below H (PBranch ts v) \<union> cell H ?u \<union> below H ?u"
    using below_pshrink [of "ts[unat n := ?u]" H v] below_update [of H ts "unat n" ?u v] n(2) by (auto simp del: below.simps)
  ultimately show ?case using n below_child [OF n(1), of H v] by (auto simp del: below.simps)
qed auto

section \<open>The last child of a branch\<close>

lemma child_empty:
  assumes "hash_ok H" "pt_ok (PBranch ts v)" "i < 16"
  shows "rlp_nth (enc H (PBranch ts v)) i = Inr (rlp_encode (ref_of H (item H (ts ! i))))"
    "rlp_isEmpty (rlp_encode (ref_of H (item H (ts ! i)))) \<longleftrightarrow> ts ! i = PEmpty"
proof -
  have len: "length (map (item H) ts) = 16" using assms(2) by simp
  show "rlp_nth (enc H (PBranch ts v)) i = Inr (rlp_encode (ref_of H (item H (ts ! i))))"
    using children_read(7) [OF assms(1,2) len assms(3)] assms(2,3) by simp
  show "rlp_isEmpty (rlp_encode (ref_of H (item H (ts ! i)))) \<longleftrightarrow> ts ! i = PEmpty"
    by (rule ref_empty [OF assms(1)]) (use assms(2,3) in \<open>simp add: list_all_length\<close>)
qed

lemma value_empty:
  assumes "hash_ok H" "pt_ok (PBranch ts [])"
  shows "\<exists>r. rlp_nth (enc H (PBranch ts [])) 16 = Inr r \<and> rlp_isEmpty r"
proof -
  have len: "length (map (item H) ts) = 16" using assms(2) by simp
  have "rlp_isEmpty (rlp_encode (RStr []))" using enc_empty [of H] by (simp only: enc_simps)
  then show ?thesis using children_read(6) [OF assms len] by (simp del: rlp_encode.simps)
qed

lemma slot_empty:
  assumes "hash_ok H" "pt_ok (PBranch ts [])" "i < 17"
  shows "\<exists>r. rlp_nth (enc H (PBranch ts [])) i = Inr r \<and> (rlp_isEmpty r \<longleftrightarrow> \<not> (i < 16 \<and> ts ! i \<noteq> PEmpty))"
proof (cases "i < 16")
  case True
  then show ?thesis using child_empty [OF assms(1,2) True] by simp
next
  case False
  then have "i = 16" using assms(3) by simp
  then show ?thesis using value_empty [OF assms(1,2)] by simp
qed

lemma unique_loop_used:
  assumes "hash_ok H" "pt_ok (PBranch ts [])" "j < 17"
  shows "list_all (\<lambda>i. i < 17) is \<Longrightarrow>
    unique_loop (enc H (PBranch ts [])) 255 is (word_of_nat j) =
      Inr (if filter (\<lambda>i. i < 16 \<and> ts ! i \<noteq> PEmpty) is = [] then word_of_nat j else 255)"
proof (induction "is")
  case (Cons i "is")
  obtain r where "rlp_nth (enc H (PBranch ts [])) i = Inr r" "rlp_isEmpty r \<longleftrightarrow> \<not> (i < 16 \<and> ts ! i \<noteq> PEmpty)"
    using slot_empty [OF assms(1,2), of i] Cons.prems by auto
  moreover have "(word_of_nat j :: byte) \<noteq> 255" using assms(3) by (simp add: word_unat_eq_iff unat_of_nat)
  ultimately show ?case using Cons by auto
qed simp

lemma unique_loop_eq:
  assumes "hash_ok H" "pt_ok (PBranch ts [])"
  shows "list_all (\<lambda>i. i < 17) is \<Longrightarrow>
    unique_loop (enc H (PBranch ts [])) 255 is 255 =
      Inr (case filter (\<lambda>i. i < 16 \<and> ts ! i \<noteq> PEmpty) is of [i] \<Rightarrow> word_of_nat i | _ \<Rightarrow> 255)"
proof (induction "is")
  case (Cons i "is")
  obtain r where r: "rlp_nth (enc H (PBranch ts [])) i = Inr r" "rlp_isEmpty r \<longleftrightarrow> \<not> (i < 16 \<and> ts ! i \<noteq> PEmpty)"
    using slot_empty [OF assms, of i] Cons.prems by auto
  have "i \<noteq> 255" using Cons.prems by simp
  then show ?case using r Cons unique_loop_used [OF assms, of i "is"] by (auto split: list.splits)
qed simp

lemma uniqueInUse_eq:
  assumes "hash_ok H" "pt_ok (PBranch ts [])"
  shows "uniqueInUse (enc H (PBranch ts [])) 255 = Inr (case used_children ts of [i] \<Rightarrow> word_of_nat i | _ \<Rightarrow> 255)"
proof -
  have "[0..<17] = [0..<16] @ [16 :: nat]" by (simp add: upt_rec)
  then have "filter (\<lambda>i. i < 16 \<and> ts ! i \<noteq> PEmpty) [0..<17] = filter (\<lambda>i. i < 16 \<and> ts ! i \<noteq> PEmpty) [0..<16]"
    by (simp del: upt_Suc upt_rec_numeral)
  also have "\<dots> = used_children ts" unfolding used_children_def by (rule filter_cong) auto
  finally show ?thesis
    using unique_loop_eq [OF assms, of "[0..<17]"] by (simp add: uniqueInUse_def list_all_iff del: upt_Suc upt_rec_numeral)
qed

section \<open>The code removes\<close>

text \<open>A leaf or an extension: its key, the flag, and the second item.\<close>

fun pair_of :: "hash_fun \<Rightarrow> ptrie \<Rightarrow> (bytes \<times> bool \<times> rlp_item) option" where
  "pair_of H (PLeaf k v) = Some (k, True, RStr v)"
| "pair_of H (PExt k t) = Some (k, False, ref_of H (item H t))"
| "pair_of H t = None"

lemma pair_of_enc:
  assumes "hash_ok H" "pt_ok t" "pair_of H t = Some (k, leaf, x)"
  shows "enc H t = rlp_encode (RList [RStr (hp k leaf), x])" "key_ok k" "small [RStr (hp k leaf), x]"
    "\<And>l. key_ok (l @ k) \<Longrightarrow> small [RStr (hp (l @ k) leaf), x]"
    "\<And>l. enc H (pjoin l t) = rlp_encode (RList [RStr (hp (l @ k) leaf), x])"
  using assms small_two by (cases t; auto simp: enc_simps fits_item simp del: rlp_encode.simps)+

lemma pair_of_None: "t \<noteq> PEmpty \<Longrightarrow> pair_of H t = None \<longleftrightarrow> is_branch t"
  by (cases t) simp_all

lemma itemCount_enc:
  assumes "hash_ok H" "pt_ok t" "t \<noteq> PEmpty"
  shows "\<exists>c. rlp_itemCount (enc H t) = Inr c \<and> (c = 2 \<longleftrightarrow> \<not> is_branch t)"
proof (cases "pair_of H t")
  case None
  then obtain ts v where t: "t = PBranch ts v" using pair_of_None [OF assms(3)] by (cases t) auto
  then have len: "length (map (item H) ts) = 16" using assms(2) by simp
  show ?thesis using children_read(4) [OF assms(1) assms(2) [unfolded t] len] t by simp
next
  case (Some p)
  obtain k leaf x where p: "p = (k, leaf, x)" by (metis prod_cases3)
  have "\<not> is_branch t" using Some by (cases t) simp_all
  then show ?thesis
    using pair_read(4) [OF pair_of_enc(2,3) [OF assms(1,2) Some [unfolded p]]] pair_of_enc(1) [OF assms(1,2) Some [unfolded p]] by simp
qed

context node_store
begin

lemma isTwoItemNode_ref:
  assumes "hash_ok H" "pt_ok t" "t \<noteq> PEmpty" "holds H d W" "cell H t \<subseteq> W"
  shows "isTwoItemNode D (rlp_encode (ref_of H (item H t))) d = Inr (\<not> is_branch t)"
proof -
  obtain c where c: "rlp_itemCount (enc H t) = Inr c" "c = 2 \<longleftrightarrow> \<not> is_branch t" using itemCount_enc [OF assms(1-3)] by blast
  let ?r = "rlp_encode (ref_of H (item H t))"
  have fr: "rlp_fits (ref_of H (item H t))" by (rule fits_ref_of [OF assms(1) fits_item [OF assms(1,2)]])
  have dl: "rlp_isData ?r \<longleftrightarrow> \<not> rlp_isList ?r" using rlp_isData_item [OF fr] rlp_isList_item [OF fr] by simp
  show ?thesis
  proof (cases "rlp_isList ?r")
    case True
    then show ?thesis using dl ref_list [OF assms(1,2) True] c by (simp add: isTwoItemNode_def)
  next
    case False
    then have "node_of D ?r d = Inr (enc H t)" using ref_node [OF assms(1,2,4,5)] ref_empty [OF assms(1,2)] assms(3) by simp
    then show ?thesis using False dl c by (simp add: isTwoItemNode_def)
  qed
qed

lemma graft_eq:
  assumes "hash_ok H" "pt_ok (PExt k t)" "\<not> is_branch t" "key_ok (k @ l)" "pair_of H t = Some (l, leaf, x)"
    and "holds H d W" "cell H t \<subseteq> W"
  shows "\<exists>d'. graft D (enc H (PExt k t)) d = Inr (enc H (pjoin k t), d') \<and> holds H d' W"
proof -
  have k: "key_ok k" "pt_ok t" "t \<noteq> PEmpty" using assms(2) by simp_all
  note r = ext_read [OF k(1) assms(1,2)]
  obtain s where s: "keyOf_node (enc H (PExt k t)) = Inr s" "ns_ok s" "nibs s = k" using r(8) by blast
  note p = pair_of_enc [OF assms(1) k(2) assms(5)]
  note q = pair_read [OF p(2,3), folded p(1)]
  obtain s2 where s2: "keyOf_node (enc H t) = Inr s2" "ns_ok s2" "nibs s2 = l" using q(8) by blast
  let ?r = "rlp_encode (ref_of H (item H t))"
  have child: "\<exists>d'. (if rlp_isList ?r then Inr (?r, d)
      else bindE (rlp_toHash 32 Strict ?r) (\<lambda>lh. bindE (RLP (do_lookup D d lh) VeryStrict) (\<lambda>n. Inr (n, do_kill D lh d)))) = Inr (enc H t, d') \<and>
      holds H d' W"
  proof (cases "rlp_isList ?r")
    case True
    then show ?thesis using ref_list [OF assms(1) k(2) True] assms(6) by simp
  next
    case False
    then have big: "\<not> length (enc H t) < 32" using inline_shape(2) [OF assms(1) k(2)] k(3) ref_inline(1) [of H t] by auto
    then have "do_lookup D d (H (enc H t)) = enc H t" using holds_lookup [OF assms(6)] assms(7) by (simp add: cell_def)
    then show ?thesis
      using False big assms(1,6) RLP_enc [OF assms(1) k(2)] holds_kill
      by (simp add: ref_inline rlp_toHash_item del: rlp_encode.simps)
  qed
  then obtain d' where d': "(if rlp_isList ?r then Inr (?r, d)
      else bindE (rlp_toHash 32 Strict ?r) (\<lambda>lh. bindE (RLP (do_lookup D d lh) VeryStrict) (\<lambda>n. Inr (n, do_kill D lh d)))) = Inr (enc H t, d')"
    "holds H d' W" by blast
  have "length (nibs s) + length (nibs s2) < 2 ^ 31" using assms(4) s(3) s2(3) by (auto simp: key_ok_def)
  then have key: "hexPrefixEncode2 s s2 leaf = Inr (hp (k @ l) leaf)" using hexPrefixEncode2_append [OF s(2) s2(2)] s(3) s2(3) by simp
  have out: "rlpList2 (hp (k @ l) leaf) (appendItem (enc H t) (Suc 0)) = Inr (enc H (pjoin k t))"
    using pair_write [OF p(4) [OF assms(4)] q(6)] p(5) by simp
  have "graft D (enc H (PExt k t)) d = Inr (enc H (pjoin k t), d')"
    unfolding graft_def One_nat_def
    using r(3,4,6) s(1) q(4,5) s2(1) key out d'(1) by (simp add: require_def split del: if_split)
  then show ?thesis using d'(2) by blast
qed

lemma merge_eq:
  assumes "hash_ok H" "pt_ok (PBranch ts [])" "i < 16" "ts ! i \<noteq> PEmpty"
  shows "merge (enc H (PBranch ts [])) (word_of_nat i) = Inr (enc H (PExt [word_of_nat i] (ts ! i)))"
proof -
  have len: "length (map (item H) ts) = 16" using assms(2) by simp
  note r = children_read [OF assms(1,2) len]
  note c = child_empty [OF assms(1-3)]
  have i: "unat (word_of_nat i :: byte) = i" "(word_of_nat i :: byte) \<noteq> 16" "(word_of_nat i :: byte) < 16"
    using assms(3) by (simp_all add: unat_of_nat word_unat_eq_iff word_less_nat_alt)
  have ns: "ns_ok (NibbleSlice [word_of_nat i] 0)" by (simp add: ns_ok_def NibbleSlice_def)
  have "drop 1 (take 2 (nibs (NibbleSlice [word_of_nat i] 0))) = [word_of_nat i]"
    using i(1) assms(3) by (simp add: nibs_def NibbleSlice_def word_unat_eq_iff unat_mod)
  then have key: "hexPrefixEncode_bits [word_of_nat i] False 1 2 0 = Inr (hp [word_of_nat i] False)"
    using hexPrefixEncode_range [OF ns, of 1 2 False] by (simp add: hexPrefixEncode_def nibs_def NibbleSlice_def)
  have k: "key_ok [word_of_nat i]" using i(3) by (simp add: key_ok_def)
  have t: "pt_ok (ts ! i)" using assms(2,3) by (simp add: list_all_length)
  show ?thesis
    using r(3,4) c i key assms(4) pair_write [OF small_two(1) [OF k assms(1) fits_item [OF assms(1) t], of False], of "enc H (PBranch ts [])" i]
    by (simp add: merge_def require_def enc_simps(3) del: rlp_encode.simps)
qed

lemma collapse_eq:
  assumes "hash_ok H" "pt_ok (PBranch ts [])" "i < 16" "ts ! i \<noteq> PEmpty" "uniform (ts ! i) n" "Suc n < 2 ^ 30"
    and "holds H d W" "cell H (ts ! i) \<subseteq> W"
  shows "\<exists>d'. collapse D (enc H (PBranch ts [])) (word_of_nat i) d = Inr (enc H (pjoin [word_of_nat i] (ts ! i)), d') \<and> holds H d' W"
proof -
  have t: "pt_ok (ts ! i)" using assms(2,3) by (simp add: list_all_length)
  have i: "unat (word_of_nat i :: byte) = i" "(word_of_nat i :: byte) < 16"
    using assms(3) by (simp_all add: unat_of_nat word_less_nat_alt)
  have k: "key_ok [word_of_nat i]" using i(2) by (simp add: key_ok_def)
  have e: "pt_ok (PExt [word_of_nat i] (ts ! i))" using k t assms(4) by simp
  note c = child_empty(1) [OF assms(1-3)]
  note two = isTwoItemNode_ref [OF assms(1) t assms(4,7,8)]
  note m = merge_eq [OF assms(1-4)]
  show ?thesis
  proof (cases "is_branch (ts ! i)")
    case True
    then have "pjoin [word_of_nat i] (ts ! i) = PExt [word_of_nat i] (ts ! i)" by (cases "ts ! i") simp_all
    then show ?thesis using c i(1) two m True assms(7) by (simp add: collapse_def)
  next
    case False
    then obtain l leaf x where p: "pair_of H (ts ! i) = Some (l, leaf, x)" using assms(4) by (cases "ts ! i") auto
    have "length l \<le> n" using p assms(5) by (cases "ts ! i") auto
    moreover have "nibbles_ok l" using pair_of_enc(2) [OF assms(1) t p] by (simp add: key_ok_def)
    ultimately have "key_ok ([word_of_nat i] @ l)" using i(2) assms(6) by (simp add: key_ok_def)
    from graft_eq [OF assms(1) e False this p assms(7,8)] show ?thesis
      using c i(1) two m False RLP_enc [OF assms(1) e] by (simp add: collapse_def)
  qed
qed

lemma deleteAtAux_none:
  assumes "hash_ok H" "pt_ok t" "holds H d W" "cell H t \<subseteq> W" "rec (enc H t) d = Some (Inr ([], d))"
  shows "deleteAtAux D H rec out (rlp_encode (ref_of H (item H t))) d = Some (Inr (False, out, d))"
  using ref_empty [OF assms(1,2)] ref_view [OF assms(1,2) _ assms(3,4)] assms(5) by (cases "t = PEmpty") (simp_all add: deleteAtAux_def)

lemma deleteAtAux_some:
  assumes "hash_ok H" "pt_ok t" "t \<noteq> PEmpty" "holds H d W" "cell H t \<subseteq> W"
    and "rec (enc H t) d = Some (Inr (enc H u, d1))" "pt_ok u" "holds H d1 V" "inj_on H (V \<union> cell H u)"
    and "length xs < n" "length (encs (xs @ [ref_of H (item H u)])) < 2 ^ 64"
  shows "\<exists>d'. deleteAtAux D H rec (part n xs) (rlp_encode (ref_of H (item H t))) d =
      Some (Inr (True, part n (xs @ [ref_of H (item H u)]), d')) \<and> holds H d' (V \<union> cell H u)"
proof -
  obtain d' where "streamNode D H (part n xs) (enc H u) d1 = Inr (part n (xs @ [ref_of H (item H u)]), d')" "holds H d' (V \<union> cell H u)"
    using streamNode_ref [OF assms(1,8-11)] by blast
  then show ?thesis
    using ref_empty [OF assms(1,2)] ref_view [OF assms(1-5)] assms(3,6) enc_nonempty [OF assms(1,7)] by (simp add: deleteAtAux_def)
qed

lemma byte_index: "i < 16 \<Longrightarrow> (word_of_nat i :: byte) \<noteq> 255"
  by (simp add: word_unat_eq_iff unat_of_nat)

lemma shrink_eq:
  assumes "hash_ok H" "pt_ok (PBranch ts [])" "list_all (\<lambda>t. uniform t n) ts" "Suc n < 2 ^ 30"
    and "holds H d W" "below H (PBranch ts []) \<subseteq> W"
  shows "\<exists>used d'. uniqueInUse (enc H (PBranch ts [])) 255 = Inr used \<and>
    (if used = 255 then Inr (enc H (PBranch ts []), d) else collapse D (enc H (PBranch ts [])) used d) = Inr (enc H (pshrink ts []), d') \<and>
    holds H d' W"
proof (cases "\<exists>i. used_children ts = [i]")
  case True
  then obtain i where i: "used_children ts = [i]" by blast
  have len: "length ts = 16" using assms(2) by simp
  have c: "i < 16" "ts ! i \<noteq> PEmpty" using used_iff [of i ts] i by simp_all
  have "uniform (ts ! i) n" "cell H (ts ! i) \<subseteq> W"
    using assms(3,6) c len below_child [of i ts H "[]"] by (auto simp: list_all_length simp del: below.simps)
  from collapse_eq [OF assms(1,2) c this(1) assms(4,5) this(2)] show ?thesis
    using c(1) uniqueInUse_eq [OF assms(1,2)] byte_index [OF c(1)] by (auto simp: i pshrink_def)
next
  case False
  then have "pshrink ts [] = PBranch ts []" "uniqueInUse (enc H (PBranch ts [])) 255 = Inr 255"
    using uniqueInUse_eq [OF assms(1,2)] by (auto simp: pshrink_def split: list.splits)
  then show ?thesis using assms(5) by simp
qed

lemma deleteAt_branch:
  assumes "hash_ok H" and t: "canon (PBranch ts [])" "pt_ok (PBranch ts [])" "uniform (PBranch ts []) n" "n < 2 ^ 30"
    and key: "nibs key = m # ks" "ns_ok key"
    and d: "holds H d W" "below H (PBranch ts []) \<subseteq> W" "inj_on H (W \<union> dw H (PBranch ts []) (m # ks))"
    and rec: "if plook (ts ! unat m) ks = [] then deleteAt D H (ns_mid key 1) (enc H (ts ! unat m)) d = Some (Inr ([], d))
      else \<exists>d'. deleteAt D H (ns_mid key 1) (enc H (ts ! unat m)) d = Some (Inr (enc H (pdel (ts ! unat m) ks), d')) \<and>
        holds H d' (W \<union> dw H (ts ! unat m) ks)"
  shows "if plook (ts ! unat m) ks = [] then deleteAt D H key (enc H (PBranch ts [])) d = Some (Inr ([], d))
    else \<exists>d'. deleteAt D H key (enc H (PBranch ts [])) d = Some (Inr (enc H (pdel (PBranch ts []) (m # ks)), d')) \<and>
      holds H d' (W \<union> dw H (PBranch ts []) (m # ks))"
proof -
  let ?c = "ts ! unat m" and ?u = "pdel (ts ! unat m) ks" and ?n = "enc H (PBranch ts [])"
  have len: "length (map (item H) ts) = 16" using t(2) by simp
  have nib: "unat m < 16" "nibbles_ok ks" using nibbles_ok_nibs [of key] key(1) by (simp_all add: word_less_nat_alt)
  have m: "unat m < length ts" using nib(1) t(2) by simp
  note r = children_read [OF assms(1) t(2) len]
  obtain val where val: "rlp_nth ?n 16 = Inr val" "rlp_isEmpty val" using value_empty [OF assms(1) t(2)] by blast
  have nz: "ns_size key \<noteq> 0" using ns_ok_bounds(2) [OF key(2)] key(1) by auto
  have at0: "ns_at key 0 = Inr m" using ns_at_nth [OF key(2), of 0] key(1) by simp
  have c: "canon ?c" "pt_ok ?c" "uniform ?c (n - 1)" "n - 1 < 2 ^ 30" "cell H ?c \<subseteq> W"
    using t m d(2) below_child [OF m, of H "[]"] by (auto simp: list_all_length simp del: below.simps)
  have u: "canon ?u" "pt_ok ?u" "uniform ?u (n - 1)" using pdel_ok [OF c(1-4) nib(2)] by simp_all
  note rn = child_empty(1) [OF assms(1) t(2) nib(1)]
  obtain pre r' where pre: "length pre = unat m" "length (encs (pre @ [ref_of H (item H ?u)])) < 2 ^ 64"
      "foldE (appendItem ?n) [0..<unat m] (part 17 []) = Inr (part 17 pre)"
      "foldE (appendItem ?n) [Suc (unat m)..<17] (part 17 (pre @ [ref_of H (item H ?u)])) = Inr r'"
      "rlp_out r' = Inr (enc H (PBranch (ts[unat m := ?u]) []))"
    using branch_stream [OF assms(1) t(2) nib(1) u(2)] by blast
  show ?thesis
  proof (cases "plook ?c ks = []")
    case True
    have "deleteAtAux D H (\<lambda>r e. deleteAt D H (ns_mid key 1) r e) (part 17 pre) (rlp_encode (ref_of H (item H ?c))) d =
        Some (Inr (False, part 17 pre, d))"
      by (rule deleteAtAux_none [OF assms(1) c(2) d(1) c(5)]) (use rec True in simp)
    then show ?thesis
      using r(1-6) val nz at0 rn pre(3) True
      by (subst deleteAt.simps) (simp add: require_def part_start del: rlp_encode.simps upt_Suc upt_rec_numeral)
  next
    case False
    let ?W = "W \<union> dw H ?c ks \<union> cell H ?u"
    have W: "W \<union> dw H (PBranch ts []) (m # ks) = ?W" using m False by auto
    have ne: "?c \<noteq> PEmpty" using False by auto
    obtain d1 where d1: "deleteAt D H (ns_mid key 1) (enc H ?c) d = Some (Inr (enc H ?u, d1))" "holds H d1 (W \<union> dw H ?c ks)"
      using rec False by auto
    obtain d2 where d2: "deleteAtAux D H (\<lambda>r e. deleteAt D H (ns_mid key 1) r e) (part 17 pre) (rlp_encode (ref_of H (item H ?c))) d =
        Some (Inr (True, part 17 (pre @ [ref_of H (item H ?u)]), d2))" "holds H d2 ?W"
      using deleteAtAux_some [where rec = "\<lambda>r e. deleteAt D H (ns_mid key 1) r e" and xs = pre and n = 17,
          OF assms(1) c(2) ne d(1) c(5) d1(1) u(2) d1(2) d(3) [unfolded W] _ pre(2)] pre(1) nib(1) by auto
    let ?ts = "ts[unat m := ?u]" and ?d = "killNode D H ?n d2"
    have ts: "pt_ok (PBranch ?ts [])" "list_all (\<lambda>t. uniform t (n - 1)) ?ts" "Suc (n - 1) < 2 ^ 30"
      using t u by (auto simp: list_all_set_nth)
    have "below H (PBranch ?ts []) \<subseteq> ?W"
      using below_update [of H ts "unat m" ?u "[]"] below_pdel [OF c(2) nib(2) False, of H] below_child [OF m, of H "[]"] d(2) by blast
    from shrink_eq [OF assms(1) ts _ this, of ?d] d2(2) obtain used d' where
      s: "uniqueInUse (enc H (PBranch ?ts [])) 255 = Inr used"
        "(if used = 255 then Inr (enc H (PBranch ?ts []), ?d) else collapse D (enc H (PBranch ?ts [])) used ?d) = Inr (enc H (pshrink ?ts []), d')"
        "holds H d' ?W" by auto
    have "deleteAt D H key ?n d = Some (Inr (enc H (pshrink ?ts []), d'))"
      using r(1-6) val nz at0 rn pre(3-5) d2(1) s(1,2) RLP_enc [OF assms(1) ts(1)]
      by (subst deleteAt.simps)
        (auto simp add: require_def part_start simp del: rlp_encode.simps upt_Suc upt_rec_numeral split: if_splits)
    then show ?thesis using False m s(3) W by simp
  qed
qed

theorem deleteAt_pdel:
  assumes "hash_ok H"
  shows "canon t \<Longrightarrow> pt_ok t \<Longrightarrow> uniform t n \<Longrightarrow> n < 2 ^ 30 \<Longrightarrow> ks = nibs key \<Longrightarrow> length ks = n \<Longrightarrow> ns_ok key \<Longrightarrow>
    holds H d W \<Longrightarrow> below H t \<subseteq> W \<Longrightarrow> inj_on H (W \<union> dw H t ks) \<Longrightarrow>
    if plook t ks = [] then deleteAt D H key (enc H t) d = Some (Inr ([], d))
    else \<exists>d'. deleteAt D H key (enc H t) d = Some (Inr (enc H (pdel t ks), d')) \<and> holds H d' (W \<union> dw H t ks)"
proof (induction t ks arbitrary: key d W n rule: pdel.induct)
  case (1 ks)
  then show ?case using enc_empty [of H] by (subst deleteAt.simps) simp
next
  case (2 k v ks)
  have k: "key_ok k" using "2.prems"(2) by simp
  note r = leaf_read [where H = H, OF k "2.prems"(2)]
  obtain s where s: "keyOf_node (enc H (PLeaf k v)) = Inr s" "ns_ok s" "nibs s = k" using r(8) by blast
  have "take (length k) ks = k \<longleftrightarrow> ks = k" using "2.prems"(3,6) by simp
  then have "deleteAt D H key (enc H (PLeaf k v)) d =
      Some (Inr (if ks = k then (RLPNull, killNode D H (enc H (PLeaf k v)) d) else ([], d)))"
    using r s "2.prems"(5,7) by (subst deleteAt.simps) (auto simp: require_def ns_eq_nibs ns_contains_prefix)
  moreover have "enc H PEmpty = RLPNull" by (simp add: enc_simps RLPNull_def rlp_string_def rlp_header_def)
  ultimately show ?case using "2.prems"(1,8) by simp
next
  case (3 k t ks)
  have k: "key_ok k" "pt_ok t" "cell H t \<subseteq> W" "below H t \<subseteq> W" "t \<noteq> PEmpty" "canon t" "is_branch t" "k \<noteq> []"
    using "3.prems"(1,2,9) by simp_all
  have n: "length k < n" "uniform t (n - length k)" "n - length k < 2 ^ 30" using "3.prems"(3,4) by auto
  note r = ext_read [OF k(1) assms "3.prems"(2)]
  obtain s where s: "keyOf_node (enc H (PExt k t)) = Inr s" "ns_ok s" "nibs s = k" using r(8) by blast
  show ?case
  proof (cases "take (length k) ks = k")
    case False
    then have "deleteAt D H key (enc H (PExt k t)) d = Some (Inr ([], d))"
      using r s "3.prems"(5,7) by (subst deleteAt.simps) (auto simp: require_def ns_eq_nibs ns_contains_prefix)
    then show ?thesis using False by simp
  next
    case True
    let ?ks = "drop (length k) ks"
    have sz: "unat (ns_size s) = length k" using ns_ok_bounds(2) [OF s(2)] s(3) by simp
    have "length k \<le> length (nibs key)" using n(1) "3.prems"(5,6) by simp
    note m = ns_mid_nibs [OF "3.prems"(7), of "ns_size s", unfolded sz, OF this]
    have inj: "inj_on H (W \<union> dw H t ?ks)"
      using "3.prems"(10) True by (cases "plook t ?ks = []") (auto elim!: inj_on_subset)
    have IH: "if plook t ?ks = [] then deleteAt D H (ns_mid key (ns_size s)) (enc H t) d = Some (Inr ([], d))
      else \<exists>d'. deleteAt D H (ns_mid key (ns_size s)) (enc H t) d = Some (Inr (enc H (pdel t ?ks), d')) \<and> holds H d' (W \<union> dw H t ?ks)"
      by (rule "3.IH" [OF True k(6,2) n(2,3) _ _ m(1) "3.prems"(8) k(4) inj]) (use m(2) "3.prems"(5,6) in simp_all)
    have n0: "rlp_nth (enc H (PExt k t)) 0 = Inr (rlp_encode (RStr (hp k False)))"
      using rlp_nth_item [OF small_fits [OF small_ext [OF assms "3.prems"(2)]], of 0] by (simp add: enc_simps del: rlp_encode.simps)
    have sm0: "small [RStr (hp k False)]" using small_ext [OF assms "3.prems"(2)] by (auto simp: small_def)
    have e0: "appendItem (enc H (PExt k t)) 0 (part 2 []) = Inr (part 2 [RStr (hp k False)])"
      using part_item [OF n0, of "[]" 2] small_64 [OF sm0] by simp
    show ?thesis
    proof (cases "plook t ?ks = []")
      case none: True
      have "deleteAtAux D H (\<lambda>r e. deleteAt D H (ns_mid key (ns_size s)) r e) (part 2 [RStr (hp k False)]) (rlp_encode (ref_of H (item H t))) d =
          Some (Inr (False, part 2 [RStr (hp k False)], d))"
        by (rule deleteAtAux_none [OF assms k(2) "3.prems"(8) k(3)]) (use IH none in simp)
      then have "deleteAt D H key (enc H (PExt k t)) d = Some (Inr ([], d))"
        using r s e0 True "3.prems"(5,7) by (subst deleteAt.simps) (simp add: require_def ns_eq_nibs ns_contains_prefix part_start)
      then show ?thesis using True none by simp
    next
      case found: False
      let ?u = "pdel t ?ks"
      have inj2: "inj_on H (W \<union> dw H t ?ks \<union> cell H ?u)" using "3.prems"(10) True found by (simp add: Un_assoc)
      obtain d1 where d1: "deleteAt D H (ns_mid key (ns_size s)) (enc H t) d = Some (Inr (enc H ?u, d1))" "holds H d1 (W \<union> dw H t ?ks)"
        using IH found by auto
      have "nibbles_ok ?ks" using "3.prems"(5) by simp
      from pdel_ok [OF k(6,2) n(2,3) this] have u: "pt_ok ?u" "uniform ?u (n - length k)" "?u \<noteq> PEmpty" using k(7) by simp_all
      have eu: "pt_ok (PExt k ?u)" using u k by simp
      note sm = small_ext [OF assms eu]
      obtain d2 where d2: "deleteAtAux D H (\<lambda>r e. deleteAt D H (ns_mid key (ns_size s)) r e) (part 2 [RStr (hp k False)]) (rlp_encode (ref_of H (item H t))) d =
          Some (Inr (True, part 2 [RStr (hp k False), ref_of H (item H ?u)], d2))" "holds H d2 (W \<union> dw H t ?ks \<union> cell H ?u)"
        using deleteAtAux_some [where rec = "\<lambda>r e. deleteAt D H (ns_mid key (ns_size s)) r e" and xs = "[RStr (hp k False)]" and n = 2,
            OF assms k(2,5) "3.prems"(8) k(3) d1(1) u(1) d1(2) inj2] small_64 [OF sm] by auto
      define d3 where "d3 = killNode D H (enc H (PExt k t)) d2"
      have d3: "holds H d3 (W \<union> dw H t ?ks \<union> cell H ?u)" using d2(2) by (simp add: d3_def)
      note two = isTwoItemNode_ref [OF assms u(1,3) d3, simplified]
      have step: "deleteAt D H key (enc H (PExt k t)) d =
          (if is_branch ?u then Some (Inr (enc H (PExt k ?u), d3)) else Some (graft D (enc H (PExt k ?u)) d3))"
        using r s e0 True "3.prems"(5,7) d2(1) two ext_read(6) [OF k(1) assms eu] RLP_enc [OF assms eu]
        by (subst deleteAt.simps)
          (simp add: require_def ns_eq_nibs ns_contains_prefix part_start part_out enc_simps(3) [symmetric] d3_def [symmetric] del: rlp_encode.simps)
      have "\<exists>d'. deleteAt D H key (enc H (PExt k t)) d = Some (Inr (enc H (pjoin k ?u), d')) \<and> holds H d' (W \<union> dw H t ?ks \<union> cell H ?u)"
      proof (cases "is_branch ?u")
        case True
        then have "pjoin k ?u = PExt k ?u" by (cases ?u) simp_all
        then show ?thesis using step True d3 by simp
      next
        case False
        then obtain l leaf x where p: "pair_of H ?u = Some (l, leaf, x)" using u(3) by (cases ?u) auto
        have "length l \<le> n - length k" using p u(2) by (cases ?u) auto
        then have "key_ok (k @ l)" using pair_of_enc(2) [OF assms u(1) p] k(1) "3.prems"(4) n(1) by (simp add: key_ok_def)
        from graft_eq [OF assms eu False this p d3] show ?thesis using step False by simp
      qed
      then show ?thesis using True found by (simp add: Un_assoc)
    qed
  qed
next
  case (4 ts v)
  then show ?case by simp
next
  case (5 ts v m ks)
  have v: "v = []" using "5.prems"(3) by simp
  have key: "nibs key = m # ks" using "5.prems"(5) by simp
  have m: "unat m < length ts" "unat m < 16" using nibbles_ok_nibs [of key] key "5.prems"(2) by (simp_all add: word_less_nat_alt)
  have c: "canon (ts ! unat m)" "pt_ok (ts ! unat m)" "uniform (ts ! unat m) (n - 1)" "n - 1 < 2 ^ 30" "below H (ts ! unat m) \<subseteq> W"
    using "5.prems"(1-4,9) m below_child [OF m(1), of H v] by (auto simp: list_all_length simp del: below.simps)
  have mid: "ns_ok (ns_mid key 1)" "ks = nibs (ns_mid key 1)" using ns_mid_nibs [OF "5.prems"(7), of 1] key by simp_all
  have inj: "inj_on H (W \<union> dw H (ts ! unat m) ks)"
    using "5.prems"(10) m by (cases "plook (ts ! unat m) ks = []") (auto elim!: inj_on_subset)
  have len: "length ks = n - 1" using "5.prems"(6) by simp
  from deleteAt_branch [OF assms "5.prems"(1-4) [unfolded v] key "5.prems"(7,8) "5.prems"(9,10) [unfolded v]
      "5.IH" [OF m(1) c(1-4) mid(2) len mid(1) "5.prems"(8) c(5) inj]]
  show ?case using m(1) unfolding v by simp
qed

end

section \<open>Removal from the trie\<close>

lemma pdel_absent:
  assumes "canon t" "pt_ok t" "uniform t n" "n < 2 ^ 30" "nibbles_ok ks" "length ks = n" "plook t ks = []"
  shows "pdel t ks = t"
proof (rule canon_unique)
  show "plook (pdel t ks) x = plook t x" if "nibbles_ok x" for x
    using plook_pdel [OF assms(1-3,5,6) that] assms(7) by simp
qed (use pdel_ok [OF assms(1-5)] assms(1,2) in auto)

definition removed_strings :: "hash_fun \<Rightarrow> ptrie \<Rightarrow> bytes \<Rightarrow> bytes set" where
  "removed_strings H t ks = (if plook t ks = [] then {} else dw H t ks \<union> {enc H (pdel t ks)})"

context node_store
begin

lemma trie_remove_eq:
  assumes "hash_ok H" "stands_for H t W u" "canon t" "uniform t (length (asNibbles key))" "key_fits key"
    and "inj_on H (W \<union> removed_strings H t (asNibbles key))"
  shows "\<exists>u'. trie_remove D H key u = Some (Inr u') \<and>
    stands_for H (pdel t (asNibbles key)) (W \<union> removed_strings H t (asNibbles key)) u'"
proof -
  let ?ks = "asNibbles key"
  let ?t = "pdel t ?ks" and ?W = "W \<union> dw H t ?ks"
  have t: "pt_ok t" "holds H (tr_db u) W" "below H t \<subseteq> W" using assms(2) by (simp_all add: stands_for_def)
  note k = key_slice [OF assms(5)]
  have n: "length ?ks < 2 ^ 30" using assms(5) by (simp add: key_fits_def)
  note del = deleteAt_pdel [OF assms(1,3) t(1) assms(4) n k(2) [symmetric] refl k(1) t(2,3)]
  show ?thesis
  proof (cases "plook t ?ks = []")
    case True
    have "inj_on H ?W" by (rule inj_on_subset [OF assms(6)]) (use True in auto)
    then have "deleteAt D H (NibbleSlice key 0) (enc H t) (tr_db u) = Some (Inr ([], tr_db u))" using del True by simp
    moreover have "pdel t ?ks = t" by (rule pdel_absent [OF assms(3) t(1) assms(4) n _ refl True]) simp
    ultimately show ?thesis
      using True assms(2) RLP_enc [OF assms(1) t(1)]
      by (simp add: trie_remove_def Let_def stands_root [OF assms(2)] removed_strings_def)
  next
    case False
    then have r: "W \<union> removed_strings H t ?ks = ?W \<union> {enc H ?t}" by (simp add: removed_strings_def)
    have inj: "inj_on H ?W" by (rule inj_on_subset [OF assms(6)]) (use r in auto)
    obtain d where d: "deleteAt D H (NibbleSlice key 0) (enc H t) (tr_db u) = Some (Inr (enc H ?t, d))" "holds H d ?W"
      using del [OF inj] False by auto
    define d0 where "d0 = (if length (enc H t) < 32 then do_kill D (tr_root u) d else d)"
    have "holds H d0 ?W" using d(2) by (simp add: d0_def holds_kill)
    then have h: "holds H (do_insert D (H (enc H ?t)) (enc H ?t) d0) (?W \<union> {enc H ?t})" using holds_insert assms(6) r by simp
    have ok: "pt_ok ?t" using pdel_ok [OF assms(3) t(1) assms(4) n] by simp
    have "trie_remove D H key u = Some (Inr (u\<lparr>tr_root := H (enc H ?t), tr_db := do_insert D (H (enc H ?t)) (enc H ?t) d0\<rparr>))"
      using d(1) RLP_enc [OF assms(1) t(1)] enc_nonempty [OF assms(1) ok]
      by (simp add: trie_remove_def Let_def stands_root [OF assms(2)] forceInsertNode_def d0_def)
    moreover have "below H ?t \<subseteq> ?W \<union> {enc H ?t}" using below_pdel [OF t(1) _ False, of H] t(3) by auto
    ultimately show ?thesis using h ok by (simp add: stands_for_def r)
  qed
qed

end

end
