(* ===== verification/TrieMap.thy ===== *)
theory TrieMap
  imports TrieDelete
begin

text \<open>
  \<open>TrieDB\<close> over \<open>MemoryDB\<close> as a map from keys of one length to values: insertions and removals in any order.
\<close>

section \<open>Sequences of operations\<close>

datatype trie_op = Put bytes bytes | Del bytes

fun trie_step :: "'d db_ops \<Rightarrow> hash_fun \<Rightarrow> trie_op \<Rightarrow> 'd trie \<Rightarrow> 'd trie result option" where
  "trie_step D H (Put key v) u = trie_insert D H key v u"
| "trie_step D H (Del key) u = trie_remove D H key u"

fun trie_steps :: "'d db_ops \<Rightarrow> hash_fun \<Rightarrow> trie_op list \<Rightarrow> 'd trie \<Rightarrow> 'd trie result option" where
  "trie_steps D H [] u = Some (Inr u)"
| "trie_steps D H (x # xs) u = bindO (trie_step D H x u) (trie_steps D H xs)"

definition run_trie :: "hash_fun \<Rightarrow> trie_op list \<Rightarrow> memory_db trie result option" where
  "run_trie H xs = bindO (trie_init memory_ops H fresh_trie) (trie_steps memory_ops H xs)"

text \<open>The map.\<close>

fun map_step :: "trie_op \<Rightarrow> (bytes \<rightharpoonup> bytes) \<Rightarrow> (bytes \<rightharpoonup> bytes)" where
  "map_step (Put key v) m = m(key \<mapsto> v)"
| "map_step (Del key) m = m(key := None)"

text \<open>The abstract trie, and the strings that an operation stores.\<close>

fun pstep :: "trie_op \<Rightarrow> ptrie \<Rightarrow> ptrie" where
  "pstep (Put key v) t = pins t (asNibbles key) v"
| "pstep (Del key) t = pdel t (asNibbles key)"

fun step_strings :: "hash_fun \<Rightarrow> trie_op \<Rightarrow> ptrie \<Rightarrow> bytes set" where
  "step_strings H (Put key v) t = pw H t (asNibbles key) v \<union> {enc H (pins t (asNibbles key) v)}"
| "step_strings H (Del key) t = removed_strings H t (asNibbles key)"

fun steps_strings :: "hash_fun \<Rightarrow> trie_op list \<Rightarrow> ptrie \<Rightarrow> bytes set" where
  "steps_strings H [] t = {}"
| "steps_strings H (x # xs) t = step_strings H x t \<union> steps_strings H xs (pstep x t)"

fun op_ok :: "nat \<Rightarrow> trie_op \<Rightarrow> bool" where
  "op_ok l (Put key v) \<longleftrightarrow> length key = l \<and> val_ok v \<and> v \<noteq> []"
| "op_ok l (Del key) \<longleftrightarrow> length key = l"

section \<open>The invariant\<close>

definition represents :: "nat \<Rightarrow> ptrie \<Rightarrow> (bytes \<rightharpoonup> bytes) \<Rightarrow> bool" where
  "represents l t m \<longleftrightarrow> canon t \<and> pt_ok t \<and> uniform t (2 * l) \<and>
     (\<forall>key. plook t (asNibbles key) = (case m key of None \<Rightarrow> [] | Some v \<Rightarrow> v)) \<and>
     (\<forall>key v. m key = Some v \<longrightarrow> length key = l \<and> val_ok v \<and> v \<noteq> [])"

lemma represents_empty: "represents l PEmpty Map.empty"
  by (simp add: represents_def)

lemma represents_step:
  assumes "represents l t m" "op_ok l x" "l < 2 ^ 29"
  shows "represents l (pstep x t) (map_step x m)"
proof (cases x)
  case (Put key v)
  have k: "length key = l" "val_ok v" "v \<noteq> []" "key_ok (asNibbles key)"
    using assms(2,3) key_slice(3) by (auto simp: Put key_fits_def)
  have t: "canon t" "pt_ok t" "uniform t (2 * l)" using assms(1) by (simp_all add: represents_def)
  show ?thesis
    using canon_pins [OF t(1,2) k(4,3)] pt_ok_pins [OF t(2) k(4,2)] uniform_pins [OF t(2) k(4) t(3)] plook_pins [OF t(2) k(4)] assms(1) k
    by (auto simp: represents_def Put)
next
  case (Del key)
  have t: "canon t" "pt_ok t" "uniform t (2 * l)" "2 * l < 2 ^ 30" using assms(1,3) by (simp_all add: represents_def)
  have k: "length key = l" "length (asNibbles key) = 2 * l" using assms(2) by (simp_all add: Del)
  show ?thesis
    using pdel_ok [OF t, of "asNibbles key"] plook_pdel [OF t(1-3) _ k(2)] assms(1)
    by (auto simp: represents_def Del split: option.splits)
qed

context node_store
begin

lemma trie_step_eq:
  assumes "hash_ok H" "stands_for H t W u" "represents l t m" "op_ok l x" "l < 2 ^ 29" "inj_on H (W \<union> step_strings H x t)"
  shows "\<exists>u'. trie_step D H x u = Some (Inr u') \<and> stands_for H (pstep x t) (W \<union> step_strings H x t) u'"
proof (cases x)
  case (Put key v)
  have "key_fits key" "val_ok v" using assms(4,5) by (simp_all add: Put key_fits_def)
  from trie_insert_eq [OF assms(1,2) this] show ?thesis using assms(6) by (simp add: Put Un_assoc)
next
  case (Del key)
  have "key_fits key" "uniform t (length (asNibbles key))" "canon t"
    using assms(3-5) by (simp_all add: Del key_fits_def represents_def)
  with trie_remove_eq [OF assms(1,2), of key] show ?thesis using assms(6) by (simp add: Del)
qed

lemma trie_steps_eq:
  assumes "hash_ok H" "l < 2 ^ 29"
  shows "list_all (op_ok l) xs \<Longrightarrow> stands_for H t W u \<Longrightarrow> represents l t m \<Longrightarrow> inj_on H (W \<union> steps_strings H xs t) \<Longrightarrow>
    \<exists>u' t' W'. trie_steps D H xs u = Some (Inr u') \<and> stands_for H t' W' u' \<and> represents l t' (fold map_step xs m)"
proof (induction xs arbitrary: t W u m)
  case (Cons x xs)
  have x: "op_ok l x" using Cons.prems(1) by simp
  have inj: "inj_on H (W \<union> step_strings H x t)" "inj_on H (W \<union> step_strings H x t \<union> steps_strings H xs (pstep x t))"
    using Cons.prems(4) by (auto simp: Un_assoc elim!: inj_on_subset)
  obtain u' where u': "trie_step D H x u = Some (Inr u')" "stands_for H (pstep x t) (W \<union> step_strings H x t) u'"
    using trie_step_eq [OF assms(1) Cons.prems(2,3) x assms(2) inj(1)] by blast
  show ?case using Cons.IH [OF _ u'(2) represents_step [OF Cons.prems(3) x assms(2)] inj(2)] Cons.prems(1) u'(1) by simp
qed auto

end

text \<open>A trie that represents a map is the one that the code builds from the sorted map.\<close>

lemma represents_trie_of:
  assumes "represents l t (map_of m)"
  shows "trie_of [] (with_nibbles m) t"
proof -
  have t: "canon t" "pt_ok t" "uniform t (2 * l)" using assms by (simp_all add: represents_def)
  have "plook t ks = lookup0 (with_nibbles m) ks" if ks: "nibbles_ok ks" for ks
  proof (cases "ks \<in> range asNibbles")
    case True
    then show ?thesis using assms map_of_nibbles(1) [of m] by (auto simp: lookup0_def represents_def)
  next
    case False
    then have "odd (length ks)" using asNibbles_pack [OF ks] by (metis rangeI)
    then have "length ks \<noteq> 2 * l" by auto
    then show ?thesis using uniform_plook [OF t(3)] map_of_nibbles(2) [OF False] by (simp add: lookup0_def)
  qed
  then show ?thesis using t by (simp add: trie_of_def)
qed

lemma represents_hash256:
  assumes "hash_ok H" "represents l t (map_of m)" "sorted_map m" "l < 2 ^ 29"
  shows "hash256 H m = Some (Inr (H (enc H t)))"
proof -
  have "distinct (map fst m)" using assms(3) by (induction m) auto
  then have "full_pairs m"
    using assms(2,4) map_of_is_SomeI [of m] by (fastforce simp: full_pairs_def represents_def key_fits_def)
  from rlp256_trie [OF assms(1) this] obtain t' where
    t': "rlp256 H m = Some (Inr (enc H t'))" "trie_of [] (with_nibbles m) t'" by blast
  then have "t' = t" using canon_unique [of t' t] represents_trie_of [OF assms(2)] by (simp add: trie_of_def)
  then show ?thesis using t'(1) by (simp add: hash256_def)
qed

section \<open>Claims\<close>

text \<open>C29: The trie over \<open>MemoryDB\<close> refines a map, removals included: after any sequence of insertions of
  values that are not empty and removals, present or not, with keys of one length, nothing has thrown,
  every key reads as the map has it, and the root is the hash that \<open>hash256\<close> computes from the sorted
  map, so that a removal restores the root, if the hash has no collision among the strings stored.\<close>

theorem trie_is_a_map:
  assumes "hash_ok H" "l < 2 ^ 29" "list_all (op_ok l) xs" "inj_on H (insert RLPNull (steps_strings H xs PEmpty))"
    and "sorted_map m" "map_of m = fold map_step xs Map.empty"
  shows "\<exists>u. run_trie H xs = Some (Inr u) \<and> hash256 H m = Some (Inr (tr_root u)) \<and>
    (\<forall>key. key_fits key \<longrightarrow> trie_at memory_ops u key = Some (Inr (case map_of m key of None \<Rightarrow> [] | Some v \<Rightarrow> v)))"
proof -
  have "\<not> md_enforceRefs (tr_db fresh_trie)" by (simp add: fresh_trie_def MemoryDB0_def)
  from memory_store.trie_init_eq [OF assms(1) this] obtain u0 where
    u0: "trie_init memory_ops H fresh_trie = Some (Inr u0)" "memory_store.stands_for H PEmpty {RLPNull} u0" by blast
  have "inj_on H ({RLPNull} \<union> steps_strings H xs PEmpty)" using assms(4) by simp
  from memory_store.trie_steps_eq [OF assms(1,2,3) u0(2) represents_empty this] obtain u t W where
    u: "trie_steps memory_ops H xs u0 = Some (Inr u)" "memory_store.stands_for H t W u" "represents l t (map_of m)"
    using assms(6) by auto
  have "trie_at memory_ops u key = Some (Inr (case map_of m key of None \<Rightarrow> [] | Some v \<Rightarrow> v))" if "key_fits key" for key
    using memory_store.trie_at_eq [OF assms(1) u(2) that] u(3) by (simp add: represents_def)
  moreover have "hash256 H m = Some (Inr (tr_root u))"
    using represents_hash256 [OF assms(1) u(3) assms(5,2)] u(2) by (simp add: memory_store.stands_for_def)
  ultimately show ?thesis using u0(1) u(1) by (simp add: run_trie_def)
qed

definition sample_ops :: "trie_op list" where
  "sample_ops = [Put [0x12] (replicate 33 5), Put [0x13] (replicate 40 6), Put [0x34] [7], Del [0x56], Del [0x13], Del [0x34]]"

theorem trie_is_a_map_witness:
  "\<exists>u. run_trie sample_hash sample_ops = Some (Inr u) \<and> hash256 sample_hash [([0x12], replicate 33 5)] = Some (Inr (tr_root u)) \<and>
    trie_at memory_ops u [0x12] = Some (Inr (replicate 33 5)) \<and> trie_at memory_ops u [0x34] = Some (Inr [])"
proof -
  have "\<forall>x \<in> insert RLPNull (steps_strings sample_hash sample_ops PEmpty).
      \<forall>y \<in> insert RLPNull (steps_strings sample_hash sample_ops PEmpty). sample_hash x = sample_hash y \<longrightarrow> x = y"
    by code_simp
  then have inj: "inj_on sample_hash (insert RLPNull (steps_strings sample_hash sample_ops PEmpty))" by (simp add: inj_on_def)
  have ok: "list_all (op_ok 1) sample_ops" by (simp add: sample_ops_def val_ok_def)
  have m: "map_of [([0x12], replicate 33 5)] = fold map_step sample_ops Map.empty" by (rule ext) (simp add: sample_ops_def)
  obtain u where "run_trie sample_hash sample_ops = Some (Inr u)" "hash256 sample_hash [([0x12], replicate 33 5)] = Some (Inr (tr_root u))"
    "\<And>key. key_fits key \<Longrightarrow> trie_at memory_ops u key =
      Some (Inr (case map_of [([0x12 :: byte], replicate 33 (5 :: byte))] key of None \<Rightarrow> [] | Some v \<Rightarrow> v))"
    using trie_is_a_map [OF sample_hash_ok _ ok inj _ m] by auto
  then show ?thesis by (auto simp: key_fits_def)
qed

end
