(* ===== verification/Spec2Isabelle.thy ===== *)
theory Spec2Isabelle
  imports Keccak Transaction Worker Farm FarmClient ProgOpt Stratum Cli Mining EthashDag GpuSetup TrieMap
begin

text \<open>
  A verification library for the 0xBitcoin token miner: a program that takes a challenge and a
  target from a node (solo) or a pool (getwork or stratum), lets CPU and GPU miners search a nonce
  whose Keccak digest with challenge and account lies below the target, and submits it, in solo
  mode as a signed Ethereum transaction that calls the token contract.

  \<^bold>\<open>The parts of the program and their theories.\<close>

  \<^item> \<open>Prelude\<close>: exceptions as values (\<open>'a result\<close>), state passing (\<open>op\<close>, \<open>bindS\<close>, \<open>catchS\<close>) with the
    collection \<open>keep_rules\<close> for what an operation leaves alone, big-endian values, and the
    interfaces of the library: \<open>prefix_code\<close> and \<open>fixed_codec\<close> for encodings, \<open>invariant_machine\<close> and
    \<open>progress_machine\<close> for step relations, \<open>runs\<close> for their executions.
  \<^item> \<open>CommonData\<close> (\<open>libdevcore/CommonData\<close>): hexadecimal text, big-endian integers, paddings.
    \<open>FixedHash\<close> (\<open>libdevcore/FixedHash.h\<close>): hashes as byte lists; order, increment, bloom filters,
    conversions.
  \<^item> \<open>RlpStream\<close>, \<open>RlpReader\<close> (\<open>libdevcore/RLP\<close>): the writer with its stack of open lists, the reader with
    its strictness flags, iterator and cache.
  \<^item> \<open>Keccak\<close> (\<open>libdevcore/SHA3.cpp\<close>): the unrolled permutation and the sponge, and FIPS 202's step
    mappings, with the round constants of its shift register, as their specification.
  \<^item> \<open>CStdlib\<close>: what the sources use of the C and C++ library, with IEEE doubles as rationals and
    rounding; \<open>ethminer/Misc.cpp\<close>.
  \<^item> \<open>Transaction\<close> (\<open>ethminer/SignTx.h\<close>): fields, serialisation, signature.
  \<^item> \<open>Worker\<close> (\<open>libdevcore/Worker\<close>): the worker's thread and its callers as interleaved atomic steps.
  \<^item> \<open>Ini\<close> (\<open>ethminer/ini_parser_ex.hpp\<close>) and \<open>ProgOpt\<close> (\<open>ethminer/ProgOpt.cpp\<close>): the ini file with its
    comments, and the settings in it; \<open>ProgOpt\<close> states what it needs of the parser as the locale
    \<open>ptree_contract\<close>, which \<open>Ini\<close> meets.
  \<^item> \<open>Miner\<close> (\<open>libethcore/Miner.h\<close>) and \<open>Farm\<close> (\<open>libethcore/Farm.h\<close>, \<open>EthashCPUMiner.cpp\<close>,
    \<open>EthashGPUMiner.cpp\<close>): the miners' state, the temperature controller, and the farm that hands
    out work and keeps one mailbox for solutions.
  \<^item> \<open>Json\<close> and \<open>FarmClient\<close> (\<open>ethminer/FarmClient.h\<close>): the client of the node or the pool, from the
    query for work to the signed transaction and the list of pending ones.
  \<^item> \<open>Stratum\<close> (\<open>libstratum/EthStratumClient\<close>): the stratum client as a state machine.
  \<^item> \<open>Cli\<close> (\<open>ethminer/MinerAux.h\<close>, \<open>main.cpp\<close>): options, settings, miners, the loop over the nodes.
  \<^item> \<open>Mining\<close> (\<open>ethminer/MinerAux.h\<close>): the sessions \<open>doGetWork\<close> and \<open>doStratum\<close>, which join all of the
    above: they poll a client, give work to the farm, and submit what the farm has found.
  \<^item> \<open>Ethash\<close>, \<open>EthashSizes\<close>, \<open>EthashDag\<close> (\<open>libethash\<close>): the Ethash proof of work that the program links: the
    hash with the light cache and with the full DAG, the tabulated sizes, and the DAG's file as a state
    machine. Its digests are \<open>Keccak\<close>'s; \<open>libethash/sha3.c\<close> has the text of \<open>SHA3.cpp\<close>.
  \<^item> \<open>GpuKernel\<close>, \<open>GpuSearch\<close>, \<open>GpuSetup\<close> (\<open>libethash-cl\<close>, \<open>libethcore/EthashGPUMiner\<close>): the OpenCL kernel and
    the host's half of the hash; the work items that share an output buffer, as interleaved steps, and the
    host's loop with its two buffers and the throttle; the choice and the initialisation of a device.
  \<^item> \<open>TrieCommon\<close>, \<open>MemoryDB\<close>, \<open>TrieDB\<close>, \<open>TrieHash\<close> (\<open>libdevcore\<close>): nibbles and the hex-prefix encoding, the
    reference-counted store of nodes, the Merkle Patricia tree over such a store, a locale
    (\<open>node_store\<close>) that \<open>MemoryDB\<close> interprets, and the root of a map without a store. A node is the bytes of
    its RLP encoding. \<open>TrieItems\<close>, \<open>TrieSpec\<close>, \<open>TrieRefine\<close>: the abstract trie, with insertion and lookup, which
    the code refines; \<open>TrieCanon\<close>: tries in canonical form, which their contents determine; \<open>TrieDelete\<close>:
    removal, for keys of one length; \<open>TrieClaims\<close>, \<open>TrieRoot\<close> and \<open>TrieMap\<close>: what follows for the trie as a whole.

  \<^bold>\<open>How the model relates to the code.\<close> A class is a record, its members in order with a prefix; a
  method is a definition with the method's name, or with the class's prefix when that name is taken.
  Machine integers are words; \<open>int\<close> members are \<open>int\<close> with the conversions written out. An exception
  is \<open>Inl\<close>, with \<open>UndefinedBehaviour\<close> for what the language leaves undefined, which no handler catches;
  \<open>Exit\<close> is the end of the process. A mutex makes the code it guards one step. Time is an argument:
  an elapsed time, or what the timers of a loop say (\<open>tick\<close>).

  \<^bold>\<open>Parameters.\<close> The JSON library (\<open>json_lib\<close>, with its documented behaviour in \<open>json_laws\<close>), the
  JSON-RPC server and its world (\<open>e_call\<close>), secp256k1's signing function (\<open>e_sign\<close>), Boost's property
  tree (\<open>ptree_lib\<close>), the OpenCL platform (\<open>opencl\<close>), a device's rotation instructions (\<open>bitalign_doc\<close>,
  \<open>shf_doc\<close>) and what a kernel run makes of a buffer (\<open>device\<close>), the network (\<open>network\<close>), file system checks. Every claim that has a hypothesis on
  them has a witness in which they are concrete functions.

  \<^bold>\<open>What the lemmas show.\<close> Codecs: RLP, hexadecimal text, ini files and command lines are read back
  as they were written, RLP uniquely. Equivalences: the permutation is FIPS 202's, the sponge Keccak-256,
  random access in RLP is list indexing. Invariants of the farm: one mailbox, all miners on the
  farm's work, the best hash a minimum; the worker's thread quiesces and its callers return; the stratum
  client, while it runs, always has a read or a timer under way; a DAG file with the magic number
  holds the whole DAG, whatever was interrupted before, so that hashing with it is the light
  computation. The GPU: the kernel accepts what the contract's digest accepts, its work items lose no
  solution to a race, and as long as the throttle does not reach 100 percent the host's buffers never clash
  and a search without a result has missed none; how a device starts, with the counters that \<open>init\<close> zeroes
  without waiting for it.
  The trie is a map, and its root is the hash of the map. Of the program as a whole: what a
  solo session mints is the digest of the current challenge below the current target, the transaction calls
  \<open>mint\<close> with it, its signature is canonical and binds every field. Several claims state what goes
  wrong: a malformed message deafens the client, an outage
  pauses solo mining, a failed submission skips a transaction nonce, a developer's fee of 100 percent
  switches the fee's schedule off.

  \<^bold>\<open>Bounds and fuel.\<close> All loops of the model terminate by structure or by a measure, except
  \<open>node_loop\<close>, \<open>seed_loop\<close> and the descents of a trie, which are \<open>partial_function\<close>s as the code's need not end;
  \<open>seedhash_returns\<close> says exactly when the latter does. The loops that wait for
  messages are step relations or take the list of the readings of their timers.

  \<^bold>\<open>Not modelled.\<close> Logs, the display, sockets and signals (input and output only); errors
  that OpenCL throws in the middle of a search, the code for CUDA, which is not compiled, vendor libraries for hardware monitors; libsecp256k1 and the other vendored code;
  the tries' iterators and consistency checks; what else is inherited from cpp-ethereum and not used by
  the token miner (block headers, seal engines).
\<close>

end
